(* ===== verification/Prelude.thy ===== *)
theory Prelude
  imports Main "HOL-Library.Word" "HOL-Library.Multiset"
begin

text \<open>
  The shared base of the development: the machine types of the C code, the errno values
  the components return, the faults a C program can run into, and the generic list and
  step-relation lemmas the component theories use.
\<close>

section \<open>Collections of facts\<close>

named_theorems lock_simps \<open>unfolding rules for the lock predicates\<close>
named_theorems wf_intros \<open>introduction rules for the components' invariants\<close>

section \<open>Machine integers\<close>

type_synonym u8 = "8 word"
type_synonym u32 = "32 word"
type_synonym u64 = "64 word"

text \<open>
  \<open>off_t\<close> is a signed 64-bit integer. It is kept as an \<^typ>\<open>int\<close>; the one place where
  the code adds two offsets that come from outside (\<^verbatim>\<open>flock->l_start + flock->l_len - 1\<close>)
  wraps around explicitly with \<open>off_wrap\<close>.
\<close>

type_synonym off_t = int

definition LLONG_MAX :: int where
  "LLONG_MAX = 9223372036854775807"

definition off_wrap :: "int \<Rightarrow> off_t" where
  "off_wrap x = (x + 9223372036854775808) mod 18446744073709551616 - 9223372036854775808"

lemma off_wrap_id [simp]:
  "- 9223372036854775808 \<le> x \<Longrightarrow> x \<le> LLONG_MAX \<Longrightarrow> off_wrap x = x"
  by (simp add: off_wrap_def LLONG_MAX_def)

lemma off_wrap_range: "- 9223372036854775808 \<le> off_wrap x \<and> off_wrap x \<le> LLONG_MAX"
  by (simp add: off_wrap_def LLONG_MAX_def)

text \<open>The value of an \<^verbatim>\<open>int32_t\<close> or \<^verbatim>\<open>int\<close> after an addition.\<close>

definition wrap32 :: "int \<Rightarrow> int" where
  "wrap32 x = (x + 2147483648) mod 4294967296 - 2147483648"

lemma wrap32_id [simp]: "- 2147483648 \<le> x \<Longrightarrow> x < 2147483648 \<Longrightarrow> wrap32 x = x"
  by (simp add: wrap32_def)

lemma sint_small:
  assumes "unat (w :: u32) < 2147483648"
  shows "sint w = int (unat w)"
proof -
  have "uint w < 2147483648" using assms unfolding unat_eq_nat_uint by linarith
  moreover have "- (2 ^ 31) \<le> uint w" by (rule order_trans[of _ 0]) simp_all
  ultimately have "signed_take_bit 31 (uint w) = uint w"
    by (intro signed_take_bit_int_eq_self) simp_all
  then show ?thesis by (simp add: sint_uint)
qed

section \<open>Errno values (Linux)\<close>

abbreviation (input) EPERM :: int where "EPERM \<equiv> 1"
abbreviation (input) ENOENT :: int where "ENOENT \<equiv> 2"
abbreviation (input) EINTR :: int where "EINTR \<equiv> 4"
abbreviation (input) EAGAIN :: int where "EAGAIN \<equiv> 11"
abbreviation (input) ENOMEM :: int where "ENOMEM \<equiv> 12"
abbreviation (input) EEXIST :: int where "EEXIST \<equiv> 17"
abbreviation (input) EINVAL :: int where "EINVAL \<equiv> 22"
abbreviation (input) EBADFD :: int where "EBADFD \<equiv> 77"
abbreviation (input) ENOTSUP :: int where "ENOTSUP \<equiv> 95"
abbreviation (input) ENOTCONN :: int where "ENOTCONN \<equiv> 107"

section \<open>Faults\<close>

text \<open>
  What stops a C program without a return value: the dereference of a null pointer, an
  access to freed memory, an access through a pointer of the wrong type, a division by
  zero, a failed \<^verbatim>\<open>assert\<close>. A definition that can fault returns a value of
  \<open>fault + 'a\<close>, with \<open>Inl\<close> for the fault. \<open>Diverged\<close> is the value of a recursion that is not
  done within its bound; the components that use one prove that it never appears.
\<close>

datatype fault = Null_Deref | Use_After_Free | Out_Of_Bounds | Type_Confusion | Div_By_Zero | Assert_Failed | Diverged

definition bind_f :: "fault + 'a \<Rightarrow> ('a \<Rightarrow> fault + 'b) \<Rightarrow> fault + 'b" where
  "bind_f m f = (case m of Inl e \<Rightarrow> Inl e | Inr x \<Rightarrow> f x)"

lemma bind_f_simps [simp]:
  "bind_f (Inl e) f = Inl e"
  "bind_f (Inr x) f = f x"
  by (simp_all add: bind_f_def)

lemma bind_f_Inr_iff [simp]:
  "bind_f m f = Inr y \<longleftrightarrow> (\<exists>x. m = Inr x \<and> f x = Inr y)"
  by (cases m) simp_all

lemma bind_f_cong [fundef_cong]:
  "m = m' \<Longrightarrow> (\<And>x. m' = Inr x \<Longrightarrow> f x = f' x) \<Longrightarrow> bind_f m f = bind_f m' f'"
  by (cases m') simp_all

text \<open>A loop over a list whose body may fault.\<close>

fun foldM :: "('a \<Rightarrow> 's \<Rightarrow> fault + 's) \<Rightarrow> 'a list \<Rightarrow> 's \<Rightarrow> fault + 's" where
  "foldM f [] s = Inr s"
| "foldM f (x # xs) s = bind_f (f x s) (foldM f xs)"

lemma foldM_cong [fundef_cong]:
  assumes "xs = ys" and "s = t" and "\<And>x u. x \<in> set ys \<Longrightarrow> f x u = g x u"
  shows "foldM f xs s = foldM g ys t"
proof -
  have "foldM f ys u = foldM g ys u" for u
    using assms(3) by (induction ys arbitrary: u) (auto cong: bind_f_cong)
  with assms(1,2) show ?thesis by simp
qed

lemma foldM_append: "foldM f (xs @ ys) s = bind_f (foldM f xs s) (foldM f ys)"
proof (induction xs arbitrary: s)
  case Nil
  then show ?case by simp
next
  case (Cons x xs)
  then show ?case by (cases "f x s") simp_all
qed

lemma foldM_inv:
  assumes "foldM f xs s = Inr t" and "P s"
    and "\<And>x u v. x \<in> set xs \<Longrightarrow> P u \<Longrightarrow> f x u = Inr v \<Longrightarrow> P v"
  shows "P t"
  using assms by (induction xs arbitrary: s) auto

section \<open>Step relations and their invariants\<close>

text \<open>
  The contract shared by the state machines of the development: an invariant that holds
  initially and is kept by every step holds in every reachable state.
\<close>

locale step_system =
  fixes start :: "'s \<Rightarrow> bool"
    and step :: "'s \<Rightarrow> 's \<Rightarrow> bool"
    and inv :: "'s \<Rightarrow> bool"
  assumes inv_start: "start s \<Longrightarrow> inv s"
    and inv_step: "inv s \<Longrightarrow> step s t \<Longrightarrow> inv t"
begin

lemma inv_reach:
  assumes "start s" and "step\<^sup>*\<^sup>* s t"
  shows "inv t"
  using assms(2,1) by (induction rule: rtranclp_induct) (auto intro: inv_start inv_step)

end

text \<open>A system whose every step brings it nearer to its end.\<close>

locale ending_system = step_system start step inv
  for start :: "'s \<Rightarrow> bool" and step :: "'s \<Rightarrow> 's \<Rightarrow> bool" and inv :: "'s \<Rightarrow> bool" +
  fixes left :: "'s \<Rightarrow> 'm :: wellorder"
  assumes left_step: "inv s \<Longrightarrow> step s t \<Longrightarrow> left t < left s"
begin

lemma run_ends:
  assumes "inv s"
  shows "\<exists>t. step\<^sup>*\<^sup>* s t \<and> (\<nexists>u. step t u)"
  using assms
proof (induction "left s" arbitrary: s rule: less_induct)
  case less
  show ?case
  proof (cases "\<exists>u. step s u")
    case True
    then obtain u where u: "step s u" by blast
    then show ?thesis
      using less(1)[OF left_step[OF less(2) u] inv_step[OF less(2) u]] by (meson converse_rtranclp_into_rtranclp)
  next
    case False
    then show ?thesis by blast
  qed
qed

lemma no_infinite_run:
  assumes "inv (run 0)"
  shows "\<exists>i. \<not> step (run i) (run (Suc i))"
proof (rule ccontr)
  assume "\<not> ?thesis"
  then have st: "step (run i) (run (Suc i))" for i by blast
  have inv: "inv (run i)" for i by (induction i) (use assms inv_step st in blast)+
  have "False" if "left (run i) = m" for m i
    using that by (induction m arbitrary: i rule: less_induct) (use left_step inv st in blast)
  then show False by blast
qed

end

text \<open>The same with a number for the measure: it bounds the length of a run.\<close>

locale bounded_system = ending_system start step inv left
  for start :: "'s \<Rightarrow> bool" and step :: "'s \<Rightarrow> 's \<Rightarrow> bool" and inv :: "'s \<Rightarrow> bool" and left :: "'s \<Rightarrow> nat"
begin

lemma run_bound:
  assumes "inv s" and "(step ^^ k) s t"
  shows "left t + k \<le> left s \<and> inv t"
  using assms(2)
proof (induction k arbitrary: t)
  case 0
  then show ?case using assms(1) by simp
next
  case (Suc k)
  then obtain u where u: "(step ^^ k) s u" "step u t" by auto
  then show ?case using Suc.IH[OF u(1)] left_step[of u t] inv_step[of u t] by auto
qed

end

end
