(* ===== verification/Posix_Locks.thy ===== *)
theory Posix_Locks
  imports Prelude
begin

text \<open>
  The byte-range lock engine of the posix-locks translator
  (\<^verbatim>\<open>xlators/features/locks/src/common.c\<close>): the lock lists of an inode, overlap and
  ownership, the merge of a request into the list, the grant of blocked requests and the
  entry points \<open>pl_setlk\<close> and \<open>pl_getlk\<close>. A lock list is a HOL list in list order; a lock
  is a record with the fields of \<^verbatim>\<open>posix_lock_t\<close>.

  The field \<open>link\<close> stands for the embedded \<^verbatim>\<open>struct list_head\<close> of a lock that is in no
  list: what \<^verbatim>\<open>list_del_init\<close> finds there. It is \<open>Link_ok\<close> after \<^verbatim>\<open>INIT_LIST_HEAD\<close> or
  \<^verbatim>\<open>list_del_init\<close> (and while the lock is a member of a list), \<open>Link_null\<close> in memory fresh
  from \<^verbatim>\<open>CALLOC\<close>, and \<open>Link_stale\<close> when the header was copied by \<^verbatim>\<open>memcpy\<close> from a lock that
  is freed afterwards.
\<close>

section \<open>Data\<close>

datatype lk_type = F_RDLCK | F_WRLCK | F_UNLCK

datatype gf_lk_domain = GF_LOCK_POSIX | GF_LOCK_INTERNAL

datatype link_state = Link_ok | Link_null | Link_stale

text \<open>A call frame: its identity and what its root says of the caller.\<close>

record call_frame =
  frame_id :: nat
  root_trans :: nat
  root_pid :: int

record flock =
  l_type :: lk_type
  l_start :: off_t
  l_len :: off_t
  l_pid :: int

record posix_lock =
  fl_type :: lk_type
  fl_start :: off_t
  fl_end :: off_t
  blocked :: bool
  user_flock :: flock
  frame :: "call_frame option"
  transport :: nat
  client_pid :: int
  link :: link_state

datatype rw_fop = GF_FOP_READ | GF_FOP_WRITE

text \<open>A request the translator winds to its child, and what it does with a frame.\<close>

datatype child_call =
    Call_readv nat nat off_t
  | Call_writev nat "nat list" off_t
  | Call_truncate nat off_t
  | Call_ftruncate nat off_t
  | Call_stat nat
  | Call_fstat nat
  | Call_flush nat
  | Call_open nat u32 nat
  | Call_create nat u32 u32 nat

datatype action =
    Unwind call_frame int int "flock option"
  | Wind call_frame child_call

record call_stub =
  stub_frame :: call_frame
  stub_fop :: rw_fop
  stub_call :: child_call

record pl_rw_req =
  stub :: call_stub
  region :: posix_lock

text \<open>\<^verbatim>\<open>pl_inode_t\<close> without its list of entry locks, which the entry-lock theory holds.\<close>

record pl_inode =
  ext_list :: "posix_lock list"
  int_list :: "posix_lock list"
  rw_list :: "pl_rw_req list"
  mandatory :: bool

fun DOMAIN_HEAD :: "pl_inode \<Rightarrow> gf_lk_domain \<Rightarrow> posix_lock list" where
  "DOMAIN_HEAD pl GF_LOCK_POSIX = ext_list pl"
| "DOMAIN_HEAD pl GF_LOCK_INTERNAL = int_list pl"

text \<open>Writing through the list head that \<open>DOMAIN_HEAD\<close> selects.\<close>

fun set_domain :: "pl_inode \<Rightarrow> gf_lk_domain \<Rightarrow> posix_lock list \<Rightarrow> pl_inode" where
  "set_domain pl GF_LOCK_POSIX L = pl\<lparr>ext_list := L\<rparr>"
| "set_domain pl GF_LOCK_INTERNAL L = pl\<lparr>int_list := L\<rparr>"

section \<open>Creation, conversion, deletion\<close>

text \<open>
  \<^verbatim>\<open>pl_inode_get\<close>: the inode's lock context, created on first use. \<open>alloc\<close> and \<open>put_ok\<close> say
  whether \<^verbatim>\<open>CALLOC\<close> and \<^verbatim>\<open>inode_ctx_put\<close> succeed; the result pairs what the function returns
  with what the inode's context holds afterwards.
\<close>

definition S_ISGID :: u32 where "S_ISGID = 0x400"
definition S_IXGRP :: u32 where "S_IXGRP = 0x8"

definition pl_inode_get ::
    "bool \<Rightarrow> bool \<Rightarrow> pl_inode option \<Rightarrow> u32 \<Rightarrow> pl_inode option \<times> pl_inode option" where
  "pl_inode_get alloc put_ok ctx st_mode =
     (case ctx of
        Some pl \<Rightarrow> (Some pl, ctx)
      | None \<Rightarrow>
          if \<not> alloc then (None, None)
          else
            let pl = \<lparr>ext_list = [], int_list = [], rw_list = [],
                      mandatory = (and st_mode S_ISGID \<noteq> 0 \<and> and st_mode S_IXGRP = 0)\<rparr>
            in (Some pl, if put_ok then Some pl else None))"

definition zero_flock :: flock where
  "zero_flock = \<lparr>l_type = F_RDLCK, l_start = 0, l_len = 0, l_pid = 0\<rparr>"

text \<open>What \<^verbatim>\<open>CALLOC (1, sizeof (posix_lock_t))\<close> returns.\<close>

definition calloc_lock :: posix_lock where
  "calloc_lock = \<lparr>fl_type = F_RDLCK, fl_start = 0, fl_end = 0, blocked = False,
     user_flock = zero_flock, frame = None, transport = 0, client_pid = 0, link = Link_null\<rparr>"

definition new_posix_lock :: "flock \<Rightarrow> nat \<Rightarrow> int \<Rightarrow> posix_lock" where
  "new_posix_lock fl tr pid =
     calloc_lock\<lparr>fl_start := l_start fl, fl_type := l_type fl,
       fl_end := (if l_len fl = 0 then LLONG_MAX else off_wrap (l_start fl + l_len fl - 1)),
       transport := tr, client_pid := pid, link := Link_ok\<rparr>"

definition posix_lock_to_flock :: "posix_lock \<Rightarrow> flock" where
  "posix_lock_to_flock lock =
     \<lparr>l_type = fl_type lock, l_start = fl_start lock,
      l_len = (if fl_end lock = 0 then LLONG_MAX
               else off_wrap (fl_end lock - fl_start lock + 1)),
      l_pid = client_pid lock\<rparr>"

text \<open>\<^verbatim>\<open>list_add_tail\<close> into the domain's list.\<close>

definition pl_insert_lock :: "posix_lock list \<Rightarrow> posix_lock \<Rightarrow> posix_lock list" where
  "pl_insert_lock L lock = L @ [lock\<lparr>link := Link_ok\<rparr>]"

section \<open>Overlap, ownership, conflicts\<close>

definition locks_overlap :: "posix_lock \<Rightarrow> posix_lock \<Rightarrow> bool" where
  "locks_overlap l1 l2 \<longleftrightarrow> fl_end l1 \<ge> fl_start l2 \<and> fl_end l2 \<ge> fl_start l1"

definition same_owner :: "posix_lock \<Rightarrow> posix_lock \<Rightarrow> bool" where
  "same_owner l1 l2 \<longleftrightarrow> client_pid l1 = client_pid l2 \<and> transport l1 = transport l2"

definition delete_unlck_locks :: "posix_lock list \<Rightarrow> posix_lock list" where
  "delete_unlck_locks L = filter (\<lambda>l. fl_type l \<noteq> F_UNLCK) L"

definition add_locks :: "posix_lock \<Rightarrow> posix_lock \<Rightarrow> posix_lock" where
  "add_locks l1 l2 = calloc_lock\<lparr>fl_start := min (fl_start l1) (fl_start l2),
     fl_end := max (fl_end l1) (fl_end l2)\<rparr>"

text \<open>\<^verbatim>\<open>memcpy\<close> of a lock: the list header is copied with the rest.\<close>

fun copied_link :: "link_state \<Rightarrow> link_state" where
  "copied_link Link_ok = Link_stale"
| "copied_link Link_null = Link_null"
| "copied_link Link_stale = Link_stale"

definition memcpy_lock :: "posix_lock \<Rightarrow> posix_lock" where
  "memcpy_lock l = l\<lparr>link := copied_link (link l)\<rparr>"

text \<open>\<^verbatim>\<open>struct _values\<close>: three lock pointers, null ones as \<^const>\<open>None\<close>.\<close>

definition subtract_locks :: "posix_lock \<Rightarrow> posix_lock \<Rightarrow> posix_lock option list" where
  "subtract_locks big small =
     (if fl_start big = fl_start small \<and> fl_end big = fl_end small then
        [Some ((memcpy_lock big)\<lparr>fl_type := fl_type small\<rparr>), None, None]
      else if fl_start small > fl_start big \<and> fl_end small < fl_end big then
        [Some ((memcpy_lock big)\<lparr>fl_end := fl_start small - 1\<rparr>),
         Some (memcpy_lock small),
         Some ((memcpy_lock big)\<lparr>fl_start := fl_end small + 1\<rparr>)]
      else if fl_start small = fl_start big then
        [Some ((memcpy_lock big)\<lparr>fl_start := fl_end small + 1\<rparr>),
         Some (memcpy_lock small), None]
      else if fl_end small = fl_end big then
        [Some ((memcpy_lock big)\<lparr>fl_end := fl_start small - 1\<rparr>),
         Some (memcpy_lock small), None]
      else [None, None, None])"

fun first_overlap :: "posix_lock list \<Rightarrow> posix_lock \<Rightarrow> posix_lock option" where
  "first_overlap [] lock = None"
| "first_overlap (l # L) lock =
     (if blocked l then first_overlap L lock
      else if locks_overlap l lock then Some l
      else first_overlap L lock)"

fun pl_is_lock_grantable :: "posix_lock list \<Rightarrow> posix_lock \<Rightarrow> bool" where
  "pl_is_lock_grantable [] lock = True"
| "pl_is_lock_grantable (l # L) lock =
     (if \<not> blocked l \<and> locks_overlap lock l \<and>
         (fl_type l = F_WRLCK \<or> fl_type lock = F_WRLCK) \<and>
         fl_type lock \<noteq> F_UNLCK \<and> \<not> same_owner l lock
      then False
      else pl_is_lock_grantable L lock)"

section \<open>Insert and merge\<close>

text \<open>
  The loop of \<^verbatim>\<open>__insert_and_merge\<close>, up to the iteration that leaves it: at the first
  overlapping lock of the same owner (\<open>Own\<close>, with the list around it), at the first
  overlapping read lock of another owner when the request is a read lock
  (\<open>Read_shared\<close>), or at the end of the list (\<open>No_conflict\<close>).
\<close>

datatype merge_exit =
    Own "posix_lock list" posix_lock "posix_lock list"
  | Read_shared
  | No_conflict

fun merge_scan :: "posix_lock \<Rightarrow> posix_lock list \<Rightarrow> posix_lock list \<Rightarrow> merge_exit" where
  "merge_scan lock pre [] = No_conflict"
| "merge_scan lock pre (conf # rest) =
     (if \<not> locks_overlap conf lock then merge_scan lock (pre @ [conf]) rest
      else if same_owner conf lock then Own pre conf rest
      else if fl_type lock = F_UNLCK then merge_scan lock (pre @ [conf]) rest
      else if fl_type conf = F_RDLCK \<and> fl_type lock = F_RDLCK then Read_shared
      else merge_scan lock (pre @ [conf]) rest)"

definition same_type_sum :: "posix_lock \<Rightarrow> posix_lock \<Rightarrow> posix_lock" where
  "same_type_sum lock conf =
     (add_locks lock conf)\<lparr>fl_type := fl_type lock, transport := transport lock,
        client_pid := client_pid lock\<rparr>"

definition other_type_sum :: "posix_lock \<Rightarrow> posix_lock \<Rightarrow> posix_lock" where
  "other_type_sum lock conf =
     (add_locks lock conf)\<lparr>fl_type := fl_type conf, transport := transport conf,
        client_pid := client_pid conf\<rparr>"


lemma merge_scan_Own:
  "merge_scan lock pre L = Own bs conf as \<Longrightarrow>
     pre @ L = bs @ conf # as \<and> locks_overlap conf lock \<and> same_owner conf lock"
  by (induction lock pre L rule: merge_scan.induct) (auto split: if_splits)

lemma memcpy_lock_link [simp]: "link (memcpy_lock l) \<noteq> Link_ok"
  by (cases "link l") (simp_all add: memcpy_lock_def)

lemma subtract_locks_link:
  "Some p \<in> set (subtract_locks big small) \<Longrightarrow> link p \<noteq> Link_ok"
  by (auto simp: subtract_locks_def split: if_splits)

lemma same_type_sum_link [simp]: "link (same_type_sum lock conf) = Link_null"
  by (simp add: same_type_sum_def add_locks_def calloc_lock_def)

text \<open>
  \<^verbatim>\<open>__insert_and_merge\<close>. On a lock of the same owner and another type the code unlinks the
  request itself (\<^verbatim>\<open>__delete_lock (pl_inode, lock)\<close>), which faults when the request is a lock
  that an enclosing call built with \<^verbatim>\<open>CALLOC\<close> or \<^verbatim>\<open>memcpy\<close>. Every recursive call is on such a
  lock or on a shorter list, so the recursion ends.
\<close>

function insert_and_merge :: "posix_lock \<Rightarrow> posix_lock list \<Rightarrow> fault + posix_lock list" where
  "insert_and_merge lock L =
     (case merge_scan lock [] L of
        No_conflict \<Rightarrow> Inr (if fl_type lock \<noteq> F_UNLCK then pl_insert_lock L lock else L)
      | Read_shared \<Rightarrow> Inr (pl_insert_lock L lock)
      | Own pre conf rest \<Rightarrow>
          if fl_type conf = fl_type lock then
            insert_and_merge (same_type_sum lock conf) (pre @ rest)
          else
            (case link lock of
               Link_null \<Rightarrow> Inl Null_Deref
             | Link_stale \<Rightarrow> Inl Use_After_Free
             | Link_ok \<Rightarrow>
                 bind_f
                   (foldM (\<lambda>v L'. case v of
                             None \<Rightarrow> Inr L'
                           | Some p \<Rightarrow> if fl_type p = F_UNLCK then Inr L'
                                       else insert_and_merge p L')
                      (subtract_locks (other_type_sum lock conf) lock) (pre @ rest))
                   (\<lambda>L'. Inr (delete_unlck_locks L'))))"
  by pat_completeness auto
termination
  by (relation "measures [\<lambda>(lock, L). if link lock = Link_ok then 1 else 0, \<lambda>(lock, L). length L]")
    (auto dest!: merge_scan_Own subtract_locks_link
      dest: arg_cong[where f = length])

declare insert_and_merge.simps [simp del]

section \<open>Granting blocked locks\<close>

text \<open>
  The first loop of \<^verbatim>\<open>__grant_blocked_locks\<close>: a blocked lock that no granted lock of the
  list overlaps is moved to \<open>tmp_list\<close>. \<open>kept\<close> is the part of the list already passed.
\<close>

fun grant_candidates ::
    "posix_lock list \<Rightarrow> posix_lock list \<Rightarrow> posix_lock list \<Rightarrow> posix_lock list \<times> posix_lock list"
  where
  "grant_candidates kept [] tmp = (kept, tmp)"
| "grant_candidates kept (l # rest) tmp =
     (if blocked l then
        (case first_overlap (kept @ l # rest) l of
           Some conf \<Rightarrow> grant_candidates (kept @ [l]) rest tmp
         | None \<Rightarrow> grant_candidates kept rest (tmp @ [l\<lparr>blocked := False\<rparr>]))
      else grant_candidates (kept @ [l]) rest tmp)"

text \<open>
  The second loop: each candidate is checked again and inserted, and a record of its frame
  and range goes to the head of \<open>granted\<close>; or it is blocked again. \<open>alloc n\<close> says whether the
  \<^verbatim>\<open>CALLOC\<close> made with \<open>n\<close> candidates left succeeds.
\<close>

fun grant_each ::
    "(nat \<Rightarrow> bool) \<Rightarrow> posix_lock list \<Rightarrow> posix_lock list \<Rightarrow> posix_lock list \<Rightarrow>
       fault + (posix_lock list \<times> posix_lock list)"
  where
  "grant_each alloc L [] granted = Inr (L, granted)"
| "grant_each alloc L (l # tmp) granted =
     (if pl_is_lock_grantable L l then
        if \<not> alloc (length tmp) then
          grant_each alloc (pl_insert_lock L (l\<lparr>blocked := True\<rparr>)) tmp granted
        else
          bind_f (insert_and_merge (l\<lparr>frame := None, link := Link_ok\<rparr>) L)
            (\<lambda>L'. grant_each alloc L' tmp
               (calloc_lock\<lparr>frame := frame l, user_flock := posix_lock_to_flock l\<rparr> # granted))
      else grant_each alloc (pl_insert_lock L (l\<lparr>blocked := True\<rparr>)) tmp granted)"

definition grant_blocked_locks_locked ::
    "(nat \<Rightarrow> bool) \<Rightarrow> posix_lock list \<Rightarrow> fault + (posix_lock list \<times> posix_lock list)" where
  "grant_blocked_locks_locked alloc L =
     (case grant_candidates [] L [] of (kept, tmp) \<Rightarrow> grant_each alloc kept tmp [])"

text \<open>The replies to the granted frames; a null frame faults.\<close>

fun unwind_granted :: "posix_lock list \<Rightarrow> fault + action list" where
  "unwind_granted [] = Inr []"
| "unwind_granted (l # granted) =
     (case frame l of
        None \<Rightarrow> Inl Null_Deref
      | Some fr \<Rightarrow>
          bind_f (unwind_granted granted)
            (\<lambda>as. Inr (Unwind fr 0 0 (Some (user_flock l)) # as)))"

definition grant_blocked_locks ::
    "(nat \<Rightarrow> bool) \<Rightarrow> pl_inode \<Rightarrow> gf_lk_domain \<Rightarrow> fault + (pl_inode \<times> action list)" where
  "grant_blocked_locks alloc pl domn =
     bind_f (grant_blocked_locks_locked alloc (DOMAIN_HEAD pl domn))
       (\<lambda>(L, granted). bind_f (unwind_granted granted)
          (\<lambda>as. Inr (set_domain pl domn L, as)))"

section \<open>Waiting reads and writes\<close>

fun rw_allowable :: "posix_lock list \<Rightarrow> posix_lock \<Rightarrow> rw_fop \<Rightarrow> bool" where
  "rw_allowable [] reg op = True"
| "rw_allowable (l # L) reg op =
     (if locks_overlap l reg \<and> \<not> same_owner l reg then
        if op = GF_FOP_READ \<and> fl_type l \<noteq> F_WRLCK then rw_allowable L reg op else False
      else rw_allowable L reg op)"

definition call_resume :: "call_stub \<Rightarrow> action" where
  "call_resume st = Wind (stub_frame st) (stub_call st)"

definition do_blocked_rw :: "pl_inode \<Rightarrow> pl_inode \<times> action list" where
  "do_blocked_rw pl =
     (let allowed = (\<lambda>rw. rw_allowable (ext_list pl) (region rw) (stub_fop (stub rw)))
      in (pl\<lparr>rw_list := filter (\<lambda>rw. \<not> allowed rw) (rw_list pl)\<rparr>,
          map (\<lambda>rw. call_resume (stub rw)) (filter allowed (rw_list pl))))"

section \<open>Setting and testing locks\<close>

text \<open>The critical section of \<^verbatim>\<open>pl_setlk\<close>: the new list and the return value.\<close>

definition setlk_locked ::
    "posix_lock list \<Rightarrow> posix_lock \<Rightarrow> bool \<Rightarrow> fault + (posix_lock list \<times> int)" where
  "setlk_locked L lock can_block =
     (if pl_is_lock_grantable L lock then
        bind_f (insert_and_merge lock L) (\<lambda>L'. Inr (L', 0))
      else if can_block then Inr (pl_insert_lock L (lock\<lparr>blocked := True\<rparr>), - 1)
      else Inr (L, - 1))"

definition pl_setlk ::
    "(nat \<Rightarrow> bool) \<Rightarrow> pl_inode \<Rightarrow> posix_lock \<Rightarrow> bool \<Rightarrow> gf_lk_domain \<Rightarrow>
       fault + (pl_inode \<times> int \<times> action list)" where
  "pl_setlk alloc pl lock can_block domn =
     bind_f (setlk_locked (DOMAIN_HEAD pl domn) lock can_block) (\<lambda>(L, ret).
     bind_f (grant_blocked_locks alloc (set_domain pl domn L) domn) (\<lambda>(pl1, as1).
     (case do_blocked_rw pl1 of (pl2, as2) \<Rightarrow> Inr (pl2, ret, as1 @ as2))))"

text \<open>\<^verbatim>\<open>pl_getlk\<close> returns the first overlapping granted lock, or the request as unlocked.\<close>

definition pl_getlk :: "pl_inode \<Rightarrow> posix_lock \<Rightarrow> gf_lk_domain \<Rightarrow> posix_lock" where
  "pl_getlk pl lock domn =
     (case first_overlap (DOMAIN_HEAD pl domn) lock of
        None \<Rightarrow> lock\<lparr>fl_type := F_UNLCK\<rparr>
      | Some conf \<Rightarrow> conf)"

section \<open>What a lock list grants\<close>

datatype lk_owner = Owner nat int

definition owner :: "posix_lock \<Rightarrow> lk_owner" where
  "owner l = Owner (transport l) (client_pid l)"

definition covers :: "posix_lock \<Rightarrow> off_t \<Rightarrow> bool" where
  "covers l p \<longleftrightarrow> fl_start l \<le> p \<and> p \<le> fl_end l"

definition wf_lock :: "posix_lock \<Rightarrow> bool" where
  "wf_lock l \<longleftrightarrow> fl_start l \<le> fl_end l"

definition held :: "posix_lock list \<Rightarrow> lk_owner \<Rightarrow> off_t \<Rightarrow> lk_type set" where
  "held L own p = {fl_type l |l. l \<in> set L \<and> \<not> blocked l \<and> owner l = own \<and> covers l p}"

lemma same_owner_iff [lock_simps]: "same_owner a b \<longleftrightarrow> owner a = owner b"
  by (auto simp: same_owner_def owner_def)

lemma held_append [simp]: "held (L @ M) own p = held L own p \<union> held M own p"
  by (auto simp: held_def)

lemma held_Nil [simp]: "held [] own p = {}"
  by (simp add: held_def)

lemma held_Cons [simp]:
  "held (l # L) own p =
     (if \<not> blocked l \<and> owner l = own \<and> covers l p then {fl_type l} else {}) \<union> held L own p"
  by (auto simp: held_def)

lemma locks_overlap_iff:
  "wf_lock a \<Longrightarrow> wf_lock b \<Longrightarrow> locks_overlap a b \<longleftrightarrow> (\<exists>p. covers a p \<and> covers b p)"
  unfolding locks_overlap_def wf_lock_def covers_def
  by (auto intro: exI[of _ "max (fl_start a) (fl_start b)"])

lemma locks_overlap_sym: "locks_overlap a b \<longleftrightarrow> locks_overlap b a"
  by (auto simp: locks_overlap_def)

lemmas sum_defs = same_type_sum_def other_type_sum_def add_locks_def calloc_lock_def

lemma same_type_sum_simps [simp]:
  "fl_type (same_type_sum lock conf) = fl_type lock"
  "owner (same_type_sum lock conf) = owner lock"
  "\<not> blocked (same_type_sum lock conf)"
  by (simp_all add: sum_defs owner_def)

lemma covers_same_type_sum:
  assumes "locks_overlap conf lock" "wf_lock conf" "wf_lock lock"
  shows "covers (same_type_sum lock conf) p \<longleftrightarrow> covers lock p \<or> covers conf p"
  using assms by (auto simp: sum_defs covers_def locks_overlap_def wf_lock_def)

lemma wf_same_type_sum: "wf_lock lock \<Longrightarrow> wf_lock (same_type_sum lock conf)"
  by (auto simp: sum_defs wf_lock_def)

definition pieces :: "posix_lock \<Rightarrow> posix_lock \<Rightarrow> posix_lock list" where
  "pieces lock conf = List.map_filter id (subtract_locks (other_type_sum lock conf) lock)"

lemma copied_link_neq [simp]: "copied_link k \<noteq> Link_ok"
  by (cases k) simp_all

lemma held_pieces:
  assumes "locks_overlap conf lock" "wf_lock conf" "wf_lock lock" "owner conf = owner lock"
    "\<not> blocked lock"
  shows "held (pieces lock conf) (owner lock) p =
    (if covers lock p then {fl_type lock} else if covers conf p then {fl_type conf} else {})"
  using assms
  by (cases "fl_start lock \<le> fl_start conf"; cases "fl_end conf \<le> fl_end lock")
    (auto simp: pieces_def subtract_locks_def List.map_filter_def memcpy_lock_def sum_defs
      covers_def locks_overlap_def wf_lock_def owner_def min_def max_def)

lemma pieces_wf:
  assumes "locks_overlap conf lock" "wf_lock conf" "wf_lock lock" "owner conf = owner lock"
    "\<not> blocked lock" "l \<in> set (pieces lock conf)"
  shows "wf_lock l \<and> owner l = owner lock \<and> \<not> blocked l \<and> link l \<noteq> Link_ok"
  using assms
  by (auto simp: pieces_def subtract_locks_def List.map_filter_def memcpy_lock_def sum_defs
      covers_def locks_overlap_def wf_lock_def min_def max_def owner_def split: if_splits)

lemma foldM_map_filter:
  "foldM (\<lambda>v s. case v of None \<Rightarrow> Inr s | Some x \<Rightarrow> f x s) vs s = foldM f (List.map_filter id vs) s"
proof (induction vs arbitrary: s)
  case (Cons v vs)
  then show ?case by (cases v; cases "f (the v) s") (simp_all add: List.map_filter_simps)
qed (simp add: List.map_filter_simps)

text \<open>The recursion, with its loop over the non-null pieces.\<close>

lemma insert_and_merge_unfold:
  "insert_and_merge lock L =
     (case merge_scan lock [] L of
        No_conflict \<Rightarrow> Inr (if fl_type lock \<noteq> F_UNLCK then pl_insert_lock L lock else L)
      | Read_shared \<Rightarrow> Inr (pl_insert_lock L lock)
      | Own pre conf rest \<Rightarrow>
          if fl_type conf = fl_type lock then
            insert_and_merge (same_type_sum lock conf) (pre @ rest)
          else
            (case link lock of
               Link_null \<Rightarrow> Inl Null_Deref
             | Link_stale \<Rightarrow> Inl Use_After_Free
             | Link_ok \<Rightarrow>
                 bind_f (foldM (\<lambda>p L'. if fl_type p = F_UNLCK then Inr L' else insert_and_merge p L')
                      (pieces lock conf) (pre @ rest))
                   (\<lambda>L'. Inr (delete_unlck_locks L'))))"
  unfolding pieces_def foldM_map_filter[symmetric] by (rule insert_and_merge.simps)

lemma merge_scan_No_conflict:
  "merge_scan lock pre L = No_conflict \<Longrightarrow> l \<in> set L \<Longrightarrow> owner l = owner lock \<Longrightarrow> \<not> locks_overlap l lock"
  by (induction lock pre L rule: merge_scan.induct) (auto simp: lock_simps split: if_splits)

lemma merge_scan_Read_shared:
  "merge_scan lock pre L = Read_shared \<Longrightarrow>
     fl_type lock = F_RDLCK \<and> (\<exists>l\<in>set L. locks_overlap l lock \<and> owner l \<noteq> owner lock \<and> fl_type l = F_RDLCK)"
  by (induction lock pre L rule: merge_scan.induct) (auto simp: lock_simps split: if_splits)

text \<open>
  A rule for properties of the list that every elementary change keeps: appending a lock,
  removing a lock of the requester, dropping unlock entries.
\<close>

lemma insert_and_merge_keeps:
  assumes "insert_and_merge lock L = Inr L'" and "Q lock" and "P L"
    and ins: "\<And>k M. Q k \<Longrightarrow> P M \<Longrightarrow> fl_type k \<noteq> F_UNLCK \<Longrightarrow> P (pl_insert_lock M k)"
    and del: "\<And>k a c b. Q k \<Longrightarrow> P (a @ c # b) \<Longrightarrow> owner c = owner k \<Longrightarrow> P (a @ b)"
    and unl: "\<And>M. P M \<Longrightarrow> P (delete_unlck_locks M)"
    and sum: "\<And>k a c b. Q k \<Longrightarrow> P (a @ c # b) \<Longrightarrow> owner c = owner k \<Longrightarrow> locks_overlap c k \<Longrightarrow>
                fl_type c = fl_type k \<Longrightarrow> Q (same_type_sum k c)"
    and pcs: "\<And>k a c b p. Q k \<Longrightarrow> P (a @ c # b) \<Longrightarrow> owner c = owner k \<Longrightarrow> locks_overlap c k \<Longrightarrow>
                p \<in> set (pieces k c) \<Longrightarrow> Q p"
  shows "P L'"
  using assms(1-3)
proof (induction lock L arbitrary: L' rule: insert_and_merge.induct)
  case (1 lock L)
  show ?case
  proof (cases "merge_scan lock [] L")
    case No_conflict
    with 1(3-5) ins show ?thesis
      by (auto simp: insert_and_merge_unfold[of lock L] split: if_splits)
  next
    case Read_shared
    with 1(3-5) ins merge_scan_Read_shared[OF this] show ?thesis
      by (auto simp: insert_and_merge_unfold[of lock L])
  next
    case (Own pre conf rest)
    from merge_scan_Own[OF Own] have L: "L = pre @ conf # rest" and ov: "locks_overlap conf lock"
      and ow: "owner conf = owner lock"
      by (auto simp: lock_simps)
    from 1(4,5) L ow del have P0: "P (pre @ rest)" by blast
    show ?thesis
    proof (cases "fl_type conf = fl_type lock")
      case True
      with 1(3) Own have "insert_and_merge (same_type_sum lock conf) (pre @ rest) = Inr L'"
        by (simp add: insert_and_merge_unfold[of lock L])
      moreover have "Q (same_type_sum lock conf)"
        using sum 1(4,5) L ow ov True by blast
      ultimately show ?thesis
        using 1(1)[OF Own True _ _ P0] by blast
    next
      case False
      with 1(3) Own obtain M where lk: "link lock = Link_ok"
        and M: "foldM (\<lambda>p L'. if fl_type p = F_UNLCK then Inr L' else insert_and_merge p L')
                  (pieces lock conf) (pre @ rest) = Inr M"
        and L': "L' = delete_unlck_locks M"
        by (auto simp: insert_and_merge_unfold[of lock L] split: link_state.splits)
      have "P M"
        using M P0
      proof (rule foldM_inv)
        fix p u v
        assume p: "p \<in> set (pieces lock conf)" and "P u"
          and r: "(if fl_type p = F_UNLCK then Inr u else insert_and_merge p u) = Inr v"
        have "Q p" using pcs 1(4,5) L ow ov p by blast
        moreover have "Some p \<in> set (subtract_locks (other_type_sum lock conf) lock)"
          using p by (auto simp: pieces_def List.map_filter_def)
        ultimately show "P v"
          using 1(2)[OF Own False lk _ refl] r \<open>P u\<close> by (auto split: if_splits)
      qed
      with L' unl show ?thesis by simp
    qed
  qed
qed

definition wf_list :: "posix_lock list \<Rightarrow> bool" where
  "wf_list L \<longleftrightarrow> (\<forall>l\<in>set L. wf_lock l \<and> fl_type l \<noteq> F_UNLCK)"

definition excl :: "posix_lock list \<Rightarrow> bool" where
  "excl L \<longleftrightarrow> (\<forall>p o1 o2. o1 \<noteq> o2 \<longrightarrow> F_WRLCK \<in> held L o1 p \<longrightarrow> held L o2 p = {})"

definition not_waiting :: "posix_lock list \<Rightarrow> lk_owner \<Rightarrow> bool" where
  "not_waiting L own \<longleftrightarrow> (\<forall>l\<in>set L. owner l = own \<longrightarrow> \<not> blocked l)"

abbreviation others :: "lk_owner \<Rightarrow> posix_lock list \<Rightarrow> posix_lock list" where
  "others own L \<equiv> filter (\<lambda>l. owner l \<noteq> own) L"

lemma exclD: "excl L \<Longrightarrow> F_WRLCK \<in> held L o1 p \<Longrightarrow> o1 \<noteq> o2 \<Longrightarrow> held L o2 p = {}"
  by (auto simp: excl_def)

lemma wf_list_simps [simp]:
  "wf_list (L @ M) \<longleftrightarrow> wf_list L \<and> wf_list M" "wf_list []"
  "wf_list (l # L) \<longleftrightarrow> wf_lock l \<and> fl_type l \<noteq> F_UNLCK \<and> wf_list L"
  by (auto simp: wf_list_def)

lemma not_waiting_simps [simp]:
  "not_waiting (L @ M) own \<longleftrightarrow> not_waiting L own \<and> not_waiting M own" "not_waiting [] own"
  "not_waiting (l # L) own \<longleftrightarrow> (owner l = own \<longrightarrow> \<not> blocked l) \<and> not_waiting L own"
  by (auto simp: not_waiting_def)

lemma link_upd [simp]:
  "owner (l\<lparr>link := k\<rparr>) = owner l" "wf_lock (l\<lparr>link := k\<rparr>) = wf_lock l"
  "covers (l\<lparr>link := k\<rparr>) = covers l"
  "owner (l\<lparr>blocked := b\<rparr>) = owner l" "wf_lock (l\<lparr>blocked := b\<rparr>) = wf_lock l"
  "covers (l\<lparr>blocked := b\<rparr>) = covers l"
  "owner (l\<lparr>frame := f\<rparr>) = owner l" "wf_lock (l\<lparr>frame := f\<rparr>) = wf_lock l"
  "covers (l\<lparr>frame := f\<rparr>) = covers l"
  by (simp_all add: owner_def wf_lock_def covers_def fun_eq_iff)

lemma held_others: "own' \<noteq> own \<Longrightarrow> held (others own L) own' p = held L own' p"
  by (auto simp: held_def)

lemma delete_unlck_wf: "wf_list M \<Longrightarrow> delete_unlck_locks M = M"
  by (auto simp: delete_unlck_locks_def wf_list_def filter_id_conv)

lemma held_mem: "l \<in> set L \<Longrightarrow> \<not> blocked l \<Longrightarrow> covers l p \<Longrightarrow> fl_type l \<in> held L (owner l) p"
  by (auto simp: held_def)

text \<open>
  What \<open>insert_and_merge\<close> may change: only the requester's locks, and these grow by nothing
  but the requested range with the requested type.
\<close>

lemma insert_and_merge_sound:
  assumes r: "insert_and_merge lock L = Inr L'"
    and wf: "wf_list L" "wf_lock lock" "\<not> blocked lock" "not_waiting L (owner lock)"
  shows "wf_list L' \<and> not_waiting L' (owner lock) \<and>
     others (owner lock) L' = others (owner lock) L \<and>
     (\<forall>p. held L' (owner lock) p \<subseteq>
        held L (owner lock) p \<union> (if covers lock p then {fl_type lock} else {}))"
proof -
  let ?o = "owner lock"
  let ?B = "\<lambda>p. held L ?o p \<union> (if covers lock p then {fl_type lock} else {})"
  let ?P = "\<lambda>M. wf_list M \<and> not_waiting M ?o \<and> others ?o M = others ?o L \<and>
              (\<forall>p. held M ?o p \<subseteq> ?B p)"
  let ?Q = "\<lambda>k. owner k = ?o \<and> wf_lock k \<and> \<not> blocked k \<and>
              (\<forall>p. covers k p \<longrightarrow> fl_type k \<in> ?B p)"
  show ?thesis
  proof (rule insert_and_merge_keeps[where Q = ?Q and P = ?P, OF r])
    show "?Q lock" and "?P L" using wf by auto
  next
    fix k M assume "?Q k" "?P M" "fl_type k \<noteq> F_UNLCK"
    then show "?P (pl_insert_lock M k)" by (auto simp: pl_insert_lock_def)
  next
    fix k a c b assume "?Q k" "?P (a @ c # b)" "owner c = owner k"
    then show "?P (a @ b)" by auto
  next
    fix M assume "?P M"
    then show "?P (delete_unlck_locks M)" by (simp add: delete_unlck_wf)
  next
    fix k a c b
    assume Q: "?Q k" and P: "?P (a @ c # b)" and ow: "owner c = owner k" and ov: "locks_overlap c k"
      and ty: "fl_type c = fl_type k"
    from P Q ow have c: "wf_lock c" "\<not> blocked c" "\<forall>p. covers c p \<longrightarrow> fl_type c \<in> ?B p"
      by (auto split: if_splits)
    show "?Q (same_type_sum k c)"
      using Q c ty covers_same_type_sum[OF ov c(1)] wf_same_type_sum by auto
  next
    fix k a c b p
    assume Q: "?Q k" and P: "?P (a @ c # b)" and ow: "owner c = owner k" and ov: "locks_overlap c k"
      and p: "p \<in> set (pieces k c)"
    from P Q ow have c: "wf_lock c" "\<not> blocked c" "\<forall>p. covers c p \<longrightarrow> fl_type c \<in> ?B p"
      by (auto split: if_splits)
    from Q have k: "wf_lock k" "\<not> blocked k" by auto
    from pieces_wf[OF ov c(1) k(1) ow k(2) p]
    have pw: "wf_lock p" "owner p = owner k" "\<not> blocked p" by auto
    have "fl_type p \<in> ?B q" if "covers p q" for q
      using held_mem[OF p pw(3) that] held_pieces[OF ov c(1) k(1) ow k(2), of q] pw(2) c(3) Q
      by (auto split: if_splits)
    with pw Q show "?Q p" by auto
  qed
qed

lemma pl_is_lock_grantable_iff:
  "pl_is_lock_grantable L lock \<longleftrightarrow>
     (\<forall>l\<in>set L. \<not> blocked l \<and> locks_overlap lock l \<and> owner l \<noteq> owner lock \<and> fl_type lock \<noteq> F_UNLCK \<longrightarrow>
        fl_type l \<noteq> F_WRLCK \<and> fl_type lock \<noteq> F_WRLCK)"
  by (induction L) (auto simp: lock_simps)

lemma grantable_held:
  assumes "pl_is_lock_grantable L lock" "wf_list L" "wf_lock lock" "fl_type lock \<noteq> F_UNLCK"
    and "covers lock p" and "own \<noteq> owner lock"
  shows "F_WRLCK \<notin> held L own p \<and> (fl_type lock = F_WRLCK \<longrightarrow> held L own p = {})"
proof -
  have "locks_overlap lock l" if "l \<in> set L" "covers l p" for l
    using that assms(2,3,5) by (auto simp: wf_list_def locks_overlap_iff)
  with assms(1,4,6) show ?thesis
    by (fastforce simp: pl_is_lock_grantable_iff held_def)
qed

lemma insert_and_merge_excl:
  assumes r: "insert_and_merge lock L = Inr L'" and g: "pl_is_lock_grantable L lock"
    and wf: "wf_list L" "wf_lock lock" "\<not> blocked lock" "not_waiting L (owner lock)"
    and ex: "excl L"
  shows "excl L'"
proof -
  note S = insert_and_merge_sound[OF r wf]
  let ?o = "owner lock"
  have oth: "held L' own p = held L own p" if "own \<noteq> ?o" for own p
    using S held_others[OF that, of L] held_others[OF that, of L'] by metis
  have own: "held L' ?o p \<subseteq> held L ?o p \<union> (if covers lock p then {fl_type lock} else {})" for p
    using S by blast
  have nu: "F_UNLCK \<notin> held L' own p" for own p
    using S by (auto simp: wf_list_def held_def)
  show ?thesis
    unfolding excl_def
  proof (intro allI impI)
    fix p o1 o2 assume ne: "o1 \<noteq> o2" and w: "F_WRLCK \<in> held L' o1 p"
    show "held L' o2 p = {}"
    proof (cases "o1 = ?o")
      case True
      then have o2: "o2 \<noteq> ?o" using ne by simp
      from own[of p] w True consider "F_WRLCK \<in> held L ?o p" | "covers lock p" "fl_type lock = F_WRLCK"
        by (auto split: if_splits)
      then show ?thesis
        using exclD[OF ex, of ?o p o2] ne True oth[OF o2] grantable_held[OF g wf(1,2) _ _ o2]
        by cases auto
    next
      case False
      then have w1: "F_WRLCK \<in> held L o1 p" using w oth by simp
      then have e: "own \<noteq> o1 \<Longrightarrow> held L own p = {}" for own
        using exclD[OF ex w1, of own] by simp
      show ?thesis
      proof (cases "o2 = ?o")
        case True
        have "\<not> (covers lock p \<and> fl_type lock \<noteq> F_UNLCK)"
          using grantable_held[OF g wf(1,2) _ _ False] w1 by blast
        then show ?thesis
          using own[of p] e[of ?o] True False nu[of ?o p] by (auto split: if_splits)
      next
        case False
        then show ?thesis using e ne oth by simp
      qed
    qed
  qed
qed

text \<open>An abstract POSIX lock table: for every owner and offset the types held there.\<close>

definition posix_spec ::
    "lk_owner \<Rightarrow> (off_t \<Rightarrow> bool) \<Rightarrow> lk_type \<Rightarrow> (lk_owner \<Rightarrow> off_t \<Rightarrow> lk_type set) \<Rightarrow>
       lk_owner \<Rightarrow> off_t \<Rightarrow> lk_type set" where
  "posix_spec own rng t h = (\<lambda>o' p. if o' = own \<and> rng p then {t} - {F_UNLCK} else h o' p)"

text \<open>Without a linked header the merge only adds the requested range.\<close>

lemma insert_built_held:
  assumes "insert_and_merge lock L = Inr L'" "link lock \<noteq> Link_ok" "fl_type lock \<noteq> F_UNLCK"
    and "wf_list L" "wf_lock lock" "\<not> blocked lock" "not_waiting L (owner lock)"
  shows "held L' (owner lock) p =
           held L (owner lock) p \<union> (if covers lock p then {fl_type lock} else {}) \<and>
    ((fl_type lock = F_RDLCK \<longrightarrow> (\<forall>l\<in>set L. owner l \<noteq> owner lock \<longrightarrow> fl_type l \<noteq> F_RDLCK)) \<longrightarrow>
       (\<forall>l\<in>set L. owner l = owner lock \<longrightarrow> locks_overlap l lock \<longrightarrow> fl_type l = fl_type lock))"
  using assms
proof (induction lock L arbitrary: L' rule: insert_and_merge.induct)
  case (1 lock L)
  show ?case
  proof (cases "merge_scan lock [] L")
    case No_conflict
    with 1(3-) merge_scan_No_conflict[OF No_conflict] show ?thesis
      by (auto simp: insert_and_merge_unfold[of lock L] pl_insert_lock_def)
  next
    case Read_shared
    with 1(3-) merge_scan_Read_shared[OF this] show ?thesis
      by (auto simp: insert_and_merge_unfold[of lock L] pl_insert_lock_def)
  next
    case (Own pre conf rest)
    from merge_scan_Own[OF Own] have L: "L = pre @ conf # rest" and ov: "locks_overlap conf lock"
      and ow: "owner conf = owner lock"
      by (auto simp: lock_simps)
    have ty: "fl_type conf = fl_type lock"
      using 1(3,4) Own by (auto simp: insert_and_merge_unfold[of lock L] split: link_state.splits if_splits)
    let ?s = "same_type_sum lock conf"
    have r: "insert_and_merge ?s (pre @ rest) = Inr L'"
      using 1(3) Own ty by (simp add: insert_and_merge_unfold[of lock L])
    have wc: "wf_lock conf" using 1(6) L by simp
    have nb: "\<not> blocked conf" using 1(9) L ow by simp
    have cs: "covers ?s p \<longleftrightarrow> covers lock p \<or> covers conf p"
      using covers_same_type_sum[OF ov wc] 1(7) by simp
    have IH: "held L' (owner lock) p =
        held (pre @ rest) (owner lock) p \<union> (if covers ?s p then {fl_type lock} else {}) \<and>
      ((fl_type lock = F_RDLCK \<longrightarrow>
          (\<forall>l\<in>set (pre @ rest). owner l \<noteq> owner lock \<longrightarrow> fl_type l \<noteq> F_RDLCK)) \<longrightarrow>
       (\<forall>l\<in>set (pre @ rest). owner l = owner lock \<longrightarrow> locks_overlap l ?s \<longrightarrow> fl_type l = fl_type lock))"
    proof -
      have "wf_list (pre @ rest)" "not_waiting (pre @ rest) (owner ?s)" "wf_lock ?s"
        "fl_type ?s \<noteq> F_UNLCK" "link ?s \<noteq> Link_ok"
        using 1(5-9) L wf_same_type_sum[of lock conf] by simp_all
      from 1(1)[OF Own ty r this(5,4,1,3) same_type_sum_simps(3) this(2)] show ?thesis
        unfolding same_type_sum_simps .
    qed
    have os: "locks_overlap l ?s" if "locks_overlap l lock" for l
      using that by (auto simp: locks_overlap_def sum_defs)
    have "held L' (owner lock) p =
           held L (owner lock) p \<union> (if covers lock p then {fl_type lock} else {})"
      using IH[THEN conjunct1] cs ty nb ow L by auto
    moreover have "fl_type l = fl_type lock"
      if "fl_type lock = F_RDLCK \<longrightarrow> (\<forall>l\<in>set L. owner l \<noteq> owner lock \<longrightarrow> fl_type l \<noteq> F_RDLCK)"
        and "l \<in> set L" "owner l = owner lock" "locks_overlap l lock" for l
    proof (cases "l = conf")
      case False
      with that L have "l \<in> set (pre @ rest)" by auto
      with IH that(1,3) L os[OF that(4)] show ?thesis by (metis Un_iff list.set_intros(2) set_append)
    qed (simp add: ty)
    ultimately show ?thesis by blast
  qed
qed

abbreviation insert_piece :: "posix_lock \<Rightarrow> posix_lock list \<Rightarrow> fault + posix_lock list" where
  "insert_piece p L \<equiv> (if fl_type p = F_UNLCK then Inr L else insert_and_merge p L)"

definition no_foreign_read :: "posix_lock list \<Rightarrow> lk_owner \<Rightarrow> bool" where
  "no_foreign_read L own \<longleftrightarrow> (\<forall>l\<in>set L. owner l \<noteq> own \<longrightarrow> fl_type l \<noteq> F_RDLCK)"

lemma no_foreign_read_others:
  "others own L = others own M \<Longrightarrow> no_foreign_read L own = no_foreign_read M own"
proof -
  have "no_foreign_read K own \<longleftrightarrow> (\<forall>l\<in>set (others own K). fl_type l \<noteq> F_RDLCK)" for K
    by (auto simp: no_foreign_read_def)
  from this[of L] this[of M] show "others own L = others own M \<Longrightarrow> ?thesis" by metis
qed

lemma held_overlap:
  assumes "wf_list L" "wf_lock lock" "covers lock p"
    and "\<forall>l\<in>set L. owner l = own \<longrightarrow> locks_overlap l lock \<longrightarrow> fl_type l = t"
  shows "held L own p \<subseteq> {t}"
  using assms by (auto simp: held_def wf_list_def locks_overlap_iff)

text \<open>Inserting the pieces of a split adds them, and succeeds only where types agree.\<close>

lemma insert_pieces_held:
  assumes "foldM insert_piece ps L = Inr M" "wf_list L" "not_waiting L own"
    and "\<forall>p\<in>set ps. link p \<noteq> Link_ok \<and> wf_lock p \<and> \<not> blocked p \<and> owner p = own"
  shows "wf_list M \<and> not_waiting M own \<and> others own M = others own L \<and>
    (\<forall>q. held M own q = held L own q \<union> (held ps own q - {F_UNLCK})) \<and>
    (\<forall>pc\<in>set ps. fl_type pc \<noteq> F_UNLCK \<longrightarrow> (fl_type pc = F_RDLCK \<longrightarrow> no_foreign_read L own) \<longrightarrow>
       (\<forall>q. covers pc q \<longrightarrow> held L own q \<subseteq> {fl_type pc}))"
  using assms
proof (induction ps arbitrary: L)
  case Nil
  then show ?case by simp
next
  case (Cons p ps)
  show ?case
  proof (cases "fl_type p = F_UNLCK")
    case True
    with Cons.prems Cons.IH[of L] show ?thesis by auto
  next
    case False
    with Cons.prems(1) obtain K where K: "insert_and_merge p L = Inr K"
      and M: "foldM insert_piece ps K = Inr M"
      by auto
    from Cons.prems(4) have p: "link p \<noteq> Link_ok" "wf_lock p" "\<not> blocked p" "owner p = own" by auto
    note S = insert_and_merge_sound[OF K Cons.prems(2) p(2,3)]
    note H = insert_built_held[OF K p(1) False Cons.prems(2) p(2,3)]
    have nw: "not_waiting L (owner p)" using Cons.prems(3) p(4) by simp
    have K1: "wf_list K" "not_waiting K own" "others own K = others own L"
      using S[OF nw] p(4) by auto
    have K2: "held K own q = held L own q \<union> (if covers p q then {fl_type p} else {})" for q
      using H[OF nw] p(4) by blast
    have K3: "held L own q \<subseteq> {fl_type p}"
      if "fl_type p = F_RDLCK \<longrightarrow> no_foreign_read L own" "covers p q" for q
      using H[OF nw] that held_overlap[OF Cons.prems(2) p(2) that(2)] p(4)
      unfolding no_foreign_read_def by blast
    note IH = Cons.IH[OF M K1(1,2)]
    have nf: "no_foreign_read K own = no_foreign_read L own"
      using K1(3) by (rule no_foreign_read_others)
    have M1: "wf_list M \<and> not_waiting M own \<and> others own M = others own L"
      using IH K1 Cons.prems(4) by simp
    have M2: "held M own q = held L own q \<union> (held (p # ps) own q - {F_UNLCK})" for q
      using IH K2 False p Cons.prems(4) by auto
    have M3: "held L own q \<subseteq> {fl_type pc}"
      if "pc \<in> set ps" "fl_type pc \<noteq> F_UNLCK" "fl_type pc = F_RDLCK \<longrightarrow> no_foreign_read L own"
        "covers pc q" for pc q
      using IH K2[of q] nf that Cons.prems(4) by fastforce
    from M1 M2 M3 K3 show ?thesis by auto
  qed
qed

lemma held_none:
  assumes "wf_list K" "wf_lock lock" "covers lock p"
    and "\<forall>l\<in>set K. owner l = own \<longrightarrow> \<not> locks_overlap l lock"
  shows "held K own p = {}"
  using assms by (auto simp: held_def wf_list_def locks_overlap_iff)

text \<open>The two recursive branches of the merge, as changes of the abstract table.\<close>

lemma same_type_refines:
  assumes r: "insert_and_merge (same_type_sum lock conf) L = Inr L'"
    and wf: "wf_list L" "not_waiting L (owner lock)" "wf_lock lock" "wf_lock conf"
    and ov: "locks_overlap conf lock" and u: "fl_type lock \<noteq> F_UNLCK"
    and rd: "fl_type lock = F_RDLCK \<Longrightarrow> no_foreign_read L (owner lock)"
  shows "held L' (owner lock) p =
     (if covers lock p then {fl_type lock}
      else held L (owner lock) p \<union> (if covers conf p then {fl_type lock} else {}))"
proof -
  let ?s = "same_type_sum lock conf"
  have w: "wf_lock ?s" using wf_same_type_sum wf(3) by blast
  have "held L' (owner lock) p = held L (owner lock) p \<union> (if covers ?s p then {fl_type lock} else {}) \<and>
     (\<forall>l\<in>set L. owner l = owner lock \<longrightarrow> locks_overlap l ?s \<longrightarrow> fl_type l = fl_type lock)"
    using insert_built_held[OF r _ _ wf(1) w] wf(2) u rd unfolding no_foreign_read_def by simp
  moreover have "covers ?s p \<longleftrightarrow> covers lock p \<or> covers conf p"
    by (rule covers_same_type_sum[OF ov wf(4,3)])
  ultimately show ?thesis
    using held_overlap[OF wf(1) w, of p "owner lock" "fl_type lock"] by auto
qed

lemma split_refines:
  assumes M: "foldM insert_piece (pieces lock conf) L = Inr M"
    and wf: "wf_list L" "not_waiting L (owner lock)" "wf_lock lock" "wf_lock conf" "\<not> blocked lock"
    and ov: "locks_overlap conf lock" and ow: "owner conf = owner lock"
    and u: "fl_type conf \<noteq> F_UNLCK"
    and rd: "fl_type lock = F_RDLCK \<Longrightarrow> no_foreign_read L (owner lock)"
    and un: "fl_type lock = F_UNLCK \<Longrightarrow> \<forall>l\<in>set L. owner l = owner lock \<longrightarrow> \<not> locks_overlap l lock"
  shows "wf_list M" and "held M (owner lock) p =
     (if covers lock p then {fl_type lock} - {F_UNLCK}
      else held L (owner lock) p \<union> (if covers conf p then {fl_type conf} else {}))"
proof -
  let ?o = "owner lock"
  have ps: "\<forall>p\<in>set (pieces lock conf). link p \<noteq> Link_ok \<and> wf_lock p \<and> \<not> blocked p \<and> owner p = ?o"
    using pieces_wf[OF ov wf(4,3) ow wf(5)] by blast
  note I = insert_pieces_held[OF M wf(1,2) ps]
  then show "wf_list M" by blast
  have hM: "held M ?o p = held L ?o p \<union> (held (pieces lock conf) ?o p - {F_UNLCK})"
    using I by simp
  note P = held_pieces[OF ov wf(4,3) ow wf(5), of p]
  have "held L ?o p \<subseteq> {fl_type lock}" if cov: "covers lock p" and nu: "fl_type lock \<noteq> F_UNLCK"
  proof -
    from P cov have "fl_type lock \<in> held (pieces lock conf) ?o p" by simp
    then obtain pc where "pc \<in> set (pieces lock conf)" "fl_type pc = fl_type lock" "covers pc p"
      by (auto simp: held_def)
    then show ?thesis using I nu rd by metis
  qed
  then show "held M ?o p = (if covers lock p then {fl_type lock} - {F_UNLCK}
      else held L ?o p \<union> (if covers conf p then {fl_type conf} else {}))"
    using hM P u held_none[OF wf(1,3), of p ?o] un by (cases "fl_type lock = F_UNLCK") auto
qed

theorem insert_and_merge_refines:
  assumes r: "insert_and_merge lock L = Inr L'"
    and wf: "wf_list L" "wf_lock lock" "\<not> blocked lock" "not_waiting L (owner lock)"
    and rd: "fl_type lock = F_RDLCK \<Longrightarrow> no_foreign_read L (owner lock)"
    and un: "fl_type lock = F_UNLCK \<Longrightarrow>
               length (filter (\<lambda>l. owner l = owner lock \<and> locks_overlap l lock) L) \<le> 1"
  shows "held L' = posix_spec (owner lock) (covers lock) (fl_type lock) (held L)"
proof (intro ext)
  fix own p
  let ?o = "owner lock"
  have "held L' ?o p = posix_spec ?o (covers lock) (fl_type lock) (held L) ?o p"
  proof (cases "merge_scan lock [] L")
    case No_conflict
    then show ?thesis
      using r held_none[OF wf(1,2), of p ?o] merge_scan_No_conflict[OF No_conflict] wf(3)
      by (auto simp: insert_and_merge_unfold[of lock L] pl_insert_lock_def posix_spec_def
          split: if_splits)
  next
    case Read_shared
    from merge_scan_Read_shared[OF this] rd show ?thesis
      by (auto simp: no_foreign_read_def)
  next
    case (Own pre conf rest)
    from merge_scan_Own[OF Own] have L: "L = pre @ conf # rest" and ov: "locks_overlap conf lock"
      and ow: "owner conf = ?o"
      by (auto simp: lock_simps)
    have c: "wf_lock conf" "fl_type conf \<noteq> F_UNLCK" "\<not> blocked conf" "wf_list (pre @ rest)"
      "not_waiting (pre @ rest) ?o"
      using wf L ow by auto
    have rd': "no_foreign_read (pre @ rest) ?o" if "fl_type lock = F_RDLCK"
      using rd[OF that] L by (auto simp: no_foreign_read_def)
    show ?thesis
    proof (cases "fl_type conf = fl_type lock")
      case True
      have "insert_and_merge (same_type_sum lock conf) (pre @ rest) = Inr L'"
        using r Own True by (simp add: insert_and_merge_unfold[of lock L])
      from same_type_refines[OF this c(4,5) wf(2) c(1) ov _ rd', of p] True c(2,3) L ow show ?thesis
        by (auto simp: posix_spec_def)
    next
      case False
      with r Own obtain M where M: "foldM insert_piece (pieces lock conf) (pre @ rest) = Inr M"
        and L': "L' = delete_unlck_locks M"
        by (auto simp: insert_and_merge_unfold[of lock L] split: link_state.splits)
      have un': "\<forall>l\<in>set (pre @ rest). owner l = ?o \<longrightarrow> \<not> locks_overlap l lock"
        if "fl_type lock = F_UNLCK"
        using un[OF that] L ov ow by (auto simp: filter_empty_conv)
      note args = M c(4,5) wf(2) c(1) wf(3) ov ow c(2) rd' un'
      from split_refines(1)[OF args] split_refines(2)[OF args, of p] L' L ow c(3) show ?thesis
        by (auto simp: posix_spec_def delete_unlck_wf)
    qed
  qed
  moreover have "held L' own p = held L own p" if "own \<noteq> ?o"
    using insert_and_merge_sound[OF r wf] held_others[OF that, of L] held_others[OF that, of L'] by metis
  ultimately show "held L' own p = posix_spec ?o (covers lock) (fl_type lock) (held L) own p"
    by (cases "own = ?o") (simp_all add: posix_spec_def)
qed

subsection \<open>Requests that cannot fault\<close>

definition own_disjoint :: "posix_lock list \<Rightarrow> lk_owner \<Rightarrow> bool" where
  "own_disjoint L own \<longleftrightarrow>
     sorted_wrt (\<lambda>a b. \<not> locks_overlap a b) (filter (\<lambda>l. owner l = own) L)"

definition clear_of :: "posix_lock list \<Rightarrow> posix_lock \<Rightarrow> bool" where
  "clear_of L lock \<longleftrightarrow> (\<forall>l\<in>set L. owner l = owner lock \<longrightarrow> \<not> locks_overlap l lock)"

lemma insert_and_merge_clear:
  assumes "clear_of L lock"
  shows "insert_and_merge lock L =
     Inr (if fl_type lock \<noteq> F_UNLCK then pl_insert_lock L lock else L)"
proof (cases "merge_scan lock [] L")
  case (Own pre conf rest)
  from merge_scan_Own[OF this] assms show ?thesis
    by (auto simp: clear_of_def lock_simps)
next
  case Read_shared
  with merge_scan_Read_shared[OF this] show ?thesis
    by (simp add: insert_and_merge_unfold[of lock L])
qed (simp add: insert_and_merge_unfold[of lock L])

lemma insert_pieces_clear:
  assumes "sorted_wrt (\<lambda>a b. \<not> locks_overlap a b) ps" "\<forall>p\<in>set ps. owner p = own \<and> clear_of L p"
  shows "\<exists>M. foldM insert_piece ps L = Inr M"
  using assms
proof (induction ps arbitrary: L)
  case (Cons p ps)
  have "\<forall>q\<in>set ps. owner q = own \<and> clear_of (pl_insert_lock L p) q"
    using Cons.prems by (auto simp: clear_of_def pl_insert_lock_def locks_overlap_def)
  with Cons.prems Cons.IH[of "pl_insert_lock L p"] Cons.IH[of L] show ?case
    using insert_and_merge_clear[of L p] by auto
qed simp

lemma pieces_disjoint:
  assumes "locks_overlap conf lock" "wf_lock conf" "wf_lock lock"
  shows "sorted_wrt (\<lambda>a b. \<not> locks_overlap a b) (pieces lock conf)"
  using assms
  by (cases "fl_start lock \<le> fl_start conf"; cases "fl_end conf \<le> fl_end lock")
    (auto simp: pieces_def subtract_locks_def List.map_filter_def memcpy_lock_def sum_defs
      locks_overlap_def wf_lock_def min_def max_def)

lemma pieces_inside:
  assumes "locks_overlap conf lock" "wf_lock conf" "wf_lock lock"
    and "p \<in> set (pieces lock conf)" "locks_overlap l p"
  shows "locks_overlap l lock \<or> locks_overlap l conf"
  using assms
  by (cases "fl_start lock \<le> fl_start conf"; cases "fl_end conf \<le> fl_end lock")
    (auto simp: pieces_def subtract_locks_def List.map_filter_def memcpy_lock_def sum_defs
      locks_overlap_def wf_lock_def min_def max_def split: if_splits)

lemma sum_inside:
  assumes "locks_overlap conf lock" "locks_overlap l (same_type_sum lock conf)"
    and "wf_lock l" "wf_lock conf" "wf_lock lock"
  shows "locks_overlap l lock \<or> locks_overlap l conf"
  using assms by (auto simp: locks_overlap_def sum_defs wf_lock_def min_def max_def split: if_splits)

lemma insert_and_merge_returns:
  assumes wf: "wf_list L" "wf_lock lock" "\<not> blocked lock" and lk: "link lock = Link_ok"
    and dj: "own_disjoint L (owner lock)"
    and one: "length (filter (\<lambda>l. owner l = owner lock \<and> locks_overlap l lock) L) \<le> 1"
  shows "\<exists>L'. insert_and_merge lock L = Inr L'"
proof (cases "merge_scan lock [] L")
  case (Own pre conf rest)
  from merge_scan_Own[OF Own] have L: "L = pre @ conf # rest" and ov: "locks_overlap conf lock"
    and ow: "owner conf = owner lock"
    by (auto simp: lock_simps)
  have c: "wf_lock conf" using wf L by simp
  have cl: "clear_of (pre @ rest) lock" "clear_of (pre @ rest) conf"
    using one dj L ov ow
    by (auto simp: clear_of_def own_disjoint_def filter_empty_conv sorted_wrt_append locks_overlap_sym)
  show ?thesis
  proof (cases "fl_type conf = fl_type lock")
    case True
    have "clear_of (pre @ rest) (same_type_sum lock conf)"
      using cl sum_inside[OF ov _ _ c wf(2)] ow wf(1) L
      by (auto simp: clear_of_def wf_list_def)
    from insert_and_merge_clear[OF this] Own True show ?thesis
      by (simp add: insert_and_merge_unfold[of lock L])
  next
    case False
    have "\<forall>p\<in>set (pieces lock conf). owner p = owner lock \<and> clear_of (pre @ rest) p"
      using pieces_wf[OF ov c wf(2) ow wf(3)] pieces_inside[OF ov c wf(2)] cl ow
      by (fastforce simp: clear_of_def)
    from insert_pieces_clear[OF pieces_disjoint[OF ov c wf(2)] this] Own False lk show ?thesis
      by (auto simp: insert_and_merge_unfold[of lock L])
  qed
qed (auto simp: insert_and_merge_unfold[of lock L])

subsection \<open>Requests over several locks of the requester\<close>

lemma unlock_removes_first_only:
  assumes "fl_type lock = F_UNLCK" "link lock = Link_ok" "wf_list L" "wf_lock lock"
    and Own: "merge_scan lock [] L = Own pre conf rest"
    and cov: "fl_start lock \<le> fl_start conf" "fl_end conf \<le> fl_end lock"
  shows "insert_and_merge lock L = Inr (pre @ rest)"
proof -
  from merge_scan_Own[OF Own] assms(3) have L: "wf_list (pre @ rest)" "fl_type conf \<noteq> F_UNLCK"
    by auto
  have "pieces lock conf = [(memcpy_lock (other_type_sum lock conf))\<lparr>fl_type := F_UNLCK\<rparr>]"
    using cov assms(1) by (simp add: pieces_def subtract_locks_def List.map_filter_def sum_defs)
  then show ?thesis
    using Own L assms(1,2) by (simp add: insert_and_merge_unfold[of lock L] delete_unlck_wf)
qed

lemma merge_scan_same:
  assumes "fl_start a = fl_start b" "fl_end a = fl_end b" "fl_type a = fl_type b" "owner a = owner b"
  shows "merge_scan a pre L = merge_scan b pre L"
  using assms by (induction L arbitrary: pre) (auto simp: locks_overlap_def lock_simps)

lemma retype_two_faults:
  assumes "fl_type lock \<noteq> F_UNLCK" "link lock = Link_ok"
    and Own: "merge_scan lock [] L = Own pre conf rest" "fl_type conf \<noteq> fl_type lock"
    and cov: "fl_start lock \<le> fl_start conf" "fl_end conf \<le> fl_end lock"
    and Own2: "merge_scan lock [] (pre @ rest) = Own pre2 conf2 rest2" "fl_type conf2 \<noteq> fl_type lock"
  shows "insert_and_merge lock L = Inl Null_Deref"
proof -
  let ?v = "(memcpy_lock (other_type_sum lock conf))\<lparr>fl_type := fl_type lock\<rparr>"
  have p: "pieces lock conf = [?v]"
    using cov by (simp add: pieces_def subtract_locks_def List.map_filter_def sum_defs)
  have "merge_scan ?v [] (pre @ rest) = merge_scan lock [] (pre @ rest)"
    using cov merge_scan_Own[OF Own(1)]
    by (intro merge_scan_same) (auto simp: memcpy_lock_def sum_defs owner_def same_owner_def)
  moreover have "link ?v = Link_null" by (simp add: memcpy_lock_def sum_defs)
  ultimately have "insert_and_merge ?v (pre @ rest) = Inl Null_Deref"
    using Own2 by (simp add: insert_and_merge_unfold[of ?v])
  with p show ?thesis
    using Own assms(1,2) by (simp add: insert_and_merge_unfold[of lock L])
qed

subsection \<open>The invariant of a domain's list\<close>

definition waiters_ok :: "posix_lock list \<Rightarrow> bool" where
  "waiters_ok L \<longleftrightarrow> distinct (map owner (filter blocked L)) \<and>
     (\<forall>l\<in>set (filter blocked L). frame l \<noteq> None)"

definition list_inv :: "posix_lock list \<Rightarrow> bool" where
  "list_inv L \<longleftrightarrow> wf_list L \<and> excl L \<and> waiters_ok L"

lemma held_blocked [simp]: "blocked l \<Longrightarrow> held (L @ [l]) = held L"
  by (intro ext) simp

lemma excl_insert_blocked [simp]: "excl (pl_insert_lock L (l\<lparr>blocked := True\<rparr>)) = excl L"
  by (simp add: excl_def pl_insert_lock_def)

lemma filter_blocked_others:
  "not_waiting L own \<Longrightarrow> filter blocked L = filter blocked (others own L)"
  by (induction L) auto

lemma insert_and_merge_blocked:
  assumes "insert_and_merge lock L = Inr L'"
    and "wf_list L" "wf_lock lock" "\<not> blocked lock" "not_waiting L (owner lock)"
  shows "filter blocked L' = filter blocked L"
  using insert_and_merge_sound[OF assms] filter_blocked_others[of L' "owner lock"]
    filter_blocked_others[OF assms(5)] by simp

lemma waiters_ok_blocked: "filter blocked L' = filter blocked L \<Longrightarrow> waiters_ok L' = waiters_ok L"
  unfolding waiters_ok_def by (simp only:)

lemma insert_and_merge_inv [wf_intros]:
  assumes "insert_and_merge lock L = Inr L'" "pl_is_lock_grantable L lock"
    and "wf_lock lock" "\<not> blocked lock" "not_waiting L (owner lock)" "list_inv L"
  shows "list_inv L'"
proof -
  from assms(6) have L: "wf_list L" "excl L" "waiters_ok L" by (auto simp: list_inv_def)
  show ?thesis
    using insert_and_merge_sound[OF assms(1) L(1) assms(3-5)] L
      insert_and_merge_excl[OF assms(1,2) L(1) assms(3-5) L(2)]
      waiters_ok_blocked[OF insert_and_merge_blocked[OF assms(1) L(1) assms(3-5)]]
    by (simp add: list_inv_def)
qed

lemma setlk_locked_inv [wf_intros]:
  assumes "setlk_locked L lock can_block = Inr (L', ret)" and "list_inv L"
    and "wf_lock lock" "fl_type lock \<noteq> F_UNLCK \<or> pl_is_lock_grantable L lock"
    "\<not> blocked lock" "not_waiting L (owner lock)"
    and "can_block \<Longrightarrow> frame lock \<noteq> None"
  shows "list_inv L'"
proof (cases "pl_is_lock_grantable L lock")
  case True
  with assms(1) have "insert_and_merge lock L = Inr L'" by (simp add: setlk_locked_def)
  from insert_and_merge_inv[OF this True assms(3,5,6,2)] show ?thesis .
next
  case False
  show ?thesis
  proof (cases can_block)
    case True
    have "owner lock \<notin> owner ` set (filter blocked L)"
      using assms(6) by (auto simp: not_waiting_def)
    with True False assms show ?thesis
      by (auto simp: setlk_locked_def list_inv_def waiters_ok_def pl_insert_lock_def excl_def)
  next
    case False
    with \<open>\<not> pl_is_lock_grantable L lock\<close> assms show ?thesis by (simp add: setlk_locked_def)
  qed
qed

subsection \<open>Granting keeps the invariant and answers exactly the waiters it releases\<close>

abbreviation unblock :: "posix_lock \<Rightarrow> posix_lock" where
  "unblock l \<equiv> l\<lparr>blocked := False\<rparr>"

definition movable :: "posix_lock list \<Rightarrow> posix_lock \<Rightarrow> bool" where
  "movable L l \<longleftrightarrow> blocked l \<and> first_overlap L l = None"

lemma first_overlap_unblocked:
  "first_overlap L l = first_overlap (filter (\<lambda>k. \<not> blocked k) L) l"
  by (induction L) auto

lemma grant_candidates_eq:
  "grant_candidates kept rest tmp =
     (kept @ filter (\<lambda>l. \<not> movable (kept @ rest) l) rest,
      tmp @ map unblock (filter (movable (kept @ rest)) rest))"
proof (induction kept rest tmp rule: grant_candidates.induct)
  case (2 kept l rest tmp)
  have eq: "movable (kept @ rest) = movable (kept @ l # rest)" if "blocked l"
    using that first_overlap_unblocked[of "kept @ rest"] first_overlap_unblocked[of "kept @ l # rest"]
    by (auto simp: movable_def fun_eq_iff)
  show ?case
    using 2 eq by (auto simp: movable_def split: option.splits)
qed simp

lemma grant_each_inv:
  assumes "grant_each alloc L tmp granted = Inr (L', granted')"
    and "wf_list L" "excl L" "\<forall>l\<in>set tmp. wf_lock l \<and> fl_type l \<noteq> F_UNLCK \<and> \<not> blocked l"
    and "waiters_ok (L @ map (\<lambda>l. l\<lparr>blocked := True\<rparr>) tmp)"
  shows "list_inv L' \<and>
    mset (map frame (filter blocked L')) + mset (map frame granted') =
    mset (map frame (filter blocked L)) + mset (map frame tmp) + mset (map frame granted)"
  using assms
proof (induction alloc L tmp granted arbitrary: L' granted' rule: grant_each.induct)
  case (1 alloc L granted)
  then show ?case by (simp add: list_inv_def)
next
  case (2 alloc L l tmp granted)
  let ?k = "l\<lparr>frame := None, link := Link_ok\<rparr>"
  let ?bl = "pl_insert_lock L (l\<lparr>blocked := True\<rparr>)"
  show ?case
  proof (cases "pl_is_lock_grantable L l \<and> alloc (length tmp)")
    case True
    with 2(4) obtain M where M: "insert_and_merge ?k L = Inr M"
      and r: "grant_each alloc M tmp
         (calloc_lock\<lparr>frame := frame l, user_flock := posix_lock_to_flock l\<rparr> # granted) = Inr (L', granted')"
      by auto
    have g: "pl_is_lock_grantable L ?k"
      using True by (simp add: pl_is_lock_grantable_iff locks_overlap_def owner_def)
    have k: "wf_lock ?k" "\<not> blocked ?k" using 2(7) by simp_all
    have nw: "not_waiting L (owner ?k)"
      using 2(8) by (auto simp: waiters_ok_def not_waiting_def image_iff)
    have bl: "filter blocked M = filter blocked L"
      by (rule insert_and_merge_blocked[OF M 2(5) k nw])
    have "waiters_ok (M @ map (\<lambda>l. l\<lparr>blocked := True\<rparr>) tmp)"
      using 2(8) waiters_ok_blocked[of "M @ _ tmp" "L @ _ tmp"] bl by (simp add: waiters_ok_def)
    moreover have "wf_list M" "excl M"
      using insert_and_merge_sound[OF M 2(5) k nw] insert_and_merge_excl[OF M g 2(5) k nw 2(6)] by auto
    ultimately show ?thesis
      using 2(2)[OF _ _ M r] True 2(7) bl by simp
  next
    case False
    have r: "grant_each alloc ?bl tmp granted = Inr (L', granted')"
      using 2(4) False by (auto split: if_splits)
    have bl: "wf_list ?bl" "excl ?bl" "\<forall>l\<in>set tmp. wf_lock l \<and> fl_type l \<noteq> F_UNLCK \<and> \<not> blocked l"
      "waiters_ok (?bl @ map (\<lambda>l. l\<lparr>blocked := True\<rparr>) tmp)"
      using 2(5-8) by (auto simp: waiters_ok_def pl_insert_lock_def excl_def)
    have "list_inv L' \<and>
      mset (map frame (filter blocked L')) + mset (map frame granted') =
      mset (map frame (filter blocked ?bl)) + mset (map frame tmp) + mset (map frame granted)"
      using 2(1)[OF _ _ r bl] 2(3)[OF _ r bl] False by blast
    then show ?thesis by (simp add: pl_insert_lock_def)
  qed
qed

lemma mset_map_partition:
  "mset (map f (filter (\<lambda>x. \<not> P x) xs)) + mset (map f (filter P xs)) = mset (map f xs)"
  by (induction xs) auto

lemma movable_blocked: "filter (movable L) M = filter (movable L) (filter blocked M)"
  by (auto simp: movable_def intro!: filter_cong)

lemma waiters_ok_mset:
  assumes "mset (map owner (filter blocked L')) = mset (map owner (filter blocked L))"
    and "mset (map frame (filter blocked L')) = mset (map frame (filter blocked L))"
  shows "waiters_ok L' = waiters_ok L"
proof -
  have "waiters_ok M \<longleftrightarrow> distinct (map owner (filter blocked M)) \<and>
          None \<notin> set (map frame (filter blocked M))" for M
    unfolding waiters_ok_def set_map image_iff by metis
  from this[of L] this[of L'] mset_eq_imp_distinct_iff[OF assms(1)] mset_eq_setD[OF assms(2)]
  show ?thesis by (simp only:)
qed

lemma grant_locked_inv:
  assumes "grant_blocked_locks_locked alloc L = Inr (L', granted)" "list_inv L"
  shows "list_inv L' \<and>
    mset (map frame (filter blocked L')) + mset (map frame granted) =
    mset (map frame (filter blocked L))"
proof -
  let ?kept = "filter (\<lambda>l. \<not> movable L l) L" and ?mv = "filter (movable L) L"
  have r: "grant_each alloc ?kept (map unblock ?mv) [] = Inr (L', granted)"
    using assms(1) by (simp add: grant_blocked_locks_locked_def grant_candidates_eq)
  have part: "mset (map f (filter blocked ?kept)) + mset (map f ?mv) = mset (map f (filter blocked L))"
    for f :: "posix_lock \<Rightarrow> 'b"
    using mset_map_partition[of f "movable L" "filter blocked L"] movable_blocked[of L L]
    by (simp add: conj_commute)
  have "held ?kept = held L"
    by (intro ext) (auto simp: held_def movable_def)
  then have "excl ?kept" using assms(2) by (simp add: list_inv_def excl_def)
  moreover have "wf_list ?kept" "\<forall>l\<in>set (map unblock ?mv). wf_lock l \<and> fl_type l \<noteq> F_UNLCK \<and> \<not> blocked l"
    using assms(2) by (auto simp: list_inv_def wf_list_def)
  moreover have "waiters_ok (?kept @ map (\<lambda>l. l\<lparr>blocked := True\<rparr>) (map unblock ?mv))"
  proof -
    let ?K = "?kept @ map (\<lambda>l. l\<lparr>blocked := True\<rparr>) (map unblock ?mv)"
    have "mset (map owner (filter blocked ?K)) = mset (map owner (filter blocked L))"
      using part[of owner] by (simp add: o_def)
    moreover have "mset (map frame (filter blocked ?K)) = mset (map frame (filter blocked L))"
      using part[of frame] by (simp add: o_def)
    ultimately show ?thesis
      using assms(2) waiters_ok_mset[of ?K L] by (simp only: list_inv_def)
  qed
  ultimately have "list_inv L' \<and>
    mset (map frame (filter blocked L')) + mset (map frame granted) =
    mset (map frame (filter blocked ?kept)) + mset (map frame (map unblock ?mv)) + mset (map frame ([] :: posix_lock list))"
    using grant_each_inv[OF r] by blast
  then show ?thesis using part[of frame] by (simp add: o_def)
qed

section \<open>The lock list as a state machine\<close>

text \<open>
  The request \<^verbatim>\<open>pl_lk\<close> builds from a user's \<^verbatim>\<open>struct flock\<close>, and the requests the translator
  can handle without leaving the signed 64-bit range: the code does not check them.
\<close>

definition lk_request :: "flock \<Rightarrow> nat \<Rightarrow> int \<Rightarrow> call_frame option \<Rightarrow> posix_lock" where
  "lk_request fl tr pid fr = (new_posix_lock fl tr pid)\<lparr>user_flock := fl, frame := fr\<rparr>"

definition valid_flock :: "flock \<Rightarrow> bool" where
  "valid_flock fl \<longleftrightarrow> 0 \<le> l_start fl \<and> 0 \<le> l_len fl \<and> l_start fl + l_len fl - 1 \<le> LLONG_MAX \<and>
     l_start fl \<le> LLONG_MAX \<and> l_len fl \<le> LLONG_MAX"

text \<open>
  One step per critical section: a request, a pass over the blocked requests, and the removal of
  an owner's locks by \<^verbatim>\<open>pl_flush\<close>. The steps of different owners and the grant passes interleave
  freely.
\<close>

datatype lk_event = Setlk flock nat int "call_frame option" bool | Grant "nat \<Rightarrow> bool" | Flush nat int

inductive lk_step :: "lk_event \<Rightarrow> posix_lock list \<Rightarrow> posix_lock list \<Rightarrow> bool" where
  setlk: "setlk_locked L (lk_request fl tr pid fr) can_block = Inr (L', ret) \<Longrightarrow> lk_step (Setlk fl tr pid fr can_block) L L'"
| grant: "grant_blocked_locks_locked alloc L = Inr (L', granted) \<Longrightarrow> lk_step (Grant alloc) L L'"
| flush: "lk_step (Flush tr pid) L (filter (\<lambda>l. \<not> (transport l = tr \<and> client_pid l = pid)) L)"

text \<open>
  What the properties ask of the requests: the range of the \<^verbatim>\<open>struct flock\<close> stays in the signed
  64-bit range, the owner has no request waiting (a process that sends its requests one at a
  time), and a request that may block has a caller to answer.
\<close>

fun orderly :: "posix_lock list \<Rightarrow> lk_event \<Rightarrow> bool" where
  "orderly L (Setlk fl tr pid fr can_block) \<longleftrightarrow>
     valid_flock fl \<and> not_waiting L (Owner tr pid) \<and> (can_block \<longrightarrow> fr \<noteq> None)"
| "orderly L e \<longleftrightarrow> True"

definition orderly_step :: "posix_lock list \<Rightarrow> posix_lock list \<Rightarrow> bool" where
  "orderly_step L L' \<longleftrightarrow> (\<exists>e. orderly L e \<and> lk_step e L L')"

lemma new_posix_lock_simps [simp]:
  "owner (new_posix_lock fl tr pid) = Owner tr pid"
  "fl_type (new_posix_lock fl tr pid) = l_type fl"
  "\<not> blocked (new_posix_lock fl tr pid)"
  "link (new_posix_lock fl tr pid) = Link_ok"
  "fl_start (new_posix_lock fl tr pid) = l_start fl"
  "client_pid (new_posix_lock fl tr pid) = pid"
  by (simp_all add: new_posix_lock_def calloc_lock_def owner_def)

lemma new_posix_lock_wf: "valid_flock fl \<Longrightarrow> wf_lock (new_posix_lock fl tr pid)"
  by (auto simp: wf_lock_def new_posix_lock_def calloc_lock_def valid_flock_def)

lemma lk_request_simps [simp]:
  "owner (lk_request fl tr pid fr) = Owner tr pid"
  "fl_type (lk_request fl tr pid fr) = l_type fl"
  "\<not> blocked (lk_request fl tr pid fr)"
  "link (lk_request fl tr pid fr) = Link_ok"
  "frame (lk_request fl tr pid fr) = fr"
  "wf_lock (lk_request fl tr pid fr) = wf_lock (new_posix_lock fl tr pid)"
  using new_posix_lock_simps(1)[of fl tr pid]
  by (simp_all add: lk_request_def owner_def wf_lock_def)

lemma list_inv_filter:
  assumes "list_inv L"
  shows "list_inv (filter P L)"
proof -
  have "held (filter P L) own p \<subseteq> held L own p" for own p by (auto simp: held_def)
  then have "excl (filter P L)"
    using assms unfolding list_inv_def excl_def by (metis subset_empty subsetD)
  moreover have "distinct (map owner (filter blocked (filter P L)))"
    using assms distinct_map_filter[of owner "filter blocked L" P]
    by (simp add: list_inv_def waiters_ok_def conj_commute)
  ultimately show ?thesis
    using assms by (auto simp: list_inv_def waiters_ok_def wf_list_def)
qed

lemma unlock_grantable: "fl_type lock = F_UNLCK \<Longrightarrow> pl_is_lock_grantable L lock"
  by (simp add: pl_is_lock_grantable_iff)

lemma lk_step_inv:
  assumes "lk_step e L L'" and "orderly L e" "list_inv L"
  shows "list_inv L'"
  using assms
proof (induction rule: lk_step.induct)
  case (setlk L fl tr pid fr can_block L' ret)
  show ?case
    by (rule setlk_locked_inv[OF setlk(1,3)])
      (use setlk new_posix_lock_wf unlock_grantable in auto)
next
  case (grant alloc L L' granted)
  then show ?case using grant_locked_inv by blast
next
  case (flush tr pid L)
  then show ?case by (intro list_inv_filter)
qed

interpretation posix_lk: step_system "\<lambda>L. L = []" orderly_step list_inv
proof
  show "list_inv s" if "s = []" for s
    using that by (simp add: list_inv_def excl_def waiters_ok_def)
  show "list_inv s'" if "list_inv s" "orderly_step s s'" for s s'
    using that lk_step_inv by (auto simp: orderly_step_def)
qed

lemma unwind_granted_ok:
  "\<forall>l\<in>set granted. frame l \<noteq> None \<Longrightarrow>
     unwind_granted granted =
       Inr (map (\<lambda>l. Unwind (the (frame l)) 0 0 (Some (user_flock l))) granted)"
  by (induction granted) auto

fun action_frame :: "action \<Rightarrow> call_frame" where
  "action_frame (Unwind fr ret err fl) = fr"
| "action_frame (Wind fr c) = fr"

lemma granted_frames:
  assumes "mset (map frame K) + mset (map frame granted) = mset (map frame B)"
    and "\<forall>l\<in>set B. frame l \<noteq> None"
  shows "\<forall>l\<in>set granted. frame l \<noteq> None"
proof
  fix l assume "l \<in> set granted"
  then have "frame l \<in># mset (map frame B)" unfolding assms(1)[symmetric] by auto
  then show "frame l \<noteq> None" using assms(2) by auto
qed

section \<open>Properties\<close>

text \<open>C1. Mutual exclusion. From an empty lock list, along every interleaving of requests, grant
  passes and flushes in which each owner sends its next request only when it has none waiting and
  with a range that does not overflow, two granted locks of different owners that share an offset
  are both read locks.\<close>

theorem posix_locks_exclusion:
  assumes "orderly_step\<^sup>*\<^sup>* [] L" and "a \<in> set L" "b \<in> set L" "\<not> blocked a" "\<not> blocked b"
    and "locks_overlap a b" "\<not> same_owner a b"
  shows "fl_type a = F_RDLCK \<and> fl_type b = F_RDLCK"
proof -
  have inv: "list_inv L" using posix_lk.inv_reach assms(1) by blast
  then have wf: "wf_lock a" "wf_lock b" "fl_type a \<noteq> F_UNLCK" "fl_type b \<noteq> F_UNLCK"
    using assms by (auto simp: list_inv_def wf_list_def)
  obtain p where "covers a p" "covers b p"
    using assms(6) wf unfolding locks_overlap_iff[OF wf(1,2)] by blast
  then have "fl_type a \<in> held L (owner a) p" "fl_type b \<in> held L (owner b) p" "owner a \<noteq> owner b"
    using assms held_mem by (auto simp: lock_simps)
  then have "fl_type a \<noteq> F_WRLCK" "fl_type b \<noteq> F_WRLCK"
    using inv exclD[of L] by (metis empty_iff list_inv_def)+
  with wf show ?thesis by (metis lk_type.exhaust)
qed

definition ex_flock :: "lk_type \<Rightarrow> off_t \<Rightarrow> off_t \<Rightarrow> flock" where
  "ex_flock t s n = \<lparr>l_type = t, l_start = s, l_len = n, l_pid = 0\<rparr>"

definition ex_lock :: "lk_type \<Rightarrow> off_t \<Rightarrow> off_t \<Rightarrow> nat \<Rightarrow> posix_lock" where
  "ex_lock t s n tr = lk_request (ex_flock t s n) tr 7 None"

lemma ex_two_readers: "orderly_step\<^sup>*\<^sup>* [] [ex_lock F_RDLCK 0 10 1, ex_lock F_RDLCK 5 10 2]"
proof -
  have "lk_step (Setlk (ex_flock F_RDLCK 0 10) 1 7 None False) [] [ex_lock F_RDLCK 0 10 1]"
    by (rule lk_step.setlk[of _ _ _ _ _ _ _ 0]) code_simp
  moreover have "orderly [] (Setlk (ex_flock F_RDLCK 0 10) 1 7 None False)" by code_simp
  ultimately have "orderly_step [] [ex_lock F_RDLCK 0 10 1]" unfolding orderly_step_def by blast
  moreover have "lk_step (Setlk (ex_flock F_RDLCK 5 10) 2 7 None False) [ex_lock F_RDLCK 0 10 1] [ex_lock F_RDLCK 0 10 1, ex_lock F_RDLCK 5 10 2]"
    by (rule lk_step.setlk[of _ _ _ _ _ _ _ 0]) code_simp
  moreover have "orderly [ex_lock F_RDLCK 0 10 1] (Setlk (ex_flock F_RDLCK 5 10) 2 7 None False)" by code_simp
  ultimately have "orderly_step [ex_lock F_RDLCK 0 10 1] [ex_lock F_RDLCK 0 10 1, ex_lock F_RDLCK 5 10 2]"
    unfolding orderly_step_def by blast
  with \<open>orderly_step [] [ex_lock F_RDLCK 0 10 1]\<close> show ?thesis by (meson converse_rtranclp_into_rtranclp rtranclp.rtrancl_refl)
qed

theorem posix_locks_exclusion_witness:
  "fl_type (ex_lock F_RDLCK 0 10 1) = F_RDLCK \<and> fl_type (ex_lock F_RDLCK 5 10 2) = F_RDLCK"
  by (rule posix_locks_exclusion[OF ex_two_readers]; code_simp)

text \<open>C10. The code implements the POSIX lock table, within these limits: the list is well-formed,
  the locks of the owner do not overlap and none of its requests waits, the range does not overflow,
  the request is grantable and meets at most one lock of its owner, and for a read lock no other
  owner holds a read lock. Then the request returns 0 and leaves exactly the abstract table's result:
  at the offsets of the range the owner holds the requested type (nothing for an unlock), and every
  other offset and owner is as before, whether the merge joined, split, trimmed or removed a lock.\<close>

theorem posix_request_exact:
  assumes "list_inv L" "own_disjoint L (Owner tr pid)" "not_waiting L (Owner tr pid)"
    and "valid_flock fl" and lock: "lock = lk_request fl tr pid fr"
    and "pl_is_lock_grantable L lock"
    and "length (filter (\<lambda>l. owner l = owner lock \<and> locks_overlap l lock) L) \<le> 1"
    and "l_type fl = F_RDLCK \<longrightarrow> no_foreign_read L (Owner tr pid)"
  shows "\<exists>L'. setlk_locked L lock can_block = Inr (L', 0) \<and>
    held L' = posix_spec (Owner tr pid) (covers lock) (l_type fl) (held L)"
proof -
  have wf: "wf_list L" "wf_lock lock" "\<not> blocked lock" "link lock = Link_ok"
    "owner lock = Owner tr pid" "fl_type lock = l_type fl"
    using assms new_posix_lock_wf by (auto simp: list_inv_def)
  obtain L' where r: "insert_and_merge lock L = Inr L'"
    using insert_and_merge_returns[OF wf(1-4)] assms(2,7) wf(5) by auto
  have "held L' = posix_spec (owner lock) (covers lock) (fl_type lock) (held L)"
    by (rule insert_and_merge_refines[OF r wf(1-3)]) (use assms wf in auto)
  with r assms(6) wf show ?thesis by (simp add: setlk_locked_def)
qed

lemmas inv_defs = list_inv_def wf_list_def excl_def waiters_ok_def held_def covers_def wf_lock_def
lemmas ex_defs = ex_lock_def ex_flock_def lk_request_def new_posix_lock_def calloc_lock_def
  owner_def off_wrap_def

text \<open>A write-locked range of owner 1 is cut in the middle by an unlock, beside owner 2.\<close>

theorem posix_request_exact_witness:
  "\<exists>L'. setlk_locked [ex_lock F_WRLCK 0 100 1, ex_lock F_RDLCK 200 10 2]
        (lk_request (ex_flock F_UNLCK 40 10) 1 7 None) True = Inr (L', 0) \<and>
     held L' = posix_spec (Owner 1 7) (covers (lk_request (ex_flock F_UNLCK 40 10) 1 7 None))
       (l_type (ex_flock F_UNLCK 40 10)) (held [ex_lock F_WRLCK 0 100 1, ex_lock F_RDLCK 200 10 2])"
proof (rule posix_request_exact[OF _ _ _ _ refl])
  show "list_inv [ex_lock F_WRLCK 0 100 1, ex_lock F_RDLCK 200 10 2]"
    by (auto simp: inv_defs ex_defs)
qed (code_simp+)

text \<open>C32. Waiters are answered exactly once. On a well-formed list, with at most one waiting request
  of an owner and a caller for each, a grant pass that comes to its end without a fault answers the
  callers of the requests it grants, never dereferences a missing call frame, and the callers
  that waited before are, with multiplicity, those still waiting and those answered.\<close>

theorem grant_answers_waiters:
  assumes "list_inv (DOMAIN_HEAD pl d)"
    and "grant_blocked_locks_locked alloc (DOMAIN_HEAD pl d) = Inr (L', granted)"
  shows "\<exists>acts. grant_blocked_locks alloc pl d = Inr (set_domain pl d L', acts) \<and>
    mset (map frame (filter blocked L')) + mset (map (Some \<circ> action_frame) acts) =
    mset (map frame (filter blocked (DOMAIN_HEAD pl d)))"
proof -
  note g = grant_locked_inv[OF assms(2,1)]
  let ?acts = "map (\<lambda>l. Unwind (the (frame l)) 0 0 (Some (user_flock l))) granted"
  have fr: "\<forall>l\<in>set granted. frame l \<noteq> None"
    using granted_frames[OF g[THEN conjunct2]] assms(1)
    by (simp add: list_inv_def waiters_ok_def)
  then have "map (Some \<circ> action_frame) ?acts = map frame granted" by auto
  then have "mset (map frame (filter blocked L')) + mset (map (Some \<circ> action_frame) ?acts) =
      mset (map frame (filter blocked (DOMAIN_HEAD pl d)))"
    using g by (simp only:)
  moreover have "grant_blocked_locks alloc pl d = Inr (set_domain pl d L', ?acts)"
    using fr assms(2) by (simp add: grant_blocked_locks_def unwind_granted_ok)
  ultimately show ?thesis by blast
qed

definition ex_waiter :: posix_lock where
  "ex_waiter = (lk_request (ex_flock F_WRLCK 0 10) 2 9
     (Some \<lparr>frame_id = 5, root_trans = 2, root_pid = 9\<rparr>))\<lparr>blocked := True\<rparr>"

definition ex_inode :: pl_inode where
  "ex_inode = \<lparr>ext_list = [ex_lock F_RDLCK 50 10 1, ex_waiter], int_list = [],
     rw_list = [], mandatory = False\<rparr>"

definition ex_inode_list :: "posix_lock list" where
  "ex_inode_list = [ex_lock F_RDLCK 50 10 1, ex_waiter\<lparr>blocked := False, frame := None\<rparr>]"

theorem grant_answers_waiters_witness:
  "\<exists>acts. grant_blocked_locks (\<lambda>_. True) ex_inode GF_LOCK_POSIX =
      Inr (set_domain ex_inode GF_LOCK_POSIX ex_inode_list, acts) \<and>
    mset (map frame (filter blocked ex_inode_list)) + mset (map (Some \<circ> action_frame) acts) =
    mset (map frame (filter blocked (DOMAIN_HEAD ex_inode GF_LOCK_POSIX)))"
proof (rule grant_answers_waiters)
  show "list_inv (DOMAIN_HEAD ex_inode GF_LOCK_POSIX)"
    by (auto simp: inv_defs ex_defs ex_inode_def ex_waiter_def)
  show "grant_blocked_locks_locked (\<lambda>_. True) (DOMAIN_HEAD ex_inode GF_LOCK_POSIX) =
    Inr (ex_inode_list, [calloc_lock\<lparr>frame := frame ex_waiter,
      user_flock := (user_flock ex_waiter)\<lparr>l_pid := 9\<rparr>\<rparr>])"
    by code_simp
qed

text \<open>C36. A \<^verbatim>\<open>struct flock\<close> survives the translator's own form: a lock with a valid range of at
  least one byte that does not end with byte 0 is reported back with the range and type it was
  requested with, and the process id of the client in place of its own. Locks to the end of the file
  (length 0) and of byte 0 alone do not survive.\<close>

theorem flock_roundtrip:
  assumes "valid_flock fl" "0 < l_len fl" "l_start fl + l_len fl \<noteq> 1"
  shows "posix_lock_to_flock (new_posix_lock fl tr pid) = fl\<lparr>l_pid := pid\<rparr>"
  using assms off_wrap_id[of "l_start fl + l_len fl - 1"] off_wrap_id[of "l_len fl"]
  by (cases fl)
    (auto simp: posix_lock_to_flock_def new_posix_lock_def calloc_lock_def valid_flock_def LLONG_MAX_def)

theorem flock_roundtrip_witness:
  "posix_lock_to_flock (new_posix_lock (ex_flock F_WRLCK 3 20) 1 7) =
     (ex_flock F_WRLCK 3 20)\<lparr>l_pid := 7\<rparr>"
  by (rule flock_roundtrip; code_simp)

text \<open>Two requests come back changed: a lock of the whole file (start 0, length 0) is
  reported with the length -2^63, an overflow, and a lock of byte 0 alone with the length of
  the whole file.\<close>

theorem flock_roundtrip_lost:
  "l_len (posix_lock_to_flock (new_posix_lock \<lparr>l_type = t, l_start = 0, l_len = 0, l_pid = q\<rparr> tr pid))
     = - (2 ^ 63) \<and>
   l_len (posix_lock_to_flock (new_posix_lock \<lparr>l_type = t, l_start = 0, l_len = 1, l_pid = q\<rparr> tr pid))
     = LLONG_MAX"
  by (simp add: posix_lock_to_flock_def new_posix_lock_def calloc_lock_def off_wrap_def LLONG_MAX_def)

text \<open>An unlock over several locks of its owner releases only the first: when the first of
  its owner's locks that overlap the range lies inside it, the list loses that lock and keeps
  every other one, also those inside the range.\<close>

theorem unlock_releases_first_only:
  assumes "fl_type lock = F_UNLCK" "link lock = Link_ok" "wf_list L" "wf_lock lock"
    and "merge_scan lock [] L = Own pre conf rest"
    and "fl_start lock \<le> fl_start conf" "fl_end conf \<le> fl_end lock"
  shows "insert_and_merge lock L = Inr (pre @ rest)"
  using assms by (rule unlock_removes_first_only)

theorem unlock_releases_first_only_witness:
  "insert_and_merge (ex_lock F_UNLCK 0 100 1) [ex_lock F_WRLCK 0 10 1, ex_lock F_WRLCK 20 10 1]
     = Inr ([] @ [ex_lock F_WRLCK 20 10 1])"
  by (rule unlock_releases_first_only[where conf = "ex_lock F_WRLCK 0 10 1"]; code_simp)

text \<open>Changing the type of a range that spans two locks of its owner crashes: once the
  first was replaced, the second merge unlinks a freshly allocated lock from a list it was
  never on, through null pointers.\<close>

theorem retype_over_two_locks_crashes:
  assumes "fl_type lock \<noteq> F_UNLCK" "link lock = Link_ok"
    and "merge_scan lock [] L = Own pre conf rest" "fl_type conf \<noteq> fl_type lock"
    and "fl_start lock \<le> fl_start conf" "fl_end conf \<le> fl_end lock"
    and "merge_scan lock [] (pre @ rest) = Own pre2 conf2 rest2" "fl_type conf2 \<noteq> fl_type lock"
  shows "insert_and_merge lock L = Inl Null_Deref"
  using assms by (rule retype_two_faults)

theorem retype_over_two_locks_crashes_witness:
  "insert_and_merge (ex_lock F_RDLCK 0 100 1) [ex_lock F_WRLCK 0 10 1, ex_lock F_WRLCK 20 10 1]
     = Inl Null_Deref"
  by (rule retype_over_two_locks_crashes[where pre = "[]" and conf = "ex_lock F_WRLCK 0 10 1"
        and rest = "[ex_lock F_WRLCK 20 10 1]" and ?conf2.0 = "ex_lock F_WRLCK 20 10 1"
        and ?pre2.0 = "[]" and ?rest2.0 = "[]"]; code_simp)

text \<open>A waiting request is merged as if it were granted: owner 2 waits for bytes 0 to 99,
  the last ten of which owner 1 has write-locked, and then asks for bytes 0 to 9. Its request
  is granted with the waiting one, so that both owners hold write locks on bytes 90 to 99, and
  no request waits any more.\<close>

theorem waiting_request_merged_as_granted:
  "\<exists>L'. setlk_locked [ex_lock F_WRLCK 90 10 1, (ex_lock F_WRLCK 0 100 2)\<lparr>blocked := True\<rparr>]
           (ex_lock F_WRLCK 0 10 2) True = Inr (L', 0) \<and>
     filter blocked L' = [] \<and> F_WRLCK \<in> held L' (Owner 1 7) 95 \<and> F_WRLCK \<in> held L' (Owner 2 7) 95"
proof -
  let ?L = "[ex_lock F_WRLCK 90 10 1, (ex_lock F_WRLCK 0 100 2)\<lparr>user_flock := zero_flock\<rparr>]"
  have "setlk_locked [ex_lock F_WRLCK 90 10 1, (ex_lock F_WRLCK 0 100 2)\<lparr>blocked := True\<rparr>]
           (ex_lock F_WRLCK 0 10 2) True = Inr (?L, 0)" by code_simp
  moreover have "filter blocked ?L = []" by code_simp
  moreover have "F_WRLCK \<in> held ?L (Owner 1 7) 95" "F_WRLCK \<in> held ?L (Owner 2 7) 95"
    by (simp_all add: covers_def ex_defs)
  ultimately show ?thesis by blast
qed

end
