(* ===== verification/Entry_Locks.thy ===== *)
theory Entry_Locks
  imports Posix_Locks
begin

text \<open>
  Locks on the names of a directory: the entry-lock half of
  \<^verbatim>\<open>xlators/features/locks/src/internal.c\<close>. The list \<^verbatim>\<open>dir_list\<close> of an inode is a list of granted
  locks, each with the requests that wait for it. A freed lock that is still on the list stays
  there with \<open>freed\<close> set, and whoever looks at it faults. Shown here: granted locks never
  conflict, every waiting request waits for a lock that conflicts with it, and no caller is
  forgotten.
\<close>

datatype entrylk_type = ENTRYLK_RDLCK | ENTRYLK_WRLCK
datatype entrylk_cmd = ENTRYLK_LOCK | ENTRYLK_UNLOCK | ENTRYLK_LOCK_NB

text \<open>
  \<^verbatim>\<open>pl_entry_lock_t\<close>. A waiting lock is linked into the list of the lock it waits for through its
  own \<^verbatim>\<open>blocked_locks\<close> field, so only a granted lock has a list of waiters.
\<close>

record entry_waiter =
  el_frame :: "call_frame option"
  el_blocked :: bool
  basename :: "string option"
  el_type :: entrylk_type
  read_count :: u32
  el_trans :: nat

record pl_entry_lock = entry_waiter +
  blocked_locks :: "entry_waiter list"
  freed :: bool

section \<open>Conflicts and matches\<close>

definition types_conflict :: "entrylk_type \<Rightarrow> entrylk_type \<Rightarrow> bool" where
  "types_conflict t1 t2 = (\<not> (t1 = ENTRYLK_RDLCK \<and> t2 = ENTRYLK_RDLCK))"

definition all_names :: "string option \<Rightarrow> bool" where
  "all_names n = (n = None)"

definition names_conflict :: "string option \<Rightarrow> string option \<Rightarrow> bool" where
  "names_conflict n1 n2 = (all_names n1 \<or> all_names n2 \<or> n1 = n2)"

definition names_equal :: "string option \<Rightarrow> string option \<Rightarrow> bool" where
  "names_equal n1 n2 = (n1 = None \<and> n2 = None \<or> n1 \<noteq> None \<and> n2 \<noteq> None \<and> n1 = n2)"

text \<open>The position of the first lock that conflicts, if there is one.\<close>

fun lock_grantable :: "pl_entry_lock list \<Rightarrow> string option \<Rightarrow> entrylk_type \<Rightarrow> fault + nat option" where
  "lock_grantable [] n t = Inr None"
| "lock_grantable (l # L) n t =
     (if freed l then Inl Use_After_Free
      else if names_conflict (basename l) n \<and> types_conflict (el_type l) t then Inr (Some 0)
      else bind_f (lock_grantable L n t) (\<lambda>r. Inr (map_option Suc r)))"

text \<open>The loop of \<^verbatim>\<open>__find_most_matching_lock\<close>: the last lock on all names and the last exact match.\<close>

fun match_scan ::
    "nat \<Rightarrow> pl_entry_lock list \<Rightarrow> string option \<Rightarrow> nat option \<Rightarrow> nat option \<Rightarrow>
       fault + (nat option \<times> nat option)" where
  "match_scan i [] n al exact = Inr (al, exact)"
| "match_scan i (l # L) n al exact =
     (if freed l then Inl Use_After_Free
      else if all_names (basename l) then match_scan (Suc i) L n (Some i) exact
      else if names_equal (basename l) n then match_scan (Suc i) L n al (Some i)
      else match_scan (Suc i) L n al exact)"

definition find_most_matching_lock ::
    "pl_entry_lock list \<Rightarrow> string option \<Rightarrow> fault + nat option" where
  "find_most_matching_lock L n =
     bind_f (match_scan 0 L n None None)
       (\<lambda>(al, exact). Inr (if exact \<noteq> None then exact else al))"

section \<open>Locking a name\<close>

text \<open>That the name can be copied is taken for granted: \<^verbatim>\<open>strdup\<close> is not checked, and a lock whose name it
  could not copy would be a lock on all names.\<close>

definition new_entrylk_lock :: "string option \<Rightarrow> entrylk_type \<Rightarrow> nat \<Rightarrow> pl_entry_lock" where
  "new_entrylk_lock n t tr =
     \<lparr>el_frame = None, el_blocked = False, basename = n, el_type = t,
      read_count = (if t = ENTRYLK_RDLCK then 1 else 0), el_trans = tr,
      blocked_locks = [], freed = False\<rparr>"

text \<open>
  \<^verbatim>\<open>__lock_name\<close>; \<open>alloc\<close> says whether its one \<^verbatim>\<open>CALLOC\<close> succeeds. A blocked request goes to the
  head of the waiters of the lock it conflicts with. A second read lock on a name that has one
  counts it and then frees the lock that is on the list.
\<close>

definition lock_name ::
    "bool \<Rightarrow> pl_entry_lock list \<Rightarrow> string option \<Rightarrow> entrylk_type \<Rightarrow> call_frame \<Rightarrow> bool \<Rightarrow>
       fault + (pl_entry_lock list \<times> int)" where
  "lock_name alloc L n t fr nonblock =
     bind_f (lock_grantable L n t) (\<lambda>conf.
       case conf of
         Some i \<Rightarrow>
           if nonblock then Inr (L, - EAGAIN)
           else if \<not> alloc then Inr (L, - ENOMEM)
           else
             let lock = (entry_waiter.truncate (new_entrylk_lock n t (root_trans fr)))
                          \<lparr>el_frame := Some fr, el_blocked := True\<rparr>
             in Inr (L[i := (L ! i)\<lparr>blocked_locks := lock # blocked_locks (L ! i)\<rparr>], - EAGAIN)
       | None \<Rightarrow>
           (case t of
              ENTRYLK_RDLCK \<Rightarrow>
                bind_f (find_most_matching_lock L n) (\<lambda>m.
                  case m of
                    Some i \<Rightarrow>
                      if names_equal (basename (L ! i)) n then
                        Inr (L[i := (L ! i)\<lparr>read_count := read_count (L ! i) + 1, freed := True\<rparr>], 0)
                      else if \<not> alloc then Inr (L, - ENOMEM)
                      else Inr (new_entrylk_lock n t (root_trans fr) # L, 0)
                  | None \<Rightarrow>
                      if \<not> alloc then Inr (L, - ENOMEM)
                      else Inr (new_entrylk_lock n t (root_trans fr) # L, 0))
            | ENTRYLK_WRLCK \<Rightarrow>
                if \<not> alloc then Inr (L, - ENOMEM)
                else Inr (new_entrylk_lock n t (root_trans fr) # L, 0)))"

section \<open>Unlocking and granting\<close>

definition delete_nth :: "nat \<Rightarrow> 'a list \<Rightarrow> 'a list" where
  "delete_nth i L = take i L @ drop (Suc i) L"

text \<open>\<^verbatim>\<open>list_del\<close> of the lock at a position writes to its neighbours.\<close>

definition list_del_at :: "nat \<Rightarrow> pl_entry_lock list \<Rightarrow> fault + pl_entry_lock list" where
  "list_del_at i L =
     (if 0 < i \<and> freed (L ! (i - 1)) \<or> Suc i < length L \<and> freed (L ! Suc i)
      then Inl Use_After_Free else Inr (delete_nth i L))"

text \<open>\<^verbatim>\<open>__unlock_name\<close>: the lock taken off the list, when the last holder leaves.\<close>

definition unlock_name ::
    "pl_entry_lock list \<Rightarrow> string option \<Rightarrow> entrylk_type \<Rightarrow>
       fault + (pl_entry_lock list \<times> pl_entry_lock option)" where
  "unlock_name L n t =
     bind_f (find_most_matching_lock L n) (\<lambda>m.
       case m of
         None \<Rightarrow> Inr (L, None)
       | Some i \<Rightarrow>
           if names_equal (basename (L ! i)) n \<and> el_type (L ! i) = t then
             let lock = (if t = ENTRYLK_RDLCK
                         then (L ! i)\<lparr>read_count := read_count (L ! i) - 1\<rparr> else L ! i)
             in if t = ENTRYLK_WRLCK \<or> read_count lock = 0
                then bind_f (list_del_at i L) (\<lambda>L'. Inr (L', Some lock))
                else Inr (L[i := lock], None)
           else Inr (L, None))"

text \<open>
  \<^verbatim>\<open>__grant_blocked_entry_locks\<close> over the waiters of a lock that was taken off the list. A
  request that is granted goes to the head of \<open>granted\<close>; one that is not is freed, since
  \<^verbatim>\<open>__lock_name\<close> has queued a copy, or, when that allocation failed, without a copy. A waiter
  without a frame faults in \<^verbatim>\<open>__lock_name\<close>. \<open>alloc k\<close>: the allocation made with \<open>k\<close> waiters left.
\<close>

fun grant_entry_waiters ::
    "(nat \<Rightarrow> bool) \<Rightarrow> pl_entry_lock list \<Rightarrow> entry_waiter list \<Rightarrow> entry_waiter list \<Rightarrow>
       fault + (pl_entry_lock list \<times> entry_waiter list)" where
  "grant_entry_waiters alloc L [] granted = Inr (L, granted)"
| "grant_entry_waiters alloc L (bl # bls) granted =
     (case el_frame bl of
        None \<Rightarrow> Inl Null_Deref
      | Some fr \<Rightarrow>
          bind_f (lock_name (alloc (length bls)) L (basename bl) (el_type bl) fr False)
            (\<lambda>(L', ret). grant_entry_waiters alloc L' bls
               (if ret = 0 then bl # granted else granted)))"

text \<open>The loop over \<open>granted\<close> that answers the callers.\<close>

fun unwind_entry_granted :: "entry_waiter list \<Rightarrow> fault + action list" where
  "unwind_entry_granted [] = Inr []"
| "unwind_entry_granted (l # granted) =
     (case el_frame l of
        None \<Rightarrow> Inl Null_Deref
      | Some fr \<Rightarrow> bind_f (unwind_entry_granted granted) (\<lambda>as. Inr (Unwind fr 0 0 None # as)))"

definition grant_blocked_entry_locks ::
    "(nat \<Rightarrow> bool) \<Rightarrow> pl_entry_lock list \<Rightarrow> pl_entry_lock \<Rightarrow>
       fault + (pl_entry_lock list \<times> action list)" where
  "grant_blocked_entry_locks alloc L unlocked =
     bind_f (grant_entry_waiters alloc L (blocked_locks unlocked) []) (\<lambda>(L', granted).
     bind_f (unwind_entry_granted granted) (\<lambda>as. Inr (L', as)))"

text \<open>
  The loop of \<^verbatim>\<open>release_entry_locks_for_transport\<close>. Its successor pointer walks the locks that
  were on the list when it started; grants add locks at the head only, so the locks still to be
  visited are the last \<open>k\<close> of the list.
\<close>

fun release_scan ::
    "(nat \<Rightarrow> nat \<Rightarrow> bool) \<Rightarrow> nat \<Rightarrow> nat \<Rightarrow> pl_entry_lock list \<Rightarrow> entry_waiter list \<Rightarrow>
       fault + (pl_entry_lock list \<times> entry_waiter list)" where
  "release_scan alloc tr 0 L granted = Inr (L, granted)"
| "release_scan alloc tr (Suc k) L granted =
     (let i = length L - Suc k; lock = L ! i in
      if freed lock then Inl Use_After_Free
      else if el_trans lock \<noteq> tr then release_scan alloc tr k L granted
      else
        bind_f (list_del_at i L) (\<lambda>L'.
        bind_f (grant_entry_waiters (alloc k) L' (blocked_locks lock) granted)
          (\<lambda>(L'', granted'). release_scan alloc tr k L'' granted')))"

definition release_entry_locks_for_transport ::
    "(nat \<Rightarrow> nat \<Rightarrow> bool) \<Rightarrow> pl_entry_lock list \<Rightarrow> nat \<Rightarrow> fault + (pl_entry_lock list \<times> action list)"
  where
  "release_entry_locks_for_transport alloc L tr =
     bind_f (release_scan alloc tr (length L) L []) (\<lambda>(L', granted).
     bind_f (unwind_entry_granted granted) (\<lambda>as. Inr (L', as)))"

text \<open>
  \<^verbatim>\<open>pl_entrylk_common\<close>, the body of \<^verbatim>\<open>pl_entrylk\<close> and \<^verbatim>\<open>pl_fentrylk\<close>. \<open>pinode\<close> is the list of the inode
  context, \<open>None\<close> when \<^verbatim>\<open>pl_inode_get\<close> fails. The first allocation of the call is \<open>alloc0\<close>.
\<close>

definition pl_entrylk_common ::
    "bool \<Rightarrow> (nat \<Rightarrow> nat \<Rightarrow> bool) \<Rightarrow> call_frame \<Rightarrow> pl_entry_lock list option \<Rightarrow> string option \<Rightarrow>
       entrylk_cmd \<Rightarrow> entrylk_type \<Rightarrow> fault + (pl_entry_lock list option \<times> action list)" where
  "pl_entrylk_common alloc0 alloc fr pinode n cmd t =
     (case pinode of
        None \<Rightarrow> Inr (None, [Unwind fr (-1) ENOMEM None])
      | Some L \<Rightarrow>
          if root_pid fr = 0 then
            bind_f (release_entry_locks_for_transport alloc L (root_trans fr))
              (\<lambda>(L', as). Inr (Some L', as @ [Unwind fr 0 0 None]))
          else
            (case cmd of
               ENTRYLK_LOCK \<Rightarrow>
                 bind_f (lock_name alloc0 L n t fr False) (\<lambda>(L', ret).
                   Inr (Some L',
                     if ret < 0 then
                       if ret = - EAGAIN then [] else [Unwind fr (-1) (- ret) None]
                     else [Unwind fr 0 0 None]))
             | ENTRYLK_LOCK_NB \<Rightarrow>
                 bind_f (lock_name alloc0 L n t fr True) (\<lambda>(L', ret).
                   Inr (Some L',
                     if ret < 0 then [Unwind fr (-1) (- ret) None] else [Unwind fr 0 0 None]))
             | ENTRYLK_UNLOCK \<Rightarrow>
                 bind_f (unlock_name L n t) (\<lambda>(L', unlocked).
                   case unlocked of
                     None \<Rightarrow> Inr (Some L', [Unwind fr 0 0 None])
                   | Some lock \<Rightarrow>
                       bind_f (grant_blocked_entry_locks (alloc 0) L' lock)
                         (\<lambda>(L2, as). Inr (Some L2, as @ [Unwind fr 0 0 None])))))"

section \<open>The invariant\<close>

abbreviation lock_key :: "('a) entry_waiter_scheme \<Rightarrow> string option \<times> entrylk_type" where
  "lock_key l \<equiv> (basename l, el_type l)"

fun keys_conflict :: "string option \<times> entrylk_type \<Rightarrow> string option \<times> entrylk_type \<Rightarrow> bool" where
  "keys_conflict (n1, t1) (n2, t2) = (names_conflict n1 n2 \<and> types_conflict t1 t2)"

definition waiting :: "pl_entry_lock list \<Rightarrow> entry_waiter list" where
  "waiting L = concat (map blocked_locks L)"

definition waiter_ok :: "pl_entry_lock \<Rightarrow> entry_waiter \<Rightarrow> bool" where
  "waiter_ok l w \<longleftrightarrow> keys_conflict (lock_key l) (lock_key w) \<and> el_frame w \<noteq> None"

definition entry_inv :: "pl_entry_lock list \<Rightarrow> bool" where
  "entry_inv L \<longleftrightarrow>
     sorted_wrt (\<lambda>a b. \<not> keys_conflict a b) (map lock_key L) \<and>
     (\<forall>l\<in>set L. \<forall>w\<in>set (blocked_locks l). waiter_ok l w)"

lemma conflict_sym:
  "names_conflict a b = names_conflict b a" "types_conflict t u = types_conflict u t"
  by (auto simp: names_conflict_def types_conflict_def)

lemma mset_waiting_update:
  assumes "i < length L"
  shows "mset (map f (waiting (L[i := x]))) + mset (map f (blocked_locks (L ! i))) =
         mset (map f (waiting L)) + mset (map f (blocked_locks x))"
proof -
  have "L = take i L @ L ! i # drop (Suc i) L" using assms by (rule id_take_nth_drop)
  then obtain A B where L: "L = A @ L ! i # B" "length A = i"
    using assms by (metis length_take min.absorb2 less_or_eq_imp_le)
  then have "L[i := x] = A @ x # B" by (metis list_update_length)
  then show ?thesis using arg_cong[OF L(1), of waiting]
    by (simp add: waiting_def)
qed

lemma waiting_delete:
  assumes "i < length L"
  shows "mset (map f (waiting (delete_nth i L))) + mset (map f (blocked_locks (L ! i))) =
         mset (map f (waiting L))"
  unfolding delete_nth_def
  by (subst (3) id_take_nth_drop[OF assms]) (simp add: waiting_def)

lemma keys_update: "i < length L \<Longrightarrow> lock_key x = lock_key (L ! i) \<Longrightarrow>
    map lock_key (L[i := x]) = map lock_key L"
  by (metis (lifting) list_update_id map_update)

lemma entry_inv_update:
  assumes "entry_inv L" "i < length L" "lock_key x = lock_key (L ! i)"
    and "\<forall>w\<in>set (blocked_locks x). waiter_ok x w"
  shows "entry_inv (L[i := x])"
  using assms keys_update[OF assms(2,3)] set_update_subset_insert[of L i x]
  unfolding entry_inv_def by auto

lemma delete_nth_split:
  assumes "i < length L"
  obtains A l B where "L = A @ l # B" "L ! i = l" "delete_nth i L = A @ B" "length A = i"
proof
  show "L = take i L @ L ! i # drop (Suc i) L" using assms by (rule id_take_nth_drop)
qed (use assms in \<open>auto simp: delete_nth_def\<close>)

lemma entry_inv_delete:
  assumes "entry_inv L" "i < length L"
  shows "entry_inv (delete_nth i L)"
proof (rule delete_nth_split[OF assms(2)])
  fix A l B assume "L = A @ l # B" "delete_nth i L = A @ B"
  with assms(1) show ?thesis by (simp add: entry_inv_def sorted_wrt_append)
qed

lemma lock_grantable_None:
  "lock_grantable L n t = Inr None \<Longrightarrow>
     \<forall>l\<in>set L. \<not> freed l \<and> \<not> keys_conflict (lock_key l) (n, t)"
  by (induction L) (auto split: if_splits)

lemma lock_grantable_Some:
  "lock_grantable L n t = Inr (Some i) \<Longrightarrow>
     i < length L \<and> keys_conflict (lock_key (L ! i)) (n, t) \<and> \<not> freed (L ! i)"
  by (induction L arbitrary: i) (auto split: if_splits)

lemma match_scan_range:
  "match_scan i L n al ex = Inr (a, e) \<Longrightarrow>
     (a = al \<or> (\<exists>k<length L. a = Some (i + k))) \<and> (e = ex \<or> (\<exists>k<length L. e = Some (i + k))) \<and>
     (\<forall>l\<in>set L. \<not> freed l)"
proof (induction L arbitrary: i al ex)
  case (Cons l L)
  then obtain al' ex' where *: "match_scan (Suc i) L n al' ex' = Inr (a, e)" "\<not> freed l"
    "al' = al \<or> al' = Some i" "ex' = ex \<or> ex' = Some i"
    by (auto split: if_splits)
  have sh: "(\<exists>k<length (l # L). r = Some (i + k)) \<longleftrightarrow> r = Some i \<or> (\<exists>k<length L. r = Some (Suc i + k))" for r
    by (auto simp: Ex_less_Suc2)
  from Cons.IH[OF *(1)] *(2-4) show ?case unfolding sh by auto
qed simp

lemma find_most_matching_range:
  "find_most_matching_lock L n = Inr (Some i) \<Longrightarrow> i < length L"
  "find_most_matching_lock L n = Inr r \<Longrightarrow> \<forall>l\<in>set L. \<not> freed l"
  unfolding find_most_matching_lock_def
  by (auto simp: bind_f_Inr_iff dest!: match_scan_range split: if_splits)

section \<open>Every operation keeps the invariant and the waiting callers\<close>

abbreviation waiting_frames :: "pl_entry_lock list \<Rightarrow> call_frame option multiset" where
  "waiting_frames L \<equiv> mset (map el_frame (waiting L))"

lemma new_lock_simps [simp]:
  "basename (new_entrylk_lock n t tr) = n" "el_type (new_entrylk_lock n t tr) = t"
  "blocked_locks (new_entrylk_lock n t tr) = []" "\<not> freed (new_entrylk_lock n t tr)"
  by (simp_all add: new_entrylk_lock_def)

lemma entry_inv_insert:
  "entry_inv L \<Longrightarrow> lock_grantable L n t = Inr None \<Longrightarrow> entry_inv (new_entrylk_lock n t tr # L)"
  using lock_grantable_None[of L n t] by (auto simp: entry_inv_def conflict_sym)

lemma waiting_insert [simp]: "waiting (new_entrylk_lock n t tr # L) = waiting L"
  by (simp add: waiting_def)

text \<open>The three outcomes of \<open>lock_name\<close>.\<close>

lemma lock_name_cases:
  assumes "lock_name alloc L n t fr nonblock = Inr (L', ret)"
  obtains
    (granted) "ret = 0" "lock_grantable L n t = Inr None"
      "L' = new_entrylk_lock n t (root_trans fr) # L"
  | (shared) i where "ret = 0" "i < length L" "names_equal (basename (L ! i)) n" "t = ENTRYLK_RDLCK"
      "L' = L[i := (L ! i)\<lparr>read_count := read_count (L ! i) + 1, freed := True\<rparr>]"
  | (queued) i w where "ret = - EAGAIN" "\<not> nonblock" "lock_grantable L n t = Inr (Some i)"
      "L' = L[i := (L ! i)\<lparr>blocked_locks := w # blocked_locks (L ! i)\<rparr>]"
      "lock_key w = (n, t)" "el_frame w = Some fr"
  | (refused) "ret = - EAGAIN \<and> nonblock \<or> ret = - ENOMEM \<and> \<not> alloc" "L' = L"
proof (cases "lock_grantable L n t")
  case (Inr conf)
  show thesis
  proof (cases conf)
    case None
    have r: "lock_name alloc L n t fr nonblock =
      (case t of
         ENTRYLK_RDLCK \<Rightarrow> bind_f (find_most_matching_lock L n) (\<lambda>m.
           Inr (if m \<noteq> None \<and> names_equal (basename (L ! the m)) n
            then (L[the m := (L ! the m)\<lparr>read_count := read_count (L ! the m) + 1, freed := True\<rparr>], 0)
            else if alloc then (new_entrylk_lock n t (root_trans fr) # L, 0) else (L, - ENOMEM)))
       | ENTRYLK_WRLCK \<Rightarrow>
           Inr (if alloc then (new_entrylk_lock n t (root_trans fr) # L, 0) else (L, - ENOMEM)))"
      using Inr None
      by (auto simp: lock_name_def split: entrylk_type.splits option.splits intro!: arg_cong2[where f = bind_f])
    show thesis
    proof (cases t)
      case ENTRYLK_RDLCK
      with r obtain m where m: "find_most_matching_lock L n = Inr m"
        and r': "(if m \<noteq> None \<and> names_equal (basename (L ! the m)) n
            then (L[the m := (L ! the m)\<lparr>read_count := read_count (L ! the m) + 1, freed := True\<rparr>], 0)
            else if alloc then (new_entrylk_lock n t (root_trans fr) # L, 0) else (L, - ENOMEM)) = (L', ret)"
        using assms by (simp add: bind_f_Inr_iff) blast
      show thesis
      proof (cases "m \<noteq> None \<and> names_equal (basename (L ! the m)) n")
        case True
        with m have "the m < length L" using find_most_matching_range(1) by fastforce
        with True r' ENTRYLK_RDLCK that(2)[of "the m"] show thesis by simp
      qed (use r' Inr None that(1,4) in \<open>auto split: if_splits\<close>)
    qed (use r assms Inr None that(1,4) in \<open>auto split: if_splits\<close>)
  next
    case (Some i)
    let ?w = "(entry_waiter.truncate (new_entrylk_lock n t (root_trans fr)))
                          \<lparr>el_frame := Some fr, el_blocked := True\<rparr>"
    have "lock_key ?w = (n, t)" "el_frame ?w = Some fr"
      by (simp_all add: new_entrylk_lock_def entry_waiter.truncate_def)
    then show thesis using assms Inr Some that(3)[of i ?w] that(4)
      by (auto simp: lock_name_def Let_def split: if_splits)
  qed
qed (use assms in \<open>simp add: lock_name_def\<close>)

lemma lock_name_inv:
  assumes "lock_name alloc L n t fr nonblock = Inr (L', ret)" and "entry_inv L"
  shows "entry_inv L' \<and>
    waiting_frames L' = waiting_frames L + (if ret = - EAGAIN \<and> \<not> nonblock then {#Some fr#} else {#})"
  using assms(1)
proof (cases rule: lock_name_cases)
  case (shared i)
  have "entry_inv L'" unfolding shared(5)
    by (rule entry_inv_update[OF assms(2) shared(2)])
      (use assms(2) shared(2) in \<open>auto simp: entry_inv_def waiter_ok_def\<close>)
  then show ?thesis
    using mset_waiting_update[OF shared(2), of el_frame "(L ! i)\<lparr>read_count := read_count (L ! i) + 1, freed := True\<rparr>"]
      shared by simp
next
  case (queued i w)
  note i = lock_grantable_Some[OF queued(3)]
  have "entry_inv L'" unfolding queued(4)
    by (rule entry_inv_update[OF assms(2)])
      (use assms(2) i queued(5,6) in \<open>auto simp: entry_inv_def waiter_ok_def\<close>)
  then show ?thesis
    using mset_waiting_update[of i L el_frame "(L ! i)\<lparr>blocked_locks := w # blocked_locks (L ! i)\<rparr>"]
      i queued by simp
qed (use assms(2) in \<open>auto simp: entry_inv_insert\<close>)

text \<open>A waiter is granted, queued again, or lost to a failed allocation.\<close>

lemma lock_name_blocking_ret:
  "lock_name alloc L n t fr False = Inr (L', ret) \<Longrightarrow>
     ret = 0 \<or> ret = - EAGAIN \<or> ret = - ENOMEM \<and> \<not> alloc"
  by (erule lock_name_cases) auto

lemma list_del_at_inv:
  assumes "list_del_at i L = Inr L'" "entry_inv L" "i < length L"
  shows "entry_inv L' \<and> waiting_frames L = waiting_frames L' + mset (map el_frame (blocked_locks (L ! i)))"
  using assms entry_inv_delete waiting_delete[OF assms(3), of el_frame]
  by (auto simp: list_del_at_def split: if_splits)

lemma grant_entry_waiters_inv:
  assumes "grant_entry_waiters alloc L bls granted = Inr (L', granted')" "entry_inv L"
    "\<forall>w\<in>set granted. el_frame w \<noteq> None"
  shows "entry_inv L' \<and> (\<forall>w\<in>set granted'. el_frame w \<noteq> None) \<and>
    waiting_frames L' + mset (map el_frame granted') \<subseteq>#
      waiting_frames L + mset (map el_frame bls) + mset (map el_frame granted) \<and>
    ((\<forall>k. alloc k) \<longrightarrow>
       waiting_frames L' + mset (map el_frame granted') =
       waiting_frames L + mset (map el_frame bls) + mset (map el_frame granted))"
  using assms
proof (induction bls arbitrary: L granted)
  case (Cons bl bls)
  then obtain fr L1 ret where fr: "el_frame bl = Some fr"
    and r: "lock_name (alloc (length bls)) L (basename bl) (el_type bl) fr False = Inr (L1, ret)"
    and rest: "grant_entry_waiters alloc L1 bls (if ret = 0 then bl # granted else granted) = Inr (L', granted')"
    by (auto simp: bind_f_Inr_iff split: option.splits)
  note inv = lock_name_inv[OF r Cons.prems(2)]
  have g: "\<forall>w\<in>set (if ret = 0 then bl # granted else granted). el_frame w \<noteq> None"
    using Cons.prems(3) fr by simp
  let ?now = "waiting_frames L1 + mset (map el_frame bls) + mset (map el_frame (if ret = 0 then bl # granted else granted))"
  let ?old = "waiting_frames L + mset (map el_frame (bl # bls)) + mset (map el_frame granted)"
  let ?new = "waiting_frames L' + mset (map el_frame granted')"
  have old: "?now \<subseteq># ?old" "alloc (length bls) \<longrightarrow> ?now = ?old" using inv lock_name_blocking_ret[OF r] fr by auto
  have ih: "entry_inv L'" "\<forall>w\<in>set granted'. el_frame w \<noteq> None" "?new \<subseteq># ?now" "(\<forall>k. alloc k) \<longrightarrow> ?new = ?now"
    using Cons.IH[OF rest inv[THEN conjunct1] g] by blast+
  have "?new \<subseteq># ?old" using subset_mset.order_trans[OF ih(3) old(1)] .
  moreover have "(\<forall>k. alloc k) \<longrightarrow> ?new = ?old" using ih(4) old(2) by auto
  ultimately show ?case using ih(1,2) by blast
qed simp

lemma unwind_entry_granted_ok:
  "\<forall>w\<in>set granted. el_frame w \<noteq> None \<Longrightarrow>
     unwind_entry_granted granted = Inr (map (\<lambda>w. Unwind (the (el_frame w)) 0 0 None) granted)"
  by (induction granted) auto

lemma lock_name_length: "lock_name alloc L n t fr nb = Inr (L', ret) \<Longrightarrow> length L \<le> length L'"
  by (erule lock_name_cases) auto

lemma grant_entry_waiters_length:
  "grant_entry_waiters alloc L bls granted = Inr (L', granted') \<Longrightarrow> length L \<le> length L'"
  by (induction bls arbitrary: L granted)
    (fastforce split: option.splits dest: lock_name_length)+

lemma release_scan_inv:
  assumes "release_scan alloc tr k L granted = Inr (L', granted')" "entry_inv L" "k \<le> length L"
    "\<forall>w\<in>set granted. el_frame w \<noteq> None"
  shows "entry_inv L' \<and> (\<forall>w\<in>set granted'. el_frame w \<noteq> None) \<and>
    waiting_frames L' + mset (map el_frame granted') \<subseteq># waiting_frames L + mset (map el_frame granted) \<and>
    ((\<forall>i j. alloc i j) \<longrightarrow>
       waiting_frames L' + mset (map el_frame granted') =
       waiting_frames L + mset (map el_frame granted))"
  using assms
proof (induction k arbitrary: L granted)
  case (Suc k)
  let ?i = "length L - Suc k"
  have i: "?i < length L" using Suc.prems(3) by simp
  show ?case
  proof (cases "el_trans (L ! ?i) = tr")
    case True
    with Suc.prems(1) obtain L1 L2 g2 where d: "list_del_at ?i L = Inr L1"
      and g: "grant_entry_waiters (alloc k) L1 (blocked_locks (L ! ?i)) granted = Inr (L2, g2)"
      and rest: "release_scan alloc tr k L2 g2 = Inr (L', granted')"
      by (auto simp: Let_def split: if_splits)
    note di = list_del_at_inv[OF d Suc.prems(2) i]
    note gi = grant_entry_waiters_inv[OF g di[THEN conjunct1] Suc.prems(4)]
    have "k \<le> length L2"
      using grant_entry_waiters_length[OF g] d i Suc.prems(3)
      by (auto simp: list_del_at_def delete_nth_def split: if_splits)
    note ih = Suc.IH[OF rest gi[THEN conjunct1] this gi[THEN conjunct2, THEN conjunct1]]
    have "waiting_frames L2 + mset (map el_frame g2) \<subseteq># waiting_frames L + mset (map el_frame granted)" using gi di by auto
    then have "waiting_frames L' + mset (map el_frame granted') \<subseteq># waiting_frames L + mset (map el_frame granted)"
      using ih subset_mset.order_trans by blast
    then show ?thesis using ih gi di by auto
  next
    case False
    with Suc.prems(1) have "release_scan alloc tr k L granted = Inr (L', granted')"
      by (auto simp: Let_def split: if_splits)
    from Suc.IH[OF this Suc.prems(2) _ Suc.prems(4)] Suc.prems(3) show ?thesis by simp
  qed
qed simp

lemma unlock_name_inv:
  assumes "unlock_name L n t = Inr (L', u)" "entry_inv L"
  shows "entry_inv L' \<and>
    waiting_frames L = waiting_frames L' + (case u of None \<Rightarrow> {#} | Some l \<Rightarrow> mset (map el_frame (blocked_locks l)))"
proof -
  obtain m where m: "find_most_matching_lock L n = Inr m"
    using assms(1) by (auto simp: unlock_name_def)
  show ?thesis
  proof (cases m)
    case (Some i)
    have i: "i < length L" using find_most_matching_range(1) m Some by blast
    let ?d = "(L ! i)\<lparr>read_count := read_count (L ! i) - 1\<rparr>"
    have "entry_inv (L[i := ?d])"
      by (rule entry_inv_update[OF assms(2) i])
        (use assms(2) i in \<open>auto simp: entry_inv_def waiter_ok_def\<close>)
    moreover have "waiting_frames (L[i := ?d]) = waiting_frames L"
      using mset_waiting_update[OF i, of el_frame ?d] by simp
    ultimately show ?thesis
      using assms m Some list_del_at_inv[OF _ assms(2) i]
      by (auto simp: unlock_name_def Let_def split: if_splits)
  qed (use assms m in \<open>auto simp: unlock_name_def\<close>)
qed

abbreviation answered :: "action list \<Rightarrow> call_frame option multiset" where
  "answered acts \<equiv> mset (map (Some \<circ> action_frame) acts)"

lemma answered_granted:
  assumes "\<forall>w\<in>set granted. el_frame w \<noteq> None" "unwind_entry_granted granted = Inr acts"
  shows "answered acts = mset (map el_frame granted)"
proof -
  have "map (Some \<circ> action_frame) acts = map el_frame granted"
    using assms by (auto simp: unwind_entry_granted_ok)
  then show ?thesis by (simp only:)
qed

lemma grant_blocked_entry_locks_inv:
  assumes "grant_blocked_entry_locks alloc L l = Inr (L', acts)" "entry_inv L"
  shows "entry_inv L' \<and>
    waiting_frames L' + answered acts \<subseteq># waiting_frames L + mset (map el_frame (blocked_locks l)) \<and>
    ((\<forall>k. alloc k) \<longrightarrow>
       waiting_frames L' + answered acts = waiting_frames L + mset (map el_frame (blocked_locks l)))"
proof -
  obtain granted where g: "grant_entry_waiters alloc L (blocked_locks l) [] = Inr (L', granted)"
    and u: "unwind_entry_granted granted = Inr acts"
    using assms(1) by (auto simp: grant_blocked_entry_locks_def)
  note gi = grant_entry_waiters_inv[OF g assms(2), simplified]
  from answered_granted[OF _ u] gi show ?thesis by auto
qed

lemma release_inv:
  assumes "release_entry_locks_for_transport alloc L tr = Inr (L', acts)" "entry_inv L"
  shows "entry_inv L' \<and> waiting_frames L' + answered acts \<subseteq># waiting_frames L \<and>
    ((\<forall>i j. alloc i j) \<longrightarrow> waiting_frames L' + answered acts = waiting_frames L)"
proof -
  obtain granted where g: "release_scan alloc tr (length L) L [] = Inr (L', granted)"
    and u: "unwind_entry_granted granted = Inr acts"
    using assms(1) by (auto simp: release_entry_locks_for_transport_def)
  note gi = release_scan_inv[OF g assms(2) order.refl, simplified]
  from answered_granted[OF _ u] gi show ?thesis by auto
qed

text \<open>One call of the handler.\<close>

lemma pl_entrylk_common_inv:
  assumes "pl_entrylk_common alloc0 alloc fr (Some L) n cmd t = Inr (Some L', acts)" "entry_inv L"
  shows "entry_inv L' \<and> waiting_frames L' + answered acts \<subseteq># waiting_frames L + {#Some fr#} \<and>
    ((\<forall>i j. alloc i j) \<longrightarrow> waiting_frames L' + answered acts = waiting_frames L + {#Some fr#})"
proof (cases "root_pid fr = 0")
  case True
  with assms release_inv show ?thesis by (fastforce simp: pl_entrylk_common_def)
next
  case False
  show ?thesis
  proof (cases cmd)
    case ENTRYLK_LOCK
    with False assms obtain ret where r: "lock_name alloc0 L n t fr False = Inr (L', ret)"
      and "acts = (if ret < 0 then if ret = - EAGAIN then [] else [Unwind fr (-1) (- ret) None]
                     else [Unwind fr 0 0 None])"
      by (auto simp: pl_entrylk_common_def)
    with lock_name_inv[OF r assms(2)] lock_name_blocking_ret[OF r] show ?thesis by auto
  next
    case ENTRYLK_LOCK_NB
    with False assms obtain ret where r: "lock_name alloc0 L n t fr True = Inr (L', ret)"
      and "acts = [Unwind fr (-1) (- ret) None] \<or> acts = [Unwind fr 0 0 None]"
      by (auto simp: pl_entrylk_common_def)
    with lock_name_inv[OF r assms(2)] show ?thesis by auto
  next
    case ENTRYLK_UNLOCK
    with False assms obtain L1 u where r: "unlock_name L n t = Inr (L1, u)"
      by (auto simp: pl_entrylk_common_def)
    note ui = unlock_name_inv[OF r assms(2)]
    show ?thesis
    proof (cases u)
      case None
      with r False ENTRYLK_UNLOCK assms ui show ?thesis by (auto simp: pl_entrylk_common_def)
    next
      case (Some l)
      with r False ENTRYLK_UNLOCK assms(1) obtain as where
        g: "grant_blocked_entry_locks (alloc 0) L1 l = Inr (L', as)" "acts = as @ [Unwind fr 0 0 None]"
        by (auto simp: pl_entrylk_common_def)
      from grant_blocked_entry_locks_inv[OF g(1) ui[THEN conjunct1]] g(2) ui Some
      show ?thesis by auto
    qed
  qed
qed

section \<open>All reachable directory lists\<close>

text \<open>
  An event is one call of the handler, with any caller, name, command, type and allocations. As an
  unlock takes the mutex twice, first to take the lock off the list and then to grant what waited for
  it, its two halves are events of their own, with other calls in between; the locks that are off the
  list while their waiters are not granted yet are the second component of the state. \<open>new\<close> are the
  callers that have to be answered for the event.
\<close>

type_synonym entry_state = "pl_entry_lock list \<times> pl_entry_lock list"

inductive entry_event ::
    "(nat \<Rightarrow> nat \<Rightarrow> bool) \<Rightarrow> entry_state \<Rightarrow> call_frame option multiset \<Rightarrow> action list \<Rightarrow> entry_state \<Rightarrow> bool" for alloc where
  entry_call: "pl_entrylk_common alloc0 alloc fr (Some L) n cmd t = Inr (Some L', acts) \<Longrightarrow>
     entry_event alloc (L, U) {#Some fr#} acts (L', U)"
| entry_unlock: "unlock_name L n t = Inr (L', Some l) \<Longrightarrow> entry_event alloc (L, U) {#} [] (L', l # U)"
| entry_grant: "l \<in> set U \<Longrightarrow> grant_blocked_entry_locks (alloc 0) L l = Inr (L', acts) \<Longrightarrow>
     entry_event alloc (L, U) {#Some fr#} (acts @ [Unwind fr 0 0 None]) (L', remove1 l U)"

definition entry_step :: "entry_state \<Rightarrow> entry_state \<Rightarrow> bool" where
  "entry_step st st' \<longleftrightarrow> (\<exists>alloc new acts. entry_event alloc st new acts st')"

lemma waiting_append: "waiting (U @ L) = waiting U @ waiting L"
  by (simp add: waiting_def)

lemma waiting_remove1:
  "l \<in> set U \<Longrightarrow> waiting_frames U = waiting_frames (remove1 l U) + mset (map el_frame (blocked_locks l))"
  by (induction U) (auto simp: waiting_def)

lemma entry_event_inv:
  assumes "entry_event alloc (L, U) new acts (L', U')" "entry_inv L"
  shows "entry_inv L'" "waiting_frames (U' @ L') + answered acts \<subseteq># waiting_frames (U @ L) + new"
    "\<forall>i j. alloc i j \<Longrightarrow> waiting_frames (U' @ L') + answered acts = waiting_frames (U @ L) + new"
proof -
  have "\<exists>rest x y. waiting_frames (U' @ L') + answered acts = rest + x \<and> waiting_frames (U @ L) + new = rest + y
    \<and> entry_inv L' \<and> x \<subseteq># y \<and> ((\<forall>i j. alloc i j) \<longrightarrow> x = y)"
    using assms(1)
  proof cases
    case (entry_call alloc0 fr n cmd t)
    note c = pl_entrylk_common_inv[OF entry_call(3) assms(2)]
    show ?thesis
      by (rule exI[of _ "waiting_frames U"], rule exI[of _ "waiting_frames L' + answered acts"], rule exI[of _ "waiting_frames L + {#Some fr#}"])
        (use c entry_call(1,2) in \<open>simp add: waiting_append\<close>)
  next
    case (entry_unlock n t l)
    note c = unlock_name_inv[OF entry_unlock(4) assms(2)]
    show ?thesis
      by (rule exI[of _ "waiting_frames U"], rule exI[of _ "waiting_frames L"], rule exI[of _ "waiting_frames L"])
        (use c entry_unlock(1-3) in \<open>simp add: waiting_append waiting_def\<close>)
  next
    case (entry_grant l as fr)
    note c = grant_blocked_entry_locks_inv[OF entry_grant(5) assms(2)]
    show ?thesis
      by (rule exI[of _ "waiting_frames U' + {#Some fr#}"], rule exI[of _ "waiting_frames L' + answered as"],
          rule exI[of _ "waiting_frames L + mset (map el_frame (blocked_locks l))"])
        (use c entry_grant(1-3) waiting_remove1[OF entry_grant(4)] in \<open>simp add: waiting_append\<close>)
  qed
  then show "entry_inv L'" "waiting_frames (U' @ L') + answered acts \<subseteq># waiting_frames (U @ L) + new"
    "\<forall>i j. alloc i j \<Longrightarrow> waiting_frames (U' @ L') + answered acts = waiting_frames (U @ L) + new"
    by (metis subset_mset.add_left_mono)+
qed

interpretation entry_lk: step_system "\<lambda>st. st = ([], [])" entry_step "\<lambda>st. entry_inv (fst st)"
proof
  show "entry_inv (fst s)" if "s = ([], [])" for s using that by (simp add: entry_inv_def)
  show "entry_inv (fst s')" if h: "entry_inv (fst s)" "entry_step s s'" for s s'
  proof -
    obtain alloc new acts where "entry_event alloc (fst s, snd s) new acts (fst s', snd s')" using h(2) by (auto simp: entry_step_def)
    then show ?thesis using entry_event_inv(1) h(1) by blast
  qed
qed

lemma entry_step_exec:
  "pl_entrylk_common True (\<lambda>_ _. True) fr (Some L) n cmd t = Inr (Some L', acts) \<Longrightarrow> entry_step (L, U) (L', U)"
  unfolding entry_step_def by (blast intro: entry_call)

section \<open>Properties\<close>

text \<open>C14. Entry locks exclude one another. In every state that any sequence of lock, unlock and
  release calls, with the two halves of an unlock possibly apart, reaches without a fault, no two granted entry locks conflict: two locks on the
  same name, or on a name and on the whole directory, are both read locks.\<close>

theorem entry_locks_exclusion:
  assumes "entry_step\<^sup>*\<^sup>* ([], []) (L, U)" "i < j" "j < length L"
    and "names_conflict (basename (L ! i)) (basename (L ! j))"
  shows "el_type (L ! i) = ENTRYLK_RDLCK \<and> el_type (L ! j) = ENTRYLK_RDLCK"
proof -
  have "entry_inv L" using entry_lk.inv_reach[OF _ assms(1)] by simp
  then have "\<not> keys_conflict (lock_key (L ! i)) (lock_key (L ! j))"
    using assms(2,3) by (auto simp: entry_inv_def sorted_wrt_iff_nth_less)
  with assms(4) show ?thesis by (simp add: types_conflict_def)
qed

definition ex_frame :: "nat \<Rightarrow> call_frame" where
  "ex_frame k = \<lparr>frame_id = k, root_trans = k, root_pid = 7\<rparr>"

definition ex_dir :: "pl_entry_lock list" where
  "ex_dir = [new_entrylk_lock None ENTRYLK_RDLCK 2, new_entrylk_lock (Some ''a'') ENTRYLK_RDLCK 1]"

lemma ex_dir_reachable: "entry_step\<^sup>*\<^sup>* ([], []) (ex_dir, [])"
proof -
  have "entry_step ([], []) ([new_entrylk_lock (Some ''a'') ENTRYLK_RDLCK 1], [])"
    by (rule entry_step_exec[of "ex_frame 1" _ "Some ''a''" ENTRYLK_LOCK ENTRYLK_RDLCK _ "[Unwind (ex_frame 1) 0 0 None]"])
      code_simp
  moreover have "entry_step ([new_entrylk_lock (Some ''a'') ENTRYLK_RDLCK 1], []) (ex_dir, [])"
    by (rule entry_step_exec[of "ex_frame 2" _ None ENTRYLK_LOCK ENTRYLK_RDLCK _ "[Unwind (ex_frame 2) 0 0 None]"])
      code_simp
  ultimately show ?thesis by (meson converse_rtranclp_into_rtranclp rtranclp.rtrancl_refl)
qed

theorem entry_locks_exclusion_witness:
  "el_type (ex_dir ! 0) = ENTRYLK_RDLCK \<and> el_type (ex_dir ! 1) = ENTRYLK_RDLCK"
  by (rule entry_locks_exclusion[OF ex_dir_reachable]; code_simp)


definition ex_entry_waiter :: entry_waiter where
  "ex_entry_waiter = \<lparr>el_frame = Some (ex_frame 2), el_blocked = True, basename = Some ''a'',
     el_type = ENTRYLK_WRLCK, read_count = 0, el_trans = 2\<rparr>"

definition ex_held :: pl_entry_lock where
  "ex_held = (new_entrylk_lock (Some ''a'') ENTRYLK_WRLCK 1)\<lparr>blocked_locks := [ex_entry_waiter]\<rparr>"

lemma ex_held_reachable: "entry_step\<^sup>*\<^sup>* ([], []) ([ex_held], [])"
proof -
  have "entry_step ([], []) ([new_entrylk_lock (Some ''a'') ENTRYLK_WRLCK 1], [])"
    by (rule entry_step_exec[of "ex_frame 1" _ "Some ''a''" ENTRYLK_LOCK ENTRYLK_WRLCK _ "[Unwind (ex_frame 1) 0 0 None]"])
      code_simp
  moreover have "entry_step ([new_entrylk_lock (Some ''a'') ENTRYLK_WRLCK 1], []) ([ex_held], [])"
    by (rule entry_step_exec[of "ex_frame 2" _ "Some ''a''" ENTRYLK_LOCK ENTRYLK_WRLCK _ "[]"])
      code_simp
  ultimately show ?thesis by (meson converse_rtranclp_into_rtranclp rtranclp.rtrancl_refl)
qed


text \<open>C16. Every caller is answered at most once, and exactly once while memory lasts. A call of the
  entry-lock handler that does not fault, or either half of an unlock, answers or queues its own
  caller, and the callers waiting before are, with multiplicity, answered by it or still waiting;
  none is answered twice even if an allocation fails, and none is lost if the allocations with which
  waiting requests are queued again succeed.\<close>

theorem entrylk_answers_once:
  assumes "entry_step\<^sup>*\<^sup>* ([], []) (L, U)" "entry_event alloc (L, U) new acts (L', U')"
  shows "mset (map el_frame (waiting (U' @ L'))) + mset (map (Some \<circ> action_frame) acts) \<subseteq>#
      mset (map el_frame (waiting (U @ L))) + new \<and>
    ((\<forall>i j. alloc i j) \<longrightarrow> mset (map el_frame (waiting (U' @ L'))) + mset (map (Some \<circ> action_frame) acts) =
      mset (map el_frame (waiting (U @ L))) + new)"
proof -
  have "entry_inv L" using entry_lk.inv_reach[OF _ assms(1)] by simp
  from entry_event_inv[OF assms(2) this] show ?thesis by blast
qed

text \<open>The holder unlocks: the waiting request of the second caller is granted and both are
  answered.\<close>

lemma ex_unlock:
  "entry_event (\<lambda>_ _. True) ([ex_held], []) {#Some (ex_frame 1)#} [Unwind (ex_frame 2) 0 0 None, Unwind (ex_frame 1) 0 0 None]
     ([new_entrylk_lock (Some ''a'') ENTRYLK_WRLCK 2], [])"
  by (rule entry_call[of True _ _ _ "Some ''a''" ENTRYLK_UNLOCK ENTRYLK_WRLCK]) code_simp

theorem entrylk_answers_once_witness:
  "mset (map el_frame (waiting [new_entrylk_lock (Some ''a'') ENTRYLK_WRLCK 2])) +
     mset (map (Some \<circ> action_frame) [Unwind (ex_frame 2) 0 0 None, Unwind (ex_frame 1) 0 0 None]) =
   mset (map el_frame (waiting [ex_held])) + {#Some (ex_frame 1)#}"
  using entrylk_answers_once[OF ex_held_reachable ex_unlock] by simp

lemma match_scan_freed: "\<exists>l\<in>set L. freed l \<Longrightarrow> match_scan i L n al ex = Inl Use_After_Free"
  by (induction i L n al ex rule: match_scan.induct) auto

text \<open>A second read lock on a name frees the lock it shares: the call answers success, and
  from then on every unlock in the directory, of any name, reads freed memory.\<close>

theorem second_read_lock_frees:
  assumes "lock_grantable L n ENTRYLK_RDLCK = Inr None"
    and "find_most_matching_lock L n = Inr (Some i)" "names_equal (basename (L ! i)) n"
  shows "\<exists>L'. lock_name alloc L n ENTRYLK_RDLCK fr nonblock = Inr (L', 0) \<and>
    (\<forall>n' t'. unlock_name L' n' t' = Inl Use_After_Free)"
proof -
  let ?l = "(L ! i)\<lparr>read_count := read_count (L ! i) + 1, freed := True\<rparr>"
  have "?l \<in> set (L[i := ?l])"
    using find_most_matching_range(1)[OF assms(2)] by (rule set_update_memI)
  then have "\<exists>l\<in>set (L[i := ?l]). freed l" by (rule bexI[rotated]) simp
  note match_scan_freed[OF this]
  then show ?thesis
    using assms by (simp add: lock_name_def unlock_name_def find_most_matching_lock_def[of "L[i := ?l]"])
qed

theorem second_read_lock_frees_witness:
  "\<exists>L'. lock_name True ex_dir (Some ''a'') ENTRYLK_RDLCK (ex_frame 3) False = Inr (L', 0) \<and>
    (\<forall>n' t'. unlock_name L' n' t' = Inl Use_After_Free)"
  by (rule second_read_lock_frees[where i = 1]; code_simp)

end
