(* ===== verification/Locks_Xlator.thy ===== *)
theory Locks_Xlator
  imports Entry_Locks
begin

text \<open>
  The file operations of the locks translator: \<^verbatim>\<open>xlators/features/locks/src/posix.c\<close> and the
  inode-lock half of \<^verbatim>\<open>internal.c\<close>. A handler takes the call frame, what \<^verbatim>\<open>pl_inode_get\<close> returned
  for the inode (\<open>None\<close> for a null pointer) and the outcomes of its allocations, and returns
  the new lock context with what it does to frames: \<open>Wind\<close> a call to the child, \<open>Unwind\<close> a reply.
  A critical section is one atomic step; here the sections of a handler run one after another.
\<close>

section \<open>Truncation under mandatory locks\<close>

datatype truncate_op = TRUNCATE | FTRUNCATE

text \<open>\<^verbatim>\<open>struct _truncate_ops\<close>; \<open>tr_target\<close> names the \<^verbatim>\<open>loc\<close> or the \<^verbatim>\<open>fd\<close>.\<close>

record truncate_ops =
  tr_op :: truncate_op
  tr_target :: nat
  tr_offset :: off_t

fun truncate_scan :: "posix_lock list \<Rightarrow> posix_lock \<Rightarrow> bool" where
  "truncate_scan [] reg = True"
| "truncate_scan (l # L) reg =
     (if \<not> blocked l \<and> locks_overlap reg l \<and> \<not> same_owner reg l then False
      else truncate_scan L reg)"

definition truncate_allowed :: "pl_inode \<Rightarrow> nat \<Rightarrow> int \<Rightarrow> off_t \<Rightarrow> bool" where
  "truncate_allowed pl tr pid offset =
     truncate_scan (ext_list pl)
       (calloc_lock\<lparr>fl_start := offset, fl_end := LLONG_MAX, transport := tr, client_pid := pid\<rparr>)"

definition pl_truncate_cbk :: "call_frame \<Rightarrow> int \<Rightarrow> int \<Rightarrow> action list" where
  "pl_truncate_cbk fr op_ret op_errno = [Unwind fr op_ret op_errno None]"

definition truncate_stat_cbk ::
    "bool \<Rightarrow> call_frame \<Rightarrow> truncate_ops \<Rightarrow> pl_inode option \<Rightarrow> int \<Rightarrow> int \<Rightarrow> action list" where
  "truncate_stat_cbk priv_mandatory fr loc pinode op_ret op_errno =
     (if op_ret \<noteq> 0 then [Unwind fr (-1) ENOMEM None]
      else
        (case pinode of
           None \<Rightarrow> [Unwind fr (-1) ENOMEM None]
         | Some pl \<Rightarrow>
             if priv_mandatory \<and> mandatory pl \<and>
                \<not> truncate_allowed pl (root_trans fr) (root_pid fr) (tr_offset loc)
             then [Unwind fr (-1) ENOMEM None]
             else
               (case tr_op loc of
                  TRUNCATE \<Rightarrow> [Wind fr (Call_truncate (tr_target loc) (tr_offset loc))]
                | FTRUNCATE \<Rightarrow> [Wind fr (Call_ftruncate (tr_target loc) (tr_offset loc))])))"

definition pl_truncate :: "bool \<Rightarrow> call_frame \<Rightarrow> nat \<Rightarrow> off_t \<Rightarrow> truncate_ops option \<times> action list" where
  "pl_truncate alloc fr loc offset =
     (if \<not> alloc then (None, [Unwind fr (-1) ENOMEM None])
      else (Some \<lparr>tr_op = TRUNCATE, tr_target = loc, tr_offset = offset\<rparr>, [Wind fr (Call_stat loc)]))"

definition pl_ftruncate :: "bool \<Rightarrow> call_frame \<Rightarrow> nat \<Rightarrow> off_t \<Rightarrow> truncate_ops option \<times> action list" where
  "pl_ftruncate alloc fr fd offset =
     (if \<not> alloc then (None, [Unwind fr (-1) ENOMEM None])
      else (Some \<lparr>tr_op = FTRUNCATE, tr_target = fd, tr_offset = offset\<rparr>, [Wind fr (Call_fstat fd)]))"

section \<open>Flush, open and create\<close>

definition delete_locks_of_owner :: "pl_inode \<Rightarrow> nat \<Rightarrow> int \<Rightarrow> pl_inode" where
  "delete_locks_of_owner pl tr pid =
     pl\<lparr>ext_list := filter (\<lambda>l. \<not> (transport l = tr \<and> client_pid l = pid)) (ext_list pl),
        int_list := filter (\<lambda>l. \<not> (transport l = tr \<and> client_pid l = pid)) (int_list pl)\<rparr>"

definition pl_flush ::
    "(nat \<Rightarrow> bool) \<Rightarrow> (nat \<Rightarrow> bool) \<Rightarrow> call_frame \<Rightarrow> pl_inode option \<Rightarrow> nat \<Rightarrow>
       fault + (pl_inode option \<times> action list)" where
  "pl_flush alloc1 alloc2 fr pinode fd =
     (case pinode of
        None \<Rightarrow> Inr (None, [Unwind fr (-1) EBADFD None])
      | Some pl \<Rightarrow>
          bind_f (grant_blocked_locks alloc1
                    (delete_locks_of_owner pl (root_trans fr) (root_pid fr)) GF_LOCK_POSIX)
            (\<lambda>(pl1, as1).
          bind_f (grant_blocked_locks alloc2 pl1 GF_LOCK_INTERNAL)
            (\<lambda>(pl2, as2).
          (case do_blocked_rw pl2 of (pl3, as3) \<Rightarrow>
             Inr (Some pl3, as1 @ as2 @ as3 @ [Wind fr (Call_flush fd)])))))"

definition pl_flush_cbk :: "call_frame \<Rightarrow> int \<Rightarrow> int \<Rightarrow> action list" where
  "pl_flush_cbk fr op_ret op_errno = [Unwind fr op_ret op_errno None]"

definition O_TRUNC :: u32 where "O_TRUNC = 0x200"
definition O_NONBLOCK :: u32 where "O_NONBLOCK = 0x800"

definition pl_open :: "call_frame \<Rightarrow> nat \<Rightarrow> u32 \<Rightarrow> nat \<Rightarrow> action list" where
  "pl_open fr loc flags fd = [Wind fr (Call_open loc (and flags (not O_TRUNC)) fd)]"

definition pl_create :: "call_frame \<Rightarrow> nat \<Rightarrow> u32 \<Rightarrow> u32 \<Rightarrow> nat \<Rightarrow> action list" where
  "pl_create fr loc flags mode fd = [Wind fr (Call_create loc flags mode fd)]"

section \<open>Reads and writes\<close>

text \<open>
  The common part of \<^verbatim>\<open>pl_readv\<close> and \<^verbatim>\<open>pl_writev\<close> when mandatory locking is on: the critical section
  and the \<^verbatim>\<open>unwind\<close> label. \<open>alloc_rw\<close> and \<open>alloc_stub\<close> are its two allocations. An allowed request
  goes to the label with \<^verbatim>\<open>op_ret\<close> 0, as does a queued one.
\<close>

definition rw_mandatory ::
    "bool \<Rightarrow> bool \<Rightarrow> call_frame \<Rightarrow> pl_inode \<Rightarrow> u32 \<Rightarrow> posix_lock \<Rightarrow> rw_fop \<Rightarrow> child_call \<Rightarrow>
       pl_inode \<times> action list" where
  "rw_mandatory alloc_rw alloc_stub fr pl fd_flags reg op call =
     (if rw_allowable (ext_list pl) reg op then (pl, [])
      else if and fd_flags O_NONBLOCK \<noteq> 0 then (pl, [Unwind fr (-1) EAGAIN None])
      else if \<not> alloc_rw then (pl, [Unwind fr (-1) ENOMEM None])
      else if \<not> alloc_stub then (pl, [Unwind fr (-1) ENOMEM None])
      else
        (pl\<lparr>rw_list := rw_list pl @
              [\<lparr>stub = \<lparr>stub_frame = fr, stub_fop = op, stub_call = call\<rparr>, region = reg\<rparr>]\<rparr>, []))"

definition pl_readv ::
    "bool \<Rightarrow> bool \<Rightarrow> bool \<Rightarrow> call_frame \<Rightarrow> pl_inode option \<Rightarrow> nat \<Rightarrow> u32 \<Rightarrow> nat \<Rightarrow> off_t \<Rightarrow>
       fault + (pl_inode option \<times> action list)" where
  "pl_readv alloc_rw alloc_stub priv_mandatory fr pinode fd fd_flags sz offset =
     (case pinode of
        None \<Rightarrow>
          if priv_mandatory then Inl Null_Deref
          else Inr (None, [Wind fr (Call_readv fd sz offset)])
      | Some pl \<Rightarrow>
          if priv_mandatory \<and> mandatory pl then
            let reg = calloc_lock\<lparr>fl_start := offset, fl_end := off_wrap (offset + int sz - 1),
                        transport := root_trans fr, client_pid := root_pid fr\<rparr>
            in (case rw_mandatory alloc_rw alloc_stub fr pl fd_flags reg GF_FOP_READ
                       (Call_readv fd sz offset) of
                  (pl', as) \<Rightarrow> Inr (Some pl', as))
          else Inr (Some pl, [Wind fr (Call_readv fd sz offset)]))"

definition iov_length :: "nat list \<Rightarrow> int" where
  "iov_length vector = int (sum_list vector) mod 2 ^ 64"

definition pl_writev ::
    "bool \<Rightarrow> bool \<Rightarrow> bool \<Rightarrow> call_frame \<Rightarrow> pl_inode option \<Rightarrow> nat \<Rightarrow> u32 \<Rightarrow> nat list \<Rightarrow> off_t \<Rightarrow>
       fault + (pl_inode option \<times> action list)" where
  "pl_writev alloc_rw alloc_stub priv_mandatory fr pinode fd fd_flags vector offset =
     (case pinode of
        None \<Rightarrow>
          if priv_mandatory then Inl Null_Deref
          else Inr (None, [Wind fr (Call_writev fd vector offset)])
      | Some pl \<Rightarrow>
          if priv_mandatory \<and> mandatory pl then
            let reg = calloc_lock\<lparr>fl_start := offset,
                        fl_end := off_wrap (offset + iov_length vector - 1),
                        transport := root_trans fr, client_pid := root_pid fr\<rparr>
            in (case rw_mandatory alloc_rw alloc_stub fr pl fd_flags reg GF_FOP_WRITE
                       (Call_writev fd vector offset) of
                  (pl', as) \<Rightarrow> Inr (Some pl', as))
          else Inr (Some pl, [Wind fr (Call_writev fd vector offset)]))"

section \<open>Record locks\<close>

datatype lk_cmd = F_GETLK | F_SETLK | F_SETLKW | Other_cmd

definition pl_lk ::
    "bool \<Rightarrow> (nat \<Rightarrow> bool) \<Rightarrow> call_frame \<Rightarrow> pl_inode option \<Rightarrow> lk_cmd \<Rightarrow> flock \<Rightarrow>
       fault + (pl_inode option \<times> action list)" where
  "pl_lk alloc0 alloc fr pinode cmd fl =
     (case pinode of
        None \<Rightarrow> Inr (None, [Unwind fr (-1) ENOMEM (Some fl)])
      | Some pl \<Rightarrow>
          if \<not> alloc0 then Inr (Some pl, [Unwind fr (-1) ENOMEM (Some fl)])
          else
            let reqlock = new_posix_lock fl (root_trans fr) (root_pid fr) in
            (case cmd of
               F_GETLK \<Rightarrow>
                 Inr (Some pl, [Unwind fr 0 0
                   (Some (posix_lock_to_flock (pl_getlk pl reqlock GF_LOCK_POSIX)))])
             | F_SETLKW \<Rightarrow>
                 bind_f (pl_setlk alloc pl (reqlock\<lparr>frame := Some fr, user_flock := fl\<rparr>) True
                           GF_LOCK_POSIX)
                   (\<lambda>(pl', ret, as).
                      Inr (Some pl', as @ (if ret = - 1 then [] else [Unwind fr 0 0 (Some fl)])))
             | F_SETLK \<Rightarrow>
                 bind_f (pl_setlk alloc pl (reqlock\<lparr>user_flock := fl\<rparr>) False GF_LOCK_POSIX)
                   (\<lambda>(pl', ret, as).
                      Inr (Some pl', as @ (if ret = - 1 then [Unwind fr (-1) EAGAIN (Some fl)]
                                           else [Unwind fr 0 0 (Some fl)])))
             | Other_cmd \<Rightarrow> Inr (Some pl, [Unwind fr 0 0 (Some fl)])))"

section \<open>Inode locks\<close>

text \<open>
  \<^verbatim>\<open>delete_locks_of_transport\<close> walks \<^verbatim>\<open>dir_list\<close>, whose elements are entry locks, as a list of
  \<^verbatim>\<open>posix_lock_t\<close>: with an entry lock on it every field it reads lies elsewhere.
\<close>

definition delete_locks_of_transport :: "pl_entry_lock list \<Rightarrow> nat \<Rightarrow> fault + pl_entry_lock list" where
  "delete_locks_of_transport D tr = (if D = [] then Inr [] else Inl Type_Confusion)"

fun find_exact_matching_lock :: "posix_lock list \<Rightarrow> posix_lock \<Rightarrow> nat option" where
  "find_exact_matching_lock [] lock = None"
| "find_exact_matching_lock (l # L) lock =
     (if same_owner l lock \<and> fl_start l = fl_start lock \<and> fl_end l = fl_end lock then Some 0
      else map_option Suc (find_exact_matching_lock L lock))"

definition pl_inodelk_common ::
    "bool \<Rightarrow> call_frame \<Rightarrow> (pl_inode \<times> pl_entry_lock list) option \<Rightarrow> lk_cmd \<Rightarrow> flock \<Rightarrow>
       fault + ((pl_inode \<times> pl_entry_lock list) option \<times> action list)" where
  "pl_inodelk_common alloc fr pinode cmd fl =
     (if l_start fl < 0 \<or> l_len fl < 0 then Inr (pinode, [Unwind fr (-1) EINVAL None])
      else
        (case pinode of
           None \<Rightarrow> Inr (None, [Unwind fr (-1) ENOMEM None])
         | Some (pl, D) \<Rightarrow>
             if root_pid fr = 0 then
               bind_f (delete_locks_of_transport D (root_trans fr))
                 (\<lambda>D'. Inr (Some (pl, D'), [Unwind fr (-1) 0 None]))
             else if \<not> alloc then Inr (Some (pl, D), [Unwind fr (-1) ENOMEM None])
             else
               let reqlock = new_posix_lock fl (root_trans fr) (root_pid fr);
                   can_block = (cmd = F_SETLKW);
                   req1 = (if can_block then reqlock\<lparr>frame := Some fr\<rparr> else reqlock);
                   req = req1\<lparr>user_flock := fl\<rparr>;
                   answer = (\<lambda>L ret err. Inr (Some (pl\<lparr>int_list := L\<rparr>, D), [Unwind fr ret err None]))
               in
               if cmd = F_SETLKW \<or> cmd = F_SETLK then
                 (case l_type fl of
                    F_WRLCK \<Rightarrow>
                      if \<not> pl_is_lock_grantable (int_list pl) req then
                        if can_block then answer (pl_insert_lock (int_list pl) req) (-1) 0
                        else answer (int_list pl) (-1) EAGAIN
                      else answer (pl_insert_lock (int_list pl) req) 0 0
                  | F_UNLCK \<Rightarrow>
                      (case find_exact_matching_lock (int_list pl) req of
                         None \<Rightarrow> answer (int_list pl) (-1) EINVAL
                       | Some i \<Rightarrow> answer (delete_nth i (int_list pl)) 0 0)
                  | F_RDLCK \<Rightarrow> answer (int_list pl) (-1) ENOTSUP)
               else answer (int_list pl) (-1) ENOTSUP))"

section \<open>Record locks: each caller is answered once\<close>

abbreviation blocked_frames :: "posix_lock list \<Rightarrow> call_frame option multiset" where
  "blocked_frames L \<equiv> mset (map frame (filter blocked L))"

fun is_unwind :: "action \<Rightarrow> bool" where
  "is_unwind (Unwind fr ret err fl) = True"
| "is_unwind (Wind fr c) = False"

definition replies :: "action list \<Rightarrow> call_frame option multiset" where
  "replies acts = mset (map (Some \<circ> action_frame) (filter is_unwind acts))"

lemma replies_simps [simp]:
  "replies [] = {#}" "replies (as @ bs) = replies as + replies bs"
  "replies [Unwind fr ret err fl] = {#Some fr#}" "replies [Wind fr c] = {#}"
  by (simp_all add: replies_def)

lemma replies_do_blocked_rw [simp]:
  "replies (snd (do_blocked_rw pl)) = {#}" "ext_list (fst (do_blocked_rw pl)) = ext_list pl"
  by (auto simp: do_blocked_rw_def Let_def replies_def call_resume_def filter_map o_def)

lemma DOMAIN_HEAD_set [simp]: "DOMAIN_HEAD (set_domain pl d L) d = L"
  by (cases d) auto

lemma replies_granted:
  assumes "\<forall>l\<in>set granted. frame l \<noteq> None"
  shows "replies (map (\<lambda>l. Unwind (the (frame l)) 0 0 (Some (user_flock l))) granted) =
    mset (map frame granted)"
proof -
  have "map (Some \<circ> action_frame) (filter is_unwind
      (map (\<lambda>l. Unwind (the (frame l)) 0 0 (Some (user_flock l))) granted)) = map frame granted"
    using assms by (auto simp: filter_map o_def)
  then show ?thesis by (simp only: replies_def)
qed

lemma grant_blocked_locks_replies:
  assumes "grant_blocked_locks alloc pl d = Inr (pl', as)" "list_inv (DOMAIN_HEAD pl d)"
  shows "list_inv (DOMAIN_HEAD pl' d) \<and>
    blocked_frames (DOMAIN_HEAD pl' d) + replies as = blocked_frames (DOMAIN_HEAD pl d)"
proof -
  obtain L granted where g: "grant_blocked_locks_locked alloc (DOMAIN_HEAD pl d) = Inr (L, granted)"
    and u: "unwind_granted granted = Inr as" and pl': "pl' = set_domain pl d L"
    using assms(1) by (auto simp: grant_blocked_locks_def)
  note gi = grant_locked_inv[OF g assms(2)]
  have fr: "\<forall>l\<in>set granted. frame l \<noteq> None"
    using granted_frames[OF gi[THEN conjunct2]] assms(2) by (simp add: list_inv_def waiters_ok_def)
  have "replies as = mset (map frame granted)"
    using u replies_granted[OF fr] by (simp add: unwind_granted_ok[OF fr])
  with gi pl' show ?thesis by (simp only: DOMAIN_HEAD_set)
qed

lemma setlk_locked_blocked:
  assumes "setlk_locked L lock can_block = Inr (L', ret)" and "list_inv L"
    and "wf_lock lock" "\<not> blocked lock" "not_waiting L (owner lock)"
  shows "(ret = 0 \<or> ret = - 1) \<and>
    blocked_frames L' = blocked_frames L + (if ret = - 1 \<and> can_block then {#frame lock#} else {#})"
proof (cases "pl_is_lock_grantable L lock")
  case True
  with assms(1) have "insert_and_merge lock L = Inr L'" "ret = 0" by (auto simp: setlk_locked_def)
  with insert_and_merge_blocked[OF this(1) _ assms(3-5)] assms(2) show ?thesis
    by (simp only: list_inv_def) simp
qed (use assms in \<open>auto simp: setlk_locked_def pl_insert_lock_def split: if_splits\<close>)

lemma pl_setlk_replies:
  assumes "pl_setlk alloc pl lock can_block GF_LOCK_POSIX = Inr (pl', ret, as)"
    and "list_inv (ext_list pl)" "wf_lock lock" "\<not> blocked lock" "not_waiting (ext_list pl) (owner lock)"
    and "can_block \<Longrightarrow> frame lock \<noteq> None"
  shows "(ret = 0 \<or> ret = - 1) \<and> list_inv (ext_list pl') \<and>
    blocked_frames (ext_list pl') + replies as =
      blocked_frames (ext_list pl) + (if ret = - 1 \<and> can_block then {#frame lock#} else {#})"
proof -
  obtain L pl1 as1 where s: "setlk_locked (ext_list pl) lock can_block = Inr (L, ret)"
    and g: "grant_blocked_locks alloc (set_domain pl GF_LOCK_POSIX L) GF_LOCK_POSIX = Inr (pl1, as1)"
    and w: "pl' = fst (do_blocked_rw pl1)" "as = as1 @ snd (do_blocked_rw pl1)"
    using assms(1) by (auto simp: pl_setlk_def case_prod_beta)
  have "list_inv L"
    by (rule setlk_locked_inv[OF s]) (use assms unlock_grantable in auto)
  note gi = grant_blocked_locks_replies[OF g, simplified, OF this]
  from gi w setlk_locked_blocked[OF s assms(2-5)] show ?thesis by auto
qed

text \<open>C13. Every \<^verbatim>\<open>lk\<close> call is answered once. For a well-formed lock list, a valid range and an owner with no
  request waiting, a call that does not fault leaves the list well-formed, and the callers
  waiting afterwards together with those it answers are exactly the callers waiting before and
  its own caller, for every command and outcome: granted, refused, queued, or queued and granted
  in the same call.\<close>

theorem pl_lk_answers_once:
  assumes "list_inv (ext_list pl)" "not_waiting (ext_list pl) (Owner (root_trans fr) (root_pid fr))"
    and "valid_flock fl" and "pl_lk alloc0 alloc fr (Some pl) cmd fl = Inr (Some pl', acts)"
  shows "list_inv (ext_list pl') \<and>
    mset (map frame (filter blocked (ext_list pl'))) + replies acts =
    mset (map frame (filter blocked (ext_list pl))) + {#Some fr#}"
proof -
  let ?req = "new_posix_lock fl (root_trans fr) (root_pid fr)"
  have wf: "wf_lock (lk_request fl (root_trans fr) (root_pid fr) f)" for f
    using new_posix_lock_wf[OF assms(3)] by simp
  have W: "?req\<lparr>frame := Some fr, user_flock := fl\<rparr> = lk_request fl (root_trans fr) (root_pid fr) (Some fr)"
    and N: "?req\<lparr>user_flock := fl\<rparr> = lk_request fl (root_trans fr) (root_pid fr) None"
    by (simp_all add: lk_request_def new_posix_lock_def calloc_lock_def)
  show ?thesis
  proof (cases "alloc0 \<and> (cmd = F_SETLK \<or> cmd = F_SETLKW)")
    case True
    let ?cb = "cmd = F_SETLKW"
    let ?lock = "lk_request fl (root_trans fr) (root_pid fr) (if ?cb then Some fr else None)"
    obtain ret as where s: "pl_setlk alloc pl ?lock ?cb GF_LOCK_POSIX = Inr (pl', ret, as)"
      and acts: "acts = as @ (if ret = - 1 then if ?cb then [] else [Unwind fr (-1) EAGAIN (Some fl)]
                         else [Unwind fr 0 0 (Some fl)])"
      using assms(4) True by (auto simp: pl_lk_def Let_def W N)
    from pl_setlk_replies[OF s assms(1) wf] assms(2) acts show ?thesis by auto
  next
    case False
    with assms(1,4) show ?thesis by (cases cmd) (auto simp: pl_lk_def Let_def split: if_splits)
  qed
qed

definition ex_caller :: call_frame where
  "ex_caller = \<lparr>frame_id = 3, root_trans = 3, root_pid = 7\<rparr>"

text \<open>A third client asks for bytes 50 to 59, which the first has read-locked: it waits, and the
  waiting request of the second, which nothing blocks any more, is answered.\<close>

theorem pl_lk_answers_once_witness:
  "\<exists>pl' acts. pl_lk True (\<lambda>_. True) ex_caller (Some ex_inode) F_SETLKW (ex_flock F_WRLCK 50 10) =
     Inr (Some pl', acts) \<and> list_inv (ext_list pl') \<and>
     mset (map frame (filter blocked (ext_list pl'))) + replies acts =
     mset (map frame (filter blocked (ext_list ex_inode))) + {#Some ex_caller#}"
proof -
  have inv: "list_inv (ext_list ex_inode)"
    by (auto simp: inv_defs ex_defs ex_inode_def ex_waiter_def)
  have nw: "not_waiting (ext_list ex_inode) (Owner (root_trans ex_caller) (root_pid ex_caller))"
    and v: "valid_flock (ex_flock F_WRLCK 50 10)" by code_simp+
  let ?l = "(lk_request (ex_flock F_WRLCK 50 10) 3 7 (Some ex_caller))\<lparr>blocked := True\<rparr>"
  have r: "pl_lk True (\<lambda>_. True) ex_caller (Some ex_inode) F_SETLKW (ex_flock F_WRLCK 50 10) =
    Inr (Some (ex_inode\<lparr>ext_list := [ex_lock F_RDLCK 50 10 1, ?l, ex_waiter\<lparr>blocked := False, frame := None\<rparr>]\<rparr>),
      [Unwind \<lparr>frame_id = 5, root_trans = 2, root_pid = 9\<rparr> 0 0 (Some ((ex_flock F_WRLCK 0 10)\<lparr>l_pid := 9\<rparr>))])"
    by code_simp
  from pl_lk_answers_once[OF inv nw v r] r show ?thesis by blast
qed

section \<open>Flush\<close>

lemma pieces_owner: "owner c = owner k \<Longrightarrow> p \<in> set (pieces k c) \<Longrightarrow> owner p = owner k"
  by (auto simp: pieces_def subtract_locks_def List.map_filter_def memcpy_lock_def sum_defs owner_def
      split: if_splits)

text \<open>No operation of a grant pass gives a lock to an owner that is not in the list.\<close>

lemma insert_and_merge_owners:
  assumes "insert_and_merge lock L = Inr L'" "owner lock \<noteq> own" "\<forall>l\<in>set L. owner l \<noteq> own"
  shows "\<forall>l\<in>set L'. owner l \<noteq> own"
  by (rule insert_and_merge_keeps[OF assms(1), where Q = "\<lambda>k. owner k \<noteq> own" and P = "\<lambda>M. \<forall>l\<in>set M. owner l \<noteq> own"])
    (use assms(2,3) in \<open>auto simp: pl_insert_lock_def delete_unlck_locks_def dest: pieces_owner\<close>)

lemma grant_each_owners:
  assumes "grant_each alloc L tmp granted = Inr (L', granted')"
    "\<forall>l\<in>set L. owner l \<noteq> own" "\<forall>l\<in>set tmp. owner l \<noteq> own"
  shows "\<forall>l\<in>set L'. owner l \<noteq> own"
  using assms
proof (induction alloc L tmp granted arbitrary: L' granted' rule: grant_each.induct)
  case (2 alloc L l tmp granted)
  let ?k = "l\<lparr>frame := None, link := Link_ok\<rparr>"
  have bl: "\<forall>x\<in>set (pl_insert_lock L (l\<lparr>blocked := True\<rparr>)). owner x \<noteq> own"
    using 2(5,6) by (simp add: pl_insert_lock_def)
  show ?case
  proof (cases "pl_is_lock_grantable L l \<and> alloc (length tmp)")
    case True
    with 2(4) obtain M where M: "insert_and_merge ?k L = Inr M"
      and r: "grant_each alloc M tmp
         (calloc_lock\<lparr>frame := frame l, user_flock := posix_lock_to_flock l\<rparr> # granted) = Inr (L', granted')"
      by auto
    have "\<forall>x\<in>set M. owner x \<noteq> own"
      by (rule insert_and_merge_owners[OF M]) (use 2(5,6) in simp_all)
    from 2(2)[OF _ _ M r this] True 2(6) show ?thesis by simp
  next
    case False
    with 2(4) have "grant_each alloc (pl_insert_lock L (l\<lparr>blocked := True\<rparr>)) tmp granted = Inr (L', granted')"
      by (auto split: if_splits)
    from 2(1)[OF _ _ this bl] 2(3)[OF _ this bl] False 2(6) show ?thesis by auto
  qed
qed simp

lemma grant_blocked_locks_owners:
  assumes "grant_blocked_locks alloc pl d = Inr (pl', as)" "\<forall>l\<in>set (DOMAIN_HEAD pl d). owner l \<noteq> own"
  shows "(\<forall>l\<in>set (DOMAIN_HEAD pl' d). owner l \<noteq> own) \<and> (\<forall>d'. d' \<noteq> d \<longrightarrow> DOMAIN_HEAD pl' d' = DOMAIN_HEAD pl d')"
proof -
  let ?H = "DOMAIN_HEAD pl d"
  obtain L granted where g: "grant_each alloc (filter (\<lambda>l. \<not> movable ?H l) ?H)
        (map unblock (filter (movable ?H) ?H)) [] = Inr (L, granted)" and pl': "pl' = set_domain pl d L"
    using assms(1) by (auto simp: grant_blocked_locks_def grant_blocked_locks_locked_def grant_candidates_eq)
  have "\<forall>l\<in>set L. owner l \<noteq> own"
    by (rule grant_each_owners[OF g]) (use assms(2) in auto)
  moreover have "DOMAIN_HEAD pl' d' = DOMAIN_HEAD pl d'" if "d' \<noteq> d" for d'
    using that pl' by (cases d; cases d') auto
  ultimately show ?thesis using pl' by simp
qed

text \<open>C33. Closing releases. After a flush by a process, on an inode with a lock context and without a
  fault in its grant passes, which removes the locks of the process and then runs the grant passes and
  resumes waiting reads and writes, no lock of that process, granted or waiting, is left in either
  lock domain, and the flush is passed to the child.\<close>

theorem flush_releases_owner:
  assumes "pl_flush alloc1 alloc2 fr (Some pl) fd = Inr (Some pl', acts)"
  shows "(\<forall>d. \<forall>l \<in> set (DOMAIN_HEAD pl' d). \<not> (transport l = root_trans fr \<and> client_pid l = root_pid fr)) \<and>
    Wind fr (Call_flush fd) \<in> set acts"
proof -
  let ?o = "Owner (root_trans fr) (root_pid fr)"
  let ?pl0 = "delete_locks_of_owner pl (root_trans fr) (root_pid fr)"
  have del: "\<forall>l\<in>set (DOMAIN_HEAD ?pl0 d). owner l \<noteq> ?o" for d
    by (cases d) (auto simp: delete_locks_of_owner_def owner_def)
  obtain pl1 as1 pl2 as2 where
    g1: "grant_blocked_locks alloc1 ?pl0 GF_LOCK_POSIX = Inr (pl1, as1)" and
    g2: "grant_blocked_locks alloc2 pl1 GF_LOCK_INTERNAL = Inr (pl2, as2)" and
    w: "pl' = fst (do_blocked_rw pl2)"
      "acts = as1 @ as2 @ snd (do_blocked_rw pl2) @ [Wind fr (Call_flush fd)]"
    using assms by (auto simp: pl_flush_def case_prod_beta)
  note o1 = grant_blocked_locks_owners[OF g1 del]
  have "\<forall>l\<in>set (DOMAIN_HEAD pl1 GF_LOCK_INTERNAL). owner l \<noteq> ?o"
    using o1 del[of GF_LOCK_INTERNAL] by (metis gf_lk_domain.distinct(1))
  note o2 = grant_blocked_locks_owners[OF g2 this]
  have eq: "DOMAIN_HEAD pl' d = DOMAIN_HEAD pl2 d" for d
    by (cases d) (simp_all add: w do_blocked_rw_def Let_def)
  have "owner l \<noteq> ?o" if "l \<in> set (DOMAIN_HEAD pl' d)" for l d using that[unfolded eq] o1 o2 by (cases d) auto
  then show ?thesis using w(2) by (auto simp: owner_def)
qed

definition ex_flusher :: call_frame where
  "ex_flusher = \<lparr>frame_id = 8, root_trans = 1, root_pid = 7\<rparr>"

theorem flush_releases_owner_witness:
  "\<exists>pl' acts. pl_flush (\<lambda>_. True) (\<lambda>_. True) ex_flusher (Some ex_inode) 4 = Inr (Some pl', acts) \<and>
     ex_waiter\<lparr>blocked := False, frame := None\<rparr> \<in> set (DOMAIN_HEAD pl' GF_LOCK_POSIX) \<and>
     (\<forall>l \<in> set (DOMAIN_HEAD pl' GF_LOCK_POSIX). \<not> (transport l = root_trans ex_flusher \<and> client_pid l = root_pid ex_flusher)) \<and>
     Wind ex_flusher (Call_flush 4) \<in> set acts"
proof -
  let ?pl = "ex_inode\<lparr>ext_list := [ex_waiter\<lparr>blocked := False, frame := None\<rparr>]\<rparr>"
  have r: "pl_flush (\<lambda>_. True) (\<lambda>_. True) ex_flusher (Some ex_inode) 4 =
    Inr (Some ?pl, [Unwind \<lparr>frame_id = 5, root_trans = 2, root_pid = 9\<rparr> 0 0
      (Some ((ex_flock F_WRLCK 0 10)\<lparr>l_pid := 9\<rparr>)), Wind ex_flusher (Call_flush 4)])"
    by code_simp
  have "ex_waiter\<lparr>blocked := False, frame := None\<rparr> \<in> set (DOMAIN_HEAD ?pl GF_LOCK_POSIX)" by simp
  with flush_releases_owner[OF r] r show ?thesis by blast
qed

section \<open>Reads, writes and truncation under mandatory locks\<close>

text \<open>With mandatory locking on, a read or write that no lock forbids is dropped: the handler
  neither winds it to the child nor answers it nor queues it, and the caller waits forever.\<close>

theorem allowed_io_dropped:
  assumes "mandatory pl"
    and "rw_allowable (ext_list pl) (calloc_lock\<lparr>fl_start := offset, fl_end := off_wrap (offset + int sz - 1),
           transport := root_trans fr, client_pid := root_pid fr\<rparr>) GF_FOP_WRITE"
    and "sz < 2 ^ 64"
  shows "pl_readv a1 a2 True fr (Some pl) fd flags sz offset = Inr (Some pl, []) \<and>
    pl_writev a1 a2 True fr (Some pl) fd flags [sz] offset = Inr (Some pl, [])"
proof -
  have rd: "rw_allowable L reg GF_FOP_READ" if "rw_allowable L reg GF_FOP_WRITE" for L reg
    using that by (induction L) (auto split: if_splits)
  have "iov_length [sz] = int sz" using assms(3) by (simp add: iov_length_def flip: of_nat_less_iff)
  with assms(1,2) rd[OF assms(2)] show ?thesis
    by (simp add: pl_readv_def pl_writev_def rw_mandatory_def Let_def)
qed

theorem allowed_io_dropped_witness:
  "pl_readv True True True ex_caller (Some (ex_inode\<lparr>mandatory := True\<rparr>)) 4 0 100 200 =
     Inr (Some (ex_inode\<lparr>mandatory := True\<rparr>), []) \<and>
   pl_writev True True True ex_caller (Some (ex_inode\<lparr>mandatory := True\<rparr>)) 4 0 [100] 200 =
     Inr (Some (ex_inode\<lparr>mandatory := True\<rparr>), [])"
  by (rule allowed_io_dropped) (simp, code_simp, simp)

lemma truncate_scan_iff:
  "truncate_scan L reg \<longleftrightarrow> (\<forall>l\<in>set L. \<not> blocked l \<longrightarrow> locks_overlap reg l \<longrightarrow> owner reg = owner l)"
  by (induction L) (auto simp: lock_simps)

text \<open>C34. Mandatory locks and truncation. When the \<^verbatim>\<open>stat\<close> of the file succeeded and mandatory
  locking is on, the truncation goes to the child exactly when no other owner holds a lock on
  an offset from the new end of file on, and is answered with an error otherwise.\<close>

theorem truncate_respects_locks:
  assumes "mandatory pl" "wf_list (ext_list pl)" "0 \<le> tr_offset lc" "tr_offset lc \<le> LLONG_MAX"
    and "\<forall>l\<in>set (ext_list pl). fl_end l \<le> LLONG_MAX"
  shows "truncate_stat_cbk True fr lc (Some pl) 0 op_errno =
    (if \<exists>own p. own \<noteq> Owner (root_trans fr) (root_pid fr) \<and> tr_offset lc \<le> p \<and> held (ext_list pl) own p \<noteq> {}
     then [Unwind fr (-1) ENOMEM None]
     else [Wind fr (case tr_op lc of TRUNCATE \<Rightarrow> Call_truncate (tr_target lc) (tr_offset lc)
                     | FTRUNCATE \<Rightarrow> Call_ftruncate (tr_target lc) (tr_offset lc))])"
proof -
  let ?o = "Owner (root_trans fr) (root_pid fr)"
  let ?r = "calloc_lock\<lparr>fl_start := tr_offset lc, fl_end := LLONG_MAX, transport := root_trans fr, client_pid := root_pid fr\<rparr>"
  have ov: "locks_overlap ?r l \<longleftrightarrow> (\<exists>p\<ge>tr_offset lc. covers l p)" if "l \<in> set (ext_list pl)" for l
  proof -
    have "wf_lock l" "fl_end l \<le> LLONG_MAX" using that assms by (auto simp: wf_list_def)
    moreover have "wf_lock ?r" using assms by (simp add: wf_lock_def)
    ultimately show ?thesis unfolding locks_overlap_iff[OF \<open>wf_lock ?r\<close> \<open>wf_lock l\<close>]
      by (force simp: covers_def)
  qed
  have "truncate_allowed pl (root_trans fr) (root_pid fr) (tr_offset lc) \<longleftrightarrow>
    \<not> (\<exists>own p. own \<noteq> ?o \<and> tr_offset lc \<le> p \<and> held (ext_list pl) own p \<noteq> {})"
  proof -
    have "owner ?r = ?o" by (simp add: owner_def)
    then have "truncate_allowed pl (root_trans fr) (root_pid fr) (tr_offset lc) \<longleftrightarrow>
        \<not> (\<exists>l\<in>set (ext_list pl). \<not> blocked l \<and> owner l \<noteq> ?o \<and> locks_overlap ?r l)"
      unfolding truncate_allowed_def truncate_scan_iff by auto
    also have "\<dots> \<longleftrightarrow> \<not> (\<exists>l\<in>set (ext_list pl). \<not> blocked l \<and> owner l \<noteq> ?o \<and> (\<exists>p\<ge>tr_offset lc. covers l p))"
      by (simp add: ov cong: bex_cong)
    also have "\<dots> \<longleftrightarrow> \<not> (\<exists>own p. own \<noteq> ?o \<and> tr_offset lc \<le> p \<and> held (ext_list pl) own p \<noteq> {})"
      unfolding held_def by blast
    finally show ?thesis .
  qed
  then show ?thesis
    using assms(1) by (simp add: truncate_stat_cbk_def split: truncate_op.splits)
qed

theorem truncate_respects_locks_witness:
  "truncate_stat_cbk True ex_caller \<lparr>tr_op = TRUNCATE, tr_target = 1, tr_offset = 55\<rparr>
     (Some (ex_inode\<lparr>mandatory := True\<rparr>)) 0 0 = [Unwind ex_caller (-1) ENOMEM None]"
proof -
  let ?lc = "\<lparr>tr_op = TRUNCATE, tr_target = 1, tr_offset = 55\<rparr>"
  let ?pl = "ex_inode\<lparr>mandatory := True\<rparr>"
  have "\<exists>own p. own \<noteq> Owner (root_trans ex_caller) (root_pid ex_caller) \<and> tr_offset ?lc \<le> p \<and> held (ext_list ?pl) own p \<noteq> {}"
    by (rule exI[of _ "Owner 1 7"], rule exI[of _ 57])
      (simp add: ex_caller_def ex_inode_def covers_def ex_defs)
  moreover have "mandatory ?pl" "wf_list (ext_list ?pl)" "0 \<le> tr_offset ?lc" "tr_offset ?lc \<le> LLONG_MAX"
    "\<forall>l\<in>set (ext_list ?pl). fl_end l \<le> LLONG_MAX"
    by code_simp+
  ultimately show ?thesis using truncate_respects_locks[of ?pl ?lc ex_caller 0] by (simp only: if_True)
qed

section \<open>Inode locks\<close>

text \<open>C40. A blocking inode lock that cannot be granted is granted: the request is put in the list
  without the blocked mark, next to the lock of another owner it overlaps, and the caller is told
  -1 with error 0 at once.\<close>

theorem inodelk_wait_breaks_exclusion:
  assumes "0 \<le> l_start fl" "0 \<le> l_len fl" "root_pid fr \<noteq> 0" "l_type fl = F_WRLCK"
    and "req = lk_request fl (root_trans fr) (root_pid fr) (Some fr)"
    and "\<not> pl_is_lock_grantable (int_list pl) req"
  shows "pl_inodelk_common True fr (Some (pl, D)) F_SETLKW fl =
      Inr (Some (pl\<lparr>int_list := int_list pl @ [req]\<rparr>, D), [Unwind fr (-1) 0 None]) \<and>
    (\<exists>l\<in>set (int_list pl). \<not> blocked l \<and> \<not> blocked req \<and> locks_overlap req l \<and> \<not> same_owner l req)"
proof -
  let ?new = "new_posix_lock fl (root_trans fr) (root_pid fr)"
  have req: "?new\<lparr>frame := Some fr, user_flock := fl\<rparr> = req"
    and lk: "req\<lparr>link := Link_ok\<rparr> = req" and b: "\<not> blocked req"
    unfolding assms(5) by (simp_all add: lk_request_def new_posix_lock_def calloc_lock_def)
  have "\<exists>l\<in>set (int_list pl). \<not> blocked l \<and> \<not> blocked req \<and> locks_overlap req l \<and> \<not> same_owner l req"
    using assms(6) b unfolding pl_is_lock_grantable_iff same_owner_iff by blast
  moreover have "pl_inodelk_common True fr (Some (pl, D)) F_SETLKW fl =
      Inr (Some (pl\<lparr>int_list := int_list pl @ [req]\<rparr>, D), [Unwind fr (-1) 0 None])"
    using assms(1-4,6) by (simp add: pl_inodelk_common_def Let_def pl_insert_lock_def req lk)
  ultimately show ?thesis by blast
qed

theorem inodelk_wait_breaks_exclusion_witness:
  "pl_inodelk_common True ex_caller (Some (ex_inode\<lparr>int_list := [ex_lock F_WRLCK 0 10 1]\<rparr>, [])) F_SETLKW
       (ex_flock F_WRLCK 5 10) =
     Inr (Some (ex_inode\<lparr>int_list := [ex_lock F_WRLCK 0 10 1]\<rparr>
            \<lparr>int_list := int_list (ex_inode\<lparr>int_list := [ex_lock F_WRLCK 0 10 1]\<rparr>) @
               [lk_request (ex_flock F_WRLCK 5 10) (root_trans ex_caller) (root_pid ex_caller) (Some ex_caller)]\<rparr>, []),
       [Unwind ex_caller (-1) 0 None]) \<and>
   (\<exists>l\<in>set (int_list (ex_inode\<lparr>int_list := [ex_lock F_WRLCK 0 10 1]\<rparr>)). \<not> blocked l \<and>
      \<not> blocked (lk_request (ex_flock F_WRLCK 5 10) (root_trans ex_caller) (root_pid ex_caller) (Some ex_caller)) \<and>
      locks_overlap (lk_request (ex_flock F_WRLCK 5 10) (root_trans ex_caller) (root_pid ex_caller) (Some ex_caller)) l \<and>
      \<not> same_owner l (lk_request (ex_flock F_WRLCK 5 10) (root_trans ex_caller) (root_pid ex_caller) (Some ex_caller)))"
  by (rule inodelk_wait_breaks_exclusion[OF _ _ _ _ refl]; code_simp)

lemma find_exact_append:
  "find_exact_matching_lock L k = None \<Longrightarrow> same_owner l k \<Longrightarrow> fl_start l = fl_start k \<Longrightarrow>
     fl_end l = fl_end k \<Longrightarrow> find_exact_matching_lock (L @ [l]) k = Some (length L)"
  by (induction L) (auto split: if_splits)

lemma find_exact_same:
  "same_owner k k' \<Longrightarrow> fl_start k = fl_start k' \<Longrightarrow> fl_end k = fl_end k' \<Longrightarrow>
     find_exact_matching_lock L k = find_exact_matching_lock L k'"
  by (induction L) (auto simp: lock_simps)

text \<open>C35. Locking and unlocking an inode range cancel: a grantable write lock followed by the
  unlock of the same range by the same process answers 0 both times and leaves the list as it
  was, when the process had no lock of exactly that range before.\<close>

theorem inodelk_lock_unlock:
  assumes "0 \<le> l_start fl" "0 \<le> l_len fl" "root_pid fr \<noteq> 0" "root_pid fr' = root_pid fr"
    "root_trans fr' = root_trans fr"
    and "pl_is_lock_grantable (int_list pl) (new_posix_lock (fl\<lparr>l_type := F_WRLCK\<rparr>) (root_trans fr) (root_pid fr))"
    and "find_exact_matching_lock (int_list pl) (new_posix_lock fl (root_trans fr) (root_pid fr)) = None"
  shows "\<exists>pl'. pl_inodelk_common True fr (Some (pl, D)) F_SETLK (fl\<lparr>l_type := F_WRLCK\<rparr>) =
      Inr (Some (pl', D), [Unwind fr 0 0 None]) \<and>
    pl_inodelk_common True fr' (Some (pl', D)) F_SETLK (fl\<lparr>l_type := F_UNLCK\<rparr>) =
      Inr (Some (pl, D), [Unwind fr' 0 0 None])"
proof -
  let ?w = "(new_posix_lock (fl\<lparr>l_type := F_WRLCK\<rparr>) (root_trans fr) (root_pid fr))\<lparr>user_flock := fl\<lparr>l_type := F_WRLCK\<rparr>\<rparr>"
  let ?u = "(new_posix_lock (fl\<lparr>l_type := F_UNLCK\<rparr>) (root_trans fr) (root_pid fr))\<lparr>user_flock := fl\<lparr>l_type := F_UNLCK\<rparr>\<rparr>"
  have g: "pl_is_lock_grantable (int_list pl) ?w"
    using assms(6) by (simp add: pl_is_lock_grantable_iff locks_overlap_def owner_def)
  have "find_exact_matching_lock (int_list pl) ?u = None"
    unfolding assms(7)[symmetric]
    by (rule find_exact_same) (simp_all add: same_owner_def new_posix_lock_def)
  then have "find_exact_matching_lock (pl_insert_lock (int_list pl) ?w) ?u = Some (length (int_list pl))"
    unfolding pl_insert_lock_def
    by (rule find_exact_append) (simp_all add: same_owner_def new_posix_lock_def)
  with g assms(1-5) show ?thesis
    by (simp add: pl_inodelk_common_def Let_def pl_insert_lock_def delete_nth_def)
qed

theorem inodelk_lock_unlock_witness:
  "\<exists>pl'. pl_inodelk_common True ex_caller (Some (ex_inode, [])) F_SETLK ((ex_flock F_RDLCK 5 10)\<lparr>l_type := F_WRLCK\<rparr>) =
      Inr (Some (pl', []), [Unwind ex_caller 0 0 None]) \<and>
    pl_inodelk_common True ex_caller (Some (pl', [])) F_SETLK ((ex_flock F_RDLCK 5 10)\<lparr>l_type := F_UNLCK\<rparr>) =
      Inr (Some (ex_inode, []), [Unwind ex_caller 0 0 None])"
  by (rule inodelk_lock_unlock; code_simp)

end
