(* ===== verification/Byte_Order.thy ===== *)
theory Byte_Order
  imports Prelude
begin

text \<open>
  \<^verbatim>\<open>libglusterfs/src/byte-order.h\<close> and the loads and stores of integers in wire buffers. A buffer
  is a list of bytes; a host is little or big endian. Shown here: the swap macros reverse the
  bytes of a word and are their own inverses, so what one host stores it also loads; the order
  on the wire depends on the host, since the functions chosen for big-endian hosts swap too.
\<close>

unbundle bit_operations_syntax

type_synonym bytes = "u8 list"

definition LS1 :: u32 where "LS1 = 0x00ff"
definition MS1 :: u32 where "MS1 = 0xff00"
definition LS2 :: u32 where "LS2 = 0x0000ffff"
definition MS2 :: u32 where "MS2 = 0xffff0000"
definition LS4 :: u64 where "LS4 = 0x00000000ffffffff"
definition MS4 :: u64 where "MS4 = 0xffffffff00000000"

definition do_swap2 :: "u32 \<Rightarrow> u32" where
  "do_swap2 x = push_bit 8 (x AND LS1) OR drop_bit 8 (x AND MS1)"

definition do_swap4 :: "u32 \<Rightarrow> u32" where
  "do_swap4 x = push_bit 16 (do_swap2 (x AND LS2)) OR do_swap2 (drop_bit 16 (x AND MS2))"

definition do_swap8 :: "u64 \<Rightarrow> u64" where
  "do_swap8 x = push_bit 32 (ucast (do_swap4 (ucast (x AND LS4)))) OR
     ucast (do_swap4 (ucast (drop_bit 32 (x AND MS4))))"

lemma bit_masks [simp]:
  "bit LS1 n \<longleftrightarrow> n < 8" "bit MS1 n \<longleftrightarrow> 8 \<le> n \<and> n < 16"
  "bit LS2 n \<longleftrightarrow> n < 16" "bit MS2 n \<longleftrightarrow> 16 \<le> n \<and> n < 32"
  "bit LS4 n \<longleftrightarrow> n < 32" "bit MS4 n \<longleftrightarrow> 32 \<le> n \<and> n < 64"
proof -
  have eqs: "LS1 = mask 8" "MS1 = push_bit 8 (mask 8)" "LS2 = mask 16" "MS2 = push_bit 16 (mask 16)"
    "LS4 = mask 32" "MS4 = push_bit 32 (mask 32)"
    by (simp_all add: LS1_def MS1_def LS2_def MS2_def LS4_def MS4_def mask_eq_exp_minus_1)
  show "bit LS1 n \<longleftrightarrow> n < 8" "bit MS1 n \<longleftrightarrow> 8 \<le> n \<and> n < 16"
    "bit LS2 n \<longleftrightarrow> n < 16" "bit MS2 n \<longleftrightarrow> 16 \<le> n \<and> n < 32"
    "bit LS4 n \<longleftrightarrow> n < 32" "bit MS4 n \<longleftrightarrow> 32 \<le> n \<and> n < 64"
    unfolding eqs by (auto simp: bit_simps)
qed

lemma bit_do_swap2: "bit (do_swap2 x) n \<longleftrightarrow> (n < 8 \<and> bit x (8 + n)) \<or> (8 \<le> n \<and> n < 16 \<and> bit x (n - 8))"
  by (auto simp: do_swap2_def bit_simps)

lemma byte_range_cases:
  obtains "n < 8" | "8 \<le> n" "n < 16" | "16 \<le> n" "n < 24" | "24 \<le> n" "n < (32 :: nat)" | "32 \<le> n"
  by linarith

lemma bit_do_swap4: "bit (do_swap4 x) n \<longleftrightarrow>
   (if n < 8 then bit x (24 + n) else if n < 16 then bit x (8 + n)
    else if n < 24 then bit x (n - 8) else if n < 32 then bit x (n - 24) else False)"
proof (cases rule: byte_range_cases[of n])
  case 3
  then have "n - 16 < 8" "8 + (n - 16) = n - 8" by auto
  with 3 show ?thesis by (auto simp: do_swap4_def bit_simps bit_do_swap2)
next
  case 4
  then have "8 \<le> n - 16" "n - 16 < 16" "n - 16 - 8 = n - 24" by auto
  with 4 show ?thesis by (auto simp: do_swap4_def bit_simps bit_do_swap2)
qed (auto simp: do_swap4_def bit_simps bit_do_swap2)

lemma do_swap4_involutive [simp]: "do_swap4 (do_swap4 x) = x"
proof (rule bit_word_eqI)
  fix n assume "n < LENGTH(32)"
  then show "bit (do_swap4 (do_swap4 x)) n = bit x n"
    by (cases rule: byte_range_cases[of n]) (auto simp: bit_do_swap4)
qed

section \<open>Integers in buffers\<close>

text \<open>
  The functions behind the pointers \<^verbatim>\<open>hton32\<close>, \<^verbatim>\<open>ntoh32\<close> after their first call has looked at the
  host: \<^verbatim>\<open>__swap32\<close> on a little-endian host, \<^verbatim>\<open>__noswap32\<close> on a big-endian one. Both swap.
\<close>

definition swap32 :: "u32 \<Rightarrow> u32" where "swap32 x = do_swap4 x"
definition noswap32 :: "u32 \<Rightarrow> u32" where "noswap32 x = do_swap4 x"

definition hton32 :: "bool \<Rightarrow> u32 \<Rightarrow> u32" where
  "hton32 little x = (if little then swap32 x else noswap32 x)"

definition byte_of :: "u32 \<Rightarrow> nat \<Rightarrow> u8" where
  "byte_of w i = ucast (drop_bit (8 * i) w)"

text \<open>What \<^verbatim>\<open>*(int32_t * ) buf = w\<close> writes and reads on a host.\<close>

definition store32 :: "bool \<Rightarrow> u32 \<Rightarrow> bytes" where
  "store32 little w =
     (let bs = [byte_of w 0, byte_of w 1, byte_of w 2, byte_of w 3] in if little then bs else rev bs)"

definition load32 :: "bool \<Rightarrow> bytes \<Rightarrow> u32" where
  "load32 little bs =
     (let f = (\<lambda>i. ucast (if little then bs ! i else bs ! (3 - i)) :: u32)
      in f 0 OR push_bit 8 (f 1) OR push_bit 16 (f 2) OR push_bit 24 (f 3))"

lemma length_store32 [simp]: "length (store32 e w) = 4"
  by (simp add: store32_def Let_def)

lemma bit_byte_of: "bit (byte_of w i) n \<longleftrightarrow> n < 8 \<and> bit w (8 * i + n)"
  by (simp add: byte_of_def bit_simps)

lemma load_bytes:
  "ucast (byte_of w 0) OR push_bit 8 (ucast (byte_of w 1)) OR push_bit 16 (ucast (byte_of w 2))
     OR push_bit 24 (ucast (byte_of w 3)) = (w :: u32)"
proof (rule bit_word_eqI)
  fix n assume "n < LENGTH(32)"
  then show "bit (ucast (byte_of w 0) OR push_bit 8 (ucast (byte_of w 1)) OR push_bit 16 (ucast (byte_of w 2))
     OR push_bit 24 (ucast (byte_of w 3)) :: u32) n = bit w n"
    by (cases rule: byte_range_cases[of n]) (auto simp: bit_simps bit_byte_of)
qed

lemma load_store32 [simp]: "load32 e (store32 e w) = w"
  using load_bytes by (cases e) (simp_all add: load32_def store32_def Let_def numeral_3_eq_3 numeral_2_eq_2)

lemma hton32_involutive [simp]: "hton32 e (hton32 e w) = w"
  by (simp add: hton32_def swap32_def noswap32_def)

lemma byte_of_swap:
  "byte_of (do_swap4 w) 0 = byte_of w 3" "byte_of (do_swap4 w) 1 = byte_of w 2"
  "byte_of (do_swap4 w) 2 = byte_of w 1" "byte_of (do_swap4 w) 3 = byte_of w 0"
  by (rule bit_word_eqI; auto simp: bit_byte_of bit_do_swap4)+

text \<open>The order on the wire. What a host sends with \<^verbatim>\<open>hton32\<close> is big endian when the host is
  little endian, and little endian when the host is big endian; a host of the same kind reads
  back what was sent.\<close>

theorem hton32_wire_order:
  "store32 True (hton32 True w) = [byte_of w 3, byte_of w 2, byte_of w 1, byte_of w 0] \<and>
   store32 False (hton32 False w) = [byte_of w 0, byte_of w 1, byte_of w 2, byte_of w 3] \<and>
   hton32 e (load32 e (store32 e (hton32 e w))) = w"
  by (simp add: store32_def[of True] store32_def[of False] hton32_def swap32_def noswap32_def Let_def
      byte_of_swap byte_of_swap(2)[simplified])

end
