(* ===== verification/Dict.thy ===== *)
theory Dict
  imports Byte_Order
begin

text \<open>
  Dictionaries, \<^verbatim>\<open>libglusterfs/src/dict.c\<close>, with the hash of \<^verbatim>\<open>libglusterfs/src/hashfn.c\<close>. Values and
  pairs live in a store of cells, because a pair is on a hash chain and on the member list at the
  same time and a value may be in several dictionaries; an address is never used twice. Keys are
  C strings, lists of non-zero bytes. Shown here: a dictionary is a finite map with
  reference-counted values, and its serialized form is read back.
\<close>

section \<open>Values, pairs and dictionaries\<close>

text \<open>\<^verbatim>\<open>data_t\<close>: \<open>vec\<close> holds the lengths of its iovec, \<open>dt_data\<close> the memory from its data pointer on.\<close>

record data_t =
  is_static :: bool
  is_const :: bool
  dt_len :: int
  vec :: "int list option"
  dt_data :: "bytes option"
  dt_refcount :: int

record data_pair =
  pr_key :: bytes
  pr_value :: nat

record store =
  datas :: "nat \<Rightarrow> data_t option"
  pairs :: "nat \<Rightarrow> data_pair option"
  next_addr :: nat

text \<open>
  The number of members and the reference counts are \<^verbatim>\<open>int32_t\<close> in the source and integers here: what is
  shown about them holds while no count reaches 2^31, that is with fewer than 2^31 members of a
  dictionary and holders of a value.
\<close>

record dict_t =
  hash_size :: int
  d_count :: int
  d_refcount :: int
  members :: "nat list list"
  members_list :: "nat list"

definition empty_store :: store where
  "empty_store = \<lparr>datas = \<lambda>_. None, pairs = \<lambda>_. None, next_addr = 0\<rparr>"

text \<open>
  \<^verbatim>\<open>SuperFastHash\<close> over a buffer that holds the terminating zero. The loop at its start returns
  from its first iteration, and what follows it is never reached.
\<close>

definition SuperFastHash :: "bytes \<Rightarrow> int \<Rightarrow> u32" where
  "SuperFastHash buf len =
     (if len \<le> 1 then 1 else (word_of_int len :: u32) XOR scast (buf ! nat len))"

definition hash_key :: "bytes \<Rightarrow> u32" where
  "hash_key key = SuperFastHash (key @ [0]) (int (length key))"

text \<open>\<^verbatim>\<open>get_new_data\<close> fills a fresh cell.\<close>

definition get_new_data :: "store \<Rightarrow> store \<times> nat" where
  "get_new_data h =
     (h\<lparr>datas := (datas h)(next_addr h \<mapsto>
          \<lparr>is_static = False, is_const = False, dt_len = 0, vec = None, dt_data = None, dt_refcount = 0\<rparr>),
        next_addr := next_addr h + 1\<rparr>, next_addr h)"

definition get_new_dict_full :: "bool \<Rightarrow> bool \<Rightarrow> int \<Rightarrow> dict_t option" where
  "get_new_dict_full alloc_dict alloc_members size_hint =
     (if \<not> alloc_dict then None
      else if \<not> alloc_members then None
      else Some \<lparr>hash_size = size_hint, d_count = 0, d_refcount = 0,
                 members = replicate (nat size_hint) [], members_list = []\<rparr>)"

definition get_new_dict :: "bool \<Rightarrow> bool \<Rightarrow> dict_t option" where
  "get_new_dict alloc_dict alloc_members = get_new_dict_full alloc_dict alloc_members 1"

definition dict_ref :: "dict_t option \<Rightarrow> dict_t option" where
  "dict_ref this = map_option (\<lambda>d. d\<lparr>d_refcount := d_refcount d + 1\<rparr>) this"

definition dict_new :: "bool \<Rightarrow> bool \<Rightarrow> dict_t option" where
  "dict_new alloc_dict alloc_members =
     (case get_new_dict_full alloc_dict alloc_members 1 of
        None \<Rightarrow> None
      | Some d \<Rightarrow> dict_ref (Some d))"

definition is_data_equal :: "data_t option \<Rightarrow> data_t option \<Rightarrow> bool \<Rightarrow> fault + bool" where
  "is_data_equal one two same_pointer =
     (case (one, two) of
        (Some a, Some b) \<Rightarrow>
          (case (dt_data a, dt_data b) of
             (Some x, Some y) \<Rightarrow>
               if same_pointer then Inr True
               else if dt_len a \<noteq> dt_len b then Inr False
               else if dt_len a < 0 \<or> dt_len a > int (length x) \<or> dt_len a > int (length y)
                 then Inl Out_Of_Bounds
               else Inr (take (nat (dt_len a)) x = take (nat (dt_len a)) y)
           | _ \<Rightarrow> Inr True)
      | _ \<Rightarrow> Inr True)"

section \<open>Reference counts of values\<close>

definition data_ref :: "store \<Rightarrow> nat \<Rightarrow> fault + store" where
  "data_ref h a =
     (case datas h a of
        None \<Rightarrow> Inl Use_After_Free
      | Some x \<Rightarrow> Inr (h\<lparr>datas := (datas h)(a \<mapsto> x\<lparr>dt_refcount := dt_refcount x + 1\<rparr>)\<rparr>))"

text \<open>\<^verbatim>\<open>data_destroy\<close>: a constant cell stays, with its buffers gone.\<close>

definition data_destroy :: "store \<Rightarrow> nat \<Rightarrow> fault + store" where
  "data_destroy h a =
     (case datas h a of
        None \<Rightarrow> Inl Use_After_Free
      | Some x \<Rightarrow>
          let x' = (if is_static x then x else x\<lparr>dt_data := None, vec := None\<rparr>)
                     \<lparr>dt_len := - 1162167622\<rparr>
          in Inr (h\<lparr>datas := (datas h)(a := if is_const x then Some x' else None)\<rparr>))"

definition data_unref :: "store \<Rightarrow> nat \<Rightarrow> fault + store" where
  "data_unref h a =
     (case datas h a of
        None \<Rightarrow> Inl Use_After_Free
      | Some x \<Rightarrow>
          let ref = dt_refcount x - 1;
              h' = h\<lparr>datas := (datas h)(a \<mapsto> x\<lparr>dt_refcount := ref\<rparr>)\<rparr>
          in if ref = 0 then data_destroy h' a else Inr h')"

section \<open>Lookup\<close>

fun chain_find :: "store \<Rightarrow> nat list \<Rightarrow> bytes \<Rightarrow> fault + nat option" where
  "chain_find h [] key = Inr None"
| "chain_find h (a # chain) key =
     (case pairs h a of
        None \<Rightarrow> Inl Use_After_Free
      | Some p \<Rightarrow> if pr_key p = key then Inr (Some a) else chain_find h chain key)"

text \<open>The bucket as \<^verbatim>\<open>_dict_lookup\<close> and \<^verbatim>\<open>dict_del\<close> compute it, with an unsigned remainder.\<close>

definition bucket :: "dict_t \<Rightarrow> bytes \<Rightarrow> fault + nat" where
  "bucket d key =
     (if hash_size d = 0 then Inl Div_By_Zero
      else
        let hashval = unat (hash_key key mod (word_of_int (hash_size d))) in
        if hashval < length (members d) then Inr hashval else Inl Out_Of_Bounds)"

definition dict_lookup :: "store \<Rightarrow> dict_t \<Rightarrow> bytes \<Rightarrow> fault + nat option" where
  "dict_lookup h d key =
     bind_f (bucket d key) (\<lambda>hashval. chain_find h (members d ! hashval) key)"

definition dict_get :: "store \<Rightarrow> dict_t option \<Rightarrow> bytes option \<Rightarrow> fault + nat option" where
  "dict_get h this key =
     (case (this, key) of
        (Some d, Some k) \<Rightarrow>
          bind_f (dict_lookup h d k) (\<lambda>r.
            case r of
              None \<Rightarrow> Inr None
            | Some a \<Rightarrow> (case pairs h a of None \<Rightarrow> Inl Use_After_Free | Some p \<Rightarrow> Inr (Some (pr_value p))))
      | _ \<Rightarrow> Inr None)"

section \<open>Update\<close>

fun hex_digits :: "nat \<Rightarrow> bytes" where
  "hex_digits n =
     (let c = (\<lambda>k. of_nat (if k < 10 then 48 + k else 87 + k) :: u8) in
      if n < 16 then [c n] else hex_digits (n div 16) @ [c (n mod 16)])"

text \<open>The key \<^verbatim>\<open>_dict_set\<close> makes up for a null key: \<^verbatim>\<open>"ref:%p"\<close>.\<close>

definition ref_key :: "nat \<Rightarrow> bytes" where
  "ref_key a = [114, 101, 102, 58, 48, 120] @ hex_digits a"

text \<open>The bucket as \<^verbatim>\<open>_dict_set\<close> computes it: the hash goes through an \<^verbatim>\<open>int\<close>.\<close>

definition set_bucket :: "dict_t \<Rightarrow> bytes \<Rightarrow> fault + int" where
  "set_bucket d key =
     (if hash_size d = 0 then Inl Div_By_Zero
      else let tmp = sint (hash_key key) in Inr (sgn tmp * (\<bar>tmp\<bar> mod \<bar>hash_size d\<bar>)))"

definition dict_set_locked ::
    "bool \<Rightarrow> bool \<Rightarrow> store \<Rightarrow> dict_t \<Rightarrow> bytes option \<Rightarrow> nat \<Rightarrow> fault + (store \<times> dict_t \<times> int)" where
  "dict_set_locked alloc_pair alloc_key h d key value =
     (let k = (case key of None \<Rightarrow> ref_key value | Some k \<Rightarrow> k) in
      bind_f (set_bucket d k) (\<lambda>hashval.
      bind_f (dict_lookup h d k) (\<lambda>pair.
        case pair of
          Some a \<Rightarrow>
            (case pairs h a of
               None \<Rightarrow> Inl Use_After_Free
             | Some p \<Rightarrow>
                 bind_f (data_ref h value) (\<lambda>h1.
                 bind_f (data_unref (h1\<lparr>pairs := (pairs h1)(a \<mapsto> p\<lparr>pr_value := value\<rparr>)\<rparr>) (pr_value p))
                   (\<lambda>h2. Inr (h2, d, 0))))
        | None \<Rightarrow>
            if \<not> alloc_pair then Inr (h, d, - 1)
            else if \<not> alloc_key then Inr (h\<lparr>next_addr := next_addr h + 1\<rparr>, d, - 1)
            else
              bind_f (data_ref h value) (\<lambda>h1.
                let a = next_addr h1;
                    h2 = h1\<lparr>pairs := (pairs h1)(a \<mapsto> \<lparr>pr_key = k, pr_value = value\<rparr>),
                            next_addr := a + 1\<rparr>
                in
                if hashval < 0 \<or> int (length (members d)) \<le> hashval then Inl Out_Of_Bounds
                else
                  Inr (h2,
                    d\<lparr>members := (members d)[nat hashval := a # members d ! nat hashval],
                      members_list := a # members_list d,
                      d_count := d_count d + 1\<rparr>, 0)))))"

definition dict_set ::
    "bool \<Rightarrow> bool \<Rightarrow> store \<Rightarrow> dict_t option \<Rightarrow> bytes option \<Rightarrow> nat option \<Rightarrow>
       fault + (store \<times> dict_t option \<times> int)" where
  "dict_set alloc_pair alloc_key h this key value =
     (case (this, value) of
        (Some d, Some v) \<Rightarrow>
          bind_f (dict_set_locked alloc_pair alloc_key h d key v)
            (\<lambda>(h', d', ret). Inr (h', Some d', ret))
      | _ \<Rightarrow> Inr (h, this, - 1))"

text \<open>
  \<^verbatim>\<open>dict_del\<close>. The pair found on the chain is unlinked from the chain and from the member list,
  its value loses a reference, its cell is freed.
\<close>

definition dict_del :: "store \<Rightarrow> dict_t option \<Rightarrow> bytes option \<Rightarrow> fault + (store \<times> dict_t option)" where
  "dict_del h this key =
     (case (this, key) of
        (Some d, Some k) \<Rightarrow>
          bind_f (bucket d k) (\<lambda>hashval.
          bind_f (chain_find h (members d ! hashval) k) (\<lambda>r.
            case r of
              None \<Rightarrow> Inr (h, this)
            | Some a \<Rightarrow>
                (case pairs h a of
                   None \<Rightarrow> Inl Use_After_Free
                 | Some p \<Rightarrow>
                     bind_f (data_unref h (pr_value p)) (\<lambda>h1.
                       Inr (h1\<lparr>pairs := (pairs h1)(a := None)\<rparr>,
                            Some (d\<lparr>members := (members d)[hashval := remove1 a (members d ! hashval)],
                                    members_list := remove1 a (members_list d),
                                    d_count := d_count d - 1\<rparr>))))))
      | _ \<Rightarrow> Inr (h, this))"

fun destroy_members :: "store \<Rightarrow> nat list \<Rightarrow> fault + store" where
  "destroy_members h [] = Inr h"
| "destroy_members h (a # as) =
     (case pairs h a of
        None \<Rightarrow> Inl Use_After_Free
      | Some p \<Rightarrow>
          bind_f (data_unref h (pr_value p))
            (\<lambda>h1. destroy_members (h1\<lparr>pairs := (pairs h1)(a := None)\<rparr>) as))"

definition dict_destroy :: "store \<Rightarrow> dict_t option \<Rightarrow> fault + store" where
  "dict_destroy h this =
     (case this of None \<Rightarrow> Inr h | Some d \<Rightarrow> destroy_members h (members_list d))"

text \<open>\<^verbatim>\<open>dict_unref\<close>: what is left of the dictionary is \<open>None\<close> once it is destroyed.\<close>

definition dict_unref :: "store \<Rightarrow> dict_t option \<Rightarrow> fault + (store \<times> dict_t option)" where
  "dict_unref h this =
     (case this of
        None \<Rightarrow> Inr (h, None)
      | Some d \<Rightarrow>
          let d' = d\<lparr>d_refcount := d_refcount d - 1\<rparr> in
          if d_refcount d' = 0 then bind_f (dict_destroy h (Some d')) (\<lambda>h'. Inr (h', None))
          else Inr (h, Some d'))"

section \<open>Copying\<close>

text \<open>
  \<^verbatim>\<open>dict_foreach\<close> with \<^verbatim>\<open>_copy\<close>: each pair of the first dictionary is set in the second. The two are
  different dictionaries; \<open>alloc k\<close> are the two allocations made with \<open>k\<close> pairs left.
\<close>

fun copy_members ::
    "(nat \<Rightarrow> bool \<times> bool) \<Rightarrow> store \<Rightarrow> nat list \<Rightarrow> dict_t option \<Rightarrow> fault + (store \<times> dict_t option)" where
  "copy_members alloc h [] new = Inr (h, new)"
| "copy_members alloc h (a # as) new =
     (case pairs h a of
        None \<Rightarrow> Inl Use_After_Free
      | Some p \<Rightarrow>
          bind_f (dict_set (fst (alloc (length as))) (snd (alloc (length as))) h new
                    (Some (pr_key p)) (Some (pr_value p)))
            (\<lambda>(h', new', ret). copy_members alloc h' as new'))"

definition dict_copy ::
    "(nat \<Rightarrow> bool \<times> bool) \<Rightarrow> bool \<Rightarrow> bool \<Rightarrow> store \<Rightarrow> dict_t option \<Rightarrow> dict_t option \<Rightarrow>
       fault + (store \<times> dict_t option)" where
  "dict_copy alloc alloc_dict alloc_members h dict new =
     (case dict of
        None \<Rightarrow> Inr (h, None)
      | Some d \<Rightarrow>
          let new' = (case new of
                        None \<Rightarrow> get_new_dict_full alloc_dict alloc_members (hash_size d)
                      | Some n \<Rightarrow> Some n)
          in if new' = None then Inr (h, None)
             else copy_members alloc h (members_list d) new')"

section \<open>Serialization\<close>

abbreviation (input) DICT_HDR_LEN :: int where "DICT_HDR_LEN \<equiv> 4"
abbreviation (input) DICT_DATA_HDR_KEY_LEN :: int where "DICT_DATA_HDR_KEY_LEN \<equiv> 4"
abbreviation (input) DICT_DATA_HDR_VAL_LEN :: int where "DICT_DATA_HDR_VAL_LEN \<equiv> 4"

text \<open>The loop of \<^verbatim>\<open>dict_serialized_length\<close>, with the length so far; \<open>None\<close> is a jump to \<^verbatim>\<open>out\<close>.\<close>

fun length_loop :: "store \<Rightarrow> nat \<Rightarrow> nat list \<Rightarrow> int \<Rightarrow> fault + int option" where
  "length_loop h 0 as len = Inr (Some len)"
| "length_loop h (Suc n) [] len = Inr None"
| "length_loop h (Suc n) (a # as) len =
     (case pairs h a of
        None \<Rightarrow> Inl Use_After_Free
      | Some p \<Rightarrow>
          (case datas h (pr_value p) of
             None \<Rightarrow> Inl Use_After_Free
           | Some x \<Rightarrow>
               let len1 = wrap32 (len + DICT_DATA_HDR_KEY_LEN + DICT_DATA_HDR_VAL_LEN);
                   len2 = wrap32 (len1 + int (length (pr_key p)) + 1)
               in (case vec x of
                     Some v \<Rightarrow> length_loop h n as (foldl (\<lambda>l i. wrap32 (l + i)) len2 (take (nat (dt_len x)) v))
                   | None \<Rightarrow>
                       if dt_len x < 0 then Inr None
                       else length_loop h n as (wrap32 (len2 + dt_len x)))))"

definition dict_serialized_length :: "store \<Rightarrow> dict_t option \<Rightarrow> fault + int" where
  "dict_serialized_length h this =
     (case this of
        None \<Rightarrow> Inr (- EINVAL)
      | Some d \<Rightarrow>
          if d_count d < 0 then Inr (- EINVAL)
          else bind_f (length_loop h (nat (d_count d)) (members_list d) DICT_HDR_LEN)
                 (\<lambda>r. Inr (case r of None \<Rightarrow> - EINVAL | Some len \<Rightarrow> len)))"

text \<open>
  \<^verbatim>\<open>dict_serialize\<close> on a host of the given byte order: its return value and the bytes it has written.
\<close>

definition put_int32 :: "bool \<Rightarrow> int \<Rightarrow> bytes" where
  "put_int32 e i = store32 e (hton32 e (word_of_int i))"

fun serialize_loop :: "bool \<Rightarrow> store \<Rightarrow> nat \<Rightarrow> nat list \<Rightarrow> fault + (int \<times> bytes)" where
  "serialize_loop e h 0 as = Inr (0, [])"
| "serialize_loop e h (Suc n) [] = Inr (- 1, [])"
| "serialize_loop e h (Suc n) (a # as) =
     (case pairs h a of
        None \<Rightarrow> Inl Use_After_Free
      | Some p \<Rightarrow>
          (case datas h (pr_value p) of
             None \<Rightarrow> Inl Use_After_Free
           | Some x \<Rightarrow>
               let keylen = wrap32 (int (length (pr_key p)));
                   vallen = dt_len x;
                   hdr = put_int32 e keylen @ put_int32 e vallen @ pr_key p @ [0]
               in (case dt_data x of
                     None \<Rightarrow> Inr (- 1, hdr)
                   | Some m \<Rightarrow>
                       if vallen < 0 \<or> int (length m) < vallen then Inl Out_Of_Bounds
                       else bind_f (serialize_loop e h n as)
                              (\<lambda>(ret, bs). Inr (ret, hdr @ take (nat vallen) m @ bs)))))"

definition dict_serialize :: "bool \<Rightarrow> store \<Rightarrow> dict_t option \<Rightarrow> fault + (int \<times> bytes)" where
  "dict_serialize e h this =
     (case this of
        None \<Rightarrow> Inr (- 1, [])
      | Some d \<Rightarrow>
          if d_count d < 0 then Inr (- 1, [])
          else bind_f (serialize_loop e h (nat (d_count d)) (members_list d))
                 (\<lambda>(ret, bs). Inr (ret, put_int32 e (d_count d) @ bs)))"

text \<open>Reads from a buffer: a 32-bit integer, and a C string, which ends at the first zero byte.\<close>

definition get_int32 :: "bool \<Rightarrow> bytes \<Rightarrow> int \<Rightarrow> fault + int" where
  "get_int32 e buf pos =
     (if pos < 0 \<or> int (length buf) < pos + 4 then Inl Out_Of_Bounds
      else Inr (sint (hton32 e (load32 e (take 4 (drop (nat pos) buf))))))"

definition c_string :: "bytes \<Rightarrow> int \<Rightarrow> fault + bytes" where
  "c_string buf pos =
     (if pos < 0 \<or> int (length buf) < pos \<or> 0 \<notin> set (drop (nat pos) buf) then Inl Out_Of_Bounds
      else Inr (takeWhile (\<lambda>b. b \<noteq> 0) (drop (nat pos) buf)))"

text \<open>
  The value \<^verbatim>\<open>dict_unserialize\<close> makes: a fresh cell whose data pointer points into the buffer.
  \<open>alloc k\<close> are the allocations of the value, the pair and the key with \<open>k\<close> pairs left.
\<close>

definition put_value ::
    "bool \<times> bool \<times> bool \<Rightarrow> store \<times> dict_t \<Rightarrow> bytes \<Rightarrow> int \<Rightarrow> bytes \<Rightarrow> fault + (store \<times> dict_t)" where
  "put_value alloc s key vallen mem =
     (case s of (h, d) \<Rightarrow>
        if \<not> fst alloc then Inl Null_Deref
        else
          (case get_new_data h of (h1, v) \<Rightarrow>
             let h2 = h1\<lparr>datas := (datas h1)(v \<mapsto> (the (datas h1 v))
                            \<lparr>dt_len := vallen, dt_data := Some mem, is_static := True\<rparr>)\<rparr>
             in bind_f (dict_set_locked (fst (snd alloc)) (snd (snd alloc)) h2 d (Some key) v)
                  (\<lambda>(h3, d', ret). Inr (h3, d'))))"

fun unserialize_loop ::
    "bool \<Rightarrow> (nat \<Rightarrow> bool \<times> bool \<times> bool) \<Rightarrow> bytes \<Rightarrow> int \<Rightarrow> nat \<Rightarrow> int \<Rightarrow> store \<times> dict_t \<Rightarrow>
       fault + ((store \<times> dict_t) \<times> int)" where
  "unserialize_loop e alloc buf sz 0 pos s = Inr (s, 0)"
| "unserialize_loop e alloc buf sz (Suc n) pos s =
     (if sz < pos + DICT_DATA_HDR_KEY_LEN then Inr (s, - 1)
      else bind_f (get_int32 e buf pos) (\<lambda>keylen.
        let pos1 = pos + DICT_DATA_HDR_KEY_LEN in
        if sz < pos1 + DICT_DATA_HDR_VAL_LEN then Inr (s, - 1)
        else bind_f (get_int32 e buf pos1) (\<lambda>vallen.
          let pos2 = pos1 + DICT_DATA_HDR_VAL_LEN; pos3 = pos2 + keylen + 1 in
          if sz < pos2 + keylen then Inr (s, - 1)
          else if sz < pos3 + vallen then Inr (s, - 1)
          else bind_f (c_string buf pos2) (\<lambda>key.
            bind_f (put_value (alloc n) s key vallen
                      (if pos3 < 0 then [] else drop (nat pos3) buf)) (\<lambda>s'.
            unserialize_loop e alloc buf sz n (pos3 + vallen) s')))))"

definition dict_unserialize ::
    "bool \<Rightarrow> (nat \<Rightarrow> bool \<times> bool \<times> bool) \<Rightarrow> store \<Rightarrow> bytes option \<Rightarrow> int \<Rightarrow> dict_t option \<Rightarrow>
       fault + (store \<times> dict_t option \<times> int)" where
  "dict_unserialize e alloc h orig_buf sz fill =
     (case (orig_buf, fill) of
        (Some buf, Some d) \<Rightarrow>
          if sz = 0 then Inr (h, fill, - 1)
          else if sz < DICT_HDR_LEN then Inr (h, fill, - 1)
          else bind_f (get_int32 e buf 0) (\<lambda>cnt.
            if cnt < 0 then Inr (h, fill, - 1)
            else bind_f (unserialize_loop e alloc buf sz (nat cnt) DICT_HDR_LEN (h, d\<lparr>d_count := 0\<rparr>))
                   (\<lambda>((h', d'), ret). Inr (h', Some d', ret)))
      | _ \<Rightarrow> Inr (h, fill, - 1))"

section \<open>The invariant\<close>

abbreviation pkey :: "store \<Rightarrow> nat \<Rightarrow> bytes" where "pkey h a \<equiv> pr_key (the (pairs h a))"
abbreviation pval :: "store \<Rightarrow> nat \<Rightarrow> nat" where "pval h a \<equiv> pr_value (the (pairs h a))"

definition good_key :: "bytes \<Rightarrow> bool" where
  "good_key k \<longleftrightarrow> 0 \<notin> set k \<and> length k < 2147483648"

abbreviation bucketn :: "dict_t \<Rightarrow> bytes \<Rightarrow> nat" where
  "bucketn d k \<equiv> unat (hash_key k mod word_of_int (hash_size d))"

definition store_ok :: "store \<Rightarrow> bool" where
  "store_ok h \<longleftrightarrow> (\<forall>a\<ge>next_addr h. datas h a = None \<and> pairs h a = None)"

text \<open>The chains hold the pairs of the member list, each in the bucket of its key.\<close>

definition dict_shape :: "store \<Rightarrow> dict_t \<Rightarrow> bool" where
  "dict_shape h d \<longleftrightarrow>
     0 < hash_size d \<and> hash_size d < 2147483648 \<and> int (length (members d)) = hash_size d \<and>
     (\<forall>i<length (members d). \<forall>a\<in>set (members d ! i). a \<in> set (members_list d) \<and> bucketn d (pkey h a) = i) \<and>
     (\<forall>i<length (members d). distinct (members d ! i)) \<and>
     (\<forall>a\<in>set (members_list d). pairs h a \<noteq> None \<and> good_key (pkey h a) \<and>
        a \<in> set (members d ! bucketn d (pkey h a))) \<and>
     distinct (members_list d) \<and> inj_on (pkey h) (set (members_list d)) \<and>
     d_count d = int (length (members_list d))"

text \<open>How often a dictionary refers to a value; each reference owns one count.\<close>

definition drefs :: "store \<Rightarrow> dict_t \<Rightarrow> nat \<Rightarrow> nat" where
  "drefs h d v = count_list (map (pval h) (members_list d)) v"

definition dict_refs :: "store \<Rightarrow> dict_t \<Rightarrow> bool" where
  "dict_refs h d \<longleftrightarrow>
     (\<forall>v. 0 < drefs h d v \<longrightarrow> datas h v \<noteq> None) \<and>
     (\<forall>v x. datas h v = Some x \<longrightarrow> int (drefs h d v) \<le> dt_refcount x)"

definition dict_inv :: "store \<Rightarrow> dict_t \<Rightarrow> bool" where
  "dict_inv h d \<longleftrightarrow> store_ok h \<and> dict_shape h d \<and> dict_refs h d"

text \<open>The map a dictionary stands for, from keys to value cells.\<close>

definition dict_abs :: "store \<Rightarrow> dict_t \<Rightarrow> bytes \<Rightarrow> nat option" where
  "dict_abs h d = map_of (map (\<lambda>a. (pkey h a, pval h a)) (members_list d))"

section \<open>Buckets and lookup\<close>

lemma hash_key_length: "hash_key k = (if length k \<le> 1 then 1 else of_nat (length k))"
proof -
  have "scast ((k @ [0]) ! nat (int (length k)) :: u8) = (0 :: u32)" by (simp del: nth_append)
  then show ?thesis unfolding hash_key_def SuperFastHash_def by simp
qed

lemma unat_hash_key:
  assumes "good_key k"
  shows "unat (hash_key k) < 2147483648"
proof -
  have "unat (of_nat (length k) :: u32) \<le> length k" unfolding unat_of_nat by (rule mod_less_eq_dividend)
  then show ?thesis using assms by (auto simp: hash_key_length good_key_def)
qed

lemma bucket_ok:
  assumes "dict_shape h d"
  shows "bucket d k = Inr (bucketn d k)" "bucketn d k < length (members d)"
proof -
  have n: "0 < hash_size d" "hash_size d < 2147483648" "int (length (members d)) = hash_size d"
    using assms by (auto simp: dict_shape_def)
  then have "unat (word_of_int (hash_size d) :: u32) = length (members d)"
    by (simp add: unat_eq_nat_uint uint_word_of_int)
  moreover have "0 < length (members d)" using n by linarith
  ultimately show "bucketn d k < length (members d)" by (simp add: unat_mod)
  then show "bucket d k = Inr (bucketn d k)" using n by (simp add: bucket_def Let_def)
qed

lemma c_rem: "0 \<le> u \<Longrightarrow> 0 < m \<Longrightarrow> sgn u * (\<bar>u\<bar> mod \<bar>m\<bar>) = u mod (m :: int)"
  by (cases "u = 0") auto

lemma set_bucket_ok:
  assumes "dict_shape h d" "good_key k"
  shows "set_bucket d k = Inr (int (bucketn d k))"
proof -
  have n: "0 < hash_size d" "hash_size d < 2147483648"
    using assms by (auto simp: dict_shape_def)
  have m: "unat (word_of_int (hash_size d) :: u32) = nat (hash_size d)"
    using n by (simp add: unat_eq_nat_uint uint_word_of_int)
  define u where "u = int (unat (hash_key k))"
  have "sgn u * (\<bar>u\<bar> mod \<bar>hash_size d\<bar>) = u mod hash_size d"
    by (rule c_rem) (use n u_def in simp_all)
  also have "\<dots> = int (bucketn d k)" using n by (simp only: unat_mod m zmod_int u_def nat_0_le)
  finally show ?thesis
    using n sint_small[OF unat_hash_key[OF assms(2)]] by (simp add: set_bucket_def u_def)
qed

lemma chain_find_ok:
  "\<forall>a\<in>set chain. pairs h a \<noteq> None \<Longrightarrow> chain_find h chain k = Inr (find (\<lambda>a. pkey h a = k) chain)"
  by (induction chain) auto

lemma find_unique:
  assumes "a \<in> set xs" "P a" and u: "\<And>b. b \<in> set xs \<Longrightarrow> P b \<Longrightarrow> b = a"
  shows "find P xs = Some a"
proof (cases "find P xs")
  case None
  with assms(1,2) show ?thesis by (auto simp: find_None_iff)
next
  case (Some b)
  then have "b \<in> set xs \<and> P b" by (auto simp: find_Some_iff)
  with u Some show ?thesis by blast
qed

lemma dict_lookup_ok:
  assumes "dict_shape h d"
  shows "dict_lookup h d k = Inr (find (\<lambda>a. pkey h a = k) (members_list d))"
proof -
  let ?i = "bucketn d k" let ?P = "\<lambda>a. pkey h a = k"
  note i = bucket_ok[OF assms, of k]
  have ch: "a \<in> set (members d ! ?i) \<Longrightarrow> a \<in> set (members_list d)" for a
    using assms i(2) by (auto simp: dict_shape_def)
  have "\<forall>a\<in>set (members d ! ?i). pairs h a \<noteq> None"
    using assms ch by (auto simp: dict_shape_def)
  moreover have "find ?P (members d ! ?i) = find ?P (members_list d)"
  proof (cases "\<exists>a\<in>set (members_list d). ?P a")
    case True
    then obtain a where a: "a \<in> set (members_list d)" "?P a" by blast
    have u: "b \<in> set (members_list d) \<Longrightarrow> ?P b \<Longrightarrow> b = a" for b
      using assms a by (auto simp: dict_shape_def inj_on_def)
    have "a \<in> set (members d ! ?i)" using assms a by (auto simp: dict_shape_def)
    then show ?thesis using a u ch find_unique[of a _ ?P] by metis
  next
    case False
    then show ?thesis using ch by (metis (mono_tags, lifting) find_None_iff)
  qed
  ultimately show ?thesis using i by (simp add: dict_lookup_def chain_find_ok)
qed

lemma dict_abs_find: "dict_abs h d k = map_option (pval h) (find (\<lambda>a. pkey h a = k) (members_list d))"
proof -
  have "map_of (map (\<lambda>a. (pkey h a, pval h a)) xs) k = map_option (pval h) (find (\<lambda>a. pkey h a = k) xs)" for xs
    by (induction xs) auto
  then show ?thesis by (simp add: dict_abs_def)
qed

lemma dict_get_ok:
  assumes "dict_shape h d"
  shows "dict_get h (Some d) (Some k) = Inr (dict_abs h d k)"
proof (cases "find (\<lambda>a. pkey h a = k) (members_list d)")
  case (Some a)
  then have "a \<in> set (members_list d)" by (auto simp: find_Some_iff)
  then have "pairs h a \<noteq> None" using assms by (auto simp: dict_shape_def)
  with Some show ?thesis by (auto simp: dict_get_def dict_lookup_ok[OF assms] dict_abs_find)
qed (simp add: dict_get_def dict_lookup_ok[OF assms] dict_abs_find)

section \<open>Reference counts\<close>

lemma count_list_upd:
  assumes "distinct xs" "a \<in> set xs"
  shows "int (count_list (map (f(a := v)) xs) w) =
    int (count_list (map f xs) w) - (if f a = w then 1 else 0) + (if v = w then 1 else 0)"
  using assms
proof (induction xs)
  case (Cons x xs)
  show ?case
  proof (cases "x = a")
    case True
    then have "map (f(a := v)) xs = map f xs" using Cons.prems(1) by (intro map_cong) auto
    then have "count_list (map (f(a := v)) xs) w = count_list (map f xs) w" by (rule arg_cong)
    with True show ?thesis by (cases "v = w") (simp_all del: fun_upd_apply add: fun_upd_same)
  next
    case False
    with Cons show ?thesis
      by (cases "v = w"; cases "f a = w"; cases "f x = w") (simp_all del: fun_upd_apply add: fun_upd_other)
  qed
qed simp

lemma count_list_remove1:
  "distinct xs \<Longrightarrow> a \<in> set xs \<Longrightarrow>
     int (count_list (map f (remove1 a xs)) w) = int (count_list (map f xs) w) - (if f a = w then 1 else 0)"
  by (induction xs) auto

text \<open>What a change of the store keeps of a cell: everything but its count.\<close>

definition cell :: "store \<Rightarrow> nat \<Rightarrow> (int \<times> bytes option \<times> int list option) option" where
  "cell h v = map_option (\<lambda>x. (dt_len x, dt_data x, vec x)) (datas h v)"

lemma data_ref_ok:
  assumes "datas h a = Some x"
  obtains h' where "data_ref h a = Inr h'" "pairs h' = pairs h" "next_addr h' = next_addr h"
    "datas h' = (datas h)(a \<mapsto> x\<lparr>dt_refcount := dt_refcount x + 1\<rparr>)" "cell h' = cell h"
proof
  let ?h = "h\<lparr>datas := (datas h)(a \<mapsto> x\<lparr>dt_refcount := dt_refcount x + 1\<rparr>)\<rparr>"
  show "data_ref h a = Inr ?h" using assms by (simp add: data_ref_def)
  show "cell ?h = cell h" using assms by (auto simp: cell_def fun_eq_iff)
qed simp_all

definition unref_post :: "store \<Rightarrow> nat \<Rightarrow> data_t \<Rightarrow> store \<Rightarrow> bool" where
  "unref_post h a x h' \<longleftrightarrow> pairs h' = pairs h \<and> next_addr h' = next_addr h \<and>
     (\<forall>b. b \<noteq> a \<longrightarrow> datas h' b = datas h b) \<and>
     (dt_refcount x \<noteq> 1 \<longrightarrow> datas h' a = Some (x\<lparr>dt_refcount := dt_refcount x - 1\<rparr>)) \<and>
     (dt_refcount x = 1 \<longrightarrow> \<not> is_const x \<longrightarrow> datas h' a = None) \<and>
     map_option dt_refcount (datas h' a) \<in> {None, Some (dt_refcount x - 1)} \<and>
     (\<forall>b. b \<noteq> a \<or> dt_refcount x \<noteq> 1 \<longrightarrow> cell h' b = cell h b)"

lemma data_unref_ok:
  assumes "datas h a = Some x"
  obtains h' where "data_unref h a = Inr h'" "unref_post h a x h'"
proof -
  obtain h' where h': "data_unref h a = Inr h'"
    using assms by (cases "dt_refcount x = 1") (auto simp: data_unref_def data_destroy_def Let_def)
  have "unref_post h a x h'" unfolding unref_post_def
    by (cases "dt_refcount x = 1")
      (use h' assms in \<open>auto simp: data_unref_def data_destroy_def Let_def cell_def split: if_splits\<close>)
  with h' show thesis by (rule that)
qed

section \<open>Setting a key\<close>

lemma drefs_pos: "a \<in> set (members_list d) \<Longrightarrow> 0 < drefs h d (pval h a)"
  by (auto simp: drefs_def count_list_0_iff intro!: gr0I)

lemma find_SomeD: "find P xs = Some a \<Longrightarrow> a \<in> set xs \<and> P a"
  by (induction xs) (auto split: if_splits)

lemma dict_shape_cong:
  assumes "dict_shape h d" "\<And>a. a \<in> set (members_list d) \<Longrightarrow> pairs h' a \<noteq> None \<and> pkey h' a = pkey h a"
  shows "dict_shape h' d"
proof -
  have "inj_on (pkey h') (set (members_list d)) = inj_on (pkey h) (set (members_list d))"
    by (rule inj_on_cong) (use assms(2) in blast)
  then show ?thesis using assms unfolding dict_shape_def by metis
qed

text \<open>Replacing the value of a pair.\<close>

lemma set_existing_ok:
  assumes inv: "dict_inv h d" and a: "find (\<lambda>a. pkey h a = k) (members_list d) = Some a"
    and x: "datas h v = Some x" and k: "good_key k"
  shows "\<exists>h'. dict_set_locked True True h d (Some k) v = Inr (h', d, 0) \<and> dict_inv h' d \<and>
    dict_abs h' d = (dict_abs h d)(k \<mapsto> v) \<and> next_addr h' = next_addr h \<and>
    (\<forall>w. 0 < drefs h' d w \<longrightarrow> cell h' w = cell h w)"
proof -
  from inv have sh: "store_ok h" "dict_shape h d" "dict_refs h d" by (auto simp: dict_inv_def)
  have am: "a \<in> set (members_list d)" "pkey h a = k" using a by (auto simp: find_Some_iff)
  then obtain p where p: "pairs h a = Some p" "pr_key p = k" using sh(2) by (auto simp: dict_shape_def)
  obtain h1 where h1: "data_ref h v = Inr h1" "pairs h1 = pairs h" "next_addr h1 = next_addr h"
    "datas h1 = (datas h)(v \<mapsto> x\<lparr>dt_refcount := dt_refcount x + 1\<rparr>)" "cell h1 = cell h"
    by (rule data_ref_ok[OF x])
  let ?h2 = "h1\<lparr>pairs := (pairs h1)(a \<mapsto> p\<lparr>pr_value := v\<rparr>)\<rparr>"
  let ?old = "pr_value p"
  have old: "0 < drefs h d ?old" using drefs_pos[OF am(1), of h] p by simp
  then obtain y where y: "datas h ?old = Some y" "int (drefs h d ?old) \<le> dt_refcount y"
    using sh(3) unfolding dict_refs_def by blast
  obtain y2 where y2: "datas ?h2 ?old = Some y2" "dt_refcount y2 = dt_refcount y + (if ?old = v then 1 else 0)"
    using h1(4) y x by (cases "?old = v") auto
  obtain h3 where u: "data_unref ?h2 ?old = Inr h3" and post: "unref_post ?h2 ?old y2 h3"
    by (rule data_unref_ok[OF y2(1)])
  from post have h3: "pairs h3 = pairs ?h2" "next_addr h3 = next_addr h1"
    "\<And>b. b \<noteq> ?old \<Longrightarrow> datas h3 b = datas h1 b"
    "dt_refcount y2 \<noteq> 1 \<Longrightarrow> datas h3 ?old \<noteq> None"
    "map_option dt_refcount (datas h3 ?old) \<in> {None, Some (dt_refcount y2 - 1)}"
    "\<And>b. b \<noteq> ?old \<or> dt_refcount y2 \<noteq> 1 \<Longrightarrow> cell h3 b = cell h1 b"
    by (simp_all add: unref_post_def cell_def)
  have keys: "pkey h3 b = pkey h b" for b using h3(1) h1(2) p by simp
  have vals: "pval h3 = (pval h)(a := v)" using h3(1) h1(2) by (auto simp: fun_eq_iff)
  have refs: "int (drefs h3 d w) = int (drefs h d w) - (if ?old = w then 1 else 0) + (if v = w then 1 else 0)" for w
    unfolding drefs_def vals using count_list_upd[of "members_list d" a "pval h" v w] sh(2) am(1) p
    by (simp add: dict_shape_def)
  have kept: "w \<noteq> ?old \<or> dt_refcount y2 \<noteq> 1" if "0 < drefs h3 d w" for w
    using that refs[of w] y(2) y2(2) by (auto split: if_splits)
  have "store_ok h3" unfolding store_ok_def
  proof (intro allI impI)
    fix b assume "next_addr h3 \<le> b"
    then have n: "datas h b = None" "pairs h b = None"
      using sh(1) h3(2) h1(3) by (simp_all add: store_ok_def)
    then have "b \<noteq> v" "b \<noteq> ?old" "b \<noteq> a" using x y(1) p(1) by auto
    with n show "datas h3 b = None \<and> pairs h3 b = None" using h3(1,3) h1(2,4) by simp
  qed
  moreover have "dict_shape h3 d"
    by (rule dict_shape_cong[OF sh(2)]) (use sh(2) keys h3(1) h1(2) in \<open>auto simp: dict_shape_def\<close>)
  moreover have "dict_refs h3 d" unfolding dict_refs_def
  proof (intro conjI allI impI)
    fix w assume w: "0 < drefs h3 d w"
    show "datas h3 w \<noteq> None"
    proof (cases "w = ?old")
      case False
      with h3(3) h1(4) refs[of w] w sh(3) show ?thesis by (auto simp: dict_refs_def split: if_splits)
    qed (use kept[OF w] h3(4) in auto)
  next
    fix w z assume z: "datas h3 w = Some z"
    show "int (drefs h3 d w) \<le> dt_refcount z"
    proof (cases "w = ?old")
      case True
      with z h3(5) y(2) y2(2) refs[of w] show ?thesis by (auto split: if_splits)
    next
      case False
      with z h3(3) h1(4) refs[of w] sh(3) x show ?thesis
        by (auto simp: dict_refs_def split: if_splits)
    qed
  qed
  moreover have "dict_abs h3 d = (dict_abs h d)(k \<mapsto> v)"
  proof
    fix k'
    show "dict_abs h3 d k' = ((dict_abs h d)(k \<mapsto> v)) k'"
    proof (cases "find (\<lambda>a. pkey h a = k') (members_list d)")
      case (Some b)
      then have "pkey h b = k'" by (rule find_SomeD[THEN conjunct2])
      with Some a am(2) show ?thesis by (cases "b = a") (auto simp: dict_abs_find keys vals)
    qed (use a in \<open>auto simp: dict_abs_find keys\<close>)
  qed
  moreover have "cell h3 w = cell h w" if "0 < drefs h3 d w" for w
    using h3(6)[OF kept[OF that]] h1(5) by (simp add: cell_def fun_eq_iff)
  moreover have "dict_set_locked True True h d (Some k) v = Inr (h3, d, 0)"
    using a p h1(1) u by (simp add: dict_set_locked_def set_bucket_ok[OF sh(2) k] dict_lookup_ok[OF sh(2)])
  ultimately show ?thesis using h3(2) h1(3) by (auto simp: dict_inv_def)
qed

text \<open>Adding a pair.\<close>

definition add_pair :: "dict_t \<Rightarrow> bytes \<Rightarrow> nat \<Rightarrow> dict_t" where
  "add_pair d k a =
     d\<lparr>members := (members d)[bucketn d k := a # members d ! bucketn d k],
       members_list := a # members_list d, d_count := d_count d + 1\<rparr>"

lemma add_pair_shape:
  assumes sh: "dict_shape h d" and k: "good_key k" and new: "pairs h a = None"
    and no: "\<forall>b\<in>set (members_list d). pkey h b \<noteq> k"
    and h': "pairs h' = (pairs h)(a \<mapsto> \<lparr>pr_key = k, pr_value = v\<rparr>)"
  shows "dict_shape h' (add_pair d k a)"
proof -
  have na: "a \<notin> set (members_list d)" using sh new by (auto simp: dict_shape_def)
  have keys: "b \<in> set (members_list d) \<Longrightarrow> pkey h' b = pkey h b \<and> pairs h' b \<noteq> None" for b
    using h' na sh by (auto simp: dict_shape_def)
  have ka: "pkey h' a = k" "pairs h' a \<noteq> None" using h' by auto
  let ?i = "bucketn d k" let ?d = "add_pair d k a"
  have i: "?i < length (members d)" by (rule bucket_ok(2)[OF sh])
  have bk: "hash_size ?d = hash_size d" and ml: "members_list ?d = a # members_list d"
    and m: "members ?d = (members d)[?i := a # members d ! ?i]"
    by (simp_all add: add_pair_def)
  have ch: "set (members ?d ! j) = (if j = ?i then insert a (set (members d ! j)) else set (members d ! j))"
    if "j < length (members d)" for j
    using that i by (auto simp: m nth_list_update)
  have old: "j < length (members d) \<Longrightarrow> b \<in> set (members d ! j) \<Longrightarrow>
      b \<in> set (members_list d) \<and> bucketn d (pkey h b) = j" for j b
    using sh by (auto simp: dict_shape_def)
  have "\<forall>j<length (members ?d). \<forall>b\<in>set (members ?d ! j). b \<in> set (members_list ?d) \<and> bucketn ?d (pkey h' b) = j"
  proof (intro allI impI ballI)
    fix j b assume j: "j < length (members ?d)" and b: "b \<in> set (members ?d ! j)"
    have j': "j < length (members d)" using j m by simp
    then show "b \<in> set (members_list ?d) \<and> bucketn ?d (pkey h' b) = j"
      using b ch[OF j'] old[OF j', of b] keys[of b] ka bk ml by (auto split: if_splits)
  qed
  moreover have "\<forall>j<length (members ?d). distinct (members ?d ! j)"
    using sh i na old by (auto simp: dict_shape_def m nth_list_update)
  moreover have "\<forall>b\<in>set (members_list ?d). pairs h' b \<noteq> None \<and> good_key (pkey h' b) \<and>
      b \<in> set (members ?d ! bucketn ?d (pkey h' b))"
  proof
    fix b assume "b \<in> set (members_list ?d)"
    then consider "b = a" | "b \<in> set (members_list d)" "b \<noteq> a" using ml by auto
    then show "pairs h' b \<noteq> None \<and> good_key (pkey h' b) \<and> b \<in> set (members ?d ! bucketn ?d (pkey h' b))"
    proof cases
      case 1
      then show ?thesis using ka k ch[OF i] bk by simp
    next
      case 2
      then show ?thesis using keys[OF 2(1)] sh bk ch[OF bucket_ok(2)[OF sh, of "pkey h b"]]
        by (auto simp: dict_shape_def)
    qed
  qed
  moreover have "inj_on (pkey h') (set (members_list ?d))"
  proof -
    have "inj_on (pkey h') (set (members_list d)) = inj_on (pkey h) (set (members_list d))"
      by (rule inj_on_cong) (use keys in blast)
    then show ?thesis using sh no keys ka(1) ml by (auto simp: dict_shape_def inj_on_insert)
  qed
  ultimately show ?thesis
    using sh na by (simp add: dict_shape_def add_pair_def)
qed

lemma set_new_ok:
  assumes inv: "dict_inv h d" and no: "find (\<lambda>a. pkey h a = k) (members_list d) = None"
    and x: "datas h v = Some x" and k: "good_key k"
  shows "\<exists>h' d'. dict_set_locked True True h d (Some k) v = Inr (h', d', 0) \<and> dict_inv h' d' \<and>
    dict_abs h' d' = (dict_abs h d)(k \<mapsto> v) \<and> cell h' = cell h"
proof -
  from inv have sh: "store_ok h" "dict_shape h d" "dict_refs h d" by (auto simp: dict_inv_def)
  have no': "\<forall>b\<in>set (members_list d). pkey h b \<noteq> k" using no by (simp add: find_None_iff)
  obtain h1 where h1: "data_ref h v = Inr h1" "pairs h1 = pairs h" "next_addr h1 = next_addr h"
    "datas h1 = (datas h)(v \<mapsto> x\<lparr>dt_refcount := dt_refcount x + 1\<rparr>)" "cell h1 = cell h"
    by (rule data_ref_ok[OF x])
  let ?a = "next_addr h"
  let ?h2 = "h1\<lparr>pairs := (pairs h1)(?a \<mapsto> \<lparr>pr_key = k, pr_value = v\<rparr>), next_addr := ?a + 1\<rparr>"
  let ?d = "add_pair d k ?a"
  have new: "pairs h ?a = None" "datas h ?a = None" using sh(1) by (auto simp: store_ok_def)
  have na: "?a \<notin> set (members_list d)" using sh(2) new by (auto simp: dict_shape_def)
  have old: "b \<in> set (members_list d) \<Longrightarrow> pairs ?h2 b = pairs h b" for b using na h1(2) by auto
  have "store_ok ?h2" using sh(1) x new h1(2,4) by (auto simp: store_ok_def)
  moreover have "dict_shape ?h2 ?d"
    by (rule add_pair_shape[OF sh(2) k new(1) no', where v = v]) (use h1(2) in simp)
  moreover have refs: "drefs ?h2 ?d w = drefs h d w + (if w = v then 1 else 0)" for w
  proof -
    have "map (pval ?h2) (members_list d) = map (pval h) (members_list d)"
      by (rule map_cong[OF refl]) (simp only: old)
    then have "count_list (map (pval ?h2) (members_list d)) w = drefs h d w"
      unfolding drefs_def by (rule arg_cong)
    then show ?thesis unfolding drefs_def[of ?h2 ?d] by (auto simp: add_pair_def)
  qed
  moreover have "dict_refs ?h2 ?d"
    using sh(3) h1(4) x unfolding dict_refs_def refs by (auto split: if_splits)
  moreover have "dict_abs ?h2 ?d = (dict_abs h d)(k \<mapsto> v)"
  proof -
    have "map (\<lambda>a. (pkey ?h2 a, pval ?h2 a)) (members_list d) = map (\<lambda>a. (pkey h a, pval h a)) (members_list d)"
      by (rule map_cong[OF refl]) (simp only: old)
    then have "map_of (map (\<lambda>a. (pkey ?h2 a, pval ?h2 a)) (members_list d)) = dict_abs h d"
      unfolding dict_abs_def by (rule arg_cong)
    then show ?thesis unfolding dict_abs_def[of ?h2 ?d] by (simp add: add_pair_def)
  qed
  moreover have "dict_set_locked True True h d (Some k) v = Inr (?h2, ?d, 0)"
  proof -
    define i where "i = bucketn d k"
    note i = set_bucket_ok[OF sh(2) k, folded i_def] bucket_ok(2)[OF sh(2), of k, folded i_def]
      add_pair_def[of d k, folded i_def]
    show ?thesis using no h1(1-3) i(2)
      by (simp add: dict_set_locked_def dict_lookup_ok[OF sh(2)] i(1,3) Let_def)
  qed
  moreover have "cell ?h2 = cell h" using h1(5) by (simp add: cell_def fun_eq_iff)
  ultimately show ?thesis unfolding dict_inv_def by blast
qed

text \<open>Both cases together.\<close>

lemma dict_set_locked_ok:
  assumes "dict_inv h d" "datas h v = Some x" "good_key k"
  shows "\<exists>h' d'. dict_set_locked True True h d (Some k) v = Inr (h', d', 0) \<and> dict_inv h' d' \<and>
    dict_abs h' d' = (dict_abs h d)(k \<mapsto> v) \<and> (\<forall>w. 0 < drefs h' d' w \<longrightarrow> cell h' w = cell h w)"
proof (cases "find (\<lambda>a. pkey h a = k) (members_list d)")
  case None
  from set_new_ok[OF assms(1) None assms(2,3)] show ?thesis by auto
next
  case (Some a)
  from set_existing_ok[OF assms(1) Some assms(2,3)] show ?thesis by blast
qed

section \<open>A dictionary as a map from keys to byte strings\<close>

text \<open>
  What the clients of a dictionary rely on, whatever its representation: a store with an
  operation that puts a value under a key. Their loops put one pair after another.
\<close>

locale map_store =
  fixes inv :: "'s \<Rightarrow> bool" and content :: "'s \<Rightarrow> 'k \<Rightarrow> 'v option"
    and put :: "'k \<Rightarrow> 'p \<Rightarrow> 's \<Rightarrow> fault + 's" and ok :: "'k \<Rightarrow> bool" and val :: "'p \<Rightarrow> 'v"
  assumes put_ok: "inv s \<Longrightarrow> ok k \<Longrightarrow>
    \<exists>s'. put k p s = Inr s' \<and> inv s' \<and> content s' = (content s)(k \<mapsto> val p)"
begin

lemma puts_ok:
  assumes "inv s" "\<forall>(k, p)\<in>set kps. ok k"
  shows "\<exists>s'. foldM (\<lambda>(k, p). put k p) kps s = Inr s' \<and> inv s' \<and>
    content s' = content s ++ map_of (rev (map (\<lambda>(k, p). (k, val p)) kps))"
  using assms
proof (induction kps arbitrary: s)
  case (Cons kp kps)
  obtain k p where kp: "kp = (k, p)" by (cases kp)
  from put_ok[OF Cons.prems(1), of k p] Cons.prems(2) kp obtain s1
    where s1: "put k p s = Inr s1" "inv s1" "content s1 = (content s)(k \<mapsto> val p)" by auto
  from Cons.IH[OF s1(2)] Cons.prems(2) kp obtain s'
    where "foldM (\<lambda>(k, p). put k p) kps s1 = Inr s'" "inv s'"
      "content s' = content s1 ++ map_of (rev (map (\<lambda>(k, p). (k, val p)) kps))" by auto
  with kp s1 show ?case by simp
qed simp

end

definition cell_value :: "int \<times> bytes option \<times> int list option \<Rightarrow> bytes option" where
  "cell_value c = (case c of (n, m, _) \<Rightarrow> map_option (take (nat n)) m)"

definition dict_value :: "store \<Rightarrow> dict_t \<Rightarrow> bytes \<Rightarrow> bytes option" where
  "dict_value h d k = Option.bind (dict_abs h d k) (\<lambda>v. Option.bind (cell h v) cell_value)"

lemma abs_drefs: "dict_abs h d k = Some v \<Longrightarrow> 0 < drefs h d v"
  by (auto simp: dict_abs_find dest!: find_SomeD intro: drefs_pos)

lemma put_value_ok:
  assumes inv: "dict_inv h d" and k: "good_key k"
  shows "\<exists>h' d'. put_value (True, True, True) (h, d) k n m = Inr (h', d') \<and> dict_inv h' d' \<and>
    dict_value h' d' = (dict_value h d)(k \<mapsto> take (nat n) m)"
proof -
  from inv have sh: "store_ok h" "dict_shape h d" "dict_refs h d" by (auto simp: dict_inv_def)
  let ?v = "next_addr h"
  let ?x = "\<lparr>is_static = True, is_const = False, dt_len = n, vec = None, dt_data = Some m, dt_refcount = 0\<rparr>"
  let ?h = "h\<lparr>next_addr := ?v + 1, datas := (datas h)(?v \<mapsto> ?x)\<rparr>"
  have new: "datas h ?v = None" using sh(1) by (simp add: store_ok_def)
  then have r0: "drefs h d ?v = 0" using sh(3) by (metis dict_refs_def neq0_conv)
  have dr: "drefs ?h d = drefs h d" by (simp add: drefs_def fun_eq_iff)
  have ab: "dict_abs ?h d = dict_abs h d" by (simp add: dict_abs_def)
  have "dict_inv ?h d" unfolding dict_inv_def
  proof (intro conjI)
    show "store_ok ?h" using sh(1) by (auto simp: store_ok_def)
    show "dict_shape ?h d" by (rule dict_shape_cong[OF sh(2)]) (use sh(2) in \<open>auto simp: dict_shape_def\<close>)
    show "dict_refs ?h d" using sh(3) r0 unfolding dict_refs_def dr by auto
  qed
  from dict_set_locked_ok[OF this _ k, of ?v ?x] obtain h' d' where
    r: "dict_set_locked True True ?h d (Some k) ?v = Inr (h', d', 0)" "dict_inv h' d'"
      "dict_abs h' d' = (dict_abs h d)(k \<mapsto> ?v)" "\<forall>w. 0 < drefs h' d' w \<longrightarrow> cell h' w = cell ?h w"
    unfolding ab by auto
  have "dict_value h' d' k' = ((dict_value h d)(k \<mapsto> take (nat n) m)) k'" for k'
  proof (cases "k' = k")
    case True
    have "dict_abs h' d' k = Some ?v" using r(3) by simp
    from this r(4)[rule_format, OF abs_drefs[OF this]] True show ?thesis
      by (auto simp: dict_value_def cell_def cell_value_def)
  next
    case False
    show ?thesis
    proof (cases "dict_abs h d k'")
      case (Some w)
      then have w: "w \<noteq> ?v" using abs_drefs[OF Some] r0 by auto
      have "dict_abs h' d' k' = Some w" using r(3) Some False by simp
      from this r(4)[rule_format, OF abs_drefs[OF this]] False w Some show ?thesis
        by (simp add: dict_value_def cell_def)
    qed (use r(3) False in \<open>simp add: dict_value_def\<close>)
  qed
  moreover have "put_value (True, True, True) (h, d) k n m = Inr (h', d')"
    using r(1) by (simp add: put_value_def get_new_data_def)
  ultimately show ?thesis using r(2) by blast
qed

interpretation dict_store: map_store "\<lambda>(h, d). dict_inv h d" "\<lambda>(h, d). dict_value h d"
  "\<lambda>k (n, m) s. put_value (True, True, True) s k n m" good_key "\<lambda>(n, m). take (nat n) m"
proof
  fix s :: "store \<times> dict_t" and k and p :: "int \<times> bytes"
  assume "case s of (h, d) \<Rightarrow> dict_inv h d" "good_key k"
  with put_value_ok[of "fst s" "snd s" k "fst p" "snd p"]
  show "\<exists>s'. (case p of (n, m) \<Rightarrow> \<lambda>s. put_value (True, True, True) s k n m) s = Inr s' \<and>
      (case s' of (h, d) \<Rightarrow> dict_inv h d) \<and>
      (case s' of (h, d) \<Rightarrow> dict_value h d) =
      (case s of (h, d) \<Rightarrow> dict_value h d)(k \<mapsto> case p of (n, m) \<Rightarrow> take (nat n) m)"
    by (cases s; cases p) auto
qed

section \<open>The serialized form\<close>

definition encode_pair :: "bool \<Rightarrow> bytes \<times> bytes \<Rightarrow> bytes" where
  "encode_pair e kv = put_int32 e (int (length (fst kv))) @ put_int32 e (int (length (snd kv))) @
     fst kv @ [0] @ snd kv"

definition encode :: "bool \<Rightarrow> (bytes \<times> bytes) list \<Rightarrow> bytes" where
  "encode e kvs = put_int32 e (int (length kvs)) @ concat (map (encode_pair e) kvs)"

text \<open>The value of a plain cell: its data pointer is set and its length lies in the memory.\<close>

definition plain :: "data_t \<Rightarrow> bool" where
  "plain x \<longleftrightarrow> vec x = None \<and> 0 \<le> dt_len x \<and> (\<exists>m. dt_data x = Some m \<and> dt_len x \<le> int (length m))"

definition plain_dict :: "store \<Rightarrow> dict_t \<Rightarrow> bool" where
  "plain_dict h d \<longleftrightarrow> (\<forall>a\<in>set (members_list d). \<exists>x. datas h (pval h a) = Some x \<and> plain x)"

definition entry :: "store \<Rightarrow> nat \<Rightarrow> bytes \<times> bytes" where
  "entry h a = (pkey h a, (let x = the (datas h (pval h a)) in take (nat (dt_len x)) (the (dt_data x))))"

lemma length_put_int32 [simp]: "length (put_int32 e i) = 4"
  by (simp add: put_int32_def)

lemma get_put_int32:
  assumes "- 2147483648 \<le> i" "i < 2147483648"
  shows "get_int32 e (pre @ put_int32 e i @ post) (int (length pre)) = Inr i"
proof -
  have "sint (word_of_int i :: u32) = i"
    using assms by (simp add: sint_sbintrunc' signed_take_bit_int_eq_self)
  moreover have "take 4 (put_int32 e i @ post) = put_int32 e i" by simp
  ultimately show ?thesis by (simp add: get_int32_def put_int32_def)
qed

lemma serialize_loop_ok:
  assumes "\<forall>a\<in>set as. pairs h a \<noteq> None \<and> length (pkey h a) < 2147483648 \<and>
      (\<exists>x. datas h (pval h a) = Some x \<and> plain x)"
  shows "serialize_loop e h (length as) as = Inr (0, concat (map (encode_pair e) (map (entry h) as)))"
  using assms
proof (induction as)
  case (Cons a as)
  from Cons.prems obtain p x m where px: "pairs h a = Some p" "datas h (pr_value p) = Some x"
    "dt_data x = Some m" "0 \<le> dt_len x" "dt_len x \<le> int (length m)" "length (pr_key p) < 2147483648"
    by (auto simp: plain_def)
  then have "entry h a = (pr_key p, take (nat (dt_len x)) m)" by (simp add: entry_def)
  then have "encode_pair e (entry h a) =
    put_int32 e (int (length (pr_key p))) @ put_int32 e (dt_len x) @ pr_key p @ [0] @ take (nat (dt_len x)) m"
    using px by (simp add: encode_pair_def)
  moreover have "serialize_loop e h (length as) as = Inr (0, concat (map (encode_pair e) (map (entry h) as)))"
    using Cons by simp
  ultimately show ?case using px by (simp add: Let_def)
qed simp

lemma dict_serialize_ok:
  assumes "dict_inv h d" "plain_dict h d"
  shows "dict_serialize e h (Some d) = Inr (0, encode e (map (entry h) (members_list d)))"
proof -
  have sh: "dict_shape h d" using assms by (simp add: dict_inv_def)
  then have c: "d_count d = int (length (members_list d))" by (simp add: dict_shape_def)
  have "\<forall>a\<in>set (members_list d). pairs h a \<noteq> None \<and> length (pkey h a) < 2147483648 \<and>
      (\<exists>x. datas h (pval h a) = Some x \<and> plain x)"
    using sh assms(2) by (auto simp: dict_shape_def good_key_def plain_dict_def)
  from serialize_loop_ok[OF this] c show ?thesis
    by (simp add: dict_serialize_def encode_def del: map_map)
qed

lemma length_encode_pair: "length (encode_pair e (k, v)) = 9 + length k + length v"
  by (simp add: encode_pair_def)

text \<open>One round of the reading loop.\<close>

lemma unserialize_step:
  assumes buf: "buf = pre @ encode_pair e (k, v) @ post" and k: "0 \<notin> set k"
    and sz: "length buf < 2147483648" and pos: "pos = int (length pre)"
  shows "unserialize_loop e alloc buf (int (length buf)) (Suc n) pos s =
    bind_f (put_value (alloc n) s k (int (length v)) (v @ post))
      (unserialize_loop e alloc buf (int (length buf)) n (pos + int (length (encode_pair e (k, v)))))"
proof -
  let ?K = "put_int32 e (int (length k))" and ?V = "put_int32 e (int (length v))"
  have kv: "length k + length v + 9 + length pre \<le> length buf" using buf length_encode_pair by simp
  have "get_int32 e buf pos = Inr (int (length k))"
    using get_put_int32[of "int (length k)" e pre "?V @ k @ [0] @ v @ post"] kv sz pos buf
    by (simp add: encode_pair_def)
  moreover have "get_int32 e buf (pos + 4) = Inr (int (length v))"
    using get_put_int32[of "int (length v)" e "pre @ ?K" "k @ [0] @ v @ post"] kv sz pos buf
    by (simp add: encode_pair_def)
  moreover have "drop (nat (pos + 8)) buf = k @ [0] @ v @ post"
    using pos buf by (simp add: encode_pair_def nat_add_distrib)
  moreover from this have "c_string buf (pos + 8) = Inr k"
    using kv pos k by (auto simp: c_string_def takeWhile_append)
  moreover have "drop (nat (pos + 9 + int (length k))) buf = v @ post"
    using pos buf by (simp add: encode_pair_def nat_add_distrib)
  ultimately show ?thesis
    using kv pos by (simp add: Let_def length_encode_pair algebra_simps)
qed

text \<open>The loop as a sequence of puts; each value's memory runs to the end of the buffer.\<close>

fun placed :: "bool \<Rightarrow> (bytes \<times> bytes) list \<Rightarrow> (bytes \<times> int \<times> bytes) list" where
  "placed e [] = []"
| "placed e ((k, v) # kvs) =
     (k, int (length v), v @ concat (map (encode_pair e) kvs)) # placed e kvs"

lemma placed_values:
  "map (\<lambda>(k, p). (k, case p of (n, m) \<Rightarrow> take (nat n) m)) (placed e kvs) = kvs"
  "(k, p) \<in> set (placed e kvs) \<Longrightarrow> k \<in> fst ` set kvs"
  by (induction e kvs rule: placed.induct) (auto simp: image_iff)

abbreviation all_alloc :: "nat \<Rightarrow> bool \<times> bool \<times> bool" where
  "all_alloc \<equiv> \<lambda>_. (True, True, True)"

lemma unserialize_loop_puts:
  assumes "buf = pre @ concat (map (encode_pair e) kvs)" "\<forall>k\<in>fst ` set kvs. 0 \<notin> set k"
    and "length buf < 2147483648" "pos = int (length pre)"
  shows "unserialize_loop e all_alloc buf (int (length buf)) (length kvs) pos s =
    bind_f (foldM (\<lambda>(k, p). (case p of (n, m) \<Rightarrow> \<lambda>s. put_value (True, True, True) s k n m)) (placed e kvs) s)
      (\<lambda>s'. Inr (s', 0))"
  using assms
proof (induction kvs arbitrary: pre pos s)
  case (Cons kv kvs)
  obtain k v where kv: "kv = (k, v)" by (cases kv)
  let ?rest = "concat (map (encode_pair e) kvs)" and ?one = "encode_pair e (k, v)"
  have "unserialize_loop e all_alloc buf (int (length buf)) (Suc (length kvs)) pos s =
    bind_f (put_value (True, True, True) s k (int (length v)) (v @ ?rest))
      (unserialize_loop e all_alloc buf (int (length buf)) (length kvs) (pos + int (length ?one)))"
    by (rule unserialize_step) (use Cons.prems kv in auto)
  moreover have "unserialize_loop e all_alloc buf (int (length buf)) (length kvs) (pos + int (length ?one)) s' =
    bind_f (foldM (\<lambda>(k, p). (case p of (n, m) \<Rightarrow> \<lambda>s. put_value (True, True, True) s k n m)) (placed e kvs) s')
      (\<lambda>s'. Inr (s', 0))" for s'
    by (rule Cons.IH[of "pre @ ?one"]) (use Cons.prems kv in auto)
  ultimately show ?case
    using kv by (cases "put_value (True, True, True) s k (int (length v)) (v @ ?rest)") simp_all
qed simp

lemma map_of_rev_distinct: "distinct (map fst xs) \<Longrightarrow> map_of (rev xs) = map_of xs"
  by (rule map_of_eqI) (auto simp: map_of_eq_Some_iff rev_map[symmetric])

lemma dict_value_entries:
  assumes "dict_inv h d" "plain_dict h d"
  shows "dict_value h d = map_of (map (entry h) (members_list d))"
proof
  fix k
  have "Option.bind (map_option (pval h) (find (\<lambda>a. pkey h a = k) as)) (\<lambda>v. Option.bind (cell h v) cell_value)
      = map_of (map (entry h) as) k" if "\<forall>a\<in>set as. \<exists>x. datas h (pval h a) = Some x \<and> plain x" for as
    using that by (induction as) (auto simp: entry_def cell_def cell_value_def plain_def)
  then show "dict_value h d k = map_of (map (entry h) (members_list d)) k"
    using assms(2) by (simp add: dict_value_def dict_abs_find plain_dict_def)
qed

lemma entries_distinct:
  assumes "dict_inv h d"
  shows "distinct (map fst (map (entry h) (members_list d)))" "\<forall>k\<in>fst ` set (map (entry h) (members_list d)). good_key k"
  using assms by (auto simp: dict_inv_def dict_shape_def entry_def distinct_map o_def inj_on_def)

lemma length_loop_ok:
  assumes "\<forall>a\<in>set as. pairs h a \<noteq> None \<and> (\<exists>x. datas h (pval h a) = Some x \<and> plain x)"
    and "0 \<le> len" "len + int (length (concat (map (encode_pair e) (map (entry h) as)))) < 2147483648"
  shows "length_loop h (length as) as len =
    Inr (Some (len + int (length (concat (map (encode_pair e) (map (entry h) as))))))"
  using assms
proof (induction as arbitrary: len)
  case (Cons a as)
  from Cons.prems(1) obtain p x m where px: "pairs h a = Some p" "datas h (pr_value p) = Some x"
    "dt_data x = Some m" "0 \<le> dt_len x" "dt_len x \<le> int (length m)" "vec x = None"
    by (auto simp: plain_def)
  then have en: "entry h a = (pr_key p, take (nat (dt_len x)) m)" by (simp add: entry_def)
  then have l: "int (length (encode_pair e (entry h a))) = 9 + int (length (pr_key p)) + dt_len x"
    using px by (simp add: length_encode_pair)
  let ?r = "int (length (concat (map (encode_pair e) (map (entry h) as))))"
  have b: "len + 9 + int (length (pr_key p)) + dt_len x + ?r < 2147483648"
    using Cons.prems(3) l by simp
  have "length_loop h (length as) as (len + 9 + int (length (pr_key p)) + dt_len x) =
      Inr (Some (len + 9 + int (length (pr_key p)) + dt_len x + ?r))"
    by (rule Cons.IH) (use Cons.prems px b in auto)
  with px b l Cons.prems(2) show ?case by (simp add: Let_def algebra_simps)
qed simp

lemma dict_serialized_length_ok:
  assumes "dict_inv h d" "plain_dict h d" "length (encode e (map (entry h) (members_list d))) < 2147483648"
  shows "dict_serialized_length h (Some d) = Inr (int (length (encode e (map (entry h) (members_list d)))))"
proof -
  have c: "d_count d = int (length (members_list d))" and
    wf: "\<forall>a\<in>set (members_list d). pairs h a \<noteq> None \<and> (\<exists>x. datas h (pval h a) = Some x \<and> plain x)"
    using assms by (auto simp: dict_inv_def dict_shape_def plain_dict_def)
  have "length_loop h (length (members_list d)) (members_list d) 4 =
    Inr (Some (4 + int (length (concat (map (encode_pair e) (map (entry h) (members_list d)))))))"
    by (rule length_loop_ok[OF wf]) (use assms(3) in \<open>simp_all add: encode_def\<close>)
  with c show ?thesis by (simp add: dict_serialized_length_def encode_def)
qed

section \<open>Deleting a key\<close>

definition drop_pair :: "store \<Rightarrow> dict_t \<Rightarrow> nat \<Rightarrow> dict_t" where
  "drop_pair h d a =
     d\<lparr>members := (members d)[bucketn d (pkey h a) := remove1 a (members d ! bucketn d (pkey h a))],
       members_list := remove1 a (members_list d), d_count := d_count d - 1\<rparr>"

lemma drop_pair_shape:
  assumes sh: "dict_shape h d" and a: "a \<in> set (members_list d)"
    and h': "pairs h' = (pairs h)(a := None)"
  shows "dict_shape h' (drop_pair h d a)"
proof -
  let ?d = "drop_pair h d a" and ?i = "bucketn d (pkey h a)"
  have i: "?i < length (members d)" by (rule bucket_ok(2)[OF sh])
  have dist: "distinct (members_list d)" "\<And>j. j < length (members d) \<Longrightarrow> distinct (members d ! j)"
    using sh by (auto simp: dict_shape_def)
  have hs: "hash_size ?d = hash_size d" and ml: "set (members_list ?d) = set (members_list d) - {a}"
    and len: "length (members ?d) = length (members d)"
    using dist(1) by (simp_all add: drop_pair_def)
  have old: "j < length (members d) \<Longrightarrow> b \<in> set (members d ! j) \<Longrightarrow>
      b \<in> set (members_list d) \<and> bucketn d (pkey h b) = j" for j b
    using sh by (auto simp: dict_shape_def)
  have ch: "set (members ?d ! j) = set (members d ! j) - {a}" if "j < length (members d)" for j
    using that i old[OF that, of a] dist(2)[OF i] by (cases "j = ?i") (auto simp: drop_pair_def)
  have keys: "b \<noteq> a \<Longrightarrow> pairs h' b = pairs h b" for b using h' by simp
  have "\<forall>j<length (members ?d). \<forall>b\<in>set (members ?d ! j). b \<in> set (members_list ?d) \<and> bucketn ?d (pkey h' b) = j"
    using ch old ml hs len keys by simp
  moreover have "\<forall>j<length (members ?d). distinct (members ?d ! j)"
    using dist(2) i by (auto simp: drop_pair_def nth_list_update)
  moreover have "\<forall>b\<in>set (members_list ?d). pairs h' b \<noteq> None \<and> good_key (pkey h' b) \<and>
      b \<in> set (members ?d ! bucketn ?d (pkey h' b))"
    using sh ml hs keys ch bucket_ok(2)[OF sh] by (simp add: dict_shape_def)
  moreover have "inj_on (pkey h') (set (members_list ?d))"
    using sh keys ml by (auto simp: dict_shape_def inj_on_def)
  moreover have "d_count ?d = int (length (members_list ?d))"
  proof -
    have "0 < length (members_list d)" using a by (cases "members_list d") auto
    then have "int (length (members_list d) - 1) = int (length (members_list d)) - 1" by linarith
    with sh a show ?thesis by (simp add: drop_pair_def dict_shape_def length_remove1)
  qed
  ultimately show ?thesis
    using sh dist(1) hs len unfolding dict_shape_def by (simp add: drop_pair_def distinct_remove1)
qed

lemma drop_pair_abs:
  assumes sh: "dict_shape h d" "dict_shape h' (drop_pair h d a)" and a: "a \<in> set (members_list d)"
    and h': "pairs h' = (pairs h)(a := None)"
  shows "dict_abs h' (drop_pair h d a) = (dict_abs h d)(pkey h a := None)"
proof
  fix k let ?d = "drop_pair h d a"
  have ml: "set (members_list ?d) = set (members_list d) - {a}"
    using sh by (simp add: drop_pair_def dict_shape_def)
  have inj: "inj_on (pkey h) (set (members_list d))" using sh by (simp add: dict_shape_def)
  show "dict_abs h' ?d k = ((dict_abs h d)(pkey h a := None)) k"
  proof (cases "find (\<lambda>b. pkey h' b = k) (members_list ?d)")
    case None
    then have "\<forall>b\<in>set (members_list d). b \<noteq> a \<longrightarrow> pkey h b \<noteq> k"
      using ml h' by (auto simp: find_None_iff)
    then have "k \<noteq> pkey h a \<Longrightarrow> find (\<lambda>b. pkey h b = k) (members_list d) = None"
      unfolding find_None_iff by (metis (full_types))
    with None show ?thesis by (cases "k = pkey h a") (simp_all add: dict_abs_find)
  next
    case (Some b)
    from find_SomeD[OF this] ml have b: "b \<in> set (members_list d)" "b \<noteq> a" "pkey h' b = k" by auto
    then have kb: "pkey h b = k" "pval h' b = pval h b" using h' by auto
    have "find (\<lambda>c. pkey h c = k) (members_list d) = Some b"
      by (rule find_unique[OF b(1)]) (use kb inj b(1) in \<open>auto simp: inj_on_def\<close>)
    moreover have "k \<noteq> pkey h a" using inj a b kb by (auto simp: inj_on_def)
    ultimately show ?thesis using Some kb by (simp add: dict_abs_find)
  qed
qed

lemma dict_del_found:
  assumes inv: "dict_inv h d" and f: "find (\<lambda>a. pkey h a = k) (members_list d) = Some a"
  shows "\<exists>h' d'. dict_del h (Some d) (Some k) = Inr (h', Some d') \<and> dict_inv h' d' \<and>
    dict_abs h' d' = (dict_abs h d)(k := None)"
proof -
  from inv have sh: "store_ok h" "dict_shape h d" "dict_refs h d" by (auto simp: dict_inv_def)
  from find_SomeD[OF f] have am: "a \<in> set (members_list d)" "pkey h a = k" by auto
  then obtain p where p: "pairs h a = Some p" "pr_key p = k" using sh(2) by (auto simp: dict_shape_def)
  let ?old = "pr_value p"
  have "0 < drefs h d ?old" using drefs_pos[OF am(1), of h] p by simp
  then obtain y where y: "datas h ?old = Some y" "int (drefs h d ?old) \<le> dt_refcount y"
    using sh(3) unfolding dict_refs_def by blast
  obtain h1 where u: "data_unref h ?old = Inr h1" and post: "unref_post h ?old y h1"
    by (rule data_unref_ok[OF y(1)])
  from post have h1: "pairs h1 = pairs h" "next_addr h1 = next_addr h"
    "\<And>b. b \<noteq> ?old \<Longrightarrow> datas h1 b = datas h b" "dt_refcount y \<noteq> 1 \<Longrightarrow> datas h1 ?old \<noteq> None"
    "map_option dt_refcount (datas h1 ?old) \<in> {None, Some (dt_refcount y - 1)}"
    by (simp_all add: unref_post_def)
  let ?h = "h1\<lparr>pairs := (pairs h1)(a := None)\<rparr>" and ?d = "drop_pair h d a"
  have "dict_shape ?h ?d" by (rule drop_pair_shape[OF sh(2) am(1)]) (simp add: h1(1))
  moreover have "dict_abs ?h ?d = (dict_abs h d)(k := None)"
    using drop_pair_abs[OF sh(2) calculation am(1)] h1(1) am(2) by simp
  moreover have "store_ok ?h" unfolding store_ok_def
  proof (intro allI impI)
    fix b assume "next_addr ?h \<le> b"
    then have n: "datas h b = None" "pairs h b = None" using sh(1) h1(2) by (simp_all add: store_ok_def)
    then have "b \<noteq> ?old" using y(1) by auto
    with n show "datas ?h b = None \<and> pairs ?h b = None" using h1 by simp
  qed
  moreover have refs: "int (drefs ?h ?d w) = int (drefs h d w) - (if ?old = w then 1 else 0)" for w
  proof -
    have dist: "distinct (members_list d)" using sh(2) by (simp add: dict_shape_def)
    have "map (pval ?h) (members_list ?d) = map (pval h) (remove1 a (members_list d))"
      using dist h1(1) by (auto simp: drop_pair_def)
    then have "drefs ?h ?d w = count_list (map (pval h) (remove1 a (members_list d))) w"
      unfolding drefs_def by (rule arg_cong)
    then show ?thesis using count_list_remove1[OF dist am(1), of "pval h" w] p by (simp add: drefs_def)
  qed
  moreover have "dict_refs ?h ?d" unfolding dict_refs_def
  proof (intro conjI allI impI)
    fix w assume w: "0 < drefs ?h ?d w"
    show "datas ?h w \<noteq> None"
      using w refs[of w] y h1(3,4) sh(3) by (cases "w = ?old") (auto simp: dict_refs_def)
  next
    fix w z assume z: "datas ?h w = Some z"
    show "int (drefs ?h ?d w) \<le> dt_refcount z"
    proof (cases "w = ?old")
      case True
      then have "dt_refcount z = dt_refcount y - 1" using z h1(5) by simp
      with True y(2) refs[of w] show ?thesis by simp
    next
      case False
      with z refs[of w] h1(3) sh(3) show ?thesis by (simp add: dict_refs_def)
    qed
  qed
  moreover have "dict_del h (Some d) (Some k) = Inr (?h, Some ?d)"
  proof -
    define i where "i = bucketn d k"
    note i = bucket_ok(1)[OF sh(2), of k, folded i_def] drop_pair_def[of h d a, unfolded am(2), folded i_def]
    have "chain_find h (members d ! i) k = Inr (Some a)"
      using dict_lookup_ok[OF sh(2), of k] f i(1) by (simp add: dict_lookup_def)
    then show ?thesis using p u i by (simp add: dict_del_def)
  qed
  ultimately show ?thesis unfolding dict_inv_def by blast
qed

lemma dict_del_ok:
  assumes "dict_inv h d"
  shows "\<exists>h' d'. dict_del h (Some d) (Some k) = Inr (h', Some d') \<and> dict_inv h' d' \<and>
    dict_abs h' d' = (dict_abs h d)(k := None)"
proof (cases "find (\<lambda>a. pkey h a = k) (members_list d)")
  case None
  have sh: "dict_shape h d" using assms by (simp add: dict_inv_def)
  have "dict_abs h d k = None" using None by (simp add: dict_abs_find)
  then have "dict_abs h d = (dict_abs h d)(k := None)" by (auto simp: fun_eq_iff)
  moreover have "dict_del h (Some d) (Some k) = Inr (h, Some d)"
    using dict_lookup_ok[OF sh, of k] None by (auto simp: dict_lookup_def dict_del_def bucket_ok(1)[OF sh])
  ultimately show ?thesis using assms by metis
qed (use dict_del_found assms in blast)

section \<open>Destruction\<close>

text \<open>What is left of a value cell after \<open>n\<close> references to it were dropped.\<close>

definition dropped :: "data_t \<Rightarrow> nat \<Rightarrow> data_t option \<Rightarrow> bool" where
  "dropped x n r \<longleftrightarrow>
     (int n < dt_refcount x \<longrightarrow> r = Some (x\<lparr>dt_refcount := dt_refcount x - int n\<rparr>)) \<and>
     (0 < n \<longrightarrow> int n = dt_refcount x \<longrightarrow> \<not> is_const x \<longrightarrow> r = None)"

lemma destroy_members_ok:
  assumes "\<forall>a\<in>set as. pairs h a \<noteq> None" "distinct as"
    and "\<forall>v. 0 < count_list (map (pval h) as) v \<longrightarrow> datas h v \<noteq> None"
    and "\<forall>v x. datas h v = Some x \<longrightarrow> int (count_list (map (pval h) as) v) \<le> dt_refcount x"
  shows "\<exists>h'. destroy_members h as = Inr h' \<and> (\<forall>v. datas h v = None \<longrightarrow> datas h' v = None) \<and>
    (\<forall>v x. datas h v = Some x \<longrightarrow> dropped x (count_list (map (pval h) as) v) (datas h' v))"
  using assms
proof (induction as arbitrary: h)
  case Nil
  then show ?case by (simp add: dropped_def)
next
  case (Cons a as)
  then obtain p where p: "pairs h a = Some p" by auto
  let ?o = "pr_value p"
  obtain y where y: "datas h ?o = Some y" using Cons.prems(3) p by fastforce
  define c where "c = count_list (map (pval h) as)"
  have cc: "count_list (map (pval h) (a # as)) v = c v + (if v = ?o then 1 else 0)" for v
    using p by (simp add: c_def)
  obtain h1 where u: "data_unref h ?o = Inr h1" and post: "unref_post h ?o y h1"
    by (rule data_unref_ok[OF y])
  let ?h = "h1\<lparr>pairs := (pairs h1)(a := None)\<rparr>"
  from post have h1: "pairs h1 = pairs h" "\<And>b. b \<noteq> ?o \<Longrightarrow> datas h1 b = datas h b"
    "dt_refcount y \<noteq> 1 \<Longrightarrow> datas h1 ?o = Some (y\<lparr>dt_refcount := dt_refcount y - 1\<rparr>)"
    "dt_refcount y = 1 \<Longrightarrow> \<not> is_const y \<Longrightarrow> datas h1 ?o = None"
    "map_option dt_refcount (datas h1 ?o) \<in> {None, Some (dt_refcount y - 1)}"
    by (simp_all add: unref_post_def)
  have "map (pval ?h) as = map (pval h) as" using Cons.prems(2) h1(1) by auto
  then have c': "count_list (map (pval ?h) as) = c" unfolding c_def by (simp only:)
  have y2: "int (c ?o) + 1 \<le> dt_refcount y" using Cons.prems(4) y cc[of ?o] by fastforce
  have "\<exists>h'. destroy_members ?h as = Inr h' \<and> (\<forall>v. datas ?h v = None \<longrightarrow> datas h' v = None) \<and>
    (\<forall>v x. datas ?h v = Some x \<longrightarrow> dropped x (count_list (map (pval ?h) as) v) (datas h' v))"
  proof (rule Cons.IH)
    show "\<forall>b\<in>set as. pairs ?h b \<noteq> None" using Cons.prems(1,2) h1(1) by auto
    show "distinct as" using Cons.prems(2) by simp
    show "\<forall>v. 0 < count_list (map (pval ?h) as) v \<longrightarrow> datas ?h v \<noteq> None"
    proof (intro allI impI)
      fix v assume "0 < count_list (map (pval ?h) as) v"
      then have v: "0 < c v" by (simp only: c')
      show "datas ?h v \<noteq> None"
        using v y2 h1(2)[of v] h1(3) Cons.prems(3) cc[of v] by (cases "v = ?o") auto
    qed
    show "\<forall>v x. datas ?h v = Some x \<longrightarrow> int (count_list (map (pval ?h) as) v) \<le> dt_refcount x"
      unfolding c'
    proof (intro allI impI)
      fix v x assume x: "datas ?h v = Some x"
      show "int (c v) \<le> dt_refcount x"
      proof (cases "v = ?o")
        case True
        then have "dt_refcount x = dt_refcount y - 1" using x h1(5) by simp
        with True y2 show ?thesis by simp
      next
        case False
        with x h1(2) have "datas h v = Some x" by simp
        then have "int (count_list (map (pval h) (a # as)) v) \<le> dt_refcount x" using Cons.prems(4) by blast
        with cc[of v] False show ?thesis by simp
      qed
    qed
  qed
  then obtain h' where h': "destroy_members ?h as = Inr h'" "\<And>v. datas ?h v = None \<Longrightarrow> datas h' v = None"
    "\<And>v x. datas ?h v = Some x \<Longrightarrow> dropped x (c v) (datas h' v)"
    unfolding c' by blast
  have "dropped x (c v + (if v = ?o then 1 else 0)) (datas h' v)" if x: "datas h v = Some x" for v x
  proof (cases "v = ?o")
    case True
    then have xy: "x = y" using x y by simp
    show ?thesis
    proof (cases "dt_refcount y = 1")
      case True1: True
      then show ?thesis using h'(2)[of ?o] h1(4) y2 True xy by (auto simp: dropped_def)
    next
      case False
      from h'(3)[of ?o] h1(3)[OF False] have "dropped (y\<lparr>dt_refcount := dt_refcount y - 1\<rparr>) (c ?o) (datas h' ?o)"
        by simp
      then show ?thesis using True xy False y2 by (auto simp: dropped_def algebra_simps)
    qed
  qed (use h'(3)[of v x] h1(2) x in simp)
  moreover have "datas h' v = None" if "datas h v = None" for v
    using h'(2)[of v] h1(2)[of v] that y by (cases "v = ?o") auto
  ultimately show ?case using h'(1) p u cc by (auto simp del: list.map)
qed

section \<open>New dictionaries\<close>

lemma new_dict_inv:
  assumes "store_ok h" "\<forall>v x. datas h v = Some x \<longrightarrow> 0 \<le> dt_refcount x" "0 < n" "n < 2147483648"
    and "get_new_dict_full True True n = Some d"
  shows "dict_inv h d"
  using assms by (auto simp: get_new_dict_full_def dict_inv_def dict_shape_def dict_refs_def drefs_def)

lemma empty_dict_value: "members_list d = [] \<Longrightarrow> dict_value h d = Map.empty"
  by (intro ext) (simp add: dict_value_def dict_abs_def)

definition ex_dict :: dict_t where
  "ex_dict = \<lparr>hash_size = 3, d_count = 0, d_refcount = 1, members = [[], [], []], members_list = []\<rparr>"

definition ex_data :: data_t where
  "ex_data = \<lparr>is_static = True, is_const = False, dt_len = 2, vec = None, dt_data = Some [7, 8], dt_refcount = 0\<rparr>"

definition ex_store :: store where
  "ex_store = \<lparr>datas = [0 \<mapsto> ex_data], pairs = \<lambda>_. None, next_addr = 1\<rparr>"

lemma ex_store_inv: "dict_inv ex_store ex_dict"
  by (auto simp: dict_inv_def store_ok_def dict_shape_def dict_refs_def drefs_def ex_store_def
      ex_dict_def ex_data_def less_Suc_eq)

text \<open>The dictionary with the value cell under the key "ab" (97, 98).\<close>

definition ex_pair_store :: store where
  "ex_pair_store = \<lparr>datas = [0 \<mapsto> ex_data\<lparr>dt_refcount := 1\<rparr>],
     pairs = [1 \<mapsto> \<lparr>pr_key = [97, 98], pr_value = 0\<rparr>], next_addr = 2\<rparr>"

definition ex_pair_dict :: dict_t where
  "ex_pair_dict = \<lparr>hash_size = 3, d_count = 1, d_refcount = 1, members = [[], [], [1]], members_list = [1]\<rparr>"

lemma ex_pair_inv: "dict_inv ex_pair_store ex_pair_dict"
proof -
  have b: "bucketn ex_pair_dict [97, 98] = 2" by code_simp
  show ?thesis
    using b by (auto simp: dict_inv_def store_ok_def dict_shape_def dict_refs_def drefs_def ex_pair_store_def
      ex_pair_dict_def ex_data_def good_key_def less_Suc_eq)
qed

section \<open>Properties\<close>

text \<open>C20. A dictionary is a map: setting a key to a live value returns 0 without a fault, keeps the
  hash chains, the member list, the count and the reference counts consistent, and afterwards
  getting that key gives the value and getting any other key gives what it gave before.\<close>

theorem dict_set_then_get:
  assumes "dict_inv h d" "good_key k" "datas h v \<noteq> None"
  shows "\<exists>h' d'. dict_set True True h (Some d) (Some k) (Some v) = Inr (h', Some d', 0) \<and> dict_inv h' d' \<and>
    (\<forall>k'. dict_get h' (Some d') (Some k') =
       (if k' = k then Inr (Some v) else dict_get h (Some d) (Some k')))"
proof -
  obtain x where "datas h v = Some x" using assms(3) by auto
  from dict_set_locked_ok[OF assms(1) this assms(2)] obtain h' d' where
    r: "dict_set_locked True True h d (Some k) v = Inr (h', d', 0)" "dict_inv h' d'"
      "dict_abs h' d' = (dict_abs h d)(k \<mapsto> v)" by blast
  have "dict_shape h d" "dict_shape h' d'" using assms(1) r(2) by (auto simp: dict_inv_def)
  note g = this[THEN dict_get_ok]
  have "dict_get h' (Some d') (Some k') = (if k' = k then Inr (Some v) else dict_get h (Some d) (Some k'))" for k'
    by (simp add: g r(3))
  with r(1,2) show ?thesis by (auto simp: dict_set_def)
qed

theorem dict_set_then_get_witness:
  "\<exists>h' d'. dict_set True True ex_store (Some ex_dict) (Some [97, 98]) (Some 0) = Inr (h', Some d', 0) \<and>
    dict_inv h' d' \<and> (\<forall>k'. dict_get h' (Some d') (Some k') =
       (if k' = [97, 98] then Inr (Some 0) else dict_get ex_store (Some ex_dict) (Some k')))"
  by (rule dict_set_then_get[OF ex_store_inv]) (simp_all add: good_key_def ex_store_def)

text \<open>C23. Deleting a key never faults, keeps the dictionary consistent, and afterwards getting that
  key gives nothing and getting any other key gives what it gave before.\<close>

theorem dict_del_then_get:
  assumes "dict_inv h d"
  shows "\<exists>h' d'. dict_del h (Some d) (Some k) = Inr (h', Some d') \<and> dict_inv h' d' \<and>
    (\<forall>k'. dict_get h' (Some d') (Some k') =
       (if k' = k then Inr None else dict_get h (Some d) (Some k')))"
proof -
  from dict_del_ok[OF assms, of k] obtain h' d' where
    r: "dict_del h (Some d) (Some k) = Inr (h', Some d')" "dict_inv h' d'"
      "dict_abs h' d' = (dict_abs h d)(k := None)" by blast
  have "dict_shape h d" "dict_shape h' d'" using assms(1) r(2) by (auto simp: dict_inv_def)
  note g = this[THEN dict_get_ok]
  have "dict_get h' (Some d') (Some k') = (if k' = k then Inr None else dict_get h (Some d) (Some k'))" for k'
    by (simp add: g r(3))
  with r(1,2) show ?thesis by blast
qed

theorem dict_del_then_get_witness:
  "\<exists>h' d'. dict_del ex_pair_store (Some ex_pair_dict) (Some [97, 98]) = Inr (h', Some d') \<and> dict_inv h' d' \<and>
    (\<forall>k'. dict_get h' (Some d') (Some k') =
       (if k' = [97, 98] then Inr None else dict_get ex_pair_store (Some ex_pair_dict) (Some k')))"
  by (rule dict_del_then_get[OF ex_pair_inv])

text \<open>C24. Dropping the last reference to a dictionary frees it and gives back one reference per
  entry: a value the dictionary refers to n times loses exactly n references, is freed when those
  were its last ones, and stays otherwise; nothing is used after it was freed.\<close>

theorem dict_unref_releases:
  assumes "dict_inv h d" "d_refcount d = 1"
  shows "\<exists>h'. dict_unref h (Some d) = Inr (h', None) \<and>
    (\<forall>v x. datas h v = Some x \<longrightarrow> dropped x (drefs h d v) (datas h' v))"
proof -
  have "\<exists>h'. destroy_members h (members_list d) = Inr h' \<and> (\<forall>v. datas h v = None \<longrightarrow> datas h' v = None) \<and>
    (\<forall>v x. datas h v = Some x \<longrightarrow> dropped x (count_list (map (pval h) (members_list d)) v) (datas h' v))"
    by (rule destroy_members_ok)
      (use assms(1) in \<open>auto simp: dict_inv_def dict_shape_def dict_refs_def drefs_def\<close>)
  with assms(2) show ?thesis by (auto simp: dict_unref_def dict_destroy_def drefs_def)
qed

theorem dict_unref_releases_witness:
  "\<exists>h'. dict_unref ex_pair_store (Some ex_pair_dict) = Inr (h', None) \<and>
    (\<forall>v x. datas ex_pair_store v = Some x \<longrightarrow> dropped x (drefs ex_pair_store ex_pair_dict v) (datas h' v))"
  by (rule dict_unref_releases[OF ex_pair_inv]) (simp add: ex_pair_dict_def)

text \<open>C22. Serialization round trip. A dictionary of plain values that serializes to less than
  2^31 bytes is written without an error in exactly the number of bytes announced, and reading
  those bytes into an empty dictionary on a host of the same byte order succeeds and gives a
  dictionary with the same keys and values.\<close>

theorem dict_serialize_roundtrip:
  assumes "dict_inv h d" "plain_dict h d" "dict_serialize e h (Some d) = Inr (ret, buf)"
    and "length buf < 2147483648" "dict_inv h0 d0" "members_list d0 = []"
  shows "ret = 0 \<and> dict_serialized_length h (Some d) = Inr (int (length buf)) \<and>
    (\<exists>h' d'. dict_unserialize e all_alloc h0 (Some buf) (int (length buf)) (Some d0) = Inr (h', Some d', 0) \<and>
       dict_inv h' d' \<and> dict_value h' d' = dict_value h d)"
proof -
  let ?kvs = "map (entry h) (members_list d)"
  have b: "ret = 0" "buf = encode e ?kvs" using dict_serialize_ok[OF assms(1,2)] assms(3) by auto
  note ed = entries_distinct[OF assms(1)]
  have "\<forall>(k, p)\<in>set (placed e ?kvs). good_key k" using ed(2) placed_values(2) by fast
  from dict_store.puts_ok[of "(h0, d0)", OF _ this] assms(5) obtain h' d' where
    p: "foldM (\<lambda>(k, p). (case p of (n, m) \<Rightarrow> \<lambda>s. put_value (True, True, True) s k n m)) (placed e ?kvs) (h0, d0) = Inr (h', d')"
      "dict_inv h' d'" "dict_value h' d' = dict_value h0 d0 ++ map_of (rev ?kvs)"
    by (auto simp: placed_values(1))
  have v: "dict_value h' d' = dict_value h d"
    using p(3) dict_value_entries[OF assms(1,2)] map_of_rev_distinct[OF ed(1)] empty_dict_value[OF assms(6)]
    by simp
  have d0: "d0\<lparr>d_count := 0\<rparr> = d0" using assms(5,6) by (simp add: dict_inv_def dict_shape_def)
  have n: "length ?kvs < 2147483648"
  proof -
    have "length xs \<le> length (concat (map (encode_pair e) xs))" for xs
      by (induction xs) (auto simp: encode_pair_def)
    from this[of ?kvs] show ?thesis using assms(4) b(2) by (simp add: encode_def)
  qed
  have "get_int32 e buf 0 = Inr (int (length ?kvs))"
    using get_put_int32[of "int (length ?kvs)" e "[]" "concat (map (encode_pair e) ?kvs)"] n b(2)
    by (simp add: encode_def)
  moreover have "unserialize_loop e all_alloc buf (int (length buf)) (length ?kvs) 4 (h0, d0) = Inr ((h', d'), 0)"
    using unserialize_loop_puts[of buf "put_int32 e (int (length ?kvs))" e ?kvs 4 "(h0, d0)"] p(1) b(2) assms(4) ed(2)
    by (auto simp: encode_def good_key_def)
  moreover have "4 \<le> length buf" using b(2) by (simp add: encode_def)
  ultimately have "dict_unserialize e all_alloc h0 (Some buf) (int (length buf)) (Some d0) = Inr (h', Some d', 0)"
    by (auto simp: dict_unserialize_def d0)
  moreover have "dict_serialized_length h (Some d) = Inr (int (length buf))"
    using dict_serialized_length_ok[OF assms(1,2)] assms(4) b(2) by simp
  ultimately show ?thesis using b(1) p(2) v by blast
qed

theorem dict_serialize_roundtrip_witness:
  "\<exists>buf. dict_serialize True ex_pair_store (Some ex_pair_dict) = Inr (0, buf) \<and>
    dict_serialized_length ex_pair_store (Some ex_pair_dict) = Inr (int (length buf)) \<and>
    (\<exists>h' d'. dict_unserialize True all_alloc ex_store (Some buf) (int (length buf)) (Some ex_dict) = Inr (h', Some d', 0) \<and>
       dict_inv h' d' \<and> dict_value h' d' = dict_value ex_pair_store ex_pair_dict)"
proof -
  let ?buf = "[0, 0, 0, 1, 0, 0, 0, 2, 0, 0, 0, 2, 97, 98, 0, 7, 8]"
  have s: "dict_serialize True ex_pair_store (Some ex_pair_dict) = Inr (0, ?buf)" by code_simp
  have p: "plain_dict ex_pair_store ex_pair_dict"
    by (simp add: plain_dict_def plain_def ex_pair_store_def ex_pair_dict_def ex_data_def)
  from dict_serialize_roundtrip[OF ex_pair_inv p s _ ex_store_inv] s show ?thesis
    by (simp add: ex_dict_def)
qed

text \<open>Reading trusts the sender's key: a buffer with one pair whose key is not terminated
  inside the buffer passes all the length checks, and the key is then read past the end of the
  buffer.\<close>

theorem unserialize_overreads:
  assumes "0 \<notin> set k" "k \<noteq> []" "length k < 2147483000" "buf = put_int32 e 1 @ put_int32 e (int (length k) - 1) @ put_int32 e 0 @ k"
  shows "dict_unserialize e alloc h (Some buf) (int (length buf)) (Some d) = Inl Out_Of_Bounds"
proof -
  let ?K = "put_int32 e (int (length k) - 1)" and ?Z = "put_int32 e 0"
  have l: "length buf = 12 + length k" "0 < length k" using assms by auto
  have "get_int32 e buf 0 = Inr 1" "get_int32 e buf 4 = Inr (int (length k) - 1)" "get_int32 e buf 8 = Inr 0"
    using get_put_int32[of 1 e "[]" "?K @ ?Z @ k"] get_put_int32[of "int (length k) - 1" e "put_int32 e 1" "?Z @ k"]
      get_put_int32[of 0 e "put_int32 e 1 @ ?K" k] assms(2-4) by simp_all
  moreover have "c_string buf 12 = Inl Out_Of_Bounds" using assms(1,4) by (simp add: c_string_def)
  ultimately show ?thesis using l by (simp add: dict_unserialize_def Let_def)
qed

theorem unserialize_overreads_witness:
  "dict_unserialize True all_alloc ex_store
     (Some (put_int32 True 1 @ put_int32 True (int (length [97, 98 :: u8]) - 1) @ put_int32 True 0 @ [97, 98]))
     (int (length (put_int32 True 1 @ put_int32 True (int (length [97, 98 :: u8]) - 1) @ put_int32 True 0 @ [97, 98])))
     (Some ex_dict) = Inl Out_Of_Bounds"
  by (rule unserialize_overreads[OF _ _ _ refl]) simp_all

text \<open>The hash of a key is its length: two keys of the same length, of at least two bytes
  each, always fall into the same chain.\<close>

theorem hash_is_length:
  assumes "1 < length k" "length k < 2147483648"
  shows "unat (hash_key k) = length k"
  using assms by (simp add: hash_key_length unat_of_nat)

theorem hash_is_length_witness: "unat (hash_key [97, 98, 99]) = length [97, 98, 99 :: u8]"
  by (rule hash_is_length) simp_all

end
