(* ===== verification/Dht_Hash.thy ===== *)
theory Dht_Hash
  imports Byte_Order
begin

text \<open>
  The name hash of the distribute translator: \<^verbatim>\<open>xlators/cluster/dht/src/dht-hashfn-tea.c\<close> and
  \<^verbatim>\<open>dht-hashfn.c\<close>. A name is a C string, a list of non-zero bytes; \<open>e\<close> is the byte order of the
  host, since the hash reads four bytes of the name as one word. A \<^verbatim>\<open>char\<close> is signed. Shown here:
  a temporary file of rsync hashes like the file it will become, and names of less than four
  bytes do not depend on the host.
\<close>

section \<open>TEA\<close>

definition DELTA :: u32 where "DELTA = 0x9E3779B9"
abbreviation (input) FULLROUNDS :: nat where "FULLROUNDS \<equiv> 10"
abbreviation (input) PARTROUNDS :: nat where "PARTROUNDS \<equiv> 6"

type_synonym quad = "u32 \<times> u32 \<times> u32 \<times> u32"

text \<open>The loop of \<^verbatim>\<open>tearound\<close>, a do-while that is entered with at least one round.\<close>

fun tea_loop :: "nat \<Rightarrow> quad \<Rightarrow> u32 \<Rightarrow> u32 \<Rightarrow> u32 \<Rightarrow> u32 \<times> u32" where
  "tea_loop 0 a sm b0 b1 = (b0, b1)"
| "tea_loop (Suc n) (a0, a1, a2, a3) sm b0 b1 =
     (let sm' = sm + DELTA;
          b0' = b0 + ((push_bit 4 b1 + a0) XOR (b1 + sm') XOR (drop_bit 5 b1 + a1));
          b1' = b1 + ((push_bit 4 b0' + a2) XOR (b0' + sm') XOR (drop_bit 5 b0' + a3))
      in tea_loop n (a0, a1, a2, a3) sm' b0' b1')"

definition tearound :: "nat \<Rightarrow> quad \<Rightarrow> u32 \<times> u32 \<Rightarrow> u32 \<times> u32" where
  "tearound rounds a h =
     (case h of (h0, h1) \<Rightarrow> case tea_loop rounds a 0 h0 h1 of (b0, b1) \<Rightarrow> (h0 + b0, h1 + b1))"

definition pad :: "nat \<Rightarrow> u32" where
  "pad len = (let p = of_nat len OR push_bit 8 (of_nat len) in p OR push_bit 16 p)"

text \<open>The full quads, sixteen bytes each.\<close>

fun quads :: "bool \<Rightarrow> nat \<Rightarrow> bytes \<Rightarrow> u32 \<times> u32 \<Rightarrow> u32 \<times> u32" where
  "quads e 0 msg h = h"
| "quads e (Suc n) msg h =
     quads e n (drop 16 msg)
       (tearound PARTROUNDS
          (load32 e (take 4 msg), load32 e (take 4 (drop 4 msg)),
           load32 e (take 4 (drop 8 msg)), load32 e (take 4 (drop 12 msg))) h)"

text \<open>
  The rest, at most fifteen bytes: its whole words, then its last bytes shifted into the padding,
  then the padding alone. A byte is or-ed in with its sign.
\<close>

definition tail_word :: "u32 \<Rightarrow> bytes \<Rightarrow> u32" where
  "tail_word p bs = foldl (\<lambda>w b. push_bit 8 w OR scast b) p bs"

fun rest_words :: "bool \<Rightarrow> u32 \<Rightarrow> nat \<Rightarrow> bytes \<Rightarrow> u32 list" where
  "rest_words e p 0 bs = []"
| "rest_words e p (Suc j) bs =
     (if 4 \<le> length bs then load32 e (take 4 bs) # rest_words e p j (drop 4 bs)
      else tail_word p bs # rest_words e p j [])"

definition dht_hashfn_tea :: "bool \<Rightarrow> bytes \<Rightarrow> u32" where
  "dht_hashfn_tea e msg =
     (let len = length msg; p = pad len;
          h = quads e (len div 16) msg (0x9464a485, 0x542e1a94);
          h' = (if len mod 16 = 0 then h
                else case rest_words e p 4 (drop (16 * (len div 16)) msg) of
                       [w0, w1, w2, w3] \<Rightarrow> tearound FULLROUNDS (w0, w1, w2, w3) h
                     | _ \<Rightarrow> h)
      in fst h' XOR snd h')"

section \<open>Names\<close>

abbreviation (input) DHT_HASH_TYPE_TEA :: int where "DHT_HASH_TYPE_TEA \<equiv> 0"

definition dht_hash_compute_internal :: "bool \<Rightarrow> int \<Rightarrow> bytes \<Rightarrow> u32 option" where
  "dht_hash_compute_internal e type name =
     (if type = DHT_HASH_TYPE_TEA then Some (dht_hashfn_tea e name) else None)"

text \<open>The position of the last dot, \<^verbatim>\<open>strrchr (name, '.')\<close>.\<close>

definition DOT :: u8 where "DOT = 46"

fun last_dot :: "nat \<Rightarrow> bytes \<Rightarrow> nat option \<Rightarrow> nat option" where
  "last_dot i [] r = r"
| "last_dot i (b # bs) r = last_dot (Suc i) bs (if b = DOT then Some i else r)"

definition rsync_friendly_name :: "bytes \<Rightarrow> bytes" where
  "rsync_friendly_name name =
     (if name \<noteq> [] \<and> hd name = DOT then
        (case last_dot 0 name None of
           Some dot \<Rightarrow> if 1 < dot \<and> dot + 1 < length name then take (dot - 1) (tl name) else name
         | None \<Rightarrow> name)
      else name)"

definition dht_hash_compute :: "bool \<Rightarrow> int \<Rightarrow> bytes \<Rightarrow> u32 option" where
  "dht_hash_compute e type name = dht_hash_compute_internal e type (rsync_friendly_name name)"

section \<open>Properties\<close>

lemma last_dot_none: "DOT \<notin> set bs \<Longrightarrow> last_dot i bs r = r"
  by (induction bs arbitrary: i r) auto

lemma last_dot_append: "last_dot i (as @ bs) r = last_dot (i + length as) bs (last_dot i as r)"
  by (induction as arbitrary: i r) auto

lemma rsync_temp_name:
  assumes "n \<noteq> []" "suf \<noteq> []" "DOT \<notin> set suf"
  shows "rsync_friendly_name (DOT # n @ DOT # suf) = n"
proof -
  have "last_dot 0 (DOT # n @ DOT # suf) None = Some (Suc (length n))"
    using assms(3) by (simp add: last_dot_append last_dot_none)
  then show ?thesis using assms by (cases suf) (auto simp: rsync_friendly_name_def)
qed

text \<open>C39. A file that rsync is writing lands on the subvolume of the file it will be renamed to:
  the temporary name, a dot, the name, a dot and a suffix without dots, has the hash of the name,
  for every name that is not itself taken for a temporary one.\<close>

theorem rsync_temp_same_hash:
  assumes "n \<noteq> []" "suf \<noteq> []" "DOT \<notin> set suf" "rsync_friendly_name n = n"
  shows "dht_hash_compute e type (DOT # n @ DOT # suf) = dht_hash_compute e type n"
  using assms rsync_temp_name by (simp add: dht_hash_compute_def)

theorem rsync_temp_same_hash_witness:
  "dht_hash_compute True 0 (DOT # [97, 46, 99] @ DOT # [88, 89]) = dht_hash_compute True 0 [97, 46, 99]"
  by (rule rsync_temp_same_hash; code_simp)

lemma rest_words_short:
  assumes "length bs < 4"
  shows "rest_words e p 4 bs = tail_word p bs # replicate 3 p"
proof -
  have "rest_words e p n [] = replicate n p" for n by (induction n) (simp_all add: tail_word_def)
  then have "rest_words e p (Suc 3) bs = tail_word p bs # replicate 3 p"
    using assms by (simp only: rest_words.simps linorder_not_le[symmetric] if_False)
  then show ?thesis by simp
qed

text \<open>Short names are host independent: the hash of a name of less than four bytes is the same
  on little-endian and big-endian hosts.\<close>

theorem short_name_host_independent:
  assumes "length name < 4"
  shows "dht_hash_compute True type name = dht_hash_compute False type name"
proof -
  have "length (rsync_friendly_name name) \<le> length name"
    by (auto simp: rsync_friendly_name_def split: option.splits)
  with assms have l: "length (rsync_friendly_name name) < 4" by simp
  have "dht_hashfn_tea True bs = dht_hashfn_tea False bs" if "length bs < 4" for bs
    using that by (simp add: dht_hashfn_tea_def Let_def rest_words_short)
  with l show ?thesis by (simp add: dht_hash_compute_def dht_hash_compute_internal_def)
qed

theorem short_name_host_independent_witness:
  "dht_hash_compute True 0 [97, 98, 99] = dht_hash_compute False 0 [97, 98, 99]"
  by (rule short_name_host_independent) simp

end
