(* ===== verification/Dht_Layout.thy ===== *)
theory Dht_Layout
  imports Dht_Hash "HOL-Library.Product_Lexorder"
begin

text \<open>
  Layouts of the distribute translator, \<^verbatim>\<open>xlators/cluster/dht/src/dht-layout.c\<close>: which range of
  the 32-bit hash space each subvolume serves for one directory. A layout is the record
  \<open>dht_layout\<close>; its C array \<^verbatim>\<open>list\<close> of \<^verbatim>\<open>cnt\<close> entries is a HOL list, and \<^verbatim>\<open>cnt\<close> is its length.
  A subvolume is a number that stands for its address, \<^verbatim>\<open>NULL\<close> is \<open>None\<close>. The extended attribute
  that holds a range on disk is the list of its 32-bit words as they are in memory; the dictionary
  it comes in is \<open>None\<close> for a null pointer and \<open>Some None\<close> for one without the attribute.
  The flag \<open>e\<close> says whether the host is little endian.

  The theorems: a layout that passes the check for anomalies covers every hash value, and covers
  it once unless an entry spans the whole space; what is written to disk is read back; the sort is
  a permutation into the order of the comparison; and the check accepts two kinds of broken layout.
\<close>

section \<open>Data\<close>

record layout_entry =
  le_err :: int
  le_start :: u32
  le_stop :: u32
  le_xlator :: "nat option"

record dht_layout =
  preset :: int
  gen :: int
  lt_type :: int
  lt_list :: "layout_entry list"

abbreviation lt_cnt :: "dht_layout \<Rightarrow> nat" where
  "lt_cnt l \<equiv> length (lt_list l)"

definition zero_entry :: layout_entry where
  "zero_entry = \<lparr>le_err = 0, le_start = 0, le_stop = 0, le_xlator = None\<rparr>"

section \<open>Operations\<close>

definition dht_layout_new :: "bool \<Rightarrow> nat \<Rightarrow> dht_layout option" where
  "dht_layout_new mem cnt =
     (if mem then Some \<lparr>preset = 0, gen = 0, lt_type = 0, lt_list = replicate cnt zero_entry\<rparr>
      else None)"

text \<open>The first entry whose range contains the hash; its subvolume may itself be null.\<close>

fun search_entries :: "u32 \<Rightarrow> layout_entry list \<Rightarrow> nat option" where
  "search_entries h [] = None"
| "search_entries h (x # xs) =
     (if le_start x \<le> h \<and> h \<le> le_stop x then le_xlator x else search_entries h xs)"

definition dht_layout_search :: "bool \<Rightarrow> dht_layout \<Rightarrow> bytes \<Rightarrow> nat option" where
  "dht_layout_search e layout name =
     (case dht_hash_compute e (lt_type layout) name of
        None \<Rightarrow> None
      | Some h \<Rightarrow> search_entries h (lt_list layout))"

record dht_conf =
  subvolumes :: "nat list"
  subvolume_status :: "bool list"
  file_layouts :: "dht_layout option list option"

fun layout_of_subvol :: "nat list \<Rightarrow> dht_layout option list \<Rightarrow> nat \<Rightarrow> fault + dht_layout option" where
  "layout_of_subvol (v # vs) (l # ls) subvol =
     (if v = subvol then Inr l else layout_of_subvol vs ls subvol)"
| "layout_of_subvol [] ls subvol = Inr None"
| "layout_of_subvol (v # vs) [] subvol =
     (if v = subvol then Inl Out_Of_Bounds else layout_of_subvol vs [] subvol)"

definition dht_layout_for_subvol :: "dht_conf \<Rightarrow> nat \<Rightarrow> fault + dht_layout option" where
  "dht_layout_for_subvol conf subvol =
     (case file_layouts conf of
        None \<Rightarrow> if subvol \<in> set (subvolumes conf) then Inl Null_Deref else Inr None
      | Some ls \<Rightarrow> layout_of_subvol (subvolumes conf) ls subvol)"

text \<open>
  \<open>mem\<close> says whether the allocation of the table succeeds, \<open>mems i\<close> whether that of the i-th
  layout does. A failure in the middle leaves the layouts built so far.
\<close>

fun init_layouts :: "(nat \<Rightarrow> bool) \<Rightarrow> nat \<Rightarrow> nat list \<Rightarrow> dht_layout option list \<times> bool" where
  "init_layouts mems i [] = ([], True)"
| "init_layouts mems i (v # vs) =
     (case dht_layout_new (mems i) 1 of
        None \<Rightarrow> (replicate (Suc (length vs)) None, False)
      | Some l \<Rightarrow>
          (let l' = l\<lparr>preset := 1, lt_list := (lt_list l)[0 := (lt_list l ! 0)\<lparr>le_xlator := Some v\<rparr>]\<rparr>;
               (ls, ok) = init_layouts mems (Suc i) vs
           in (Some l' # ls, ok)))"

definition dht_layouts_init :: "bool \<Rightarrow> (nat \<Rightarrow> bool) \<Rightarrow> dht_conf \<Rightarrow> int \<times> dht_conf" where
  "dht_layouts_init mem mems conf =
     (if \<not> mem then (- 1, conf\<lparr>file_layouts := None\<rparr>)
      else (let (ls, ok) = init_layouts mems 0 (subvolumes conf)
            in (if ok then 0 else - 1, conf\<lparr>file_layouts := Some ls\<rparr>)))"

definition dht_disk_layout_extract :: "bool \<Rightarrow> bool \<Rightarrow> dht_layout \<Rightarrow> nat \<Rightarrow> fault + (int \<times> u32 list option)" where
  "dht_disk_layout_extract mem e layout pos =
     (if \<not> mem then Inr (- 1, None)
      else if lt_cnt layout \<le> pos then Inl Out_Of_Bounds
      else Inr (0, Some [hton32 e 1, hton32 e (word_of_int (lt_type layout)),
                         hton32 e (le_start (lt_list layout ! pos)),
                         hton32 e (le_stop (lt_list layout ! pos)), 0]))"

text \<open>
  The words of the attribute are read without a look at its length. The last message prints the
  name of the entry's subvolume, which the caller has just set.
\<close>

definition dht_disk_layout_merge :: "bool \<Rightarrow> dht_layout \<Rightarrow> nat \<Rightarrow> u32 list \<Rightarrow> fault + (int \<times> dht_layout)" where
  "dht_disk_layout_merge e layout pos disk =
     (if disk = [] then Inl Out_Of_Bounds
      else if hton32 e (disk ! 0) \<noteq> 1 then Inr (- 1, layout)
      else if length disk < 4 \<or> lt_cnt layout \<le> pos then Inl Out_Of_Bounds
      else if le_xlator (lt_list layout ! pos) = None then Inl Null_Deref
      else Inr (0, layout\<lparr>lt_list := (lt_list layout)[pos :=
                 (lt_list layout ! pos)\<lparr>le_start := hton32 e (disk ! 2), le_stop := hton32 e (disk ! 3)\<rparr>]\<rparr>))"

text \<open>The first entry without a subvolume, or the number of entries if there is none.\<close>

fun free_slot :: "layout_entry list \<Rightarrow> nat" where
  "free_slot [] = 0"
| "free_slot (x # xs) = (if le_xlator x = None then 0 else Suc (free_slot xs))"

definition set_err :: "dht_layout \<Rightarrow> nat \<Rightarrow> int \<Rightarrow> fault + dht_layout" where
  "set_err layout i err =
     (if lt_cnt layout \<le> i then Inl Out_Of_Bounds
      else Inr (layout\<lparr>lt_list := (lt_list layout)[i := (lt_list layout ! i)\<lparr>le_err := err\<rparr>]\<rparr>))"

definition dht_layout_merge ::
  "bool \<Rightarrow> dht_layout \<Rightarrow> nat \<Rightarrow> int \<Rightarrow> int \<Rightarrow> u32 list option option \<Rightarrow> fault + (int \<times> dht_layout)" where
  "dht_layout_merge e layout subvol op_ret op_errno xattr =
     (let err = (if op_ret \<noteq> 0 then op_errno else - 1);
          i = free_slot (lt_list layout);
          layout = (if i < lt_cnt layout then
                      layout\<lparr>lt_list := (lt_list layout)[i :=
                        (lt_list layout ! i)\<lparr>le_err := err, le_xlator := Some subvol\<rparr>]\<rparr>
                    else layout)
      in if op_ret \<noteq> 0 then Inr (0, layout)
         else case xattr of
           Some (Some disk) \<Rightarrow>
             bind_f (dht_disk_layout_merge e layout i disk) (\<lambda>(ret, layout).
               if ret \<noteq> 0 then Inr (ret, layout)
               else bind_f (set_err layout i 0) (\<lambda>layout. Inr (0, layout)))
         | _ \<Rightarrow> bind_f (set_err layout i (- 1)) (\<lambda>layout. Inr (0, layout)))"

definition dht_layout_entry_swap :: "layout_entry list \<Rightarrow> nat \<Rightarrow> nat \<Rightarrow> layout_entry list" where
  "dht_layout_entry_swap xs i j = xs[i := xs ! j, j := xs ! i]"

definition dht_layout_entry_cmp :: "layout_entry \<Rightarrow> layout_entry \<Rightarrow> int" where
  "dht_layout_entry_cmp x y =
     (if le_err x \<noteq> 0 \<or> le_err y \<noteq> 0 then wrap32 (le_err x - le_err y)
      else uint (le_start x) - uint (le_start y))"

definition sort_step :: "nat \<Rightarrow> nat \<Rightarrow> layout_entry list \<Rightarrow> layout_entry list" where
  "sort_step i j xs =
     (if 0 < dht_layout_entry_cmp (xs ! i) (xs ! j) then dht_layout_entry_swap xs i j else xs)"

definition sort_row :: "nat \<Rightarrow> layout_entry list \<Rightarrow> layout_entry list" where
  "sort_row i xs = fold (sort_step i) [Suc i..<length xs] xs"

definition dht_layout_sort :: "dht_layout \<Rightarrow> dht_layout" where
  "dht_layout_sort layout =
     layout\<lparr>lt_list := fold sort_row [0..<lt_cnt layout - 1] (lt_list layout)\<rparr>"

record anomalies =
  hole_cnt :: u32
  overlap_cnt :: u32
  an_missing :: u32
  an_down :: u32
  an_misc :: u32

record anomaly_scan = anomalies +
  prev_stop :: u32
  is_virgin :: bool

definition anomaly_step :: "layout_entry \<Rightarrow> anomaly_scan \<Rightarrow> anomaly_scan" where
  "anomaly_step x s =
     (if le_err x \<noteq> 0 then
        (if le_err x = - 1 \<or> le_err x = ENOENT then s\<lparr>an_missing := an_missing s + 1\<rparr>
         else if le_err x = ENOTCONN then s\<lparr>an_down := an_down s + 1\<rparr>
         else s\<lparr>an_misc := an_misc s + 1\<rparr>)
      else
        s\<lparr>is_virgin := False,
          hole_cnt := (if prev_stop s + 1 < le_start x then hole_cnt s + 1 else hole_cnt s),
          overlap_cnt := (if le_start x < prev_stop s + 1 then overlap_cnt s + 1 else overlap_cnt s),
          prev_stop := le_stop x\<rparr>)"

definition dht_layout_anomalies :: "dht_layout \<Rightarrow> fault + anomalies" where
  "dht_layout_anomalies layout =
     (if lt_list layout = [] then Inl Out_Of_Bounds
      else let last_stop = le_start (lt_list layout ! 0) - 1;
               s = fold anomaly_step (lt_list layout)
                     \<lparr>hole_cnt = 0, overlap_cnt = 0, an_missing = 0, an_down = 0, an_misc = 0,
                      prev_stop = last_stop, is_virgin = True\<rparr>
           in Inr \<lparr>hole_cnt = (if last_stop - prev_stop s \<noteq> 0 \<or> is_virgin s then hole_cnt s + 1 else hole_cnt s),
                   overlap_cnt = overlap_cnt s, an_missing = an_missing s, an_down = an_down s,
                   an_misc = an_misc s\<rparr>)"

definition dht_layout_normalize :: "dht_layout \<Rightarrow> fault + (int \<times> dht_layout)" where
  "dht_layout_normalize layout =
     (let layout = dht_layout_sort layout
      in bind_f (dht_layout_anomalies layout) (\<lambda>a.
           Inr (if hole_cnt a \<noteq> 0 \<or> overlap_cnt a \<noteq> 0 then 1 else 0, layout)))"

fun subvol_pos :: "nat \<Rightarrow> layout_entry list \<Rightarrow> nat option" where
  "subvol_pos v [] = None"
| "subvol_pos v (x # xs) =
     (if le_xlator x = Some v then Some 0 else map_option Suc (subvol_pos v xs))"

definition dht_layout_dir_mismatch :: "bool \<Rightarrow> dht_layout \<Rightarrow> nat \<Rightarrow> u32 list option option \<Rightarrow> fault + int" where
  "dht_layout_dir_mismatch e layout subvol xattr =
     (case subvol_pos subvol (lt_list layout) of
        None \<Rightarrow> Inr 1
      | Some pos \<Rightarrow>
          (case xattr of
             None \<Rightarrow> Inr (- 1)
           | Some None \<Rightarrow> Inr (- 1)
           | Some (Some disk) \<Rightarrow>
               if disk = [] then Inl Out_Of_Bounds
               else if hton32 e (disk ! 0) \<noteq> 1 then Inr (- 1)
               else if length disk < 4 then Inl Out_Of_Bounds
               else if le_start (lt_list layout ! pos) \<noteq> hton32 e (disk ! 2)
                     \<or> le_stop (lt_list layout ! pos) \<noteq> hton32 e (disk ! 3) then Inr 1
               else Inr 0))"

section \<open>The sort\<close>

text \<open>The order of the comparison: by error, entries without an error by the start of their range.\<close>

definition entry_key :: "layout_entry \<Rightarrow> int \<times> int" where
  "entry_key x = (le_err x, if le_err x = 0 then uint (le_start x) else 0)"

definition errs_ok :: "layout_entry list \<Rightarrow> bool" where
  "errs_ok xs \<longleftrightarrow> (\<forall>x \<in> set xs. - 1 \<le> le_err x \<and> le_err x < 2147483647)"

lemma cmp_key:
  assumes "errs_ok xs" "x \<in> set xs" "y \<in> set xs"
  shows "0 < dht_layout_entry_cmp x y \<longleftrightarrow> entry_key y < entry_key x"
proof -
  have "- 1 \<le> le_err x" "le_err x < 2147483647" "- 1 \<le> le_err y" "le_err y < 2147483647"
    using assms by (auto simp: errs_ok_def)
  then have "wrap32 (le_err x - le_err y) = le_err x - le_err y" by (intro wrap32_id) simp_all
  then show ?thesis by (auto simp: dht_layout_entry_cmp_def entry_key_def)
qed

lemma swap_perm: "i < length xs \<Longrightarrow> j < length xs \<Longrightarrow> mset (dht_layout_entry_swap xs i j) = mset xs"
  unfolding dht_layout_entry_swap_def using mset_swap[of j xs i] by simp

lemma sort_step_perm: "i < length xs \<Longrightarrow> j < length xs \<Longrightarrow> mset (sort_step i j xs) = mset xs"
  by (simp add: sort_step_def swap_perm)

lemma sort_step_length [simp]: "length (sort_step i j xs) = length xs"
  by (simp add: sort_step_def dht_layout_entry_swap_def)

lemma errs_ok_perm: "mset xs = mset ys \<Longrightarrow> errs_ok xs = errs_ok ys"
  unfolding errs_ok_def by (drule mset_eq_setD) simp

lemma sort_step_nth:
  assumes "errs_ok xs" "i < j" "j < length xs"
  shows "k \<noteq> i \<Longrightarrow> k \<noteq> j \<Longrightarrow> sort_step i j xs ! k = xs ! k"
    and "entry_key (sort_step i j xs ! i) = min (entry_key (xs ! i)) (entry_key (xs ! j))"
    and "entry_key (sort_step i j xs ! j) = max (entry_key (xs ! i)) (entry_key (xs ! j))"
proof -
  have c: "0 < dht_layout_entry_cmp (xs ! i) (xs ! j) \<longleftrightarrow> entry_key (xs ! j) < entry_key (xs ! i)"
    using assms by (intro cmp_key) auto
  show "k \<noteq> i \<Longrightarrow> k \<noteq> j \<Longrightarrow> sort_step i j xs ! k = xs ! k"
    by (simp add: sort_step_def dht_layout_entry_swap_def)
  have "entry_key (sort_step i j xs ! i) = min (entry_key (xs ! i)) (entry_key (xs ! j))
      \<and> entry_key (sort_step i j xs ! j) = max (entry_key (xs ! i)) (entry_key (xs ! j))"
  proof (cases "entry_key (xs ! j) < entry_key (xs ! i)")
    case True
    then have "sort_step i j xs = xs[i := xs ! j, j := xs ! i]"
      using c by (simp add: sort_step_def dht_layout_entry_swap_def)
    with True assms(2,3) show ?thesis
      by (simp_all add: less_imp_le min.absorb2 max.absorb1)
  next
    case False
    then have "sort_step i j xs = xs" using c by (simp add: sort_step_def)
    with False show ?thesis
      by (simp_all add: not_less min.absorb1 max.absorb2)
  qed
  then show "entry_key (sort_step i j xs ! i) = min (entry_key (xs ! i)) (entry_key (xs ! j))"
    "entry_key (sort_step i j xs ! j) = max (entry_key (xs ! i)) (entry_key (xs ! j))" by blast+
qed

lemma sort_row_prefix:
  assumes "errs_ok xs" "i < m" "m \<le> length xs"
  defines "ys \<equiv> fold (sort_step i) [Suc i..<m] xs"
  shows "mset ys = mset xs \<and> length ys = length xs \<and> (\<forall>k < i. ys ! k = xs ! k)
    \<and> (\<forall>k. i < k \<and> k < m \<longrightarrow> entry_key (ys ! i) \<le> entry_key (ys ! k))"
  using assms(2,3) unfolding ys_def
proof (induction m)
  case 0
  then show ?case by simp
next
  case (Suc m)
  show ?case
  proof (cases "i = m")
    case True
    then show ?thesis by (auto simp: less_Suc_eq)
  next
    case False
    with Suc.prems have im: "i < m" "m < length xs" by auto
    define zs where "zs = fold (sort_step i) [Suc i..<m] xs"
    have IH: "mset zs = mset xs" "length zs = length xs" "\<forall>k < i. zs ! k = xs ! k"
        "\<forall>k. i < k \<and> k < m \<longrightarrow> entry_key (zs ! i) \<le> entry_key (zs ! k)"
      using Suc.IH im unfolding zs_def by auto
    have e: "errs_ok zs" using IH(1) assms(1) errs_ok_perm by blast
    have st: "fold (sort_step i) [Suc i..<Suc m] xs = sort_step i m zs"
      using im by (simp add: zs_def)
    note nth = sort_step_nth[OF e im(1), unfolded IH(2), OF im(2)]
    have "entry_key (sort_step i m zs ! i) \<le> entry_key (sort_step i m zs ! k)"
      if k: "i < k" "k < Suc m" for k
      using k nth(2,3) nth(1)[of k] IH(4) by (cases "k = m") (auto simp: min_le_iff_disj)
    then show ?thesis
      unfolding st using IH nth(1) im by (auto simp: sort_step_perm)
  qed
qed

lemma sort_row_ok:
  assumes "errs_ok xs" "i < length xs"
  shows "mset (sort_row i xs) = mset xs" "length (sort_row i xs) = length xs"
    "k < i \<Longrightarrow> sort_row i xs ! k = xs ! k"
    "i < k \<Longrightarrow> k < length xs \<Longrightarrow> entry_key (sort_row i xs ! i) \<le> entry_key (sort_row i xs ! k)"
  using sort_row_prefix[OF assms order_refl] by (auto simp: sort_row_def)

lemma sort_row_suffix:
  assumes "errs_ok xs" "i < length xs"
  shows "set (drop i (sort_row i xs)) = set (drop i xs)"
proof -
  have "take i (sort_row i xs) = take i xs"
    using assms sort_row_ok[OF assms] by (intro nth_equalityI) auto
  moreover have "mset (take i ys) + mset (drop i ys) = mset ys" for ys :: "layout_entry list"
    by (simp flip: mset_append)
  ultimately have "mset (drop i (sort_row i xs)) = mset (drop i xs)"
    by (metis add_left_imp_eq sort_row_ok(1)[OF assms])
  then show ?thesis by (rule mset_eq_setD)
qed

lemma sort_rows:
  assumes "errs_ok xs" "n \<le> length xs - 1"
  defines "ys \<equiv> fold sort_row [0..<n] xs"
  shows "mset ys = mset xs \<and> length ys = length xs
    \<and> (\<forall>a b. a < n \<and> a < b \<and> b < length xs \<longrightarrow> entry_key (ys ! a) \<le> entry_key (ys ! b))"
  using assms(2) unfolding ys_def
proof (induction n)
  case 0
  then show ?case by simp
next
  case (Suc n)
  define zs where "zs = fold sort_row [0..<n] xs"
  have IH: "mset zs = mset xs" "length zs = length xs"
      "\<And>a b. a < n \<Longrightarrow> a < b \<Longrightarrow> b < length xs \<Longrightarrow> entry_key (zs ! a) \<le> entry_key (zs ! b)"
    using Suc unfolding zs_def by auto
  have e: "errs_ok zs" using IH(1) assms(1) errs_ok_perm by blast
  have n: "n < length zs" using Suc.prems IH(2) by simp
  have st: "fold sort_row [0..<Suc n] xs = sort_row n zs" by (simp add: zs_def)
  note row = sort_row_ok[OF e n]
  have "entry_key (sort_row n zs ! a) \<le> entry_key (sort_row n zs ! b)"
    if ab: "a < Suc n" "a < b" "b < length xs" for a b
  proof (cases "a = n")
    case True
    with ab show ?thesis using row(4)[of b] IH(2) by simp
  next
    case False
    with ab have an: "a < n" by simp
    show ?thesis
    proof (cases "b < n")
      case True
      with an ab show ?thesis using row(3) IH(3) by simp
    next
      case False
      with ab have "sort_row n zs ! b \<in> set (drop n (sort_row n zs))"
        using row(2) IH(2) by (auto simp: in_set_conv_nth intro!: exI[of _ "b - n"])
      then have "sort_row n zs ! b \<in> set (drop n zs)" using sort_row_suffix[OF e n] by simp
      then obtain c where "c + n < length zs" "zs ! (c + n) = sort_row n zs ! b"
        using n by (auto simp: in_set_conv_nth add.commute less_diff_conv)
      with an show ?thesis using row(3)[OF an] IH(2) IH(3)[of a "c + n"] by simp
    qed
  qed
  then show ?case unfolding st using row(1,2) IH(1,2) by simp
qed

lemma sort_perm:
  assumes "errs_ok (lt_list layout)"
  shows "mset (lt_list (dht_layout_sort layout)) = mset (lt_list layout)"
  using sort_rows[OF assms order_refl] by (simp add: dht_layout_sort_def)

lemma sort_sorted:
  assumes "errs_ok (lt_list layout)"
  shows "sorted (map entry_key (lt_list (dht_layout_sort layout)))"
proof -
  let ?xs = "lt_list layout" and ?ys = "fold sort_row [0..<lt_cnt layout - 1] (lt_list layout)"
  have r: "length ?ys = length ?xs"
    "\<And>a b. a < length ?xs - 1 \<Longrightarrow> a < b \<Longrightarrow> b < length ?xs \<Longrightarrow> entry_key (?ys ! a) \<le> entry_key (?ys ! b)"
    using sort_rows[OF assms order_refl] by auto
  have "sorted (map entry_key ?ys)"
    unfolding sorted_iff_nth_mono_less
  proof (intro allI impI)
    fix a b
    assume ab: "a < b" "b < length (map entry_key ?ys)"
    then have "a < length ?xs - 1" "b < length ?xs" using r(1) by auto
    then show "map entry_key ?ys ! a \<le> map entry_key ?ys ! b" using r ab by simp
  qed
  then show ?thesis by (simp add: dht_layout_sort_def)
qed

section \<open>The check for anomalies\<close>

definition sound :: "layout_entry list \<Rightarrow> layout_entry list" where
  "sound xs = filter (\<lambda>x. le_err x = 0) xs"

lemma sound_simps [simp]:
  "sound [] = []"
  "sound (x # xs) = (if le_err x = 0 then x # sound xs else sound xs)"
  by (simp_all add: sound_def)

lemma set_sound: "x \<in> set (sound xs) \<longleftrightarrow> x \<in> set xs \<and> le_err x = 0"
  by (auto simp: sound_def)

text \<open>What the scan counts, over the entries without an error.\<close>

fun holes_of :: "u32 \<Rightarrow> layout_entry list \<Rightarrow> nat" where
  "holes_of p [] = 0"
| "holes_of p (x # xs) = (if p + 1 < le_start x then 1 else 0) + holes_of (le_stop x) xs"

fun overlaps_of :: "u32 \<Rightarrow> layout_entry list \<Rightarrow> nat" where
  "overlaps_of p [] = 0"
| "overlaps_of p (x # xs) = (if le_start x < p + 1 then 1 else 0) + overlaps_of (le_stop x) xs"

fun last_stop_of :: "u32 \<Rightarrow> layout_entry list \<Rightarrow> u32" where
  "last_stop_of p [] = p"
| "last_stop_of p (x # xs) = last_stop_of (le_stop x) xs"

fun gapless :: "u32 \<Rightarrow> layout_entry list \<Rightarrow> bool" where
  "gapless p [] = True"
| "gapless p (x # xs) = (le_start x = p + 1 \<and> gapless (le_stop x) xs)"

lemma scan_counts:
  "hole_cnt (fold anomaly_step xs s) = hole_cnt s + of_nat (holes_of (prev_stop s) (sound xs))"
  "overlap_cnt (fold anomaly_step xs s) = overlap_cnt s + of_nat (overlaps_of (prev_stop s) (sound xs))"
  "prev_stop (fold anomaly_step xs s) = last_stop_of (prev_stop s) (sound xs)"
  "is_virgin (fold anomaly_step xs s) \<longleftrightarrow> is_virgin s \<and> sound xs = []"
  by (induction xs arbitrary: s) (auto simp: anomaly_step_def)

lemma counts_bounded:
  "holes_of p xs \<le> length xs" "overlaps_of p xs \<le> length xs"
  by (induction xs arbitrary: p) (auto simp: le_SucI)

lemma no_anomaly_gapless: "holes_of p xs = 0 \<and> overlaps_of p xs = 0 \<longleftrightarrow> gapless p xs"
  by (induction xs arbitrary: p) (auto simp: not_less)

lemma of_nat_u32_0: "n < 4294967296 \<Longrightarrow> (of_nat n :: u32) = 0 \<longleftrightarrow> n = 0"
  by (auto simp: word_of_nat_eq_0_iff dest: dvd_imp_le)

definition tight :: "layout_entry list \<Rightarrow> bool" where
  "tight xs \<longleftrightarrow> sound xs \<noteq> [] \<and> gapless (le_start (hd xs) - 1) (sound xs)
     \<and> last_stop_of (le_start (hd xs) - 1) (sound xs) = le_start (hd xs) - 1"

lemma anomalies_tight:
  assumes "lt_list layout \<noteq> []" "lt_cnt layout < 2147483648"
  obtains a where "dht_layout_anomalies layout = Inr a"
    "hole_cnt a = 0 \<and> overlap_cnt a = 0 \<longleftrightarrow> tight (lt_list layout)"
proof -
  let ?xs = "lt_list layout" and ?p = "le_start (lt_list layout ! 0) - 1"
  let ?h = "holes_of ?p (sound ?xs)" and ?o = "overlaps_of ?p (sound ?xs)"
  let ?c = "?p - last_stop_of ?p (sound ?xs) \<noteq> 0 \<or> sound ?xs = []"
  have "length (sound ?xs) \<le> length ?xs" by (simp add: sound_def)
  with counts_bounded[of ?p "sound ?xs"] assms(2)
  have b: "?h < 2147483648" "?o < 2147483648" by linarith+
  let ?a = "\<lparr>hole_cnt = (if ?c then of_nat ?h + 1 else of_nat ?h), overlap_cnt = of_nat ?o :: u32,
    an_missing = an_missing (fold anomaly_step ?xs \<lparr>hole_cnt = 0, overlap_cnt = 0, an_missing = 0,
      an_down = 0, an_misc = 0, prev_stop = ?p, is_virgin = True\<rparr>),
    an_down = an_down (fold anomaly_step ?xs \<lparr>hole_cnt = 0, overlap_cnt = 0, an_missing = 0,
      an_down = 0, an_misc = 0, prev_stop = ?p, is_virgin = True\<rparr>),
    an_misc = an_misc (fold anomaly_step ?xs \<lparr>hole_cnt = 0, overlap_cnt = 0, an_missing = 0,
      an_down = 0, an_misc = 0, prev_stop = ?p, is_virgin = True\<rparr>)\<rparr>"
  have "dht_layout_anomalies layout = Inr ?a"
    using assms(1) by (simp add: dht_layout_anomalies_def Let_def scan_counts)
  moreover have "(if ?c then of_nat ?h + 1 else of_nat ?h :: u32) = of_nat (if ?c then Suc ?h else ?h)"
    by simp
  then have "(if ?c then of_nat ?h + 1 else of_nat ?h :: u32) = 0 \<longleftrightarrow> \<not> ?c \<and> ?h = 0"
    using b of_nat_u32_0[of "if ?c then Suc ?h else ?h"] by (auto split: if_splits)
  then have "hole_cnt ?a = 0 \<and> overlap_cnt ?a = 0 \<longleftrightarrow> \<not> ?c \<and> ?h = 0 \<and> ?o = 0"
    using b of_nat_u32_0[of ?o] by simp
  then have "hole_cnt ?a = 0 \<and> overlap_cnt ?a = 0 \<longleftrightarrow> tight ?xs"
    using assms(1) no_anomaly_gapless[of ?p "sound ?xs"] by (auto simp: tight_def hd_conv_nth)
  ultimately show thesis using that by blast
qed

lemma normalize_tight:
  assumes "errs_ok (lt_list layout)" "lt_cnt layout < 2147483648" "lt_list layout \<noteq> []"
  shows "dht_layout_normalize layout =
    Inr (if tight (lt_list (dht_layout_sort layout)) then 0 else 1, dht_layout_sort layout)"
proof -
  have m: "mset (lt_list (dht_layout_sort layout)) = mset (lt_list layout)" by (rule sort_perm[OF assms(1)])
  then have "lt_list (dht_layout_sort layout) \<noteq> []" "lt_cnt (dht_layout_sort layout) < 2147483648"
    using assms(2,3) mset_eq_length[OF m] by auto
  then obtain a where "dht_layout_anomalies (dht_layout_sort layout) = Inr a"
    "hole_cnt a = 0 \<and> overlap_cnt a = 0 \<longleftrightarrow> tight (lt_list (dht_layout_sort layout))"
    by (rule anomalies_tight)
  then show ?thesis by (auto simp: dht_layout_normalize_def)
qed

section \<open>Coverage of the hash space\<close>

definition covers :: "u32 \<Rightarrow> layout_entry \<Rightarrow> bool" where
  "covers h x \<longleftrightarrow> le_err x = 0 \<and> le_start x \<le> h \<and> h \<le> le_stop x"

definition serving :: "u32 \<Rightarrow> layout_entry list \<Rightarrow> layout_entry list" where
  "serving h xs = filter (covers h) xs"

definition spans_all :: "layout_entry \<Rightarrow> bool" where
  "spans_all x \<longleftrightarrow> le_start x = 0 \<and> le_stop x = - 1"

definition ranges_ok :: "layout_entry list \<Rightarrow> bool" where
  "ranges_ok xs \<longleftrightarrow> (\<forall>x \<in> set xs. le_err x = 0 \<longrightarrow> le_start x \<le> le_stop x)"

lemma serving_sound: "serving h (sound xs) = serving h xs"
  unfolding serving_def sound_def filter_filter by (rule filter_cong) (auto simp: covers_def)

lemma gapless_covers:
  assumes "gapless p xs" "xs \<noteq> []" "\<forall>x \<in> set xs. le_err x = 0" "le_start (hd xs) \<le> h" "h \<le> last_stop_of p xs"
  shows "\<exists>x \<in> set xs. covers h x"
  using assms
proof (induction xs arbitrary: p)
  case Nil
  then show ?case by simp
next
  case (Cons x xs)
  show ?case
  proof (cases "h \<le> le_stop x")
    case True
    with Cons.prems show ?thesis by (auto simp: covers_def)
  next
    case False
    with Cons.prems have ne: "xs \<noteq> []" by auto
    with Cons.prems have "le_start (hd xs) = le_stop x + 1" by (cases xs) auto
    moreover have "le_stop x + 1 \<le> h" using False inc_le[of "le_stop x" h] by (simp add: not_le)
    ultimately show ?thesis using Cons.IH[of "le_stop x"] Cons.prems ne by auto
  qed
qed

lemma le_pred_0: "(w :: u32) \<le> w - 1 \<Longrightarrow> w = 0"
  by (rule less_eq_dec_triv_imp)

lemma succ_greater: "(w :: u32) \<noteq> - 1 \<Longrightarrow> w < w + 1"
  using le_pred_0[of "w + 1"] max_word_wrap[of w] by (auto simp: not_less[symmetric])

lemma gapless_apart:
  assumes "gapless p xs" "\<forall>x \<in> set xs. le_start x \<le> le_stop x \<and> \<not> spans_all x" "sorted (map le_start xs)"
  shows "sorted_wrt (\<lambda>x y. le_stop x < le_start y) xs"
  using assms
proof (induction xs arbitrary: p)
  case Nil
  then show ?case by simp
next
  case (Cons x xs)
  then have IH: "sorted_wrt (\<lambda>x y. le_stop x < le_start y) xs" by auto
  show ?case
  proof (cases xs)
    case Nil
    then show ?thesis by simp
  next
    case (Cons y ys)
    have y: "le_start y = le_stop x + 1" "le_start x \<le> le_start y" "le_start y \<le> le_stop y"
      using Cons.prems Cons by auto
    have "le_stop x \<noteq> - 1" using Cons.prems(2) y(1,2) by (auto simp: spans_all_def)
    then have "le_stop x < le_start y" unfolding y(1) by (rule succ_greater)
    with y(3) IH Cons show ?thesis by fastforce
  qed
qed

lemma apart_once:
  assumes "sorted_wrt (\<lambda>x y. le_stop x < le_start y) xs"
  shows "length (serving h xs) \<le> 1"
proof (cases "serving h xs")
  case (Cons a as)
  have "sorted_wrt (\<lambda>x y. le_stop x < le_start y) (a # as)"
    using sorted_wrt_filter[OF assms, of "covers h"] by (simp add: serving_def[symmetric] Cons)
  moreover have "covers h x" if "x \<in> set (a # as)" for x
    using that Cons[symmetric] by (simp add: serving_def)
  then have "le_start x \<le> h \<and> h \<le> le_stop x" if "x \<in> set (a # as)" for x
    using that by (simp add: covers_def)
  ultimately have False if "as = b # bs" for b bs
    using that by (metis list.set_intros(1,2) linorder_not_less order_trans sorted_wrt.simps(2))
  with Cons show ?thesis by (cases as) auto
qed simp

lemma sorted_starts:
  assumes "sorted (map entry_key xs)"
  shows "sorted (map le_start (sound xs))"
proof -
  have "sorted_wrt (\<lambda>x y. entry_key x \<le> entry_key y) (sound xs)"
    using assms unfolding sound_def sorted_map by (rule sorted_wrt_filter)
  then show ?thesis unfolding sorted_map
    by (rule sorted_wrt_mono_rel[rotated]) (auto simp: entry_key_def set_sound word_le_def)
qed

lemma last_stop_bound:
  assumes "xs \<noteq> []" "\<forall>x \<in> set xs. le_start x \<le> le_stop x" "sorted (map le_start xs)"
  shows "le_start (hd xs) \<le> last_stop_of p xs"
  using assms
proof (induction xs arbitrary: p)
  case (Cons x xs)
  then show ?case by (cases xs) fastforce+
qed simp

text \<open>A tight list begins at 0 and ends at the last hash.\<close>

lemma tight_origin:
  assumes "tight xs" "ranges_ok xs" "sorted (map entry_key xs)"
  shows "le_start (hd xs) = 0" "le_start (hd (sound xs)) = 0" "last_stop_of (- 1) (sound xs) = - 1"
    "gapless (- 1) (sound xs)"
proof -
  let ?s = "le_start (hd xs)"
  have t: "sound xs \<noteq> []" "gapless (?s - 1) (sound xs)" "last_stop_of (?s - 1) (sound xs) = ?s - 1"
    using assms(1) by (auto simp: tight_def)
  then have "le_start (hd (sound xs)) = ?s" by (cases "sound xs") auto
  moreover have "le_start (hd (sound xs)) \<le> ?s - 1"
    using last_stop_bound[OF t(1), of "?s - 1"] t(3) assms(2) sorted_starts[OF assms(3)]
    by (auto simp: ranges_ok_def set_sound)
  ultimately have "?s \<le> ?s - 1" by simp
  then have "?s = 0" by (rule le_pred_0)
  then show "?s = 0" "le_start (hd (sound xs)) = 0" "last_stop_of (- 1) (sound xs) = - 1"
    "gapless (- 1) (sound xs)"
    using t \<open>le_start (hd (sound xs)) = ?s\<close> by auto
qed

lemma tight_served:
  assumes "tight xs" "ranges_ok xs" "sorted (map entry_key xs)"
  shows "serving h xs \<noteq> []"
proof -
  note o = tight_origin[OF assms]
  have "\<exists>x \<in> set (sound xs). covers h x"
    using assms(1) o gapless_covers[OF o(4)] by (auto simp: tight_def set_sound)
  then show ?thesis by (auto simp: serving_def set_sound filter_empty_conv)
qed

lemma tight_once:
  assumes "tight xs" "ranges_ok xs" "sorted (map entry_key xs)" "\<forall>x \<in> set (sound xs). \<not> spans_all x"
  shows "length (serving h xs) = 1"
proof -
  have "sorted_wrt (\<lambda>x y. le_stop x < le_start y) (sound xs)"
    using assms(2,4) sorted_starts[OF assms(3)] tight_origin(4)[OF assms(1-3)]
    by (intro gapless_apart) (auto simp: ranges_ok_def set_sound)
  then have "length (serving h (sound xs)) \<le> 1" by (rule apart_once)
  moreover have "serving h xs \<noteq> []" by (rule tight_served[OF assms(1-3)])
  ultimately show ?thesis unfolding serving_sound by (cases "serving h xs") auto
qed

section \<open>Merging the replies of a lookup\<close>

text \<open>A reply: the subvolume, \<^verbatim>\<open>op_ret\<close>, \<^verbatim>\<open>op_errno\<close> and the attribute.\<close>

type_synonym layout_reply = "nat \<times> int \<times> int \<times> u32 list option option"

definition merge_reply :: "bool \<Rightarrow> layout_reply \<Rightarrow> dht_layout \<Rightarrow> fault + dht_layout" where
  "merge_reply e r layout =
     (case r of (subvol, op_ret, op_errno, xattr) \<Rightarrow>
        bind_f (dht_layout_merge e layout subvol op_ret op_errno xattr) (\<lambda>(ret, l). Inr l))"

text \<open>A reply that carries an attribute carries all of its words.\<close>

definition reply_ok :: "layout_reply \<Rightarrow> bool" where
  "reply_ok r \<longleftrightarrow> (case r of (v, op_ret, op_errno, Some (Some disk)) \<Rightarrow> 4 \<le> length disk | _ \<Rightarrow> True)"

text \<open>What a reply puts into its slot.\<close>

definition reply_entry :: "bool \<Rightarrow> layout_reply \<Rightarrow> layout_entry" where
  "reply_entry e r =
     (case r of (subvol, op_ret, op_errno, xattr) \<Rightarrow>
        if op_ret \<noteq> 0 then zero_entry\<lparr>le_err := op_errno, le_xlator := Some subvol\<rparr>
        else case xattr of
          Some (Some disk) \<Rightarrow>
            if hton32 e (disk ! 0) = 1
            then \<lparr>le_err = 0, le_start = hton32 e (disk ! 2), le_stop = hton32 e (disk ! 3), le_xlator = Some subvol\<rparr>
            else zero_entry\<lparr>le_err := - 1, le_xlator := Some subvol\<rparr>
        | _ \<Rightarrow> zero_entry\<lparr>le_err := - 1, le_xlator := Some subvol\<rparr>)"

lemma free_slot_filled: "\<forall>x \<in> set xs. le_xlator x \<noteq> None \<Longrightarrow> free_slot (xs @ ys) = length xs + free_slot ys"
  by (induction xs) auto

lemma reply_entry_xlator: "le_xlator (reply_entry e r) = Some (fst r)"
  by (cases r) (auto simp: reply_entry_def zero_entry_def split: option.splits)

lemma merge_reply_slot:
  assumes "lt_list layout = xs @ zero_entry # ys" "\<forall>x \<in> set xs. le_xlator x \<noteq> None" "reply_ok r"
  shows "merge_reply e r layout = Inr (layout\<lparr>lt_list := xs @ reply_entry e r # ys\<rparr>)"
proof -
  obtain v op_ret op_errno xattr where r: "r = (v, op_ret, op_errno, xattr)" by (cases r) auto
  have i: "free_slot (lt_list layout) = length xs"
    using assms(1,2) by (simp add: free_slot_filled) (simp add: zero_entry_def)
  note l = assms(1)[unfolded zero_entry_def]
  note defs = merge_reply_def r dht_layout_merge_def i[unfolded l] Let_def l list_update_append nth_append
    reply_entry_def dht_disk_layout_merge_def set_err_def zero_entry_def
  show ?thesis
  proof (cases "op_ret = 0")
    case False
    then show ?thesis by (simp add: defs)
  next
    case True
    show ?thesis
    proof (cases "\<exists>disk. xattr = Some (Some disk)")
      case False
      then have "xattr = None \<or> xattr = Some None" by (cases xattr) auto
      with True show ?thesis by (elim disjE) (simp_all add: defs)
    next
      case True
      then obtain disk where x: "xattr = Some (Some disk)" by blast
      with assms(3) have d: "4 \<le> length disk" "disk \<noteq> []" by (auto simp: reply_ok_def r)
      with x \<open>op_ret = 0\<close> show ?thesis by (cases "hton32 e (disk ! 0) = 1") (simp_all add: defs)
    qed
  qed
qed

lemma merge_replies:
  assumes "lt_list layout = xs @ replicate n zero_entry" "\<forall>x \<in> set xs. le_xlator x \<noteq> None"
    "\<forall>r \<in> set rs. reply_ok r" "length rs \<le> n"
  shows "foldM (merge_reply e) rs layout =
    Inr (layout\<lparr>lt_list := xs @ map (reply_entry e) rs @ replicate (n - length rs) zero_entry\<rparr>)"
  using assms
proof (induction rs arbitrary: layout xs n)
  case Nil
  then show ?case by (cases layout) simp
next
  case (Cons r rs)
  then obtain m where n: "n = Suc m" by (cases n) auto
  have "merge_reply e r layout = Inr (layout\<lparr>lt_list := xs @ reply_entry e r # replicate m zero_entry\<rparr>)"
    using Cons.prems n by (intro merge_reply_slot) auto
  moreover have "foldM (merge_reply e) rs (layout\<lparr>lt_list := (xs @ [reply_entry e r]) @ replicate m zero_entry\<rparr>) =
    Inr (layout\<lparr>lt_list := (xs @ [reply_entry e r]) @ map (reply_entry e) rs @ replicate (m - length rs) zero_entry\<rparr>)"
    using Cons.IH[of "layout\<lparr>lt_list := (xs @ [reply_entry e r]) @ replicate m zero_entry\<rparr>" "xs @ [reply_entry e r]" m]
      Cons.prems n by (simp add: reply_entry_xlator)
  ultimately show ?case using n by simp
qed

text \<open>The next good reply after the last slot was taken is written past the end.\<close>

lemma merge_overflow:
  assumes "\<forall>x \<in> set (lt_list layout). le_xlator x \<noteq> None" "reply_ok (v, 0, err, xattr)"
    "\<And>disk. xattr = Some (Some disk) \<Longrightarrow> hton32 e (disk ! 0) = 1"
  shows "merge_reply e (v, 0, err, xattr) layout = Inl Out_Of_Bounds"
proof -
  have "free_slot (lt_list layout) = lt_cnt layout"
    using free_slot_filled[of "lt_list layout" "[]"] assms(1) by simp
  note defs = merge_reply_def dht_layout_merge_def Let_def dht_disk_layout_merge_def set_err_def this
  show ?thesis
  proof (cases "\<exists>disk. xattr = Some (Some disk)")
    case False
    then have "xattr = None \<or> xattr = Some None" by (cases xattr) auto
    then show ?thesis by (elim disjE) (simp_all add: defs)
  next
    case True
    then obtain disk where x: "xattr = Some (Some disk)" by blast
    with assms(2) have "4 \<le> length disk" "disk \<noteq> []" by (auto simp: reply_ok_def)
    with x show ?thesis using assms(3)[OF x] by (simp add: defs)
  qed
qed

section \<open>Search\<close>

lemma search_first: "search_entries h xs = (case filter (\<lambda>x. le_start x \<le> h \<and> h \<le> le_stop x) xs of
    [] \<Rightarrow> None | x # _ \<Rightarrow> le_xlator x)"
  by (induction xs) auto

text \<open>An entry with an error has the empty range 0 to 0 that it was allocated with.\<close>

definition errs_blank :: "layout_entry list \<Rightarrow> bool" where
  "errs_blank xs \<longleftrightarrow> (\<forall>x \<in> set xs. le_err x \<noteq> 0 \<longrightarrow> le_start x = 0 \<and> le_stop x = 0)"

lemma search_serving:
  assumes "errs_blank xs" "h \<noteq> 0"
  shows "search_entries h xs = (case serving h xs of [] \<Rightarrow> None | x # _ \<Rightarrow> le_xlator x)"
proof -
  have "filter (\<lambda>x. le_start x \<le> h \<and> h \<le> le_stop x) xs = serving h xs"
    unfolding serving_def using assms by (intro filter_cong) (auto simp: covers_def errs_blank_def)
  then show ?thesis by (simp add: search_first)
qed

lemma ranges_ok_perm: "mset xs = mset ys \<Longrightarrow> ranges_ok xs = ranges_ok ys"
  unfolding ranges_ok_def by (drule mset_eq_setD) simp

lemma errs_blank_perm: "mset xs = mset ys \<Longrightarrow> errs_blank xs = errs_blank ys"
  unfolding errs_blank_def by (drule mset_eq_setD) simp

lemma sound_perm: "mset xs = mset ys \<Longrightarrow> mset (sound xs) = mset (sound ys)"
  by (simp add: sound_def mset_filter)

definition one_server :: "layout_entry list \<Rightarrow> bool" where
  "one_server xs \<longleftrightarrow> length (sound xs) = 1 \<or> (\<forall>x \<in> set (sound xs). \<not> spans_all x)"

lemma one_server_perm: "mset xs = mset ys \<Longrightarrow> one_server xs = one_server ys"
  unfolding one_server_def using sound_perm[of xs ys] by (metis mset_eq_length mset_eq_setD)

lemma normalize_ok:
  assumes "dht_layout_normalize layout = Inr (0, layout')"
    and "errs_ok (lt_list layout)" "lt_cnt layout < 2147483648"
  shows "layout' = dht_layout_sort layout" "mset (lt_list layout') = mset (lt_list layout)"
    "sorted (map entry_key (lt_list layout'))" "tight (lt_list layout')"
proof -
  have "lt_list layout \<noteq> []"
    using assms(1) by (auto simp: dht_layout_normalize_def dht_layout_sort_def dht_layout_anomalies_def)
  then show l: "layout' = dht_layout_sort layout" and "tight (lt_list layout')"
    using assms(1) normalize_tight[OF assms(2,3)] by (auto split: if_splits)
  show "mset (lt_list layout') = mset (lt_list layout)" "sorted (map entry_key (lt_list layout'))"
    unfolding l by (rule sort_perm[OF assms(2)], rule sort_sorted[OF assms(2)])
qed

lemma one_server_length: "length (sound xs) = 1 \<Longrightarrow> length (serving h xs) \<le> 1"
  by (metis length_filter_le serving_def serving_sound)

lemma normalize_serving:
  assumes "dht_layout_normalize layout = Inr (0, layout')"
    and "errs_ok (lt_list layout)" "lt_cnt layout < 2147483648" "ranges_ok (lt_list layout)"
  shows "serving h (lt_list layout') \<noteq> []"
    "one_server (lt_list layout) \<Longrightarrow> length (serving h (lt_list layout')) = 1"
proof -
  note n = normalize_ok[OF assms(1-3)]
  have r: "ranges_ok (lt_list layout')" using assms(4) ranges_ok_perm[OF n(2)] by simp
  show s: "serving h (lt_list layout') \<noteq> []" by (rule tight_served[OF n(4) r n(3)])
  assume "one_server (lt_list layout)"
  then have "one_server (lt_list layout')" using one_server_perm[OF n(2)] by simp
  then consider "length (sound (lt_list layout')) = 1" | "\<forall>x \<in> set (sound (lt_list layout')). \<not> spans_all x"
    unfolding one_server_def by blast
  then show "length (serving h (lt_list layout')) = 1"
  proof cases
    case 1
    then show ?thesis using one_server_length[OF 1, of h] s by (cases "serving h (lt_list layout')") auto
  next
    case 2
    then show ?thesis by (rule tight_once[OF n(4) r n(3)])
  qed
qed

section \<open>Properties\<close>

definition ex_entry :: "int \<Rightarrow> u32 \<Rightarrow> u32 \<Rightarrow> nat \<Rightarrow> layout_entry" where
  "ex_entry err a b v = \<lparr>le_err = err, le_start = a, le_stop = b, le_xlator = Some v\<rparr>"

definition ex_layout :: "layout_entry list \<Rightarrow> dht_layout" where
  "ex_layout xs = \<lparr>preset = 0, gen = 0, lt_type = 0, lt_list = xs\<rparr>"

definition ex_replies :: "layout_reply list" where
  "ex_replies = [(5, 0, 0, Some None), (6, - 1, 2, None)]"

text \<open>C11. A layout that passes the check serves every hash. When \<^verbatim>\<open>dht_layout_normalize\<close> returns 0 the
  layout has the same entries, sorted, and every 32-bit hash lies in the range of an entry without
  an error; it lies in exactly one such range unless one of several ranges spans the whole space.
  The layout has fewer than 2^31 entries, no entry without an error has an inverted range (the check
  lets a single inverted range pass), and the error values are at least -1 and less than 2^31 - 1, so that
  comparing them does not overflow.\<close>

theorem normalized_layout_partitions:
  assumes "dht_layout_normalize layout = Inr (0, layout')"
    and "errs_ok (lt_list layout)" and "lt_cnt layout < 2147483648" and "ranges_ok (lt_list layout)"
  shows "mset (lt_list layout') = mset (lt_list layout)
    \<and> sorted (map entry_key (lt_list layout'))
    \<and> (\<forall>h. serving h (lt_list layout') \<noteq> [])
    \<and> (one_server (lt_list layout) \<longrightarrow> (\<forall>h. length (serving h (lt_list layout')) = 1))"
  using normalize_ok[OF assms(1-3)] normalize_serving[OF assms] by blast

theorem normalized_layout_partitions_witness:
  "length (serving 7 (lt_list (ex_layout [ex_entry 0 0 5 1, ex_entry 0 6 (- 1) 2]))) = 1"
proof -
  let ?l = "ex_layout [ex_entry 0 0 5 1, ex_entry 0 6 (- 1) 2]"
  let ?k = "ex_layout [ex_entry 0 6 (- 1) 2, ex_entry 0 0 5 1]"
  have "dht_layout_normalize ?k = Inr (0, ?l)" by code_simp
  moreover have "errs_ok (lt_list ?k)" "ranges_ok (lt_list ?k)" "one_server (lt_list ?k)" by code_simp+
  moreover have "lt_cnt ?k < 2147483648" by (simp add: ex_layout_def)
  ultimately show ?thesis using normalized_layout_partitions[of ?k ?l] by blast
qed

text \<open>C27. Names are found where they are served. In a layout that passed the check, the search for a name
  whose hash is not 0 gives the subvolume of the one entry that serves the hash. The layout is as for
  the partition of the hashes (fewer than 2^31 entries, no inverted range, errors from -1 to less than
  2^31 - 1), no range spans the whole space beside others, and entries with an error have the empty range
  from 0 to 0, as they have in a new layout.\<close>

theorem search_finds_server:
  assumes "dht_layout_normalize layout = Inr (0, layout')"
    and "errs_ok (lt_list layout)" and "lt_cnt layout < 2147483648" and "ranges_ok (lt_list layout)"
    and "errs_blank (lt_list layout)" and "one_server (lt_list layout)"
    and "dht_hash_compute e (lt_type layout') name = Some h" and "h \<noteq> 0"
  shows "\<exists>x. serving h (lt_list layout') = [x] \<and> dht_layout_search e layout' name = le_xlator x"
proof -
  have "length (serving h (lt_list layout')) = 1"
    by (rule normalize_serving(2)[OF assms(1-4,6)])
  then obtain x where x: "serving h (lt_list layout') = [x]" by (auto simp: length_Suc_conv)
  moreover have "errs_blank (lt_list layout')"
    using assms(5) errs_blank_perm[OF normalize_ok(2)[OF assms(1-3)]] by simp
  ultimately show ?thesis using assms(7,8) search_serving by (simp add: dht_layout_search_def)
qed

theorem search_finds_server_witness:
  "dht_layout_search True (ex_layout [ex_entry 0 0 0x7fffffff 1, ex_entry 0 0x80000000 (- 1) 2]) [] = Some 2"
proof -
  let ?l = "ex_layout [ex_entry 0 0 0x7fffffff 1, ex_entry 0 0x80000000 (- 1) 2]"
  let ?k = "ex_layout [ex_entry 0 0x80000000 (- 1) 2, ex_entry 0 0 0x7fffffff 1]"
  let ?h = "0x9464a485 XOR 0x542e1a94 :: u32"
  have n: "dht_layout_normalize ?k = Inr (0, ?l)" by code_simp
  have k: "errs_ok (lt_list ?k)" "ranges_ok (lt_list ?k)" "errs_blank (lt_list ?k)" "one_server (lt_list ?k)"
    by code_simp+
  have "lt_cnt ?k < 2147483648" "lt_type ?l = 0" by (simp_all add: ex_layout_def)
  moreover have "dht_hash_compute True 0 [] = Some ?h" "?h \<noteq> 0"
    by (simp_all add: dht_hash_compute_def dht_hash_compute_internal_def rsync_friendly_name_def dht_hashfn_tea_def)
  ultimately obtain x where x: "serving ?h (lt_list ?l) = [x]" "dht_layout_search True ?l [] = le_xlator x"
    using search_finds_server[OF n k(1) _ k(2-4), of True "[]" ?h] by auto
  from x(1) have "x = ex_entry 0 0x80000000 (- 1) 2"
    by (simp add: ex_layout_def ex_entry_def serving_def covers_def)
  with x(2) show ?thesis by (simp add: ex_entry_def)
qed

text \<open>C29. A range written to disk is read back. What \<^verbatim>\<open>dht_disk_layout_extract\<close> makes of an entry is
  accepted by \<^verbatim>\<open>dht_disk_layout_merge\<close> on a host of the same byte order, and gives the same range in
  whatever entry of whatever layout it is merged into; the other entries stay.\<close>

theorem disk_layout_roundtrip:
  assumes "i < lt_cnt l" and "j < lt_cnt k" and "le_xlator (lt_list k ! j) \<noteq> None"
  shows "\<exists>disk k'. dht_disk_layout_extract True e l i = Inr (0, Some disk)
    \<and> dht_disk_layout_merge e k j disk = Inr (0, k')
    \<and> lt_cnt k' = lt_cnt k
    \<and> le_start (lt_list k' ! j) = le_start (lt_list l ! i) \<and> le_stop (lt_list k' ! j) = le_stop (lt_list l ! i)
    \<and> (\<forall>m < lt_cnt k. m \<noteq> j \<longrightarrow> lt_list k' ! m = lt_list k ! m)"
  using assms by (auto simp: dht_disk_layout_extract_def dht_disk_layout_merge_def hton32_involutive)

theorem disk_layout_roundtrip_witness:
  "\<exists>disk k'. dht_disk_layout_extract True True (ex_layout [ex_entry 0 3 5 1]) 0 = Inr (0, Some disk)
    \<and> dht_disk_layout_merge True (ex_layout [ex_entry (- 1) 0 0 1]) 0 disk = Inr (0, k')
    \<and> le_start (lt_list k' ! 0) = 3 \<and> le_stop (lt_list k' ! 0) = 5"
  using disk_layout_roundtrip[of 0 "ex_layout [ex_entry 0 3 5 1]" 0 "ex_layout [ex_entry (- 1) 0 0 1]" True]
  by (auto simp: ex_layout_def ex_entry_def)

text \<open>C28. The replies of a lookup fill the slots in the order in which they arrive. Merging at most as
  many replies as the new layout has slots does not fault, each slot holds what its reply says, and
  the slots after the last reply are untouched, provided that every stored layout that a reply brings
  has at least the four words that the source reads without looking at the length.\<close>

theorem merge_fills_slots:
  assumes "dht_layout_new True cnt = Some layout" and "length rs \<le> cnt" and "\<forall>r \<in> set rs. reply_ok r"
  shows "foldM (merge_reply e) rs layout =
    Inr (layout\<lparr>lt_list := map (reply_entry e) rs @ replicate (cnt - length rs) zero_entry\<rparr>)"
  using merge_replies[of layout "[]" cnt rs e] assms by (auto simp: dht_layout_new_def)

theorem merge_fills_slots_witness:
  "foldM (merge_reply True) ex_replies (the (dht_layout_new True 3)) =
    Inr ((the (dht_layout_new True 3))\<lparr>lt_list :=
      map (reply_entry True) ex_replies @ replicate (3 - length ex_replies) zero_entry\<rparr>)"
  by (rule merge_fills_slots) (simp_all add: dht_layout_new_def ex_replies_def reply_ok_def)

text \<open>One reply too many is written past the end of the layout: once every slot has a subvolume,
  a successful reply, with no attribute or with a valid one, indexes the entry after the last.\<close>

theorem merge_past_the_end:
  assumes "\<forall>x \<in> set (lt_list layout). le_xlator x \<noteq> None" and "reply_ok (v, 0, err, xattr)"
    and "\<And>disk. xattr = Some (Some disk) \<Longrightarrow> hton32 e (disk ! 0) = 1"
  shows "bind_f (dht_layout_merge e layout v 0 err xattr) (\<lambda>(ret, l). Inr l) = Inl Out_Of_Bounds"
  using merge_overflow[OF assms] by (simp add: merge_reply_def)

theorem merge_past_the_end_witness:
  "bind_f (dht_layout_merge True (ex_layout [ex_entry 0 0 (- 1) 1]) 2 0 0 None) (\<lambda>(ret, l). Inr l) = Inl Out_Of_Bounds"
  by (rule merge_past_the_end) (simp_all add: ex_layout_def ex_entry_def reply_ok_def)

text \<open>The check is blind to two kinds of damage. Two subvolumes that each claim the whole space
  pass it, although every hash is then served twice; and a single inverted range passes it, although
  no name is then found.\<close>

theorem normalize_accepts_damage:
  "dht_layout_normalize (ex_layout [ex_entry 0 0 (- 1) 1, ex_entry 0 0 (- 1) 2]) =
     Inr (0, ex_layout [ex_entry 0 0 (- 1) 1, ex_entry 0 0 (- 1) 2])
   \<and> (\<forall>h. length (serving h (lt_list (ex_layout [ex_entry 0 0 (- 1) 1, ex_entry 0 0 (- 1) 2]))) = 2)
   \<and> dht_layout_normalize (ex_layout [ex_entry 0 10 9 1]) = Inr (0, ex_layout [ex_entry 0 10 9 1])
   \<and> (\<forall>e name. dht_layout_search e (ex_layout [ex_entry 0 10 9 1]) name = None)"
proof (intro conjI)
  show "dht_layout_normalize (ex_layout [ex_entry 0 0 (- 1) 1, ex_entry 0 0 (- 1) 2]) =
     Inr (0, ex_layout [ex_entry 0 0 (- 1) 1, ex_entry 0 0 (- 1) 2])"
    "dht_layout_normalize (ex_layout [ex_entry 0 10 9 1]) = Inr (0, ex_layout [ex_entry 0 10 9 1])"
    by code_simp+
  show "\<forall>h. length (serving h (lt_list (ex_layout [ex_entry 0 0 (- 1) 1, ex_entry 0 0 (- 1) 2]))) = 2"
    by (simp add: ex_layout_def ex_entry_def serving_def covers_def)
  have "\<not> (10 \<le> h \<and> h \<le> 9)" for h :: u32
  proof
    assume "10 \<le> h \<and> h \<le> 9"
    then have "(10 :: u32) \<le> 9" by (blast intro: order_trans)
    then show False by simp
  qed
  then show "\<forall>e name. dht_layout_search e (ex_layout [ex_entry 0 10 9 1]) name = None"
    by (auto simp: dht_layout_search_def ex_layout_def ex_entry_def split: option.splits)
qed

end
