(* ===== verification/Dht_Helper.thy ===== *)
theory Dht_Helper
  imports Dht_Layout
begin

text \<open>
  The helpers of the distribute translator, \<^verbatim>\<open>xlators/cluster/dht/src/dht-helper.c\<close>: the counting of
  replies, the transformation of the subvolumes' inode numbers into numbers of the whole volume
  and back, the choice of the subvolume for a path, and the merging of attributes. The subvolumes
  are those of \<open>dht_conf\<close>; \<^verbatim>\<open>subvolume_cnt\<close> is the length of the list. The layout that an inode
  carries in its context is the argument \<open>ctx\<close>, a map from inodes to layouts.

  The theorems: the transformation is undone by its inverse as long as it does not exceed 64 bits,
  and then no two files of different subvolumes share a number; merged attributes are sums and maxima.
\<close>

section \<open>Counting replies\<close>

text \<open>The count is a C \<^verbatim>\<open>int\<close> under the lock of the frame; \<open>None\<close> stands for a null frame.\<close>

definition dht_frame_return :: "int option \<Rightarrow> int \<times> int option" where
  "dht_frame_return call_cnt =
     (case call_cnt of None \<Rightarrow> (- 1, None) | Some n \<Rightarrow> (wrap32 (n - 1), Some (wrap32 (n - 1))))"

section \<open>Subvolumes\<close>

fun subvol_index :: "nat \<Rightarrow> nat list \<Rightarrow> nat option" where
  "subvol_index v [] = None"
| "subvol_index v (x # xs) = (if x = v then Some 0 else map_option Suc (subvol_index v xs))"

definition dht_subvol_cnt :: "dht_conf \<Rightarrow> nat \<Rightarrow> int" where
  "dht_subvol_cnt conf subvol =
     (case subvol_index subvol (subvolumes conf) of None \<Rightarrow> - 1 | Some i \<Rightarrow> int i)"

definition dht_subvol_next :: "dht_conf \<Rightarrow> nat \<Rightarrow> nat option" where
  "dht_subvol_next conf prev =
     (case subvol_index prev (subvolumes conf) of
        None \<Rightarrow> None
      | Some i \<Rightarrow> if i + 1 < length (subvolumes conf) then Some (subvolumes conf ! (i + 1)) else None)"

fun first_up :: "nat list \<Rightarrow> bool list \<Rightarrow> fault + nat option" where
  "first_up [] st = Inr None"
| "first_up (v # vs) [] = Inl Out_Of_Bounds"
| "first_up (v # vs) (up # st) = (if up then Inr (Some v) else first_up vs st)"

definition dht_first_up_child :: "dht_conf \<Rightarrow> fault + nat option" where
  "dht_first_up_child conf = first_up (subvolumes conf) (subvolume_status conf)"

section \<open>Inode numbers\<close>

definition dht_itransform :: "dht_conf \<Rightarrow> nat \<Rightarrow> u64 \<Rightarrow> u64" where
  "dht_itransform conf subvol x =
     (if x = - 1 then - 1
      else x * of_nat (length (subvolumes conf)) + of_int (dht_subvol_cnt conf subvol))"

definition dht_deitransform :: "dht_conf \<Rightarrow> u64 \<Rightarrow> fault + (nat \<times> u64)" where
  "dht_deitransform conf y =
     (let mx = of_nat (length (subvolumes conf)) :: u64
      in if mx = 0 then Inl Div_By_Zero
         else Inr (subvolumes conf ! unat (y mod mx), y div mx))"

section \<open>Paths\<close>

definition SLASH :: u8 where "SLASH = 47"

text \<open>The part after the last slash; null when there is none.\<close>

fun last_slash :: "nat \<Rightarrow> bytes \<Rightarrow> nat option \<Rightarrow> nat option" where
  "last_slash i [] r = r"
| "last_slash i (b # bs) r = last_slash (Suc i) bs (if b = SLASH then Some i else r)"

definition basestr :: "bytes \<Rightarrow> bytes option" where
  "basestr str = map_option (\<lambda>i. drop (Suc i) str) (last_slash 0 str None)"

record loc_t =
  loc_path :: bytes
  loc_name :: bytes
  loc_parent :: nat

definition is_fs_root :: "loc_t \<Rightarrow> bool" where
  "is_fs_root loc \<longleftrightarrow> loc_path loc = [SLASH]"

definition dht_subvol_get_hashed ::
  "bool \<Rightarrow> dht_conf \<Rightarrow> (nat \<Rightarrow> dht_layout option) \<Rightarrow> loc_t \<Rightarrow> fault + nat option" where
  "dht_subvol_get_hashed e conf ctx loc =
     (if is_fs_root loc then dht_first_up_child conf
      else Inr (case ctx (loc_parent loc) of
                  None \<Rightarrow> None
                | Some layout \<Rightarrow> dht_layout_search e layout (loc_name loc)))"

definition dht_subvol_get_cached :: "(nat \<Rightarrow> dht_layout option) \<Rightarrow> nat \<Rightarrow> fault + nat option" where
  "dht_subvol_get_cached ctx inode =
     (case ctx inode of
        None \<Rightarrow> Inr None
      | Some layout \<Rightarrow> if lt_list layout = [] then Inl Out_Of_Bounds
                       else Inr (le_xlator (lt_list layout ! 0)))"

section \<open>Attributes\<close>

record stat =
  st_dev :: u64
  st_ino :: u64
  st_mode :: u32
  st_nlink :: u64
  st_uid :: u32
  st_gid :: u32
  st_rdev :: u64
  st_size :: int
  st_blksize :: int
  st_blocks :: int
  st_atime :: int
  st_mtime :: int
  st_ctime :: int

definition set_if_greater :: "int \<Rightarrow> int \<Rightarrow> int" where
  "set_if_greater a b = (if a < b then b else a)"

definition dht_stat_merge :: "dht_conf \<Rightarrow> stat \<Rightarrow> stat \<Rightarrow> nat \<Rightarrow> stat" where
  "dht_stat_merge conf to from subvol =
     \<lparr>st_dev = st_dev from, st_ino = dht_itransform conf subvol (st_ino from), st_mode = st_mode from,
      st_nlink = st_nlink from, st_uid = st_uid from, st_gid = st_gid from, st_rdev = st_rdev from,
      st_size = off_wrap (st_size to + st_size from), st_blksize = st_blksize from,
      st_blocks = off_wrap (st_blocks to + st_blocks from),
      st_atime = set_if_greater (st_atime to) (st_atime from),
      st_mtime = set_if_greater (st_mtime to) (st_mtime from),
      st_ctime = set_if_greater (st_ctime to) (st_ctime from)\<rparr>"

section \<open>Properties\<close>

lemma subvol_index_Some:
  "subvol_index v xs = Some i \<Longrightarrow> i < length xs \<and> xs ! i = v"
  by (induction xs arbitrary: i) (auto split: if_splits)

lemma subvol_index_in: "v \<in> set xs \<Longrightarrow> \<exists>i. subvol_index v xs = Some i"
  by (induction xs) auto

lemma transform_value:
  fixes x :: u64
  assumes "unat x * n + i < 18446744073709551616"
  shows "unat (x * of_nat n + of_nat i) = unat x * n + i"
proof -
  have "x * of_nat n + of_nat i = (of_nat (unat x * n + i) :: u64)" by simp
  then have "unat (x * of_nat n + of_nat i) = unat (of_nat (unat x * n + i) :: u64)" by metis
  also have "\<dots> = unat x * n + i" using assms unat_of_nat[of "unat x * n + i", where 'a = 64] by (simp only:) (simp add: take_bit_nat_eq_self)
  finally show ?thesis .
qed

text \<open>C30. The transformation of inode numbers is undone by its inverse: a number of a known subvolume
  that is not -1, and whose multiple with the number of subvolumes fits in 64 bits, comes back with
  its subvolume.\<close>

theorem itransform_roundtrip:
  assumes "subvol_index v (subvolumes conf) = Some i" and "length (subvolumes conf) < 2147483648"
    and "x \<noteq> - 1" and "unat x * length (subvolumes conf) + i < 18446744073709551616"
  shows "dht_deitransform conf (dht_itransform conf v x) = Inr (v, x)"
proof -
  let ?n = "length (subvolumes conf)"
  have i: "i < ?n" "subvolumes conf ! i = v" using subvol_index_Some[OF assms(1)] by auto
  have n: "unat (of_nat ?n :: u64) = ?n" using assms(2) by (simp add: unat_of_nat take_bit_nat_eq_self)
  have y: "unat (dht_itransform conf v x) = unat x * ?n + i"
    using assms transform_value by (simp add: dht_itransform_def dht_subvol_cnt_def)
  have "?n \<noteq> 0" using i by linarith
  then have dv: "(unat x * ?n + i) div ?n = unat x" "(unat x * ?n + i) mod ?n = i"
    using i(1) by (simp_all only: div_mult_self3 div_less mod_mult_self3 mod_less add_0_right not_False_eq_True)
  have "unat (dht_itransform conf v x mod of_nat ?n) = i" "unat (dht_itransform conf v x div of_nat ?n) = unat x"
    by (simp_all only: unat_mod_distrib unat_div_distrib y n dv)
  moreover have "(of_nat ?n :: u64) \<noteq> 0" using n i by (metis less_zeroE unat_0)
  ultimately show ?thesis using i by (simp add: dht_deitransform_def word_unat_eq_iff)
qed

definition ex_conf :: dht_conf where
  "ex_conf = \<lparr>subvolumes = [7, 8], subvolume_status = [True, True], file_layouts = None\<rparr>"

theorem itransform_roundtrip_witness:
  "dht_deitransform ex_conf (dht_itransform ex_conf 8 1000) = Inr (8, 1000)"
  by (rule itransform_roundtrip[where i = 1]) (simp_all add: ex_conf_def)

text \<open>Beyond that bound the numbers wrap around: with two subvolumes the file 2^63 of the first one
  gets the number of its file 0, and the inverse gives back file 0.\<close>

theorem itransform_wraps:
  "dht_itransform ex_conf 7 0x8000000000000000 = dht_itransform ex_conf 7 0
   \<and> dht_deitransform ex_conf (dht_itransform ex_conf 7 0x8000000000000000) = Inr (7, 0)"
  by (simp add: dht_itransform_def dht_deitransform_def dht_subvol_cnt_def ex_conf_def)

text \<open>The merge of several replies, starting from the zeroed attributes of the request.\<close>

definition stat_merge_all :: "dht_conf \<Rightarrow> (stat \<times> nat) list \<Rightarrow> stat \<Rightarrow> stat" where
  "stat_merge_all conf rs to = fold (\<lambda>(from, subvol) to. dht_stat_merge conf to from subvol) rs to"

lemma set_if_greater_max: "set_if_greater a b = max a b"
  by (simp add: set_if_greater_def max_def)

lemma stat_merge_all_ok:
  assumes "\<forall>(s, v) \<in> set rs. 0 \<le> st_size s \<and> 0 \<le> st_blocks s" "0 \<le> st_size to" "0 \<le> st_blocks to"
    "st_size to + (\<Sum>(s, v) \<leftarrow> rs. st_size s) \<le> LLONG_MAX"
    "st_blocks to + (\<Sum>(s, v) \<leftarrow> rs. st_blocks s) \<le> LLONG_MAX"
  shows "st_size (stat_merge_all conf rs to) = st_size to + (\<Sum>(s, v) \<leftarrow> rs. st_size s)
    \<and> st_blocks (stat_merge_all conf rs to) = st_blocks to + (\<Sum>(s, v) \<leftarrow> rs. st_blocks s)
    \<and> st_mtime (stat_merge_all conf rs to) = fold max (map (st_mtime \<circ> fst) rs) (st_mtime to)"
  using assms
proof (induction rs arbitrary: to)
  case Nil
  then show ?case by (simp add: stat_merge_all_def)
next
  case (Cons r rs)
  obtain s v where r: "r = (s, v)" by (cases r)
  let ?to = "dht_stat_merge conf to s v"
  have "0 \<le> (\<Sum>(s, v) \<leftarrow> rs. st_size s)" "0 \<le> (\<Sum>(s, v) \<leftarrow> rs. st_blocks s)"
    using Cons.prems(1) by (auto intro!: sum_list_nonneg)
  then have t: "st_size ?to = st_size to + st_size s" "st_blocks ?to = st_blocks to + st_blocks s"
    "st_mtime ?to = max (st_mtime s) (st_mtime to)"
    using Cons.prems by (auto simp: dht_stat_merge_def r set_if_greater_max max.commute)
  have "stat_merge_all conf (r # rs) to = stat_merge_all conf rs ?to"
    by (simp add: stat_merge_all_def r)
  moreover have "0 \<le> st_size ?to" "0 \<le> st_blocks ?to" using Cons.prems t by (auto simp: r)
  ultimately show ?case using Cons.IH[of ?to] Cons.prems t by (simp add: r)
qed

end
