(* ===== verification/Dht_Selfheal.thy ===== *)
theory Dht_Selfheal
  imports Dht_Helper
begin

text \<open>
  The repair of directories, \<^verbatim>\<open>xlators/cluster/dht/src/dht-selfheal.c\<close>: ranges are given to the
  subvolumes of a directory without a layout, the directory is created where it is missing, and the
  ranges are written to disk. The work is a chain of calls to the subvolumes and their callbacks
  around a count of the replies still to come.

  The state \<open>heal\<close> is what the handlers share: the layout (\<^verbatim>\<open>local->selfheal.layout\<close>), the count
  \<^verbatim>\<open>local->call_cnt\<close>, the calls that were sent and not yet answered, and the values with which the
  callback \<^verbatim>\<open>dir_cbk\<close> of the caller was called. Replies come in any order, after the handler that
  sent the calls has returned. The outcomes of allocations are the argument \<open>al\<close>: for the i-th
  entry, whether the dictionary and the disk layout are allocated and what \<^verbatim>\<open>dict_set_bin\<close> returns.

  The theorems: the caller is called back exactly once, and only when no call is outstanding; the
  repair always ends; and a repaired fresh directory serves every hash exactly once.
\<close>

section \<open>State\<close>

datatype heal_call = Mkdir nat | Setxattr nat "u32 list option"

record heal =
  hl_layout :: dht_layout
  hl_cnt :: int
  hl_calls :: "heal_call list"
  hl_done :: "int list"

type_synonym heal_alloc = "nat \<Rightarrow> bool \<times> bool \<times> int"

section \<open>Writing the ranges\<close>

definition dht_selfheal_dir_finish :: "int \<Rightarrow> heal \<Rightarrow> heal" where
  "dht_selfheal_dir_finish ret s = s\<lparr>hl_done := hl_done s @ [ret]\<rparr>"

text \<open>The first entry of a subvolume gets an error value.\<close>

fun set_subvol_err :: "nat \<Rightarrow> int \<Rightarrow> layout_entry list \<Rightarrow> layout_entry list" where
  "set_subvol_err v err [] = []"
| "set_subvol_err v err (x # xs) =
     (if le_xlator x = Some v then x\<lparr>le_err := err\<rparr> # xs else x # set_subvol_err v err xs)"

definition mark_subvol :: "nat \<Rightarrow> int \<Rightarrow> heal \<Rightarrow> heal" where
  "mark_subvol v err s =
     s\<lparr>hl_layout := (hl_layout s)\<lparr>lt_list := set_subvol_err v err (lt_list (hl_layout s))\<rparr>\<rparr>"

definition heal_return :: "heal \<Rightarrow> int \<times> heal" where
  "heal_return s = (case dht_frame_return (Some (hl_cnt s)) of
     (n, c) \<Rightarrow> (n, s\<lparr>hl_cnt := n\<rparr>))"

definition dht_selfheal_dir_xattr_cbk :: "nat \<Rightarrow> int \<Rightarrow> int \<Rightarrow> heal \<Rightarrow> heal" where
  "dht_selfheal_dir_xattr_cbk subvol op_ret op_errno s =
     (let s = mark_subvol subvol (if op_ret = 0 then 0 else op_errno) s;
          (this_call_cnt, s) = heal_return s
      in if this_call_cnt = 0 then dht_selfheal_dir_finish 0 s else s)"

text \<open>
  The error path hands the subvolume to the callback as its cookie; the callback takes the cookie
  for a call frame and follows a pointer of it.
\<close>

definition dht_selfheal_dir_xattr_persubvol :: "heal_alloc \<Rightarrow> bool \<Rightarrow> nat \<Rightarrow> heal \<Rightarrow> fault + heal" where
  "dht_selfheal_dir_xattr_persubvol al e i s =
     (case al i of (dict_ok, disk_ok, set_ret) \<Rightarrow>
        if lt_cnt (hl_layout s) \<le> i then Inl Out_Of_Bounds
        else let subvol = le_xlator (lt_list (hl_layout s) ! i)
        in if \<not> dict_ok then Inl Type_Confusion
           else bind_f (dht_disk_layout_extract disk_ok e (hl_layout s) i) (\<lambda>(ret, disk).
             if ret = - 1 then Inl Type_Confusion
             else if set_ret = - 1 then Inl Type_Confusion
             else case subvol of
               None \<Rightarrow> Inl Null_Deref
             | Some v \<Rightarrow> Inr (s\<lparr>hl_calls := hl_calls s @
                 [Setxattr v (if set_ret = 0 then map_option (take 4) disk else None)]\<rparr>)))"

definition needs_xattr :: "layout_entry \<Rightarrow> bool" where
  "needs_xattr x \<longleftrightarrow> \<not> (le_err x \<noteq> - 1 \<or> le_stop x = 0)"

text \<open>The loop that sends: over the positions, with the number of calls still to be sent.\<close>

fun send_xattrs :: "heal_alloc \<Rightarrow> bool \<Rightarrow> nat list \<Rightarrow> int \<Rightarrow> heal \<Rightarrow> fault + heal" where
  "send_xattrs al e [] missing s = Inr s"
| "send_xattrs al e (i # is) missing s =
     (if \<not> needs_xattr (lt_list (hl_layout s) ! i) then send_xattrs al e is missing s
      else bind_f (dht_selfheal_dir_xattr_persubvol al e i s) (\<lambda>s.
        if missing - 1 = 0 then Inr s else send_xattrs al e is (missing - 1) s))"

definition dht_selfheal_dir_xattr :: "heal_alloc \<Rightarrow> bool \<Rightarrow> heal \<Rightarrow> fault + heal" where
  "dht_selfheal_dir_xattr al e s =
     (let missing_xattr = int (length (filter needs_xattr (lt_list (hl_layout s))))
      in if missing_xattr = 0 then Inr (dht_selfheal_dir_finish 0 s)
         else send_xattrs al e [0..<lt_cnt (hl_layout s)] missing_xattr (s\<lparr>hl_cnt := missing_xattr\<rparr>))"

section \<open>Creating the directory\<close>

definition dht_selfheal_dir_mkdir_cbk ::
  "heal_alloc \<Rightarrow> bool \<Rightarrow> nat \<Rightarrow> int \<Rightarrow> int \<Rightarrow> heal \<Rightarrow> fault + heal" where
  "dht_selfheal_dir_mkdir_cbk al e subvol op_ret op_errno s =
     (let s = (if op_ret = 0 \<or> op_errno = EEXIST then mark_subvol subvol (- 1) s else s);
          (this_call_cnt, s) = heal_return s
      in if this_call_cnt = 0 then dht_selfheal_dir_xattr al e s else Inr s)"

definition needs_dir :: "bool \<Rightarrow> layout_entry \<Rightarrow> bool" where
  "needs_dir force x \<longleftrightarrow> le_err x = ENOENT \<or> force"

fun send_mkdirs :: "bool \<Rightarrow> layout_entry list \<Rightarrow> heal \<Rightarrow> fault + heal" where
  "send_mkdirs force [] s = Inr s"
| "send_mkdirs force (x # xs) s =
     (if needs_dir force x then
        (case le_xlator x of
           None \<Rightarrow> Inl Null_Deref
         | Some v \<Rightarrow> send_mkdirs force xs (s\<lparr>hl_calls := hl_calls s @ [Mkdir v]\<rparr>))
      else send_mkdirs force xs s)"

text \<open>
  A call that is sent joins \<^verbatim>\<open>hl_calls\<close>, and its reply is a step of its own after the handler that sent it
  has returned. A child that replies before \<^verbatim>\<open>STACK_WIND\<close> returns, while the loop still sends, is
  not modelled.
\<close>

definition dht_selfheal_dir_mkdir :: "heal_alloc \<Rightarrow> bool \<Rightarrow> bool \<Rightarrow> heal \<Rightarrow> fault + heal" where
  "dht_selfheal_dir_mkdir al e force s =
     (let missing_dirs = int (length (filter (needs_dir force) (lt_list (hl_layout s))))
      in if missing_dirs = 0 then dht_selfheal_dir_xattr al e s
         else send_mkdirs force (lt_list (hl_layout s)) (s\<lparr>hl_cnt := missing_dirs\<rparr>))"

section \<open>Giving ranges\<close>

text \<open>The second loop, with the entries still to be served, the start of the next range and its length.\<close>

fun give_ranges :: "nat \<Rightarrow> u32 \<Rightarrow> u32 \<Rightarrow> layout_entry list \<Rightarrow> fault + layout_entry list" where
  "give_ranges cnt start chunk [] = Inr []"
| "give_ranges cnt start chunk (x # xs) =
     (if le_err x = - 1 then
        (if le_xlator x = None then Inl Null_Deref
         else if cnt - 1 = 0 then Inr (x\<lparr>le_start := start, le_stop := 0xffffffff\<rparr> # xs)
         else bind_f (give_ranges (cnt - 1) (start + chunk) chunk xs) (\<lambda>ys.
                Inr (x\<lparr>le_start := start, le_stop := start + chunk - 1\<rparr> # ys)))
      else bind_f (give_ranges cnt start chunk xs) (\<lambda>ys. Inr (x # ys)))"

definition unset :: "layout_entry \<Rightarrow> bool" where
  "unset x \<longleftrightarrow> le_err x = - 1"

definition dht_selfheal_fix_this_virgin :: "dht_layout \<Rightarrow> fault + dht_layout" where
  "dht_selfheal_fix_this_virgin layout =
     (let cnt = length (filter unset (lt_list layout))
      in if cnt = 0 then Inl Div_By_Zero
         else bind_f (give_ranges cnt 0 (of_nat (0xffffffff div cnt)) (lt_list layout)) (\<lambda>xs.
                Inr (layout\<lparr>lt_list := xs\<rparr>)))"

text \<open>The counts are \<^verbatim>\<open>uint32_t\<close> and are compared as \<^verbatim>\<open>int\<close>.\<close>

definition dht_selfheal_dir_getafix :: "dht_conf \<Rightarrow> anomalies \<Rightarrow> dht_layout \<Rightarrow> fault + (int \<times> dht_layout)" where
  "dht_selfheal_dir_getafix conf a layout =
     (let missing = sint (an_missing a); down = sint (an_down a); holes = sint (hole_cnt a);
          virgin = (wrap32 (missing + down) = int (length (subvolumes conf)))
      in bind_f (if virgin then dht_selfheal_fix_this_virgin layout else Inr layout) (\<lambda>layout.
           Inr (if virgin \<or> holes \<le> down \<or> (\<exists>x \<in> set (lt_list layout). le_err x = ENOENT) then 0 else - 1,
                layout)))"

definition dht_selfheal_directory ::
  "heal_alloc \<Rightarrow> bool \<Rightarrow> dht_conf \<Rightarrow> dht_layout \<Rightarrow> fault + heal" where
  "dht_selfheal_directory al e conf layout =
     bind_f (dht_layout_anomalies layout) (\<lambda>a.
     bind_f (dht_selfheal_dir_getafix conf a layout) (\<lambda>(ret, layout).
       let s = \<lparr>hl_layout = layout, hl_cnt = 0, hl_calls = [], hl_done = []\<rparr>
       in if ret = - 1 then Inr (dht_selfheal_dir_finish ret s)
          else dht_selfheal_dir_mkdir al e False s))"

definition dht_selfheal_restore :: "heal_alloc \<Rightarrow> bool \<Rightarrow> dht_layout \<Rightarrow> fault + heal" where
  "dht_selfheal_restore al e layout =
     dht_selfheal_dir_mkdir al e True \<lparr>hl_layout = layout, hl_cnt = 0, hl_calls = [], hl_done = []\<rparr>"

section \<open>Replies\<close>

text \<open>One outstanding call is answered; \<^verbatim>\<open>op_ret\<close> and \<^verbatim>\<open>op_errno\<close> are up to the subvolume.\<close>

definition heal_reply :: "heal_alloc \<Rightarrow> bool \<Rightarrow> heal_call \<Rightarrow> int \<Rightarrow> int \<Rightarrow> heal \<Rightarrow> fault + heal" where
  "heal_reply al e c op_ret op_errno s =
     (let s = s\<lparr>hl_calls := remove1 c (hl_calls s)\<rparr>
      in case c of
           Mkdir v \<Rightarrow> dht_selfheal_dir_mkdir_cbk al e v op_ret op_errno s
         | Setxattr v d \<Rightarrow> Inr (dht_selfheal_dir_xattr_cbk v op_ret op_errno s))"

inductive heal_step :: "heal_alloc \<Rightarrow> bool \<Rightarrow> heal \<Rightarrow> heal \<Rightarrow> bool" for al e where
  reply: "c \<in> set (hl_calls s) \<Longrightarrow> heal_reply al e c op_ret op_errno s = Inr t \<Longrightarrow> heal_step al e s t"

text \<open>
  All allocations succeed. The theorems about runs are stated for these steps: when an allocation fails the
  callback is called with the subvolume as its cookie, which the model shows as a fault.
\<close>

definition al_ok :: heal_alloc where "al_ok = (\<lambda>_. (True, True, 0))"

text \<open>Replies in which every range is written successfully; creating a directory may fail.\<close>

inductive heal_step_ok :: "bool \<Rightarrow> heal \<Rightarrow> heal \<Rightarrow> bool" for e where
  mkdir: "Mkdir v \<in> set (hl_calls s) \<Longrightarrow> heal_reply al_ok e (Mkdir v) op_ret op_errno s = Inr t \<Longrightarrow> heal_step_ok e s t"
| setxattr: "Setxattr v d \<in> set (hl_calls s) \<Longrightarrow> heal_reply al_ok e (Setxattr v d) 0 op_errno s = Inr t \<Longrightarrow> heal_step_ok e s t"

section \<open>Ranges of a fresh directory\<close>

text \<open>The entries with a range to write, as they are once it is written.\<close>

definition ranged :: "layout_entry list \<Rightarrow> layout_entry list" where
  "ranged xs = filter unset xs"

definition only_range :: "layout_entry \<Rightarrow> layout_entry \<Rightarrow> bool" where
  "only_range x y \<longleftrightarrow> (if unset x then y = x\<lparr>le_start := le_start y, le_stop := le_stop y\<rparr> else y = x)"

lemma only_range_fields:
  assumes "only_range x y"
  shows "le_err y = le_err x \<and> le_xlator y = le_xlator x"
proof (cases "unset x")
  case True
  with assms have y: "y = x\<lparr>le_start := le_start y, le_stop := le_stop y\<rparr>" by (simp add: only_range_def)
  show ?thesis by (subst (1 2) y) simp
qed (use assms in \<open>simp add: only_range_def\<close>)

lemma only_range_ranged: "list_all2 only_range xs ys \<Longrightarrow> length (ranged ys) = length (ranged xs)"
  by (induction rule: list_all2_induct) (auto simp: ranged_def unset_def dest: only_range_fields)

definition ranges_from :: "u32 \<Rightarrow> layout_entry list \<Rightarrow> bool" where
  "ranges_from p ys \<longleftrightarrow> gapless (p - 1) ys \<and> last_stop_of (p - 1) ys = - 1
     \<and> (\<forall>y \<in> set ys. p \<le> le_start y \<and> le_start y \<le> le_stop y \<and> le_stop y \<noteq> 0)
     \<and> sorted_wrt (\<lambda>x y. le_stop x < le_start y) ys"

lemma max_u32: "(0xffffffff :: u32) = - 1"
  by simp

lemma unat_range_end:
  fixes a c :: u32
  assumes "unat a + unat c \<le> 4294967295" "2 \<le> unat c"
  shows "unat (a + c) = unat a + unat c" "unat (a + c - 1) = unat a + unat c - 1"
proof -
  show s: "unat (a + c) = unat a + unat c"
    using assms(1) by (intro unat_add_lem[THEN iffD1]) simp
  have "1 \<le> a + c" using s assms(2) by (simp add: word_le_nat_alt)
  then show "unat (a + c - 1) = unat a + unat c - 1" using s by (simp add: unat_sub)
qed

lemma ranges_from_Cons:
  fixes a c :: u32
  assumes "ranges_from (a + c) ys" "unat a + unat c \<le> 4294967295" "2 \<le> unat c" "ys \<noteq> []"
  shows "ranges_from a (x\<lparr>le_start := a, le_stop := a + c - 1\<rparr> # ys)"
proof -
  note u = unat_range_end[OF assms(2,3)]
  have "a \<le> a + c" "a \<le> a + c - 1" "a + c - 1 < a + c" "a + c - 1 \<noteq> 0"
    using u assms(3) by (auto simp: word_le_nat_alt word_less_nat_alt word_unat_eq_iff)
  with assms(1,4) show ?thesis
    by (cases ys) (auto simp: ranges_from_def intro: order_trans order_less_le_trans)
qed

lemma give_ranges_ok:
  assumes "n = length (ranged xs)" "0 < n" "unat a + n * unat c \<le> 4294967295" "2 \<le> unat c"
    "\<forall>x \<in> set xs. le_xlator x \<noteq> None"
  shows "\<exists>ys. give_ranges n a c xs = Inr ys \<and> list_all2 only_range xs ys \<and> ranges_from a (ranged ys)"
  using assms
proof (induction xs arbitrary: n a)
  case Nil
  then show ?case by (simp add: ranged_def)
next
  case (Cons x xs)
  have refl: "list_all2 only_range zs zs" for zs
    by (rule list_all2_refl) (simp add: only_range_def)
  show ?case
  proof (cases "unset x")
    case False
    then have "n = length (ranged xs)" using Cons.prems(1) by (simp add: ranged_def)
    with Cons obtain ys where "give_ranges n a c xs = Inr ys" "list_all2 only_range xs ys" "ranges_from a (ranged ys)"
      by (metis list.set_intros(2))
    with False show ?thesis by (auto simp: ranged_def only_range_def[of x] unset_def[of x])
  next
    case True
    have x: "le_err x = - 1" "le_xlator x \<noteq> None" using True Cons.prems(5) by (auto simp: unset_def)
    show ?thesis
    proof (cases "n = 1")
      case n1: True
      let ?y = "x\<lparr>le_start := a, le_stop := 0xffffffff\<rparr>"
      have e: "ranged xs = []" using n1 True Cons.prems(1) by (simp add: ranged_def)
      have "a \<le> 0xffffffff" unfolding max_u32 by simp
      then have "ranges_from a [?y]" by (simp add: ranges_from_def)
      with n1 x e True show ?thesis
        using refl[of xs] by (simp add: ranged_def unset_def[of x] unset_def[of "x\<lparr>le_start := _, le_stop := _\<rparr>"] only_range_def[of x])
    next
      case False
      with True Cons.prems(1,2) obtain m where m: "n = Suc m" "m = length (ranged xs)" "0 < m"
        by (auto simp: ranged_def)
      then have b: "unat a + unat c + m * unat c \<le> 4294967295" using Cons.prems(3) by simp
      then have b': "unat a + unat c \<le> 4294967295" by linarith
      have "unat (a + c) + m * unat c \<le> 4294967295"
        using unat_range_end(1)[OF b' Cons.prems(4)] b by simp
      then obtain ys where ys: "give_ranges m (a + c) c xs = Inr ys" "list_all2 only_range xs ys"
          "ranges_from (a + c) (ranged ys)"
        using Cons.IH[OF m(2,3)] Cons.prems(4,5) by auto
      have "ranged ys \<noteq> []"
        using only_range_ranged[OF ys(2)] m(2,3) by auto
      then have "ranges_from a (x\<lparr>le_start := a, le_stop := a + c - 1\<rparr> # ranged ys)"
        by (intro ranges_from_Cons[OF ys(3) b' Cons.prems(4)])
      with x m ys(1,2) True show ?thesis
        by (simp add: ranged_def unset_def[of x] unset_def[of "x\<lparr>le_start := _, le_stop := _\<rparr>"] only_range_def[of x])
    qed
  qed
qed

definition has_subvols :: "layout_entry list \<Rightarrow> bool" where
  "has_subvols xs \<longleftrightarrow> (\<forall>x \<in> set xs. le_xlator x \<noteq> None)"

lemma fix_this_virgin_ok:
  assumes "has_subvols (lt_list layout)" "ranged (lt_list layout) \<noteq> []" "lt_cnt layout < 2147483648"
  shows "\<exists>ys. dht_selfheal_fix_this_virgin layout = Inr (layout\<lparr>lt_list := ys\<rparr>)
    \<and> list_all2 only_range (lt_list layout) ys \<and> ranges_from 0 (ranged ys)"
proof -
  let ?n = "length (ranged (lt_list layout))"
  let ?c = "of_nat (4294967295 div ?n) :: u32"
  have n: "0 < ?n" "?n < 2147483648"
    using assms(2) le_less_trans[OF length_filter_le assms(3)] by (auto simp: ranged_def)
  have "4294967295 div ?n < 4294967296" using div_le_dividend[of 4294967295 ?n] by linarith
  then have c: "unat ?c = 4294967295 div ?n" by (simp add: unat_of_nat)
  have "2 \<le> 4294967295 div ?n" using n by (simp add: less_eq_div_iff_mult_less_eq)
  moreover have "?n * (4294967295 div ?n) \<le> 4294967295" by (rule times_div_less_eq_dividend)
  ultimately obtain ys where "give_ranges ?n 0 ?c (lt_list layout) = Inr ys"
      "list_all2 only_range (lt_list layout) ys" "ranges_from 0 (ranged ys)"
    using give_ranges_ok[OF refl n(1), of 0 ?c] assms(1) c by (auto simp: has_subvols_def)
  with n(1) show ?thesis
    by (auto simp: dht_selfheal_fix_this_virgin_def ranged_def Let_def)
qed

section \<open>The calls that are sent\<close>

definition disk_of :: "bool \<Rightarrow> dht_layout \<Rightarrow> layout_entry \<Rightarrow> u32 list" where
  "disk_of e l x = [hton32 e 1, hton32 e (word_of_int (lt_type l)), hton32 e (le_start x), hton32 e (le_stop x)]"

definition xattr_call :: "bool \<Rightarrow> dht_layout \<Rightarrow> layout_entry \<Rightarrow> heal_call" where
  "xattr_call e l x = Setxattr (the (le_xlator x)) (Some (disk_of e l x))"

lemma xattr_persubvol_ok:
  assumes "i < lt_cnt (hl_layout s)" "le_xlator (lt_list (hl_layout s) ! i) \<noteq> None"
  shows "dht_selfheal_dir_xattr_persubvol al_ok e i s =
    Inr (s\<lparr>hl_calls := hl_calls s @ [xattr_call e (hl_layout s) (lt_list (hl_layout s) ! i)]\<rparr>)"
  using assms by (auto simp: dht_selfheal_dir_xattr_persubvol_def al_ok_def dht_disk_layout_extract_def
      xattr_call_def disk_of_def)

lemma send_xattrs_ok:
  assumes "\<forall>i \<in> set is. i < lt_cnt (hl_layout s)" "has_subvols (lt_list (hl_layout s))"
    and "missing = int (length (filter (\<lambda>i. needs_xattr (lt_list (hl_layout s) ! i)) is))"
  shows "send_xattrs al_ok e is missing s =
    Inr (s\<lparr>hl_calls := hl_calls s @ map (xattr_call e (hl_layout s))
      (filter needs_xattr (map ((!) (lt_list (hl_layout s))) is))\<rparr>)"
  using assms
proof (induction "is" arbitrary: missing s)
  case Nil
  then show ?case by simp
next
  case (Cons i "is")
  let ?l = "hl_layout s" and ?x = "lt_list (hl_layout s) ! i"
  show ?case
  proof (cases "needs_xattr ?x")
    case False
    then show ?thesis using Cons by simp
  next
    case True
    let ?t = "s\<lparr>hl_calls := hl_calls s @ [xattr_call e ?l ?x]\<rparr>"
    have p: "dht_selfheal_dir_xattr_persubvol al_ok e i s = Inr ?t"
      using Cons.prems(1,2) by (intro xattr_persubvol_ok) (auto simp: has_subvols_def)
    have "send_xattrs al_ok e is (missing - 1) ?t =
      Inr (?t\<lparr>hl_calls := hl_calls ?t @ map (xattr_call e (hl_layout ?t))
        (filter needs_xattr (map ((!) (lt_list (hl_layout ?t))) is))\<rparr>)"
      using Cons.prems True by (intro Cons.IH) auto
    moreover have "filter needs_xattr (map ((!) (lt_list ?l)) is) = []" if "missing - 1 = 0"
      using that Cons.prems(3) True by (auto simp: filter_empty_conv)
    ultimately show ?thesis using True p by auto
  qed
qed

lemma dir_xattr_ok:
  assumes "has_subvols (lt_list (hl_layout s))" "hl_calls s = []"
  shows "dht_selfheal_dir_xattr al_ok e s = Inr (
    let ms = filter needs_xattr (lt_list (hl_layout s))
    in if ms = [] then s\<lparr>hl_done := hl_done s @ [0]\<rparr>
       else s\<lparr>hl_cnt := int (length ms), hl_calls := map (xattr_call e (hl_layout s)) ms\<rparr>)"
proof -
  let ?xs = "lt_list (hl_layout s)"
  have nth: "map ((!) ?xs) [0..<length ?xs] = ?xs" by (rule map_nth)
  have cnt: "length (filter (\<lambda>i. needs_xattr (?xs ! i)) [0..<length ?xs]) = length (filter needs_xattr ?xs)"
  proof -
    have "filter needs_xattr (map ((!) ?xs) [0..<length ?xs]) =
        map ((!) ?xs) (filter (\<lambda>i. needs_xattr (?xs ! i)) [0..<length ?xs])"
      by (simp add: filter_map comp_def)
    with nth show ?thesis by (metis length_map)
  qed
  show ?thesis
  proof (cases "filter needs_xattr ?xs = []")
    case True
    then show ?thesis by (simp add: dht_selfheal_dir_xattr_def dht_selfheal_dir_finish_def)
  next
    case False
    let ?n = "int (length (filter needs_xattr ?xs))"
    have "send_xattrs al_ok e [0..<length ?xs] ?n (s\<lparr>hl_cnt := ?n\<rparr>) =
      Inr ((s\<lparr>hl_cnt := ?n\<rparr>)\<lparr>hl_calls := map (xattr_call e (hl_layout s)) (filter needs_xattr ?xs)\<rparr>)"
      using send_xattrs_ok[of "[0..<length ?xs]" "s\<lparr>hl_cnt := ?n\<rparr>" ?n e] assms by (simp add: cnt nth)
    with False show ?thesis by (simp add: dht_selfheal_dir_xattr_def Let_def)
  qed
qed

lemma send_mkdirs_ok:
  assumes "has_subvols xs"
  shows "send_mkdirs force xs s =
    Inr (s\<lparr>hl_calls := hl_calls s @ map (\<lambda>x. Mkdir (the (le_xlator x))) (filter (needs_dir force) xs)\<rparr>)"
  using assms
proof (induction xs arbitrary: s)
  case (Cons x xs)
  then obtain v where "le_xlator x = Some v" by (auto simp: has_subvols_def)
  with Cons show ?case by (auto simp: has_subvols_def)
qed simp

lemma dir_mkdir_ok:
  assumes "has_subvols (lt_list (hl_layout s))" "hl_calls s = []"
  shows "dht_selfheal_dir_mkdir al_ok e force s =
    (let ms = filter (needs_dir force) (lt_list (hl_layout s))
     in if ms = [] then dht_selfheal_dir_xattr al_ok e s
        else Inr (s\<lparr>hl_cnt := int (length ms), hl_calls := map (\<lambda>x. Mkdir (the (le_xlator x))) ms\<rparr>))"
  using send_mkdirs_ok[OF assms(1), of force "s\<lparr>hl_cnt := int (length (filter (needs_dir force) (lt_list (hl_layout s))))\<rparr>"]
    assms(2) by (simp add: dht_selfheal_dir_mkdir_def Let_def)

section \<open>The caller is called back once\<close>

definition is_mkdir :: "heal_call \<Rightarrow> bool" where
  "is_mkdir c = (case c of Mkdir v \<Rightarrow> True | Setxattr v d \<Rightarrow> False)"

text \<open>
  The count is the number of calls to be answered, all of one kind, while any is outstanding, and
  the caller has been called back exactly when none is.
\<close>

definition heal_inv :: "heal \<Rightarrow> bool" where
  "heal_inv s \<longleftrightarrow> has_subvols (lt_list (hl_layout s)) \<and> lt_cnt (hl_layout s) < 2147483648
     \<and> length (hl_calls s) \<le> lt_cnt (hl_layout s)
     \<and> (if hl_calls s = [] then length (hl_done s) = 1
        else hl_done s = [] \<and> hl_cnt s = int (length (hl_calls s))
          \<and> (list_all is_mkdir (hl_calls s) \<or> list_all (Not \<circ> is_mkdir) (hl_calls s)))"

lemma set_subvol_err_xlators [simp]: "map le_xlator (set_subvol_err v err xs) = map le_xlator xs"
  by (induction xs) auto

lemma set_subvol_err_length [simp]: "length (set_subvol_err v err xs) = length xs"
  by (induction xs) auto

lemma has_subvols_xlators: "has_subvols xs \<longleftrightarrow> None \<notin> set (map le_xlator xs)"
  unfolding has_subvols_def by (metis imageE imageI list.set_map)

lemma set_subvol_err_has [simp]: "has_subvols (set_subvol_err v err xs) = has_subvols xs"
  unfolding has_subvols_xlators by simp

lemma heal_return_value:
  assumes "hl_cnt s = int (Suc n)" "n < 2147483648"
  shows "heal_return s = (int n, s\<lparr>hl_cnt := int n\<rparr>)"
  using assms by (simp add: heal_return_def dht_frame_return_def)

text \<open>The state after the calls for a layout without an outstanding call were sent.\<close>

lemma heal_inv_xattr:
  assumes "has_subvols (lt_list (hl_layout s))" "lt_cnt (hl_layout s) < 2147483648" "hl_calls s = []" "hl_done s = []"
  shows "\<exists>t. dht_selfheal_dir_xattr al_ok e s = Inr t \<and> heal_inv t \<and> list_all (Not \<circ> is_mkdir) (hl_calls t)
    \<and> lt_cnt (hl_layout t) = lt_cnt (hl_layout s)"
  using assms
  by (auto simp: dir_xattr_ok Let_def heal_inv_def list_all_iff is_mkdir_def xattr_call_def)

lemma heal_inv_mkdir:
  assumes "has_subvols (lt_list (hl_layout s))" "lt_cnt (hl_layout s) < 2147483648" "hl_calls s = []" "hl_done s = []"
  shows "\<exists>t. dht_selfheal_dir_mkdir al_ok e force s = Inr t \<and> heal_inv t \<and> lt_cnt (hl_layout t) = lt_cnt (hl_layout s)"
proof (cases "filter (needs_dir force) (lt_list (hl_layout s)) = []")
  case True
  then show ?thesis using heal_inv_xattr[OF assms] by (auto simp: dir_mkdir_ok[OF assms(1,3)])
next
  case False
  then show ?thesis using assms
    by (auto simp: dir_mkdir_ok[OF assms(1,3)] Let_def heal_inv_def list_all_iff is_mkdir_def)
qed

text \<open>How many more replies there can be.\<close>

definition heal_left :: "heal \<Rightarrow> nat" where
  "heal_left s = length (hl_calls s) + (if \<exists>c \<in> set (hl_calls s). is_mkdir c then lt_cnt (hl_layout s) else 0)"

lemma reply_remaining:
  assumes "heal_inv s" "c \<in> set (hl_calls s)"
  obtains n where "length (hl_calls s) = Suc n" "length (remove1 c (hl_calls s)) = n" "n < 2147483648"
    "hl_cnt s = int (Suc n)" "hl_done s = []" "n = 0 \<longleftrightarrow> remove1 c (hl_calls s) = []"
proof -
  have ne: "hl_calls s \<noteq> []" using assms(2) by auto
  then obtain n where n: "length (hl_calls s) = Suc n" by (cases "hl_calls s") auto
  then have r: "length (remove1 c (hl_calls s)) = n" using assms(2) by (simp add: length_remove1)
  show thesis
    using assms(1) ne n r by (intro that[of n]) (auto simp: heal_inv_def)
qed

text \<open>The state after a reply was counted, before what the last reply sets off.\<close>

definition after_mkdir :: "nat \<Rightarrow> bool \<Rightarrow> heal \<Rightarrow> heal" where
  "after_mkdir v ok s = \<lparr>hl_layout = (hl_layout s)\<lparr>lt_list :=
       if ok then set_subvol_err v (- 1) (lt_list (hl_layout s)) else lt_list (hl_layout s)\<rparr>,
     hl_cnt = int (length (hl_calls s) - 1), hl_calls = remove1 (Mkdir v) (hl_calls s), hl_done = []\<rparr>"

definition after_setxattr :: "nat \<Rightarrow> u32 list option \<Rightarrow> int \<Rightarrow> heal \<Rightarrow> heal" where
  "after_setxattr v d err s = \<lparr>hl_layout = (hl_layout s)\<lparr>lt_list := set_subvol_err v err (lt_list (hl_layout s))\<rparr>,
     hl_cnt = int (length (hl_calls s) - 1), hl_calls = remove1 (Setxattr v d) (hl_calls s),
     hl_done = (if remove1 (Setxattr v d) (hl_calls s) = [] then [0] else [])\<rparr>"

lemma reply_mkdir:
  fixes op_ret op_errno :: int
  assumes "heal_inv s" "Mkdir v \<in> set (hl_calls s)"
  defines "t \<equiv> after_mkdir v (op_ret = 0 \<or> op_errno = EEXIST) s"
  shows "heal_reply al_ok e (Mkdir v) op_ret op_errno s =
    (if hl_calls t = [] then dht_selfheal_dir_xattr al_ok e t else Inr t)"
proof -
  obtain n where "length (hl_calls s) = Suc n" "n < 2147483648" "hl_cnt s = int (Suc n)" "hl_done s = []"
    "n = 0 \<longleftrightarrow> remove1 (Mkdir v) (hl_calls s) = []"
    by (rule reply_remaining[OF assms(1,2)])
  then show ?thesis by (cases s) (auto simp: heal_reply_def dht_selfheal_dir_mkdir_cbk_def mark_subvol_def
        heal_return_value t_def after_mkdir_def Let_def)
qed

lemma reply_setxattr:
  assumes "heal_inv s" "Setxattr v d \<in> set (hl_calls s)"
  shows "heal_reply al_ok e (Setxattr v d) op_ret op_errno s =
    Inr (after_setxattr v d (if op_ret = 0 then 0 else op_errno) s)"
proof -
  obtain n where "length (hl_calls s) = Suc n" "n < 2147483648" "hl_cnt s = int (Suc n)" "hl_done s = []"
    "n = 0 \<longleftrightarrow> remove1 (Setxattr v d) (hl_calls s) = []"
    by (rule reply_remaining[OF assms(1,2)])
  then show ?thesis by (cases s) (auto simp: heal_reply_def dht_selfheal_dir_xattr_cbk_def mark_subvol_def
        heal_return_value dht_selfheal_dir_finish_def after_setxattr_def Let_def)
qed

lemma after_reply_length:
  assumes "c \<in> set cs"
  shows "length (remove1 c cs) = length cs - 1" "length (remove1 c cs) < length cs"
  using assms length_pos_if_in_set[OF assms] by (simp_all add: length_remove1)

lemma heal_inv_rest:
  assumes "heal_inv s" "c \<in> set (hl_calls s)" "remove1 c (hl_calls s) \<noteq> []"
    "has_subvols (lt_list (hl_layout t))" "lt_cnt (hl_layout t) = lt_cnt (hl_layout s)"
    "hl_calls t = remove1 c (hl_calls s)" "hl_done t = []" "hl_cnt t = int (length (hl_calls s) - 1)"
  shows "heal_inv t"
proof -
  obtain n where "length (hl_calls s) = Suc n" "length (remove1 c (hl_calls s)) = n"
    using after_reply_length[OF assms(2)] by (cases "length (hl_calls s)") auto
  moreover have "hl_calls s \<noteq> []" using assms(2) by auto
  ultimately show ?thesis using assms
    by (auto simp: heal_inv_def list_all_iff dest: notin_set_remove1)
qed

lemma mkdir_reply_inv:
  assumes inv: "heal_inv s" and c: "Mkdir v \<in> set (hl_calls s)"
  shows "\<exists>t. heal_reply al_ok e (Mkdir v) op_ret op_errno s = Inr t \<and> heal_inv t \<and> heal_left t < heal_left s
    \<and> lt_cnt (hl_layout t) = lt_cnt (hl_layout s)"
proof -
  let ?t = "after_mkdir v (op_ret = 0 \<or> op_errno = EEXIST) s"
  have h: "has_subvols (lt_list (hl_layout s))" "lt_cnt (hl_layout s) < 2147483648"
    using inv by (auto simp: heal_inv_def)
  have mk: "\<exists>d \<in> set (hl_calls s). is_mkdir d" using c by (auto simp: is_mkdir_def intro!: bexI[of _ "Mkdir v"])
  have t: "has_subvols (lt_list (hl_layout ?t))" "lt_cnt (hl_layout ?t) = lt_cnt (hl_layout s)" "hl_done ?t = []"
    "hl_calls ?t = remove1 (Mkdir v) (hl_calls s)" "hl_cnt ?t = int (length (hl_calls s) - 1)"
    using h by (auto simp: after_mkdir_def)
  show ?thesis
  proof (cases "hl_calls ?t = []")
    case True
    obtain u where u: "dht_selfheal_dir_xattr al_ok e ?t = Inr u" "heal_inv u"
      "list_all (Not \<circ> is_mkdir) (hl_calls u)" "lt_cnt (hl_layout u) = lt_cnt (hl_layout ?t)"
      using heal_inv_xattr[of ?t e] t h(2) True by auto
    have "0 < length (hl_calls s)" using c by (auto intro: length_pos_if_in_set)
    moreover have "heal_left u = length (hl_calls u)" using u(3) by (auto simp: heal_left_def list_all_iff)
    moreover have "heal_left s = length (hl_calls s) + lt_cnt (hl_layout s)" using mk by (simp add: heal_left_def)
    moreover have "length (hl_calls u) \<le> lt_cnt (hl_layout s)" using u(2,4) t(2) by (simp add: heal_inv_def)
    ultimately have "heal_left u < heal_left s" by linarith
    then show ?thesis using u t True reply_mkdir[OF inv c, of e op_ret op_errno] by auto
  next
    case False
    then have "heal_inv ?t" using t by (intro heal_inv_rest[OF inv c]) auto
    moreover have "heal_left ?t < heal_left s"
      using mk t after_reply_length[OF c] by (auto simp: heal_left_def)
    ultimately show ?thesis using t False reply_mkdir[OF inv c, of e op_ret op_errno] by auto
  qed
qed

lemma setxattr_reply_inv:
  fixes err :: int
  assumes inv: "heal_inv s" and c: "Setxattr v d \<in> set (hl_calls s)"
  defines "t \<equiv> after_setxattr v d err s"
  shows "heal_inv t \<and> heal_left t < heal_left s \<and> lt_cnt (hl_layout t) = lt_cnt (hl_layout s)"
proof -
  have h: "has_subvols (lt_list (hl_layout t))" "lt_cnt (hl_layout t) = lt_cnt (hl_layout s)"
    "lt_cnt (hl_layout s) < 2147483648"
    using inv by (auto simp: heal_inv_def t_def after_setxattr_def)
  have "heal_inv t"
  proof (cases "hl_calls t = []")
    case True
    then show ?thesis using h by (simp add: heal_inv_def) (simp add: t_def after_setxattr_def)
  next
    case False
    then show ?thesis using h by (intro heal_inv_rest[OF inv c]) (auto simp: t_def after_setxattr_def)
  qed
  moreover have "heal_left t < heal_left s"
    using after_reply_length[OF c] by (auto simp: heal_left_def t_def after_setxattr_def dest: notin_set_remove1)
  ultimately show ?thesis using h by blast
qed

lemma heal_reply_inv:
  assumes "heal_inv s" and "c \<in> set (hl_calls s)"
  shows "\<exists>t. heal_reply al_ok e c op_ret op_errno s = Inr t \<and> heal_inv t \<and> heal_left t < heal_left s
    \<and> lt_cnt (hl_layout t) = lt_cnt (hl_layout s)"
  using assms mkdir_reply_inv setxattr_reply_inv reply_setxattr by (cases c) auto

definition layout_ok :: "dht_layout \<Rightarrow> bool" where
  "layout_ok l \<longleftrightarrow> has_subvols (lt_list l) \<and> lt_cnt l < 2147483648"

inductive heal_start :: "bool \<Rightarrow> heal \<Rightarrow> bool" for e where
  directory: "layout_ok layout \<Longrightarrow> dht_selfheal_directory al_ok e conf layout = Inr s \<Longrightarrow> heal_start e s"
| restore: "layout_ok layout \<Longrightarrow> dht_selfheal_restore al_ok e layout = Inr s \<Longrightarrow> heal_start e s"

lemma only_range_subvols: "list_all2 only_range xs ys \<Longrightarrow> has_subvols ys = has_subvols xs \<and> length ys = length xs"
  by (induction rule: list_all2_induct) (auto simp: has_subvols_def dest: only_range_fields)

lemma fix_this_virgin_layout_ok:
  assumes "layout_ok l" "dht_selfheal_fix_this_virgin l = Inr m"
  shows "layout_ok m"
proof -
  have "ranged (lt_list l) \<noteq> []" using assms(2)
    by (auto simp: dht_selfheal_fix_this_virgin_def ranged_def)
  then show ?thesis
    using fix_this_virgin_ok[of l] assms only_range_subvols by (fastforce simp: layout_ok_def)
qed

lemma getafix_layout_ok:
  assumes "layout_ok l" "dht_selfheal_dir_getafix conf a l = Inr (ret, m)"
  shows "layout_ok m"
  using assms fix_this_virgin_layout_ok by (auto simp: dht_selfheal_dir_getafix_def Let_def split: if_splits)

lemma heal_start_inv:
  assumes "heal_start e s"
  shows "heal_inv s"
  using assms
proof cases
  case (directory layout conf)
  then obtain a ret m where m: "dht_selfheal_dir_getafix conf a layout = Inr (ret, m)"
      "(if ret = - 1 then Inr (dht_selfheal_dir_finish ret \<lparr>hl_layout = m, hl_cnt = 0, hl_calls = [], hl_done = []\<rparr>)
        else dht_selfheal_dir_mkdir al_ok e False \<lparr>hl_layout = m, hl_cnt = 0, hl_calls = [], hl_done = []\<rparr>) = Inr s"
    by (auto simp: dht_selfheal_directory_def Let_def)
  have "layout_ok m" by (rule getafix_layout_ok[OF directory(1) m(1)])
  then show ?thesis
    using m(2) heal_inv_mkdir[of "\<lparr>hl_layout = m, hl_cnt = 0, hl_calls = [], hl_done = []\<rparr>" e False]
    by (auto simp: layout_ok_def heal_inv_def dht_selfheal_dir_finish_def split: if_splits)
next
  case (restore layout)
  then show ?thesis
    using heal_inv_mkdir[of "\<lparr>hl_layout = layout, hl_cnt = 0, hl_calls = [], hl_done = []\<rparr>" e True]
    by (auto simp: layout_ok_def dht_selfheal_restore_def)
qed

lemma heal_step_inv:
  assumes "heal_inv s" "heal_step al_ok e s t"
  shows "heal_inv t" "heal_left t < heal_left s" "lt_cnt (hl_layout t) = lt_cnt (hl_layout s)"
  using assms(2) heal_reply_inv[OF assms(1)] by (auto elim!: heal_step.cases) (metis sum.inject(2))+

interpretation heal_sys: step_system "heal_start e" "heal_step al_ok e" heal_inv for e
  by unfold_locales (auto intro: heal_start_inv heal_step_inv)

lemma heal_run_bound:
  assumes "heal_inv s" "(heal_step al_ok e ^^ n) s t"
  shows "heal_left t + n \<le> heal_left s \<and> heal_inv t \<and> lt_cnt (hl_layout t) = lt_cnt (hl_layout s)"
  using assms(2)
proof (induction n arbitrary: t)
  case (Suc n)
  then obtain u where "(heal_step al_ok e ^^ n) s u" "heal_step al_ok e u t" by auto
  with Suc.IH[of u] heal_step_inv[of u e t] show ?case by auto
qed (use assms(1) in simp)

lemma heal_left_bound: "heal_inv s \<Longrightarrow> heal_left s \<le> 2 * lt_cnt (hl_layout s)"
  by (auto simp: heal_inv_def heal_left_def)

lemma heal_completes_ok:
  assumes "heal_inv s"
  shows "\<exists>t. (heal_step_ok e)\<^sup>*\<^sup>* s t \<and> hl_calls t = [] \<and> length (hl_done t) = 1"
  using assms
proof (induction "heal_left s" arbitrary: s rule: less_induct)
  case less
  show ?case
  proof (cases "hl_calls s")
    case Nil
    then show ?thesis using less.prems by (auto simp: heal_inv_def)
  next
    case (Cons c cs)
    then obtain t where "heal_reply al_ok e c 0 0 s = Inr t" "heal_inv t" "heal_left t < heal_left s"
      using heal_reply_inv[OF less.prems, of c e 0 0] by auto
    moreover from this(1) have "heal_step_ok e s t" using Cons by (cases c) (auto intro: heal_step_ok.intros)
    ultimately show ?thesis using less.hyps[of t] by (meson converse_rtranclp_into_rtranclp)
  qed
qed

lemma heal_step_ok_step: "heal_step_ok e s t \<Longrightarrow> heal_step al_ok e s t"
  by (auto elim!: heal_step_ok.cases intro: heal_step.intros)

lemma heal_completes:
  assumes "heal_inv s"
  shows "\<exists>t. (heal_step al_ok e)\<^sup>*\<^sup>* s t \<and> hl_calls t = [] \<and> length (hl_done t) = 1"
  using heal_completes_ok[OF assms, of e] mono_rtranclp[of "heal_step_ok e" "heal_step al_ok e"] heal_step_ok_step
  by blast

section \<open>A fresh directory, from the lookup to the last reply\<close>

definition rng :: "layout_entry \<Rightarrow> u32 \<times> u32" where
  "rng x = (le_start x, le_stop x)"

lemma gapless_rng: "map rng xs = map rng ys \<Longrightarrow> gapless p xs = gapless p ys"
  by (induction xs ys arbitrary: p rule: list_induct2') (auto simp: rng_def)

lemma last_stop_rng: "map rng xs = map rng ys \<Longrightarrow> last_stop_of p xs = last_stop_of p ys"
  by (induction xs ys arbitrary: p rule: list_induct2') (auto simp: rng_def)

lemma apart_rng:
  assumes "map rng xs = map rng ys"
  shows "sorted_wrt (\<lambda>x y. le_stop x < le_start y) xs = sorted_wrt (\<lambda>x y. le_stop x < le_start y) ys"
proof -
  have "sorted_wrt (\<lambda>x y. le_stop x < le_start y) zs = sorted_wrt (\<lambda>a b. snd a < fst b) (map rng zs)" for zs
    by (simp add: sorted_wrt_map rng_def)
  with assms show ?thesis by metis
qed

lemma ranges_serve_once:
  assumes "ranges_from 0 fs" "fs \<noteq> []" "map rng (sound ys) = map rng fs"
  shows "length (serving h ys) = 1"
proof -
  have r: "gapless (- 1) fs" "last_stop_of (- 1) fs = - 1" "sorted_wrt (\<lambda>x y. le_stop x < le_start y) fs"
    using assms(1) by (auto simp: ranges_from_def)
  have g: "gapless (- 1) (sound ys)" "last_stop_of (- 1) (sound ys) = - 1"
      "sorted_wrt (\<lambda>x y. le_stop x < le_start y) (sound ys)"
    using r gapless_rng[OF assms(3)] last_stop_rng[OF assms(3)] apart_rng[OF assms(3)] by auto
  have ne: "sound ys \<noteq> []" using assms(2,3) by auto
  with g(1) have "le_start (hd (sound ys)) = 0" by (cases "sound ys") auto
  then have "\<exists>x \<in> set (sound ys). covers h x"
    using gapless_covers[OF g(1) ne, of h] g(2) by (auto simp: set_sound)
  then have "serving h (sound ys) \<noteq> []" by (auto simp: serving_def filter_empty_conv)
  moreover have "length (serving h (sound ys)) \<le> 1" by (rule apart_once[OF g(3)])
  ultimately show ?thesis unfolding serving_sound by (cases "serving h ys") auto
qed

text \<open>
  The layout with its ranges is \<open>fs\<close>. An entry that got a range is written (error 0) or still to be
  written (error -1); the others never lose their error.
\<close>

definition pend :: "heal_call list \<Rightarrow> nat option \<Rightarrow> bool" where
  "pend cs v \<longleftrightarrow> cs \<noteq> [] \<and> list_all is_mkdir cs \<or> (\<exists>w d. v = Some w \<and> Setxattr w d \<in> set cs)"

definition progress :: "heal_call list \<Rightarrow> layout_entry \<Rightarrow> layout_entry \<Rightarrow> bool" where
  "progress cs f y \<longleftrightarrow> rng y = rng f \<and> le_xlator y = le_xlator f
     \<and> (if unset f then le_err y = 0 \<or> le_err y = - 1 \<and> pend cs (le_xlator f) else le_err y \<noteq> 0)"

definition targets_ok :: "layout_entry list \<Rightarrow> heal_call list \<Rightarrow> bool" where
  "targets_ok fs cs \<longleftrightarrow> (\<forall>c \<in> set cs. case c of
       Mkdir v \<Rightarrow> (\<exists>f \<in> set fs. \<not> unset f \<and> le_xlator f = Some v)
     | Setxattr v d \<Rightarrow> (\<exists>f \<in> set fs. unset f \<and> le_xlator f = Some v))"

definition fresh_inv :: "layout_entry list \<Rightarrow> heal \<Rightarrow> bool" where
  "fresh_inv fs s \<longleftrightarrow> heal_inv s \<and> list_all2 (progress (hl_calls s)) fs (lt_list (hl_layout s))
     \<and> targets_ok fs (hl_calls s) \<and> set (hl_done s) \<subseteq> {0}"

definition ranges_given :: "layout_entry list \<Rightarrow> bool" where
  "ranges_given fs \<longleftrightarrow> distinct (map le_xlator fs) \<and> has_subvols fs
     \<and> (\<forall>f \<in> set fs. if unset f then le_stop f \<noteq> 0 else le_stop f = 0)"

lemma set_subvol_err_map:
  assumes "distinct (map le_xlator xs)"
  shows "set_subvol_err v err xs = map (\<lambda>x. if le_xlator x = Some v then x\<lparr>le_err := err\<rparr> else x) xs"
  using assms
proof (induction xs)
  case (Cons x xs)
  have "map (\<lambda>x. if le_xlator x = Some v then x\<lparr>le_err := err\<rparr> else x) xs = xs" if "le_xlator x = Some v"
    using Cons.prems that by (intro map_idI) (auto simp: image_iff)
  with Cons show ?case by auto
qed simp

lemma progress_xlators: "list_all2 (progress cs) fs ys \<Longrightarrow> map le_xlator ys = map le_xlator fs"
  by (induction rule: list_all2_induct) (auto simp: progress_def)

text \<open>A reply sets the error of the one entry of its subvolume.\<close>

lemma progress_mark:
  assumes "list_all2 (progress cs) fs ys" "distinct (map le_xlator fs)"
    and "\<And>f y. progress cs f y \<Longrightarrow> f \<in> set fs \<Longrightarrow> le_xlator f \<noteq> Some v \<Longrightarrow> progress cs' f y"
    and "\<And>f y. progress cs f y \<Longrightarrow> f \<in> set fs \<Longrightarrow> le_xlator f = Some v \<Longrightarrow> progress cs' f (y\<lparr>le_err := err\<rparr>)"
  shows "list_all2 (progress cs') fs (set_subvol_err v err ys)"
proof -
  have "distinct (map le_xlator ys)" using assms(2) progress_xlators[OF assms(1)] by simp
  then have m: "set_subvol_err v err ys = map (\<lambda>x. if le_xlator x = Some v then x\<lparr>le_err := err\<rparr> else x) ys"
    by (rule set_subvol_err_map)
  have "progress cs' f (if le_xlator y = Some v then y\<lparr>le_err := err\<rparr> else y)"
    if "progress cs f y" "f \<in> set fs" for f y
  proof -
    have "le_xlator y = le_xlator f" using that(1) by (simp add: progress_def)
    with that assms(3,4)[of f y] show ?thesis by auto
  qed
  then show ?thesis unfolding m list_all2_map2
    by (intro list.rel_mono_strong[OF assms(1)])
qed

lemma fresh_setxattr:
  assumes "fresh_inv fs s" "ranges_given fs" "Setxattr v d \<in> set (hl_calls s)"
  shows "fresh_inv fs (after_setxattr v d 0 s)"
proof -
  let ?cs = "hl_calls s" and ?cs' = "remove1 (Setxattr v d) (hl_calls s)"
  have f: "heal_inv s" "list_all2 (progress ?cs) fs (lt_list (hl_layout s))" "targets_ok fs ?cs"
    using assms(1) by (auto simp: fresh_inv_def)
  have dist: "distinct (map le_xlator fs)" using assms(2) by (simp add: ranges_given_def)
  have nm: "\<not> list_all is_mkdir ?cs" using assms(3) by (force simp: list_all_iff is_mkdir_def)
  have p: "pend ?cs' w" if w: "pend ?cs w" "w \<noteq> Some v" for w
  proof -
    obtain x d' where x: "w = Some x" "Setxattr x d' \<in> set ?cs" using w(1) nm by (auto simp: pend_def)
    with w(2) have "Setxattr x d' \<in> set ?cs'" by simp
    with x show ?thesis unfolding pend_def by blast
  qed
  obtain g where g: "g \<in> set fs" "unset g" "le_xlator g = Some v"
    using f(3) assms(3) by (fastforce simp: targets_ok_def)
  have u: "unset f" if "f \<in> set fs" "le_xlator f = Some v" for f
    using that g dist by (metis (no_types, lifting) distinct_map inj_on_def)
  have "list_all2 (progress ?cs') fs (set_subvol_err v 0 (lt_list (hl_layout s)))"
    by (rule progress_mark[OF f(2) dist]) (use p u in \<open>auto simp: progress_def rng_def split: if_splits\<close>)
  moreover have "targets_ok fs ?cs'" using f(3) by (auto simp: targets_ok_def dest: notin_set_remove1)
  moreover have "heal_inv (after_setxattr v d 0 s)" using setxattr_reply_inv[OF f(1) assms(3)] by blast
  ultimately show ?thesis by (auto simp: fresh_inv_def after_setxattr_def)
qed

lemma fresh_after_mkdir:
  assumes "fresh_inv fs s" "ranges_given fs" "Mkdir v \<in> set (hl_calls s)"
  shows "list_all2 (progress [Mkdir v]) fs (lt_list (hl_layout (after_mkdir v ok s)))"
    "targets_ok fs (hl_calls (after_mkdir v ok s))"
    "hl_calls (after_mkdir v ok s) \<noteq> [] \<Longrightarrow>
       list_all2 (progress (hl_calls (after_mkdir v ok s))) fs (lt_list (hl_layout (after_mkdir v ok s)))"
proof -
  let ?cs = "hl_calls s" and ?cs' = "remove1 (Mkdir v) (hl_calls s)"
  have f: "heal_inv s" "list_all2 (progress ?cs) fs (lt_list (hl_layout s))" "targets_ok fs ?cs"
    using assms(1) by (auto simp: fresh_inv_def)
  have dist: "distinct (map le_xlator fs)" using assms(2) by (simp add: ranges_given_def)
  have am: "list_all is_mkdir ?cs" using f(1) assms(3) by (auto simp: heal_inv_def list_all_iff is_mkdir_def split: if_splits heal_call.splits)
  have pm: "pend cs w" if "cs \<noteq> []" "list_all is_mkdir cs" for cs w using that by (simp add: pend_def)
  obtain g where g: "g \<in> set fs" "\<not> unset g" "le_xlator g = Some v"
    using f(3) assms(3) by (fastforce simp: targets_ok_def)
  have u: "\<not> unset f" if "f \<in> set fs" "le_xlator f = Some v" for f
    using that g dist by (metis (no_types, lifting) distinct_map inj_on_def)
  have pr: "list_all2 (progress cs) fs (lt_list (hl_layout (after_mkdir v ok s)))"
    if "cs \<noteq> []" "list_all is_mkdir cs" for cs
  proof (cases ok)
    case True
    have "list_all2 (progress cs) fs (set_subvol_err v (- 1) (lt_list (hl_layout s)))"
      by (rule progress_mark[OF f(2) dist]) (use pm[OF that] u in \<open>auto simp: progress_def rng_def split: if_splits\<close>)
    with True show ?thesis by (simp add: after_mkdir_def)
  next
    case False
    have "list_all2 (progress cs) fs (lt_list (hl_layout s))"
      by (rule list.rel_mono_strong[OF f(2)]) (use pm[OF that] in \<open>auto simp: progress_def split: if_splits\<close>)
    with False show ?thesis by (simp add: after_mkdir_def)
  qed
  show "list_all2 (progress [Mkdir v]) fs (lt_list (hl_layout (after_mkdir v ok s)))"
    by (rule pr) (simp_all add: is_mkdir_def)
  show "targets_ok fs (hl_calls (after_mkdir v ok s))"
    using f(3) by (auto simp: targets_ok_def after_mkdir_def dest: notin_set_remove1)
  have "list_all is_mkdir ?cs'" using am by (auto simp: list_all_iff dest: notin_set_remove1)
  then show "hl_calls (after_mkdir v ok s) \<noteq> [] \<Longrightarrow>
       list_all2 (progress (hl_calls (after_mkdir v ok s))) fs (lt_list (hl_layout (after_mkdir v ok s)))"
    by (intro pr) (simp_all add: after_mkdir_def)
qed

text \<open>The ranges are written once every directory has been asked for.\<close>

lemma fresh_dir_xattr:
  assumes "list_all2 (progress [Mkdir v]) fs (lt_list (hl_layout s))" "ranges_given fs"
    "lt_cnt (hl_layout s) < 2147483648" "hl_calls s = []" "hl_done s = []"
  shows "\<exists>t. dht_selfheal_dir_xattr al_ok e s = Inr t \<and> fresh_inv fs t"
proof -
  let ?ys = "lt_list (hl_layout s)"
  let ?ms = "filter needs_xattr ?ys"
  let ?cs = "map (xattr_call e (hl_layout s)) ?ms"
  have "has_subvols ?ys"
    using assms(2) progress_xlators[OF assms(1)] unfolding ranges_given_def has_subvols_xlators by metis
  then obtain t where t: "dht_selfheal_dir_xattr al_ok e s = Inr t" "heal_inv t"
      "lt_list (hl_layout t) = ?ys" "hl_calls t = ?cs" "set (hl_done t) \<subseteq> {0}"
    using heal_inv_xattr[of s e] dir_xattr_ok[of s e] assms(3-5) by (auto simp: Let_def split: if_splits)
  have y: "needs_xattr y \<longleftrightarrow> unset f \<and> le_err y = - 1" if "f \<in> set fs" "progress [Mkdir v] f y" for f y
    using that assms(2) by (auto simp: needs_xattr_def ranges_given_def progress_def rng_def unset_def split: if_splits)
  have "list_all2 (progress ?cs) fs ?ys"
  proof (rule list.rel_mono_strong[OF assms(1)])
    fix f y
    assume fy: "f \<in> set fs" "y \<in> set ?ys" "progress [Mkdir v] f y"
    show "progress ?cs f y"
    proof (cases "unset f \<and> le_err y = - 1")
      case True
      obtain w where w: "le_xlator y = Some w" using \<open>has_subvols ?ys\<close> fy(2) by (auto simp: has_subvols_def)
      have "Setxattr w (Some (disk_of e (hl_layout s) y)) \<in> set ?cs"
        using y[OF fy(1,3)] True fy(2) w by (auto simp: xattr_call_def intro!: rev_image_eqI[of y])
      then have "pend ?cs (le_xlator y)" unfolding pend_def using w by blast
      with fy(3) True show ?thesis by (simp add: progress_def)
    next
      case False
      with fy(3) show ?thesis by (auto simp: progress_def split: if_splits)
    qed
  qed
  moreover have "targets_ok fs ?cs"
    unfolding targets_ok_def
  proof
    fix c
    assume "c \<in> set ?cs"
    then obtain z where z: "z \<in> set ?ys" "needs_xattr z" "c = xattr_call e (hl_layout s) z" by auto
    then obtain f where f: "f \<in> set fs" "progress [Mkdir v] f z"
      using assms(1) by (metis in_set_conv_nth list_all2_conv_all_nth)
    have "le_xlator z = le_xlator f" using f(2) by (simp add: progress_def)
    moreover obtain w where "le_xlator z = Some w" using \<open>has_subvols ?ys\<close> z(1) by (auto simp: has_subvols_def)
    ultimately have "le_xlator f = Some w" "the (le_xlator z) = w" by (metis option.sel)+
    with f z y[OF f] show "case c of
       Mkdir v \<Rightarrow> (\<exists>f \<in> set fs. \<not> unset f \<and> le_xlator f = Some v)
     | Setxattr v d \<Rightarrow> (\<exists>f \<in> set fs. unset f \<and> le_xlator f = Some v)"
      by (auto simp: xattr_call_def)
  qed
  ultimately show ?thesis using t by (simp add: fresh_inv_def)
qed

lemma fresh_mkdir:
  assumes "fresh_inv fs s" "ranges_given fs" "Mkdir v \<in> set (hl_calls s)"
    "heal_reply al_ok e (Mkdir v) op_ret op_errno s = Inr t"
  shows "fresh_inv fs t"
proof -
  let ?u = "after_mkdir v (op_ret = 0 \<or> op_errno = EEXIST) s"
  have inv: "heal_inv s" using assms(1) by (simp add: fresh_inv_def)
  note am = fresh_after_mkdir[OF assms(1-3), where ok = "op_ret = 0 \<or> op_errno = EEXIST"]
  have t: "heal_inv t" using mkdir_reply_inv[OF inv assms(3), of e op_ret op_errno] assms(4) by auto
  show ?thesis
  proof (cases "hl_calls ?u = []")
    case True
    have "lt_cnt (hl_layout ?u) < 2147483648" "hl_done ?u = []"
      using inv by (auto simp: after_mkdir_def heal_inv_def)
    with True am(1) have "\<exists>t. dht_selfheal_dir_xattr al_ok e ?u = Inr t \<and> fresh_inv fs t"
      by (intro fresh_dir_xattr[OF _ assms(2)]) auto
    then show ?thesis using True assms(4) reply_mkdir[OF inv assms(3), of e op_ret op_errno] by auto
  next
    case False
    then have "t = ?u" using assms(4) reply_mkdir[OF inv assms(3), of e op_ret op_errno] by simp
    with False am t show ?thesis by (auto simp: fresh_inv_def) (simp add: after_mkdir_def)
  qed
qed

lemma fresh_step:
  assumes "heal_step_ok e s t" "fresh_inv fs s" "ranges_given fs"
  shows "fresh_inv fs t"
  using assms(1)
proof cases
  case mkdir
  then show ?thesis using fresh_mkdir[OF assms(2,3)] by blast
next
  case (setxattr v d op_errno)
  have "heal_inv s" using assms(2) by (simp add: fresh_inv_def)
  with setxattr have "t = after_setxattr v d 0 s" using reply_setxattr by simp
  with setxattr(1) show ?thesis using fresh_setxattr[OF assms(2,3)] by simp
qed

lemma fresh_finished:
  assumes "fresh_inv fs s" "hl_calls s = []" "ranges_from 0 (ranged fs)" "ranged fs \<noteq> []"
  shows "hl_done s = [0]" "length (serving h (lt_list (hl_layout s))) = 1"
proof -
  have "length (hl_done s) = 1" "set (hl_done s) \<subseteq> {0}" using assms(1,2) by (auto simp: fresh_inv_def heal_inv_def)
  then show "hl_done s = [0]" by (cases "hl_done s") auto
  have "list_all2 (progress []) fs (lt_list (hl_layout s))" using assms(1,2) by (simp add: fresh_inv_def)
  then have "map rng (sound (lt_list (hl_layout s))) = map rng (ranged fs)"
    by (induction rule: list_all2_induct) (auto simp: progress_def ranged_def pend_def split: if_splits)
  then show "length (serving h (lt_list (hl_layout s))) = 1" by (rule ranges_serve_once[OF assms(3,4)])
qed

text \<open>
  A fresh directory: one entry per subvolume, none with a range, at least one of a subvolume on
  which the directory exists, the others missing or down.
\<close>

definition fresh_layout :: "dht_conf \<Rightarrow> dht_layout \<Rightarrow> bool" where
  "fresh_layout conf l \<longleftrightarrow> lt_cnt l = length (subvolumes conf) \<and> lt_cnt l < 2147483648
     \<and> distinct (map le_xlator (lt_list l)) \<and> has_subvols (lt_list l)
     \<and> (\<exists>x \<in> set (lt_list l). unset x)
     \<and> (\<forall>x \<in> set (lt_list l). le_stop x = 0 \<and> (unset x \<or> le_err x = ENOENT \<or> le_err x = ENOTCONN))"

lemma scan_down_missing:
  assumes "\<forall>x \<in> set xs. unset x \<or> le_err x = ENOENT \<or> le_err x = ENOTCONN"
  shows "\<exists>m d. m + d = length xs \<and> an_missing (fold anomaly_step xs s) = an_missing s + of_nat m
    \<and> an_down (fold anomaly_step xs s) = an_down s + of_nat d"
  using assms
proof (induction xs arbitrary: s)
  case (Cons x xs)
  obtain m d where md: "m + d = length xs"
    "an_missing (fold anomaly_step xs (anomaly_step x s)) = an_missing (anomaly_step x s) + of_nat m"
    "an_down (fold anomaly_step xs (anomaly_step x s)) = an_down (anomaly_step x s) + of_nat d"
    using Cons by (metis list.set_intros(2))
  show ?case
  proof (cases "le_err x = ENOTCONN")
    case True
    with md have "m + Suc d = length (x # xs) \<and> an_missing (fold anomaly_step (x # xs) s) = an_missing s + of_nat m
      \<and> an_down (fold anomaly_step (x # xs) s) = an_down s + of_nat (Suc d)"
      by (simp add: anomaly_step_def[of x])
    then show ?thesis by blast
  next
    case False
    with Cons.prems md have "Suc m + d = length (x # xs)
      \<and> an_missing (fold anomaly_step (x # xs) s) = an_missing s + of_nat (Suc m)
      \<and> an_down (fold anomaly_step (x # xs) s) = an_down s + of_nat d"
      by (auto simp: anomaly_step_def[of x] unset_def)
    then show ?thesis by blast
  qed
qed auto

lemma anomalies_virgin:
  assumes "fresh_layout conf l"
  obtains a where "dht_layout_anomalies l = Inr a"
    "wrap32 (sint (an_missing a) + sint (an_down a)) = int (length (subvolumes conf))"
proof -
  have l: "lt_list l \<noteq> []" "lt_cnt l < 2147483648" using assms by (auto simp: fresh_layout_def)
  let ?s = "\<lparr>hole_cnt = 0, overlap_cnt = 0, an_missing = 0, an_down = 0, an_misc = 0,
    prev_stop = le_start (lt_list l ! 0) - 1, is_virgin = True\<rparr> :: anomaly_scan"
  obtain m d where md: "m + d = lt_cnt l" "an_missing (fold anomaly_step (lt_list l) ?s) = of_nat m"
    "an_down (fold anomaly_step (lt_list l) ?s) = of_nat d"
    using scan_down_missing[of "lt_list l" ?s] assms by (auto simp: fresh_layout_def)
  have "unat (of_nat k :: u32) = k" if "k \<le> lt_cnt l" for k
    using that l(2) by (simp add: unat_of_nat)
  then have s: "sint (of_nat k :: u32) = int k" if "k \<le> lt_cnt l" for k
    using that l(2) sint_small[of "of_nat k"] by simp
  have "sint (of_nat m :: u32) + sint (of_nat d :: u32) = int (lt_cnt l)"
    using md(1) by (simp only: s le_add1 le_add2 flip: md(1))
  moreover obtain a where "dht_layout_anomalies l = Inr a" "an_missing a = of_nat m" "an_down a = of_nat d"
    using l(1) md by (auto simp: dht_layout_anomalies_def Let_def)
  ultimately show thesis using that[of a] assms l by (simp add: fresh_layout_def)
qed

lemma fresh_ranges_given:
  assumes "fresh_layout conf l" "list_all2 only_range (lt_list l) fs" "ranges_from 0 (ranged fs)"
  shows "ranges_given fs" "ranged fs \<noteq> []"
proof -
  have x: "map le_xlator fs = map le_xlator (lt_list l)"
    using assms(2) by (induction rule: list_all2_induct) (auto dest: only_range_fields)
  have "\<forall>f \<in> set fs. \<not> unset f \<longrightarrow> le_stop f = 0"
  proof (intro ballI impI)
    fix f
    assume f: "f \<in> set fs" "\<not> unset f"
    then obtain y where y: "y \<in> set (lt_list l)" "only_range y f"
      using assms(2) by (metis in_set_conv_nth list_all2_conv_all_nth)
    have "\<not> unset y" using only_range_fields[OF y(2)] f(2) by (simp add: unset_def)
    with y(2) have "y = f" by (simp add: only_range_def)
    with y assms(1) show "le_stop f = 0" by (auto simp: fresh_layout_def)
  qed
  moreover have "\<forall>f \<in> set fs. unset f \<longrightarrow> le_stop f \<noteq> 0"
    using assms(3) by (auto simp: ranges_from_def ranged_def)
  moreover have "has_subvols fs" using assms(1) x unfolding has_subvols_xlators fresh_layout_def by metis
  ultimately show "ranges_given fs" using assms(1) x by (simp add: ranges_given_def fresh_layout_def)
  have "ranged (lt_list l) \<noteq> []" using assms(1) by (auto simp: fresh_layout_def ranged_def filter_empty_conv)
  then show "ranged fs \<noteq> []" using only_range_ranged[OF assms(2)] by auto
qed

lemma fresh_start:
  assumes "fresh_layout conf l"
  shows "\<exists>fs s. dht_selfheal_directory al_ok e conf l = Inr s \<and> fresh_inv fs s \<and> ranges_given fs
    \<and> ranges_from 0 (ranged fs) \<and> ranged fs \<noteq> []"
proof -
  obtain a where a: "dht_layout_anomalies l = Inr a"
    "wrap32 (sint (an_missing a) + sint (an_down a)) = int (length (subvolumes conf))"
    by (rule anomalies_virgin[OF assms])
  obtain fs where fs: "dht_selfheal_fix_this_virgin l = Inr (l\<lparr>lt_list := fs\<rparr>)"
    "list_all2 only_range (lt_list l) fs" "ranges_from 0 (ranged fs)"
    using fix_this_virgin_ok[of l] assms by (auto simp: fresh_layout_def ranged_def filter_empty_conv)
  note g = fresh_ranges_given[OF assms fs(2,3)]
  let ?s = "\<lparr>hl_layout = l\<lparr>lt_list := fs\<rparr>, hl_cnt = 0, hl_calls = [], hl_done = []\<rparr>"
  have d: "dht_selfheal_directory al_ok e conf l = dht_selfheal_dir_mkdir al_ok e False ?s"
    using a fs(1) by (simp add: dht_selfheal_directory_def dht_selfheal_dir_getafix_def Let_def)
  have len: "length fs < 2147483648" using fs(2) assms by (auto simp: fresh_layout_def dest: list_all2_lengthD)
  have hs: "has_subvols fs" using g(1) by (simp add: ranges_given_def)
  have ne: "\<forall>f \<in> set fs. \<not> unset f \<longrightarrow> le_err f \<noteq> 0"
  proof (intro ballI impI)
    fix f
    assume f: "f \<in> set fs" "\<not> unset f"
    then obtain y where y: "y \<in> set (lt_list l)" "only_range y f"
      using fs(2) by (metis in_set_conv_nth list_all2_conv_all_nth)
    with f only_range_fields[OF y(2)] assms show "le_err f \<noteq> 0" by (auto simp: fresh_layout_def unset_def)
  qed
  have pr: "list_all2 (progress cs) fs fs" if "cs \<noteq> []" "list_all is_mkdir cs" for cs
    using that ne by (auto simp: list_all2_same progress_def pend_def unset_def)
  have "\<exists>s. dht_selfheal_dir_mkdir al_ok e False ?s = Inr s \<and> fresh_inv fs s"
  proof (cases "filter (needs_dir False) fs = []")
    case True
    then have "dht_selfheal_dir_mkdir al_ok e False ?s = dht_selfheal_dir_xattr al_ok e ?s"
      using hs by (simp add: dir_mkdir_ok)
    then show ?thesis using fresh_dir_xattr[of undefined fs ?s e] pr[of "[Mkdir undefined]"] g(1) len
      by (simp add: is_mkdir_def)
  next
    case False
    let ?cs = "map (\<lambda>x. Mkdir (the (le_xlator x))) (filter (needs_dir False) fs)"
    obtain s where s: "dht_selfheal_dir_mkdir al_ok e False ?s = Inr s" "heal_inv s"
        "lt_list (hl_layout s) = fs" "hl_calls s = ?cs" "hl_done s = []"
      using False hs len heal_inv_mkdir[of ?s e False] by (auto simp: dir_mkdir_ok Let_def)
    have "targets_ok fs ?cs"
      using hs by (force simp: targets_ok_def needs_dir_def unset_def has_subvols_def)
    moreover have "list_all2 (progress ?cs) fs fs" using False by (intro pr) (auto simp: list_all_iff is_mkdir_def)
    ultimately show ?thesis using s by (auto simp: fresh_inv_def)
  qed
  with d g fs(3) show ?thesis by auto
qed

section \<open>Properties\<close>

definition ex_virgin :: dht_layout where
  "ex_virgin = ex_layout [ex_entry (- 1) 0 0 7, ex_entry 2 0 0 8, ex_entry (- 1) 0 0 9]"

definition ex_conf3 :: dht_conf where
  "ex_conf3 = \<lparr>subvolumes = [7, 8, 9], subvolume_status = [True, True, True], file_layouts = None\<rparr>"

definition ex_heal :: heal where
  "ex_heal = (case dht_selfheal_directory al_ok True ex_conf3 ex_virgin of Inr s \<Rightarrow> s)"

lemma ex_heal_start: "heal_start True ex_heal"
proof (rule directory)
  show "layout_ok ex_virgin" by (simp add: layout_ok_def ex_virgin_def ex_layout_def ex_entry_def has_subvols_def)
  have "\<exists>s. dht_selfheal_directory al_ok True ex_conf3 ex_virgin = Inr s"
    by (simp add: dht_selfheal_directory_def ex_virgin_def ex_layout_def ex_entry_def dht_layout_anomalies_def
        dht_selfheal_dir_getafix_def anomaly_step_def ex_conf3_def dht_selfheal_fix_this_virgin_def
        dht_selfheal_dir_mkdir_def unset_def needs_dir_def)
  then show "dht_selfheal_directory al_ok True ex_conf3 ex_virgin = Inr ex_heal"
    by (auto simp: ex_heal_def)
qed

text \<open>C17. A repair calls its caller back once. In every state reached from the start of a repair, by
  replies in any order and with any result, the count of the frame is the number of calls still to
  be answered while there is one, the caller has then not been called back, and it has been called
  back exactly once when no call is left. Allocations are assumed to succeed.\<close>

theorem heal_calls_back_once:
  assumes "heal_start e s" and "(heal_step al_ok e)\<^sup>*\<^sup>* s t"
  shows "if hl_calls t = [] then length (hl_done t) = 1
    else hl_done t = [] \<and> hl_cnt t = int (length (hl_calls t))"
  using heal_sys.inv_reach[OF assms] by (simp add: heal_inv_def split: if_splits)

theorem heal_calls_back_once_witness:
  "if hl_calls ex_heal = [] then length (hl_done ex_heal) = 1
    else hl_done ex_heal = [] \<and> hl_cnt ex_heal = int (length (hl_calls ex_heal))"
  by (rule heal_calls_back_once[OF ex_heal_start]) simp

text \<open>C25. A repair ends when all allocations succeed: whatever the subvolumes reply, there are at most
  twice as many replies as subvolumes, no reply to an outstanding call faults, and every run can be
  completed to one in which the caller was called back. A failed allocation is not covered: it calls the
  callback with a cookie of the wrong kind.\<close>

theorem heal_terminates:
  assumes "heal_start e s" and "(heal_step al_ok e ^^ n) s t"
  shows "n \<le> 2 * lt_cnt (hl_layout s)
    \<and> (\<forall>c \<in> set (hl_calls t). \<forall>op_ret op_errno. \<exists>u. heal_reply al_ok e c op_ret op_errno t = Inr u)
    \<and> (\<exists>u. (heal_step al_ok e)\<^sup>*\<^sup>* t u \<and> hl_calls u = [] \<and> length (hl_done u) = 1)"
proof -
  have inv: "heal_inv s" by (rule heal_start_inv[OF assms(1)])
  have b: "heal_left t + n \<le> heal_left s" "heal_inv t" using heal_run_bound[OF inv assms(2)] by auto
  then have "n \<le> 2 * lt_cnt (hl_layout s)" using heal_left_bound[OF inv] by linarith
  then show ?thesis using heal_reply_inv[OF b(2)] heal_completes[OF b(2)] by blast
qed

theorem heal_terminates_witness:
  "\<exists>u. (heal_step al_ok True)\<^sup>*\<^sup>* ex_heal u \<and> hl_calls u = [] \<and> length (hl_done u) = 1"
  using heal_terminates[OF ex_heal_start, of 0 ex_heal] by simp

text \<open>C7. A fresh directory is served completely after its repair. For a directory that exists on at
  least one subvolume, has no range anywhere, and is missing or out of reach on the others, the
  repair starts without a fault and can run to its end; whenever all calls have been answered, with
  the ranges written successfully, the caller was called back once with 0 and every 32-bit hash is in
  the range of exactly one subvolume. The layout has one slot for each of the fewer than 2^31 subvolumes, each slot a different one,
  every entry is without a range, or its error is \<^verbatim>\<open>ENOENT\<close> or \<^verbatim>\<open>ENOTCONN\<close>, and allocations succeed.
  With no entry of the first kind the source divides by zero, and any other error keeps the ranges from being given.\<close>

theorem fresh_directory_served:
  assumes "fresh_layout conf layout"
  shows "\<exists>s. dht_selfheal_directory al_ok e conf layout = Inr s
    \<and> (\<exists>t. (heal_step_ok e)\<^sup>*\<^sup>* s t \<and> hl_calls t = [])
    \<and> (\<forall>t. (heal_step_ok e)\<^sup>*\<^sup>* s t \<and> hl_calls t = [] \<longrightarrow>
         hl_done t = [0] \<and> (\<forall>h. length (serving h (lt_list (hl_layout t))) = 1))"
proof -
  obtain fs s where s: "dht_selfheal_directory al_ok e conf layout = Inr s" "fresh_inv fs s" "ranges_given fs"
    "ranges_from 0 (ranged fs)" "ranged fs \<noteq> []"
    using fresh_start[OF assms] by blast
  have inv: "heal_inv s" using s(2) by (simp add: fresh_inv_def)
  have "fresh_inv fs t" if "(heal_step_ok e)\<^sup>*\<^sup>* s t" for t
    using that by (induction rule: rtranclp_induct) (use s(2,3) fresh_step in blast)+
  then show ?thesis using s(1) heal_completes_ok[OF inv, of e] fresh_finished[OF _ _ s(4,5)] by blast
qed

theorem fresh_directory_served_witness:
  "\<exists>s t. dht_selfheal_directory al_ok True ex_conf3 ex_virgin = Inr s \<and> (heal_step_ok True)\<^sup>*\<^sup>* s t
    \<and> hl_done t = [0] \<and> (\<forall>h. length (serving h (lt_list (hl_layout t))) = 1)"
proof -
  have "fresh_layout ex_conf3 ex_virgin"
    by (simp add: fresh_layout_def ex_conf3_def ex_virgin_def ex_layout_def ex_entry_def has_subvols_def unset_def)
  then show ?thesis using fresh_directory_served[of ex_conf3 ex_virgin True] by blast
qed

end
