(* ===== verification/Inode_Table.thy ===== *)
theory Inode_Table
  imports Byte_Order
begin

text \<open>
  The inode table, \<^verbatim>\<open>libglusterfs/src/inode.c\<close>: inodes and directory entries (dentries) with their
  reference counts, the hash tables for numbers and names, and the lists of active, recently used
  and dying inodes.

  Inodes and dentries live in a store: \<open>inodes\<close> and \<open>dentries\<close> map addresses to what is allocated
  there, and a released object is no longer in the map, so that an access to it is the fault
  \<open>Use_After_Free\<close>. An intrusive list is the HOL list of the addresses on it. Whether a node is on a
  hash chain, which the code sees from the node itself, is the flag \<open>i_hashed\<close> or \<open>d_hashed\<close>.
  The context array \<^verbatim>\<open>_ctx\<close> of an inode is a list of keys and values, the key 0 being free; the older
  context dictionary of an inode is not modelled. The calls of the translators' \<^verbatim>\<open>forget\<close> callbacks are
  recorded in \<open>forgotten\<close>.

  Releasing an inode releases its dentries, which releases their parents, and so on. The recursion
  is bounded by an argument; the public operations pass the number of dentries ever created plus one.
\<close>

section \<open>Data\<close>

record inode =
  i_nlookup :: u64
  i_generation :: u64
  i_ref :: u32
  i_ino :: u64
  i_mode :: u32
  i_dentry_list :: "nat list"
  i_child_list :: "nat list"
  i_hashed :: bool
  i_ctx :: "(nat \<times> u64) list"

record dentry =
  d_inode :: nat
  d_name :: bytes
  d_parent :: nat
  d_hashed :: bool

record itable =
  inodes :: "nat \<Rightarrow> inode option"
  dentries :: "nat \<Rightarrow> dentry option"
  it_next :: nat
  dt_next :: nat
  root :: nat
  lru_limit :: u32
  inode_hash :: "nat \<Rightarrow> nat list"
  name_hash :: "nat \<Rightarrow> nat list"
  active :: "nat list"
  active_size :: u32
  lru :: "nat list"
  lru_size :: u32
  purge :: "nat list"
  purge_size :: u32
  xl_count :: nat
  forgotten :: "(nat \<times> nat) list"

definition get_inode :: "itable \<Rightarrow> nat \<Rightarrow> fault + inode" where
  "get_inode t a = (case inodes t a of None \<Rightarrow> Inl Use_After_Free | Some i \<Rightarrow> Inr i)"

definition get_dentry :: "itable \<Rightarrow> nat \<Rightarrow> fault + dentry" where
  "get_dentry t d = (case dentries t d of None \<Rightarrow> Inl Use_After_Free | Some x \<Rightarrow> Inr x)"

definition upd_inode :: "nat \<Rightarrow> (inode \<Rightarrow> inode) \<Rightarrow> itable \<Rightarrow> itable" where
  "upd_inode a f t = t\<lparr>inodes := (inodes t)(a := map_option f (inodes t a))\<rparr>"

definition upd_dentry :: "nat \<Rightarrow> (dentry \<Rightarrow> dentry) \<Rightarrow> itable \<Rightarrow> itable" where
  "upd_dentry d f t = t\<lparr>dentries := (dentries t)(d := map_option f (dentries t d))\<rparr>"

section \<open>Hashing\<close>

definition HASHSIZE :: nat where "HASHSIZE = 14057"

text \<open>The characters are signed and the arithmetic is that of a 32-bit \<^verbatim>\<open>int\<close>, the last sum 64-bit unsigned.\<close>

definition hash_name :: "u64 \<Rightarrow> bytes \<Rightarrow> nat" where
  "hash_name par name =
     (let h = (case name of [] \<Rightarrow> 0
               | c # cs \<Rightarrow> foldl (\<lambda>h b. push_bit 5 h - h + scast b) (scast c) cs) :: u32
      in unat ((scast h + par) mod of_nat HASHSIZE))"

definition hash_inode :: "u64 \<Rightarrow> nat" where
  "hash_inode ino = unat (ino mod of_nat HASHSIZE)"

definition dentry_unhash :: "nat \<Rightarrow> itable \<Rightarrow> fault + itable" where
  "dentry_unhash d t =
     bind_f (get_dentry t d) (\<lambda>x.
     bind_f (get_inode t (d_inode x)) (\<lambda>_.
       Inr ((upd_dentry d (\<lambda>x. x\<lparr>d_hashed := False\<rparr>) t)
              \<lparr>name_hash := (\<lambda>b. remove1 d (name_hash t b))\<rparr>)))"

definition dentry_hash :: "nat \<Rightarrow> itable \<Rightarrow> fault + itable" where
  "dentry_hash d t =
     bind_f (get_dentry t d) (\<lambda>x.
     bind_f (get_inode t (d_inode x)) (\<lambda>_.
     bind_f (get_inode t (d_parent x)) (\<lambda>p.
       let h = hash_name (i_ino p) (d_name x);
           t1 = (upd_dentry d (\<lambda>x. x\<lparr>d_hashed := True\<rparr>) t)
                  \<lparr>name_hash := (\<lambda>b. if b = h then d # remove1 d (name_hash t b) else remove1 d (name_hash t b))\<rparr>
       in Inr (upd_inode (d_parent x) (\<lambda>p. p\<lparr>i_child_list := d # remove1 d (i_child_list p)\<rparr>) t1))))"

definition inode_unhash :: "nat \<Rightarrow> itable \<Rightarrow> itable" where
  "inode_unhash a t =
     (upd_inode a (\<lambda>i. i\<lparr>i_hashed := False\<rparr>) t)\<lparr>inode_hash := (\<lambda>b. remove1 a (inode_hash t b))\<rparr>"

definition inode_hash_add :: "nat \<Rightarrow> itable \<Rightarrow> fault + itable" where
  "inode_hash_add a t =
     bind_f (get_inode t a) (\<lambda>i.
       let h = hash_inode (i_ino i)
       in Inr ((upd_inode a (\<lambda>i. i\<lparr>i_hashed := True\<rparr>) t)
            \<lparr>inode_hash := (\<lambda>b. if b = h then a # remove1 a (inode_hash t b) else remove1 a (inode_hash t b))\<rparr>))"

section \<open>Searching\<close>

fun find_inode :: "itable \<Rightarrow> u64 \<Rightarrow> nat list \<Rightarrow> fault + nat option" where
  "find_inode t ino [] = Inr None"
| "find_inode t ino (a # as) =
     bind_f (get_inode t a) (\<lambda>i. if i_ino i = ino then Inr (Some a) else find_inode t ino as)"

definition inode_search_ino :: "itable \<Rightarrow> u64 \<Rightarrow> fault + nat option" where
  "inode_search_ino t ino = find_inode t ino (inode_hash t (hash_inode ino))"

fun find_dentry :: "itable \<Rightarrow> u64 \<Rightarrow> bytes \<Rightarrow> nat list \<Rightarrow> fault + nat option" where
  "find_dentry t par name [] = Inr None"
| "find_dentry t par name (d # ds) =
     bind_f (get_dentry t d) (\<lambda>x.
     bind_f (get_inode t (d_parent x)) (\<lambda>p.
       if i_ino p = par \<and> d_name x = name then Inr (Some d) else find_dentry t par name ds))"

definition dentry_search_for_inode :: "itable \<Rightarrow> nat \<Rightarrow> u64 \<Rightarrow> bytes \<Rightarrow> fault + nat option" where
  "dentry_search_for_inode t a par name =
     bind_f (get_inode t a) (\<lambda>i. find_dentry t par name (i_dentry_list i))"

definition dentry_search :: "itable \<Rightarrow> u64 \<Rightarrow> bytes \<Rightarrow> fault + nat option" where
  "dentry_search t par name = find_dentry t par name (name_hash t (hash_name par name))"

section \<open>Reference counts\<close>

text \<open>A node is on at most one of the three lists; \<^verbatim>\<open>list_move\<close> takes it off the one it is on.\<close>

definition list_del :: "nat \<Rightarrow> itable \<Rightarrow> itable" where
  "list_del a t = t\<lparr>active := remove1 a (active t), lru := remove1 a (lru t), purge := remove1 a (purge t)\<rparr>"

definition inode_activate :: "nat \<Rightarrow> itable \<Rightarrow> itable" where
  "inode_activate a t =
     (let t = list_del a t in t\<lparr>active := a # active t, active_size := active_size t + 1\<rparr>)"

definition inode_ref_locked :: "nat \<Rightarrow> itable \<Rightarrow> fault + itable" where
  "inode_ref_locked a t =
     bind_f (get_inode t a) (\<lambda>i.
       let t = (if i_ref i = 0 then inode_activate a (t\<lparr>lru_size := lru_size t - 1\<rparr>) else t)
       in Inr (upd_inode a (\<lambda>i. i\<lparr>i_ref := i_ref i + 1\<rparr>) t))"

text \<open>
  The last step of \<^verbatim>\<open>__dentry_unset\<close> releases the parent; the function that does it is an argument
  here, because it is the caller.
\<close>

definition dentry_unset_by :: "(nat \<Rightarrow> itable \<Rightarrow> fault + itable) \<Rightarrow> nat \<Rightarrow> itable \<Rightarrow> fault + itable" where
  "dentry_unset_by unref d t =
     bind_f (dentry_unhash d t) (\<lambda>t.
     bind_f (get_dentry t d) (\<lambda>x.
     bind_f (get_inode t (d_parent x)) (\<lambda>_.
       let t = upd_inode (d_inode x) (\<lambda>i. i\<lparr>i_dentry_list := remove1 d (i_dentry_list i)\<rparr>) t;
           t = upd_inode (d_parent x) (\<lambda>p. p\<lparr>i_child_list := remove1 d (i_child_list p)\<rparr>) t
       in bind_f (unref (d_parent x) t) (\<lambda>t.
            Inr (t\<lparr>dentries := (dentries t)(d := None)\<rparr>)))))"

definition is_dentry_hashed :: "itable \<Rightarrow> nat \<Rightarrow> fault + bool" where
  "is_dentry_hashed t d = bind_f (get_dentry t d) (\<lambda>x. Inr (d_hashed x))"

definition unset_if_unhashed :: "(nat \<Rightarrow> itable \<Rightarrow> fault + itable) \<Rightarrow> nat \<Rightarrow> itable \<Rightarrow> fault + itable" where
  "unset_if_unhashed unref d t =
     bind_f (is_dentry_hashed t d) (\<lambda>h. if h then Inr t else dentry_unset_by unref d t)"

definition inode_passivate_by :: "(nat \<Rightarrow> itable \<Rightarrow> fault + itable) \<Rightarrow> nat \<Rightarrow> itable \<Rightarrow> fault + itable" where
  "inode_passivate_by unref a t =
     (let t = list_del a t; t = t\<lparr>lru := lru t @ [a], lru_size := lru_size t + 1\<rparr>
      in bind_f (get_inode t a) (\<lambda>i. foldM (unset_if_unhashed unref) (i_dentry_list i) t))"

definition inode_retire_by :: "(nat \<Rightarrow> itable \<Rightarrow> fault + itable) \<Rightarrow> nat \<Rightarrow> itable \<Rightarrow> fault + itable" where
  "inode_retire_by unref a t =
     (let t = list_del a t; t = t\<lparr>purge := purge t @ [a], purge_size := purge_size t + 1\<rparr>;
          t = inode_unhash a t
      in bind_f (get_inode t a) (\<lambda>i.
           if i_child_list i \<noteq> [] then Inl Assert_Failed
           else foldM (dentry_unset_by unref) (i_dentry_list i) t))"

fun inode_unref_n :: "nat \<Rightarrow> nat \<Rightarrow> itable \<Rightarrow> fault + itable" where
  "inode_unref_n 0 a t = Inl Diverged"
| "inode_unref_n (Suc n) a t =
     bind_f (get_inode t a) (\<lambda>i.
       if i_ino i = 1 then Inr t
       else if i_ref i = 0 then Inl Assert_Failed
       else let t = upd_inode a (\<lambda>i. i\<lparr>i_ref := i_ref i - 1\<rparr>) t
            in if i_ref i - 1 \<noteq> 0 then Inr t
               else let t = t\<lparr>active_size := active_size t - 1\<rparr>
                    in if i_nlookup i \<noteq> 0 \<and> i_hashed i then inode_passivate_by (inode_unref_n n) a t
                       else inode_retire_by (inode_unref_n n) a t)"

definition inode_unref_locked :: "nat \<Rightarrow> itable \<Rightarrow> fault + itable" where
  "inode_unref_locked a t = inode_unref_n (Suc (dt_next t)) a t"

definition dentry_unset :: "nat \<Rightarrow> itable \<Rightarrow> fault + itable" where
  "dentry_unset d t = dentry_unset_by (inode_unref_n (Suc (dt_next t))) d t"

definition inode_retire :: "nat \<Rightarrow> itable \<Rightarrow> fault + itable" where
  "inode_retire a t = inode_retire_by (inode_unref_n (Suc (dt_next t))) a t"

section \<open>Pruning\<close>

text \<open>
  With an empty list \<^verbatim>\<open>lru.next\<close> is the list head itself and is taken for an inode. The loop ends
  because every round moves an inode to the list of the dying ones; its bound is the number of
  inodes ever created.
\<close>

fun prune_loop :: "nat \<Rightarrow> itable \<Rightarrow> fault + itable" where
  "prune_loop n t =
     (if lru_limit t \<noteq> 0 \<and> lru_limit t < lru_size t then
        (case n of
           0 \<Rightarrow> Inl Diverged
         | Suc m \<Rightarrow>
             (case lru t of
                [] \<Rightarrow> Inl Type_Confusion
              | e # es \<Rightarrow> bind_f (inode_retire e (t\<lparr>lru_size := lru_size t - 1\<rparr>)) (prune_loop m)))
      else Inr t)"

declare prune_loop.simps [simp del]

definition inode_forget_locked :: "nat \<Rightarrow> u64 \<Rightarrow> itable \<Rightarrow> fault + itable" where
  "inode_forget_locked a n t =
     bind_f (get_inode t a) (\<lambda>i.
       if i_nlookup i < n then Inl Assert_Failed
       else Inr (upd_inode a (\<lambda>i. i\<lparr>i_nlookup := (if n = 0 then 0 else i_nlookup i - n)\<rparr>) t))"

text \<open>The translators with a context are told in the order of the array.\<close>

definition inode_destroy :: "nat \<Rightarrow> itable \<Rightarrow> fault + itable" where
  "inode_destroy a t =
     bind_f (get_inode t a) (\<lambda>i.
       Inr (t\<lparr>inodes := (inodes t)(a := None),
              forgotten := forgotten t @ map (\<lambda>(k, v). (k, a)) (filter (\<lambda>(k, v). k \<noteq> 0) (i_ctx i))\<rparr>))"

definition inode_table_prune :: "itable \<Rightarrow> fault + itable" where
  "inode_table_prune t =
     bind_f (prune_loop (it_next t) t) (\<lambda>t.
       let dead = purge t
       in foldM (\<lambda>a t. bind_f (inode_forget_locked a 0 t) (inode_destroy a)) dead
            (t\<lparr>purge := [], purge_size := 0\<rparr>))"

definition inode_unref :: "nat \<Rightarrow> itable \<Rightarrow> fault + itable" where
  "inode_unref a t = bind_f (get_inode t a) (\<lambda>_. bind_f (inode_unref_locked a t) inode_table_prune)"

definition inode_ref :: "nat \<Rightarrow> itable \<Rightarrow> fault + itable" where
  "inode_ref a t = inode_ref_locked a t"

section \<open>Creating\<close>

definition inode_create :: "bool \<Rightarrow> itable \<Rightarrow> nat option \<times> itable" where
  "inode_create mem t =
     (if \<not> mem then (None, t)
      else (Some (it_next t),
            t\<lparr>inodes := (inodes t)(it_next t \<mapsto>
                 \<lparr>i_nlookup = 0, i_generation = 0, i_ref = 0, i_ino = 0, i_mode = 0, i_dentry_list = [],
                  i_child_list = [], i_hashed = False, i_ctx = replicate (xl_count t) (0, 0)\<rparr>),
              it_next := it_next t + 1, lru := it_next t # lru t, lru_size := lru_size t + 1\<rparr>))"

definition inode_new :: "bool \<Rightarrow> itable \<Rightarrow> fault + (nat \<times> itable)" where
  "inode_new mem t =
     (case inode_create mem t of
        (None, t) \<Rightarrow> Inl Null_Deref
      | (Some a, t) \<Rightarrow> bind_f (inode_ref_locked a t) (\<lambda>t. Inr (a, t)))"

text \<open>The result of the allocation of a dentry is not checked.\<close>

definition dentry_create :: "bool \<Rightarrow> nat \<Rightarrow> nat \<Rightarrow> bytes \<Rightarrow> itable \<Rightarrow> fault + (nat \<times> itable)" where
  "dentry_create mem a p name t =
     (if \<not> mem then Inl Null_Deref
      else let d = dt_next t;
               t = upd_inode p (\<lambda>p. p\<lparr>i_child_list := d # i_child_list p\<rparr>) t
           in bind_f (get_inode t a) (\<lambda>_.
              bind_f (inode_ref_locked p t) (\<lambda>t.
                Inr (d, upd_inode a (\<lambda>i. i\<lparr>i_dentry_list := d # i_dentry_list i\<rparr>)
                    (t\<lparr>dentries := (dentries t)(d \<mapsto> \<lparr>d_inode = a, d_name = name, d_parent = p, d_hashed = False\<rparr>),
                       dt_next := d + 1\<rparr>)))))"

section \<open>Linking\<close>

definition copy_dentry :: "(nat \<Rightarrow> bool) \<Rightarrow> nat \<Rightarrow> nat \<Rightarrow> itable \<Rightarrow> fault + itable" where
  "copy_dentry mem newi d t =
     bind_f (get_dentry t d) (\<lambda>x.
     bind_f (get_inode t (d_parent x)) (\<lambda>p.
     bind_f (dentry_search_for_inode t newi (i_ino p) (d_name x)) (\<lambda>tmp.
     bind_f (case tmp of
               None \<Rightarrow> dentry_create (mem (dt_next t)) newi (d_parent x) (d_name x) t
             | Some nd \<Rightarrow> Inr (nd, t)) (\<lambda>(newd, t).
     bind_f (is_dentry_hashed t d) (\<lambda>h.
       if h then bind_f (dentry_unhash d t) (dentry_hash newd) else Inr t)))))"

definition copy_dentries :: "(nat \<Rightarrow> bool) \<Rightarrow> nat \<Rightarrow> nat \<Rightarrow> itable \<Rightarrow> fault + itable" where
  "copy_dentries mem oldi newi t =
     bind_f (get_inode t oldi) (\<lambda>oi. foldM (copy_dentry mem newi) (i_dentry_list oi) t)"

definition adopt_child :: "nat \<Rightarrow> nat \<Rightarrow> nat \<Rightarrow> itable \<Rightarrow> fault + itable" where
  "adopt_child oldi newi d t =
     bind_f (get_dentry t d) (\<lambda>x.
       if d_parent x \<noteq> oldi then Inl Assert_Failed
       else bind_f (inode_unref_locked oldi t) (\<lambda>t.
            bind_f (inode_ref_locked newi t) (\<lambda>t.
              Inr (upd_dentry d (\<lambda>x. x\<lparr>d_parent := newi\<rparr>) t))))"

definition adopt_children :: "nat \<Rightarrow> nat \<Rightarrow> itable \<Rightarrow> fault + itable" where
  "adopt_children oldi newi t =
     bind_f (get_inode t oldi) (\<lambda>oi.
     bind_f (foldM (adopt_child oldi newi) (i_child_list oi) t) (\<lambda>t.
     bind_f (get_inode t oldi) (\<lambda>oi.
       Inr (upd_inode oldi (\<lambda>i. i\<lparr>i_child_list := []\<rparr>)
             (upd_inode newi (\<lambda>i. i\<lparr>i_child_list := i_child_list oi @ i_child_list i\<rparr>) t)))))"

definition inode_replace :: "(nat \<Rightarrow> bool) \<Rightarrow> nat \<Rightarrow> nat \<Rightarrow> itable \<Rightarrow> fault + itable" where
  "inode_replace mem oldi newi t =
     bind_f (copy_dentries mem oldi newi t) (\<lambda>t.
     bind_f (adopt_children oldi newi t) (\<lambda>t.
     bind_f (get_inode t oldi) (\<lambda>oi.
       let t = upd_inode newi (\<lambda>i. i\<lparr>i_nlookup := i_nlookup oi, i_generation := i_generation oi\<rparr>) t;
           t = upd_inode oldi (\<lambda>i. i\<lparr>i_nlookup := 0, i_generation := 0\<rparr>) t;
           t = inode_unhash oldi t
       in bind_f (get_inode t newi) (\<lambda>n. Inr (if i_ino n = 1 then t\<lparr>root := newi\<rparr> else t)))))"

definition link_dentry :: "(nat \<Rightarrow> bool) \<Rightarrow> nat \<Rightarrow> nat \<Rightarrow> bytes \<Rightarrow> itable \<Rightarrow> fault + itable" where
  "link_dentry mem a p name t =
     bind_f (get_inode t p) (\<lambda>pi.
     bind_f (dentry_search_for_inode t a (i_ino pi) name) (\<lambda>r.
     bind_f (case r of
               None \<Rightarrow> dentry_create (mem (dt_next t)) a p name t
             | Some d \<Rightarrow> Inr (d, t)) (\<lambda>(d, t).
     bind_f (dentry_search t (i_ino pi) name) (\<lambda>old.
     bind_f (case old of None \<Rightarrow> Inr t | Some od \<Rightarrow> dentry_unhash od t) (\<lambda>t.
       dentry_hash d t)))))"

definition inode_link_locked ::
  "(nat \<Rightarrow> bool) \<Rightarrow> nat \<Rightarrow> (nat \<times> bytes) option \<Rightarrow> u64 \<Rightarrow> u32 \<Rightarrow> itable \<Rightarrow> fault + itable" where
  "inode_link_locked mem a parent st_ino st_mode t =
     bind_f (get_inode t a) (\<lambda>i.
       if i_ino i \<noteq> 0 \<and> i_ino i \<noteq> st_ino then Inl Assert_Failed
       else let t = upd_inode a (\<lambda>i. i\<lparr>i_ino := st_ino, i_mode := st_mode\<rparr>) t
       in bind_f (inode_search_ino t st_ino) (\<lambda>old.
          bind_f (case old of
                    None \<Rightarrow> Inr t
                  | Some oi \<Rightarrow>
                      if oi = a then Inr t
                      else bind_f (inode_ref_locked oi t) (\<lambda>t.
                           bind_f (inode_replace mem oi a t) (inode_unref_locked oi))) (\<lambda>t.
          bind_f (inode_hash_add a t) (\<lambda>t.
            case parent of
              None \<Rightarrow> Inr t
            | Some (p, name) \<Rightarrow> link_dentry mem a p name t))))"

definition inode_link ::
  "(nat \<Rightarrow> bool) \<Rightarrow> nat \<Rightarrow> (nat \<times> bytes) option \<Rightarrow> u64 \<Rightarrow> u32 \<Rightarrow> itable \<Rightarrow> fault + itable" where
  "inode_link mem a parent st_ino st_mode t =
     bind_f (inode_link_locked mem a parent st_ino st_mode t) inode_table_prune"

section \<open>The other operations\<close>

definition inode_search :: "u64 \<Rightarrow> bytes option \<Rightarrow> itable \<Rightarrow> fault + (nat option \<times> itable)" where
  "inode_search ino name t =
     bind_f (case name of
               None \<Rightarrow> inode_search_ino t ino
             | Some n \<Rightarrow> bind_f (dentry_search t ino n) (\<lambda>r.
                 case r of None \<Rightarrow> Inr None
                 | Some d \<Rightarrow> bind_f (get_dentry t d) (\<lambda>x. Inr (Some (d_inode x))))) (\<lambda>r.
       case r of
         None \<Rightarrow> Inr (None, t)
       | Some a \<Rightarrow> bind_f (inode_ref_locked a t) (\<lambda>t. Inr (Some a, t)))"

text \<open>The inode itself if it is hashed, otherwise the one that is hashed for its number.\<close>

definition hashed_inode :: "nat \<Rightarrow> itable \<Rightarrow> fault + nat" where
  "hashed_inode a t =
     bind_f (get_inode t a) (\<lambda>i.
       if i_hashed i then Inr a
       else bind_f (inode_search_ino t (i_ino i)) (\<lambda>r.
              case r of None \<Rightarrow> Inl Null_Deref | Some b \<Rightarrow> Inr b))"

definition inode_lookup :: "nat \<Rightarrow> itable \<Rightarrow> fault + itable" where
  "inode_lookup a t =
     bind_f (hashed_inode a t) (\<lambda>b.
     bind_f (get_inode t b) (\<lambda>_. Inr (upd_inode b (\<lambda>i. i\<lparr>i_nlookup := i_nlookup i + 1\<rparr>) t)))"

definition inode_forget :: "nat \<Rightarrow> u64 \<Rightarrow> itable \<Rightarrow> fault + itable" where
  "inode_forget a n t =
     bind_f (hashed_inode a t) (\<lambda>b. bind_f (inode_forget_locked b n t) inode_table_prune)"

definition inode_unlink_locked :: "nat \<Rightarrow> nat \<Rightarrow> bytes \<Rightarrow> itable \<Rightarrow> fault + itable" where
  "inode_unlink_locked a p name t =
     bind_f (get_inode t p) (\<lambda>pi.
     bind_f (dentry_search_for_inode t a (i_ino pi) name) (\<lambda>r.
       case r of None \<Rightarrow> Inr t | Some d \<Rightarrow> dentry_unset d t))"

definition inode_unlink :: "nat \<Rightarrow> nat \<Rightarrow> bytes \<Rightarrow> itable \<Rightarrow> fault + itable" where
  "inode_unlink a p name t =
     bind_f (hashed_inode a t) (\<lambda>b. bind_f (inode_unlink_locked b p name t) inode_table_prune)"

text \<open>The part of \<^verbatim>\<open>inode_rename\<close> that runs under the lock of the table.\<close>

definition rename_locked ::
  "(nat \<Rightarrow> bool) \<Rightarrow> nat \<Rightarrow> bytes \<Rightarrow> nat \<Rightarrow> bytes \<Rightarrow> nat \<Rightarrow> u64 \<Rightarrow> u32 \<Rightarrow> itable \<Rightarrow> fault + itable" where
  "rename_locked mem srcdir srcname dstdir dstname a st_ino st_mode t =
     bind_f (hashed_inode a t) (\<lambda>b.
     bind_f (get_inode t dstdir) (\<lambda>dd.
     bind_f (dentry_search t (i_ino dd) dstname) (\<lambda>old.
     bind_f (case old of None \<Rightarrow> Inr t | Some d \<Rightarrow> dentry_unset d t) (\<lambda>t.
     bind_f (inode_unlink_locked b srcdir srcname t) (\<lambda>t.
       inode_link_locked mem b (Some (dstdir, dstname)) st_ino st_mode t)))))"

definition inode_rename ::
  "(nat \<Rightarrow> bool) \<Rightarrow> nat \<Rightarrow> bytes \<Rightarrow> nat \<Rightarrow> bytes \<Rightarrow> nat \<Rightarrow> u64 \<Rightarrow> u32 \<Rightarrow> itable \<Rightarrow> fault + itable" where
  "inode_rename mem srcdir srcname dstdir dstname a st_ino st_mode t =
     bind_f (rename_locked mem srcdir srcname dstdir dstname a st_ino st_mode t) inode_table_prune"

fun first_hashed :: "itable \<Rightarrow> nat list \<Rightarrow> fault + nat option" where
  "first_hashed t [] = Inr None"
| "first_hashed t (d # ds) =
     bind_f (is_dentry_hashed t d) (\<lambda>h. if h then Inr (Some d) else first_hashed t ds)"

definition dentry_search_arbit :: "itable \<Rightarrow> nat \<Rightarrow> fault + nat option" where
  "dentry_search_arbit t a =
     bind_f (get_inode t a) (\<lambda>i.
     bind_f (first_hashed t (i_dentry_list i)) (\<lambda>r.
       case r of Some d \<Rightarrow> Inr (Some d)
       | None \<Rightarrow> Inr (case i_dentry_list i of [] \<Rightarrow> None | d # _ \<Rightarrow> Some d)))"

definition inode_parent :: "nat \<Rightarrow> u64 \<Rightarrow> bytes option \<Rightarrow> itable \<Rightarrow> fault + (nat option \<times> itable)" where
  "inode_parent a par name t =
     bind_f (case name of
               Some n \<Rightarrow> if par \<noteq> 0 then dentry_search_for_inode t a par n else dentry_search_arbit t a
             | None \<Rightarrow> dentry_search_arbit t a) (\<lambda>r.
       case r of
         None \<Rightarrow> Inr (None, t)
       | Some d \<Rightarrow> bind_f (get_dentry t d) (\<lambda>x.
                   bind_f (inode_ref_locked (d_parent x) t) (\<lambda>t. Inr (Some (d_parent x), t))))"

section \<open>The table\<close>

definition empty_table :: "u32 \<Rightarrow> nat \<Rightarrow> itable" where
  "empty_table lim xls =
     \<lparr>inodes = Map.empty, dentries = Map.empty, it_next = 1, dt_next = 1, root = 0, lru_limit = lim,
      inode_hash = (\<lambda>_. []), name_hash = (\<lambda>_. []), active = [], active_size = 0, lru = [], lru_size = 0,
      purge = [], purge_size = 0, xl_count = xls, forgotten = []\<rparr>"

text \<open>The root inode has the number 1; \<^verbatim>\<open>S_IFDIR | 0755\<close> is 16877.\<close>

definition inode_table_init_root :: "bool \<Rightarrow> itable \<Rightarrow> fault + itable" where
  "inode_table_init_root mem t =
     (case inode_create mem t of
        (None, t) \<Rightarrow> Inl Null_Deref
      | (Some r, t) \<Rightarrow> bind_f (inode_link_locked (\<lambda>_. True) r None 1 16877 t) (\<lambda>t. Inr (t\<lparr>root := r\<rparr>)))"

definition inode_table_new :: "bool \<Rightarrow> bool \<Rightarrow> bool \<Rightarrow> bool \<Rightarrow> u32 \<Rightarrow> nat \<Rightarrow> fault + itable option" where
  "inode_table_new mem_t mem_ih mem_nh mem_root lim xls =
     (if \<not> mem_t \<or> \<not> mem_ih \<or> \<not> mem_nh then Inr None
      else bind_f (inode_table_init_root mem_root (empty_table lim xls)) (\<lambda>t. Inr (Some t)))"

section \<open>Contexts\<close>

text \<open>The translator pointer is the key; a null translator is 0. The array has one slot per translator.\<close>

fun ctx_put :: "nat \<Rightarrow> u64 \<Rightarrow> (nat \<times> u64) list \<Rightarrow> (nat \<times> u64) list option" where
  "ctx_put k v [] = None"
| "ctx_put k v ((k', v') # cs) =
     (if k' = 0 \<or> k' = k then Some ((k, v) # cs) else map_option (\<lambda>cs. (k', v') # cs) (ctx_put k v cs))"

definition inode_ctx_put :: "nat \<Rightarrow> nat \<Rightarrow> u64 \<Rightarrow> itable \<Rightarrow> fault + (int \<times> itable)" where
  "inode_ctx_put a xl v t =
     (if xl = 0 then Inr (- 1, t)
      else bind_f (get_inode t a) (\<lambda>i.
        case ctx_put xl v (i_ctx i) of
          None \<Rightarrow> Inr (- 1, t)
        | Some cs \<Rightarrow> Inr (0, upd_inode a (\<lambda>i. i\<lparr>i_ctx := cs\<rparr>) t)))"

fun ctx_get :: "nat \<Rightarrow> (nat \<times> u64) list \<Rightarrow> u64 option" where
  "ctx_get k [] = None"
| "ctx_get k ((k', v') # cs) = (if k' = k then Some v' else ctx_get k cs)"

definition inode_ctx_get :: "nat \<Rightarrow> nat \<Rightarrow> itable \<Rightarrow> fault + (int \<times> u64 option)" where
  "inode_ctx_get a xl t =
     (if xl = 0 then Inr (- 1, None)
      else bind_f (get_inode t a) (\<lambda>i.
        case ctx_get xl (i_ctx i) of None \<Rightarrow> Inr (- 1, None) | Some v \<Rightarrow> Inr (0, Some v)))"

fun ctx_del :: "nat \<Rightarrow> (nat \<times> u64) list \<Rightarrow> (nat \<times> u64) list option" where
  "ctx_del k [] = None"
| "ctx_del k ((k', v') # cs) =
     (if k' = k then Some ((0, 0) # cs) else map_option (\<lambda>cs. (k', v') # cs) (ctx_del k cs))"

definition inode_ctx_del :: "nat \<Rightarrow> nat \<Rightarrow> itable \<Rightarrow> fault + (int \<times> u64 option \<times> itable)" where
  "inode_ctx_del a xl t =
     (if xl = 0 then Inr (- 1, None, t)
      else bind_f (get_inode t a) (\<lambda>i.
        case ctx_del xl (i_ctx i) of
          None \<Rightarrow> Inr (- 1, None, t)
        | Some cs \<Rightarrow> Inr (0, ctx_get xl (i_ctx i), upd_inode a (\<lambda>i. i\<lparr>i_ctx := cs\<rparr>) t)))"

end
