(* ===== verification/Inode_Inv.thy ===== *)
theory Inode_Inv
  imports Inode_Table
begin

text \<open>
  The invariant of the inode table and the proof that releasing an inode keeps it: no object is used
  after it was freed, no assertion of \<^verbatim>\<open>inode.c\<close> fails, and the recursion ends.

  The invariant has two parameters besides the table. \<open>held\<close> counts, for every inode, the references
  that callers own; the reference count of an inode is these plus one for every dentry below it
  (for the root, whose count is never lowered, at least that). \<open>Y\<close> is the set of dentries that are
  already unlinked and not yet freed, and \<open>X\<close> the set of inodes whose dentries are being released;
  both are empty outside the recursion.
\<close>

section \<open>The invariant\<close>

definition fresh_ok :: "itable \<Rightarrow> bool" where
  "fresh_ok t \<longleftrightarrow> (\<forall>a. inodes t a \<noteq> None \<longrightarrow> a < it_next t) \<and> (\<forall>d. dentries t d \<noteq> None \<longrightarrow> d < dt_next t)"

definition links_ok :: "nat set \<Rightarrow> itable \<Rightarrow> bool" where
  "links_ok Y t \<longleftrightarrow>
     (\<forall>d x. dentries t d = Some x \<and> d \<notin> Y \<longrightarrow>
        (\<exists>i. inodes t (d_inode x) = Some i \<and> d \<in> set (i_dentry_list i))
        \<and> (\<exists>p. inodes t (d_parent x) = Some p \<and> d \<in> set (i_child_list p)))
   \<and> (\<forall>a i. inodes t a = Some i \<longrightarrow> distinct (i_dentry_list i) \<and> distinct (i_child_list i)
        \<and> (\<forall>d \<in> set (i_dentry_list i). d \<notin> Y \<and> (\<exists>x. dentries t d = Some x \<and> d_inode x = a))
        \<and> (\<forall>d \<in> set (i_child_list i). d \<notin> Y \<and> (\<exists>x. dentries t d = Some x \<and> d_parent x = a)))"

text \<open>The chains on which a dentry and an inode have to be.\<close>

definition dentry_bucket :: "itable \<Rightarrow> nat \<Rightarrow> nat option" where
  "dentry_bucket t d =
     (case dentries t d of
        Some x \<Rightarrow> if d_hashed x then map_option (\<lambda>p. hash_name (i_ino p) (d_name x)) (inodes t (d_parent x)) else None
      | None \<Rightarrow> None)"

definition inode_bucket :: "itable \<Rightarrow> nat \<Rightarrow> nat option" where
  "inode_bucket t a =
     (case inodes t a of Some i \<Rightarrow> if i_hashed i then Some (hash_inode (i_ino i)) else None | None \<Rightarrow> None)"

definition names_ok :: "nat set \<Rightarrow> itable \<Rightarrow> bool" where
  "names_ok Y t \<longleftrightarrow>
     (\<forall>b. distinct (name_hash t b) \<and> (\<forall>d. d \<in> set (name_hash t b) \<longleftrightarrow> dentry_bucket t d = Some b))
   \<and> (\<forall>d \<in> Y. \<forall>x. dentries t d = Some x \<longrightarrow> \<not> d_hashed x)"

definition numbers_ok :: "itable \<Rightarrow> bool" where
  "numbers_ok t \<longleftrightarrow>
     (\<forall>b. distinct (inode_hash t b) \<and> (\<forall>a. a \<in> set (inode_hash t b) \<longleftrightarrow> inode_bucket t a = Some b))"

definition lists_ok :: "nat set \<Rightarrow> itable \<Rightarrow> bool" where
  "lists_ok X t \<longleftrightarrow> distinct (active t @ lru t @ purge t)
     \<and> set (active t) \<union> set (lru t) \<union> set (purge t) = dom (inodes t)
     \<and> (\<forall>a i. inodes t a = Some i \<longrightarrow> (a \<in> set (active t) \<longleftrightarrow> i_ref i \<noteq> 0))
     \<and> (\<forall>a i. inodes t a = Some i \<and> a \<in> set (purge t) \<longrightarrow> \<not> i_hashed i \<and> (a \<notin> X \<longrightarrow> i_dentry_list i = []))
     \<and> active_size t = of_nat (length (active t)) \<and> lru_size t = of_nat (length (lru t))
     \<and> purge_size t = of_nat (length (purge t))"

definition refs_ok :: "itable \<Rightarrow> (nat \<Rightarrow> nat) \<Rightarrow> bool" where
  "refs_ok t held \<longleftrightarrow>
     (\<forall>a i. inodes t a = Some i \<longrightarrow>
        (if i_ino i = 1 then held a + length (i_child_list i) \<le> unat (i_ref i)
         else unat (i_ref i) = held a + length (i_child_list i)))"

definition table_inv :: "nat set \<Rightarrow> nat set \<Rightarrow> itable \<Rightarrow> (nat \<Rightarrow> nat) \<Rightarrow> bool" where
  "table_inv X Y t held \<longleftrightarrow>
     fresh_ok t \<and> links_ok Y t \<and> names_ok Y t \<and> numbers_ok t \<and> lists_ok X t \<and> refs_ok t held"

lemmas table_invI = table_inv_def[THEN iffD2, OF conjI, OF _ conjI, OF _ _ conjI, OF _ _ _ conjI, OF _ _ _ _ conjI]

lemma table_invD:
  assumes "table_inv X Y t held"
  shows "fresh_ok t" "links_ok Y t" "names_ok Y t" "numbers_ok t" "lists_ok X t" "refs_ok t held"
  using assms by (auto simp: table_inv_def)

section \<open>What the primitive updates change\<close>

lemma upd_inode_sel [simp]:
  "inodes (upd_inode a f t) b = (if b = a then map_option f (inodes t a) else inodes t b)"
  "dentries (upd_inode a f t) = dentries t" "it_next (upd_inode a f t) = it_next t"
  "dt_next (upd_inode a f t) = dt_next t" "root (upd_inode a f t) = root t" "lru_limit (upd_inode a f t) = lru_limit t"
  "inode_hash (upd_inode a f t) = inode_hash t" "name_hash (upd_inode a f t) = name_hash t"
  "active (upd_inode a f t) = active t" "active_size (upd_inode a f t) = active_size t"
  "lru (upd_inode a f t) = lru t" "lru_size (upd_inode a f t) = lru_size t"
  "purge (upd_inode a f t) = purge t" "purge_size (upd_inode a f t) = purge_size t"
  "xl_count (upd_inode a f t) = xl_count t" "forgotten (upd_inode a f t) = forgotten t"
  by (simp_all add: upd_inode_def)

lemma upd_dentry_sel [simp]:
  "dentries (upd_dentry d f t) e = (if e = d then map_option f (dentries t d) else dentries t e)"
  "inodes (upd_dentry d f t) = inodes t" "it_next (upd_dentry d f t) = it_next t"
  "dt_next (upd_dentry d f t) = dt_next t" "root (upd_dentry d f t) = root t" "lru_limit (upd_dentry d f t) = lru_limit t"
  "inode_hash (upd_dentry d f t) = inode_hash t" "name_hash (upd_dentry d f t) = name_hash t"
  "active (upd_dentry d f t) = active t" "active_size (upd_dentry d f t) = active_size t"
  "lru (upd_dentry d f t) = lru t" "lru_size (upd_dentry d f t) = lru_size t"
  "purge (upd_dentry d f t) = purge t" "purge_size (upd_dentry d f t) = purge_size t"
  "xl_count (upd_dentry d f t) = xl_count t" "forgotten (upd_dentry d f t) = forgotten t"
  by (simp_all add: upd_dentry_def)

lemma get_inode_Inr [simp]: "get_inode t a = Inr i \<longleftrightarrow> inodes t a = Some i"
  by (simp add: get_inode_def split: option.splits)

lemma get_dentry_Inr [simp]: "get_dentry t d = Inr x \<longleftrightarrow> dentries t d = Some x"
  by (simp add: get_dentry_def split: option.splits)

lemma get_inode_Some: "inodes t a = Some i \<Longrightarrow> get_inode t a = Inr i"
  by simp

lemma get_dentry_Some: "dentries t d = Some x \<Longrightarrow> get_dentry t d = Inr x"
  by simp

text \<open>The linked dentries, whose number bounds the recursion.\<close>

definition linked :: "nat set \<Rightarrow> itable \<Rightarrow> nat set" where
  "linked Y t = {d. dentries t d \<noteq> None \<and> d \<notin> Y}"

lemma finite_linked: "fresh_ok t \<Longrightarrow> finite (linked Y t)"
  unfolding linked_def fresh_ok_def by (rule finite_subset[of _ "{..<dt_next t}"]) auto

lemma card_linked: "fresh_ok t \<Longrightarrow> card (linked Y t) \<le> dt_next t"
  using card_mono[of "{..<dt_next t}" "linked Y t"] unfolding linked_def fresh_ok_def by auto

text \<open>
  What is lost when references are released: chains only lose members, counts do not grow, and an inode loses its place in the hash or one of its dentries only if it is
  without references in the end (or in \<open>Z\<close>, for its dentries).
\<close>

definition released :: "nat set \<Rightarrow> itable \<Rightarrow> itable \<Rightarrow> bool" where
  "released Z t u \<longleftrightarrow>
     (\<forall>b. \<exists>P. name_hash u b = filter P (name_hash t b))
   \<and> (\<forall>b i. inodes t b = Some i \<and> i_ref i = 0 \<longrightarrow> (\<exists>j. inodes u b = Some j \<and> i_ref j = 0))
   \<and> (\<forall>b i. inodes t b = Some i \<and> i_hashed i \<longrightarrow> (\<exists>j. inodes u b = Some j \<and> (i_hashed j \<or> i_ref j = 0)))
   \<and> (\<forall>b j. inodes u b = Some j \<longrightarrow> (\<exists>i. inodes t b = Some i \<and> unat (i_ref j) \<le> unat (i_ref i)))
   \<and> (\<forall>d x. dentries t d = Some x \<and> dentries u d \<noteq> Some x \<longrightarrow>
        d_inode x \<in> Z \<or> (\<exists>j. inodes u (d_inode x) = Some j \<and> i_ref j = 0))"

lemma releasedI:
  assumes "\<And>b. \<exists>P. name_hash u b = filter P (name_hash t b)"
    and "\<And>b i. inodes t b = Some i \<Longrightarrow> i_ref i = 0 \<Longrightarrow> \<exists>j. inodes u b = Some j \<and> i_ref j = 0"
    and "\<And>b i. inodes t b = Some i \<Longrightarrow> i_hashed i \<Longrightarrow> \<exists>j. inodes u b = Some j \<and> (i_hashed j \<or> i_ref j = 0)"
    and "\<And>b j. inodes u b = Some j \<Longrightarrow> \<exists>i. inodes t b = Some i \<and> unat (i_ref j) \<le> unat (i_ref i)"
    and "\<And>d x. dentries t d = Some x \<Longrightarrow> dentries u d \<noteq> Some x \<Longrightarrow>
      d_inode x \<in> Z \<or> (\<exists>j. inodes u (d_inode x) = Some j \<and> i_ref j = 0)"
  shows "released Z t u"
  unfolding released_def using assms by blast

lemma releasedD:
  assumes "released Z t u"
  shows "\<exists>P. name_hash u b = filter P (name_hash t b)"
    and "inodes t b = Some i \<Longrightarrow> i_ref i = 0 \<Longrightarrow> \<exists>j. inodes u b = Some j \<and> i_ref j = 0"
    and "inodes t b = Some i \<Longrightarrow> i_hashed i \<Longrightarrow> \<exists>j. inodes u b = Some j \<and> (i_hashed j \<or> i_ref j = 0)"
    and "dentries t d = Some x \<Longrightarrow> dentries u d \<noteq> Some x \<Longrightarrow>
      d_inode x \<in> Z \<or> (\<exists>j. inodes u (d_inode x) = Some j \<and> i_ref j = 0)"
    and "inodes u b = Some j \<Longrightarrow> \<exists>i. inodes t b = Some i \<and> unat (i_ref j) \<le> unat (i_ref i)"
  using assms unfolding released_def by blast+

lemma released_refl: "released Z t t"
  by (rule releasedI) (auto intro: exI[of _ "\<lambda>_. True"])

lemma released_mono: "released Z t u \<Longrightarrow> Z \<subseteq> Z' \<Longrightarrow> released Z' t u"
  unfolding released_def by blast

lemma released_trans:
  assumes "released Z t u" "released Z u v"
  shows "released Z t v"
proof (rule releasedI)
  note 1 = releasedD[OF assms(1)] and 2 = releasedD[OF assms(2)]
  show "\<exists>P. name_hash v b = filter P (name_hash t b)" for b using 1(1)[of b] 2(1)[of b] by (metis filter_filter)
  show "\<exists>j. inodes v b = Some j \<and> i_ref j = 0" if "inodes t b = Some i" "i_ref i = 0" for b i using 1(2)[OF that] 2(2) by blast
  show "\<exists>j. inodes v b = Some j \<and> (i_hashed j \<or> i_ref j = 0)" if "inodes t b = Some i" "i_hashed i" for b i
    using 1(3)[OF that] 2(2,3) by blast
  show "\<exists>i. inodes t b = Some i \<and> unat (i_ref j) \<le> unat (i_ref i)" if "inodes v b = Some j" for b j
    using 2(5)[OF that] 1(5) order_trans by blast
  show "d_inode x \<in> Z \<or> (\<exists>j. inodes v (d_inode x) = Some j \<and> i_ref j = 0)" if "dentries t d = Some x" "dentries v d \<noteq> Some x" for d x
    using 1(4)[OF that(1)] 2(2,4) that(2) by blast
qed

text \<open>
  What releasing a reference leaves alone: inodes without references (except those in \<open>Z\<close>), the
  inode numbers, the dentries that are being released, and every dentry that is still there afterwards.
\<close>

definition frame_ok :: "nat set \<Rightarrow> nat set \<Rightarrow> itable \<Rightarrow> itable \<Rightarrow> bool" where
  "frame_ok Z Y t t' \<longleftrightarrow> released Z t t'
   \<and> (\<forall>b j. inodes t b = Some j \<and> i_ref j = 0 \<and> b \<notin> Z \<longrightarrow> inodes t' b = Some j)
   \<and> (\<forall>b. map_option i_ino (inodes t' b) = map_option i_ino (inodes t b))
   \<and> (\<forall>b j. inodes t' b = Some j \<and> i_hashed j \<longrightarrow> (\<exists>i. inodes t b = Some i \<and> i_hashed i))
   \<and> (\<forall>d \<in> Y. dentries t' d = dentries t d)
   \<and> (\<forall>d x. dentries t' d = Some x \<longrightarrow> dentries t d = Some x)
   \<and> (\<exists>ps. purge t' = purge t @ ps)
   \<and> it_next t' = it_next t \<and> dt_next t' = dt_next t \<and> lru_limit t' = lru_limit t \<and> root t' = root t"

lemma frame_refl: "frame_ok Z Y t t"
  by (simp add: frame_ok_def released_refl)

lemma frame_trans: "frame_ok Z Y t u \<Longrightarrow> frame_ok Z Y u v \<Longrightarrow> frame_ok Z Y t v"
  unfolding frame_ok_def by (elim conjE exE, intro conjI, rule released_trans, assumption+) (metis append_assoc)+

lemma frame_mono: "frame_ok Z Y t u \<Longrightarrow> Z \<subseteq> Z' \<Longrightarrow> Y' \<subseteq> Y \<Longrightarrow> frame_ok Z' Y' t u"
  unfolding frame_ok_def by (blast intro: released_mono)

lemma frame_linked:
  assumes "frame_ok Z Y t u" "fresh_ok t"
  shows "card (linked Y u) \<le> card (linked Y t)"
proof -
  have "linked Y u \<subseteq> linked Y t" using assms(1) unfolding frame_ok_def linked_def by auto
  then show ?thesis by (rule card_mono[OF finite_linked[OF assms(2)]])
qed

section \<open>Unlinking a dentry\<close>

definition unhashed :: "nat \<Rightarrow> itable \<Rightarrow> itable" where
  "unhashed d t = (upd_dentry d (\<lambda>x. x\<lparr>d_hashed := False\<rparr>) t)\<lparr>name_hash := (\<lambda>b. remove1 d (name_hash t b))\<rparr>"

lemma unhashed_sel [simp]:
  "inodes (unhashed d t) = inodes t"
  "dentries (unhashed d t) = (dentries t)(d := map_option (\<lambda>x. x\<lparr>d_hashed := False\<rparr>) (dentries t d))"
  "name_hash (unhashed d t) = (\<lambda>b. remove1 d (name_hash t b))"
  "it_next (unhashed d t) = it_next t" "dt_next (unhashed d t) = dt_next t" "root (unhashed d t) = root t"
  "lru_limit (unhashed d t) = lru_limit t" "inode_hash (unhashed d t) = inode_hash t"
  "active (unhashed d t) = active t" "active_size (unhashed d t) = active_size t"
  "lru (unhashed d t) = lru t" "lru_size (unhashed d t) = lru_size t"
  "purge (unhashed d t) = purge t" "purge_size (unhashed d t) = purge_size t"
  by (auto simp: unhashed_def)

lemma dentry_unhash_eq:
  "dentries t d = Some x \<Longrightarrow> inodes t (d_inode x) = Some i \<Longrightarrow> dentry_unhash d t = Inr (unhashed d t)"
  by (simp add: dentry_unhash_def get_dentry_Some get_inode_Some unhashed_def)

lemma links_okD:
  assumes "links_ok Y t"
  shows "\<And>d x. dentries t d = Some x \<Longrightarrow> d \<notin> Y \<Longrightarrow>
      (\<exists>i. inodes t (d_inode x) = Some i \<and> d \<in> set (i_dentry_list i))
      \<and> (\<exists>p. inodes t (d_parent x) = Some p \<and> d \<in> set (i_child_list p))"
    and "\<And>a i. inodes t a = Some i \<Longrightarrow> distinct (i_dentry_list i) \<and> distinct (i_child_list i)"
    and "\<And>a i d. inodes t a = Some i \<Longrightarrow> d \<in> set (i_dentry_list i) \<Longrightarrow> d \<notin> Y \<and> (\<exists>x. dentries t d = Some x \<and> d_inode x = a)"
    and "\<And>a i d. inodes t a = Some i \<Longrightarrow> d \<in> set (i_child_list i) \<Longrightarrow> d \<notin> Y \<and> (\<exists>x. dentries t d = Some x \<and> d_parent x = a)"
  using assms unfolding links_ok_def by blast+

lemma links_okI:
  assumes "\<And>d x. dentries t d = Some x \<Longrightarrow> d \<notin> Y \<Longrightarrow> \<exists>i. inodes t (d_inode x) = Some i \<and> d \<in> set (i_dentry_list i)"
    and "\<And>d x. dentries t d = Some x \<Longrightarrow> d \<notin> Y \<Longrightarrow> \<exists>p. inodes t (d_parent x) = Some p \<and> d \<in> set (i_child_list p)"
    and "\<And>a i. inodes t a = Some i \<Longrightarrow> distinct (i_dentry_list i) \<and> distinct (i_child_list i)"
    and "\<And>a i d. inodes t a = Some i \<Longrightarrow> d \<in> set (i_dentry_list i) \<Longrightarrow> d \<notin> Y \<and> (\<exists>x. dentries t d = Some x \<and> d_inode x = a)"
    and "\<And>a i d. inodes t a = Some i \<Longrightarrow> d \<in> set (i_child_list i) \<Longrightarrow> d \<notin> Y \<and> (\<exists>x. dentries t d = Some x \<and> d_parent x = a)"
  shows "links_ok Y t"
  unfolding links_ok_def using assms by blast

lemma fresh_ok_cong:
  assumes "fresh_ok t" "\<And>a. inodes u a \<noteq> None \<Longrightarrow> inodes t a \<noteq> None" "\<And>d. dentries u d \<noteq> None \<Longrightarrow> dentries t d \<noteq> None"
    "it_next u = it_next t" "dt_next u = dt_next t"
  shows "fresh_ok u"
  using assms unfolding fresh_ok_def by metis

lemma links_ok_cong:
  assumes "links_ok Y t"
    and "\<And>a. map_option (\<lambda>i. (i_dentry_list i, i_child_list i)) (inodes u a) = map_option (\<lambda>i. (i_dentry_list i, i_child_list i)) (inodes t a)"
    and "\<And>d. map_option (\<lambda>x. (d_inode x, d_parent x)) (dentries u d) = map_option (\<lambda>x. (d_inode x, d_parent x)) (dentries t d)"
  shows "links_ok Y u"
proof (rule links_okI)
  note l = links_okD[OF assms(1)]
  have i: "\<exists>j. inodes t a = Some j \<and> i_dentry_list j = i_dentry_list i \<and> i_child_list j = i_child_list i"
    if "inodes u a = Some i" for a i
    using assms(2)[of a] that by (cases "inodes t a") auto
  have i': "\<exists>j. inodes u a = Some j \<and> i_dentry_list j = i_dentry_list i \<and> i_child_list j = i_child_list i"
    if "inodes t a = Some i" for a i
    using assms(2)[of a] that by (cases "inodes u a") auto
  have x: "\<exists>y. dentries t d = Some y \<and> d_inode y = d_inode x \<and> d_parent y = d_parent x" if "dentries u d = Some x" for d x
    using assms(3)[of d] that by (cases "dentries t d") auto
  have x': "\<exists>y. dentries u d = Some y \<and> d_inode y = d_inode x \<and> d_parent y = d_parent x" if "dentries t d = Some x" for d x
    using assms(3)[of d] that by (cases "dentries u d") auto
  show "\<exists>i. inodes u (d_inode x) = Some i \<and> d \<in> set (i_dentry_list i)" if "dentries u d = Some x" "d \<notin> Y" for d x
    using x[OF that(1)] l(1) i' that(2) by metis
  show "\<exists>p. inodes u (d_parent x) = Some p \<and> d \<in> set (i_child_list p)" if "dentries u d = Some x" "d \<notin> Y" for d x
    using x[OF that(1)] l(1) i' that(2) by metis
  show "distinct (i_dentry_list i) \<and> distinct (i_child_list i)" if "inodes u a = Some i" for a i
    using i[OF that] l(2) by metis
  show "d \<notin> Y \<and> (\<exists>x. dentries u d = Some x \<and> d_inode x = a)" if "inodes u a = Some i" "d \<in> set (i_dentry_list i)" for a i d
    using i[OF that(1)] l(3) x' that(2) by metis
  show "d \<notin> Y \<and> (\<exists>x. dentries u d = Some x \<and> d_parent x = a)" if "inodes u a = Some i" "d \<in> set (i_child_list i)" for a i d
    using i[OF that(1)] l(4) x' that(2) by metis
qed

lemma dentry_bucket_cong:
  assumes "dentries u d = dentries t d" "\<And>a. map_option i_ino (inodes u a) = map_option i_ino (inodes t a)"
  shows "dentry_bucket u d = dentry_bucket t d"
proof -
  have "map_option (\<lambda>p. hash_name (i_ino p) n) (inodes u a) = map_option (\<lambda>p. hash_name (i_ino p) n) (inodes t a)" for a n
    using assms(2)[of a] by (cases "inodes u a"; cases "inodes t a") auto
  then show ?thesis using assms(1) by (simp add: dentry_bucket_def split: option.splits)
qed

lemma names_ok_cong:
  assumes "names_ok Y t" "name_hash u = name_hash t" "dentries u = dentries t"
    and "\<And>a. map_option i_ino (inodes u a) = map_option i_ino (inodes t a)"
  shows "names_ok Y u"
  using assms(1-3) dentry_bucket_cong[of u _ t] assms(3,4) unfolding names_ok_def by simp

lemma numbers_ok_cong:
  assumes "numbers_ok t" "inode_hash u = inode_hash t"
    and "\<And>a. map_option (\<lambda>i. (i_hashed i, i_ino i)) (inodes u a) = map_option (\<lambda>i. (i_hashed i, i_ino i)) (inodes t a)"
  shows "numbers_ok u"
proof -
  have "inode_bucket u a = inode_bucket t a" for a
    using assms(3)[of a] by (cases "inodes u a"; cases "inodes t a") (auto simp: inode_bucket_def)
  then show ?thesis using assms(1,2) unfolding numbers_ok_def by simp
qed

lemma refs_ok_cong:
  assumes "refs_ok t held" "\<And>a. map_option (\<lambda>i. (i_ino i, i_ref i, length (i_child_list i))) (inodes u a) = map_option (\<lambda>i. (i_ino i, i_ref i, length (i_child_list i))) (inodes t a)"
  shows "refs_ok u held"
  unfolding refs_ok_def
proof (intro allI impI)
  fix a i
  assume "inodes u a = Some i"
  then obtain j where "inodes t a = Some j" "i_ino j = i_ino i" "i_ref j = i_ref i" "length (i_child_list j) = length (i_child_list i)"
    using assms(2)[of a] by (cases "inodes t a") auto
  then show "if i_ino i = 1 then held a + length (i_child_list i) \<le> unat (i_ref i)
         else unat (i_ref i) = held a + length (i_child_list i)"
    using assms(1) unfolding refs_ok_def by metis
qed

lemma lists_ok_cong:
  assumes "lists_ok X t" "active u = active t" "lru u = lru t" "purge u = purge t"
    "active_size u = active_size t" "lru_size u = lru_size t" "purge_size u = purge_size t"
    and "\<And>a i. inodes u a = Some i \<Longrightarrow> \<exists>j. inodes t a = Some j \<and> i_ref i = i_ref j \<and> i_hashed i = i_hashed j
        \<and> (i_dentry_list j = [] \<longrightarrow> i_dentry_list i = [])"
    and "\<And>a. inodes t a \<noteq> None \<Longrightarrow> inodes u a \<noteq> None"
  shows "lists_ok X u"
proof -
  have "dom (inodes u) = dom (inodes t)" using assms(8,9) by (auto simp: dom_def) (metis option.distinct(1))
  moreover have "i_ref i \<noteq> 0 \<longleftrightarrow> a \<in> set (active t)" if "inodes u a = Some i" for a i
    using assms(1) assms(8)[OF that] unfolding lists_ok_def by metis
  moreover have "\<not> i_hashed i \<and> (a \<notin> X \<longrightarrow> i_dentry_list i = [])" if "inodes u a = Some i" "a \<in> set (purge t)" for a i
    using assms(1) assms(8)[OF that(1)] that(2) unfolding lists_ok_def by metis
  ultimately show ?thesis using assms(1-7) unfolding lists_ok_def by auto
qed

lemma unhashed_inv:
  assumes "table_inv X Y t held" "dentries t d = Some x"
  shows "table_inv X Y (unhashed d t) held"
proof (rule table_invI)
  note i = table_invD[OF assms(1)]
  show "fresh_ok (unhashed d t)" by (rule fresh_ok_cong[OF i(1)]) (auto split: if_splits)
  show "links_ok Y (unhashed d t)" by (rule links_ok_cong[OF i(2)]) (auto simp: option.map_comp comp_def)
  show "numbers_ok (unhashed d t)" by (rule numbers_ok_cong[OF i(4)]) auto
  show "lists_ok X (unhashed d t)" using i(5) unfolding lists_ok_def by simp
  show "refs_ok (unhashed d t) held" by (rule refs_ok_cong[OF i(6)]) auto
  have "dentry_bucket (unhashed d t) e = (if e = d then None else dentry_bucket t e)" for e
    using assms(2) by (simp add: dentry_bucket_def split: option.splits)
  then show "names_ok Y (unhashed d t)" using i(3) unfolding names_ok_def by auto
qed

text \<open>The links of a dentry are cut: it leaves the lists of its inode and of its parent.\<close>

definition detached :: "nat \<Rightarrow> dentry \<Rightarrow> itable \<Rightarrow> itable" where
  "detached d x t =
     upd_inode (d_parent x) (\<lambda>p. p\<lparr>i_child_list := remove1 d (i_child_list p)\<rparr>)
       (upd_inode (d_inode x) (\<lambda>i. i\<lparr>i_dentry_list := remove1 d (i_dentry_list i)\<rparr>) t)"

lemma detached_inode:
  "inodes (detached d x t) a = map_option (\<lambda>i. i\<lparr>
     i_dentry_list := (if a = d_inode x then remove1 d (i_dentry_list i) else i_dentry_list i),
     i_child_list := (if a = d_parent x then remove1 d (i_child_list i) else i_child_list i)\<rparr>) (inodes t a)"
  by (cases "inodes t a") (auto simp: detached_def)

lemma detached_sel [simp]:
  "dentries (detached d x t) = dentries t"
  "name_hash (detached d x t) = name_hash t"
  "it_next (detached d x t) = it_next t" "dt_next (detached d x t) = dt_next t" "root (detached d x t) = root t"
  "lru_limit (detached d x t) = lru_limit t" "inode_hash (detached d x t) = inode_hash t"
  "active (detached d x t) = active t" "active_size (detached d x t) = active_size t"
  "lru (detached d x t) = lru t" "lru_size (detached d x t) = lru_size t"
  "purge (detached d x t) = purge t" "purge_size (detached d x t) = purge_size t"
  by (simp_all add: detached_def)

lemma detached_links:
  assumes "links_ok Y t" "dentries t d = Some x"
  shows "links_ok (insert d Y) (detached d x t)"
proof (rule links_okI)
  note l = links_okD[OF assms(1)]
  let ?u = "detached d x t"
  show "\<exists>i. inodes ?u (d_inode z) = Some i \<and> e \<in> set (i_dentry_list i)" if h: "dentries ?u e = Some z" "e \<notin> insert d Y" for e z
  proof -
    obtain i where "inodes t (d_inode z) = Some i" "e \<in> set (i_dentry_list i)" using l(1)[of e z] h by auto
    with h show ?thesis by (simp add: detached_inode)
  qed
  show "\<exists>i. inodes ?u (d_parent z) = Some i \<and> e \<in> set (i_child_list i)" if h: "dentries ?u e = Some z" "e \<notin> insert d Y" for e z
  proof -
    obtain i where "inodes t (d_parent z) = Some i" "e \<in> set (i_child_list i)" using l(1)[of e z] h by auto
    with h show ?thesis by (simp add: detached_inode)
  qed
  show "distinct (i_dentry_list i) \<and> distinct (i_child_list i)" if "inodes ?u a = Some i" for a i
    using l(2) that by (auto simp: detached_inode)
  show "e \<notin> insert d Y \<and> (\<exists>z. dentries ?u e = Some z \<and> d_inode z = a)" if h: "inodes ?u a = Some i" "e \<in> set (i_dentry_list i)" for a i e
  proof -
    obtain j where j: "inodes t a = Some j" "e \<in> set (if a = d_inode x then remove1 d (i_dentry_list j) else i_dentry_list j)"
      using h by (auto simp: detached_inode)
    then have e: "e \<in> set (i_dentry_list j)" using set_remove1_subset by (fastforce split: if_splits)
    have "e \<noteq> d"
    proof
      assume "e = d"
      then have "a = d_inode x" using l(3)[OF j(1) e] assms(2) by simp
      with j \<open>e = d\<close> show False using l(2)[OF j(1)] by simp
    qed
    then show ?thesis using l(3)[OF j(1) e] by simp
  qed
  show "e \<notin> insert d Y \<and> (\<exists>z. dentries ?u e = Some z \<and> d_parent z = a)" if h: "inodes ?u a = Some i" "e \<in> set (i_child_list i)" for a i e
  proof -
    obtain j where j: "inodes t a = Some j" "e \<in> set (if a = d_parent x then remove1 d (i_child_list j) else i_child_list j)"
      using h by (auto simp: detached_inode)
    then have e: "e \<in> set (i_child_list j)" using set_remove1_subset by (fastforce split: if_splits)
    have "e \<noteq> d"
    proof
      assume "e = d"
      then have "a = d_parent x" using l(4)[OF j(1) e] assms(2) by simp
      with j \<open>e = d\<close> show False using l(2)[OF j(1)] by simp
    qed
    then show ?thesis using l(4)[OF j(1) e] by simp
  qed
qed

lemma detached_inv:
  assumes inv: "table_inv X Y t held" and d: "dentries t d = Some x" "d \<notin> Y" "\<not> d_hashed x"
  shows "table_inv X (insert d Y) (detached d x t) (held(d_parent x := Suc (held (d_parent x))))"
proof (rule table_invI)
  let ?u = "detached d x t"
  note i = table_invD[OF inv]
  have ino: "map_option i_ino (inodes ?u a) = map_option i_ino (inodes t a)" for a
    by (simp add: detached_inode option.map_comp comp_def)
  show "fresh_ok ?u" by (rule fresh_ok_cong[OF i(1)]) (auto simp: detached_inode)
  show "links_ok (insert d Y) ?u" by (rule detached_links[OF i(2) d(1)])
  have "names_ok (insert d Y) t" using i(3) d by (simp add: names_ok_def)
  then show "names_ok (insert d Y) ?u" by (rule names_ok_cong) (simp_all add: ino)
  show "numbers_ok ?u" by (rule numbers_ok_cong[OF i(4)]) (simp_all add: detached_inode option.map_comp comp_def)
  show "lists_ok X ?u" by (rule lists_ok_cong[OF i(5)]) (auto simp: detached_inode)
  show "refs_ok ?u (held(d_parent x := Suc (held (d_parent x))))"
    unfolding refs_ok_def
  proof (intro allI impI)
    fix a j
    assume a: "inodes ?u a = Some j"
    then obtain k where k: "inodes t a = Some k" by (auto simp: detached_inode)
    have r: "if i_ino k = 1 then held a + length (i_child_list k) \<le> unat (i_ref k)
         else unat (i_ref k) = held a + length (i_child_list k)"
      using i(6) k unfolding refs_ok_def by blast
    have j: "i_ino j = i_ino k" "i_ref j = i_ref k"
      "i_child_list j = (if a = d_parent x then remove1 d (i_child_list k) else i_child_list k)"
      using a k by (auto simp: detached_inode)
    show "if i_ino j = 1 then (held(d_parent x := Suc (held (d_parent x)))) a + length (i_child_list j) \<le> unat (i_ref j)
         else unat (i_ref j) = (held(d_parent x := Suc (held (d_parent x)))) a + length (i_child_list j)"
    proof (cases "a = d_parent x")
      case True
      then have "d \<in> set (i_child_list k)" using links_okD(1)[OF i(2) d(1,2)] k by auto
      then obtain n where "length (i_child_list k) = Suc n" "length (remove1 d (i_child_list k)) = n"
        using length_remove1[of d "i_child_list k"] by (cases "length (i_child_list k)") auto
      with True r j show ?thesis by auto
    qed (use r j in auto)
  qed
qed

text \<open>A dentry whose links are cut is freed.\<close>

lemma freed_dentry_inv:
  assumes "table_inv X (insert d Y) t held" "d \<notin> Y"
  shows "table_inv X Y (t\<lparr>dentries := (dentries t)(d := None)\<rparr>) held"
proof (rule table_invI)
  let ?u = "t\<lparr>dentries := (dentries t)(d := None)\<rparr>"
  note i = table_invD[OF assms(1)]
  show "fresh_ok ?u" by (rule fresh_ok_cong[OF i(1)]) (auto split: if_splits)
  show "links_ok Y ?u"
  proof (rule links_okI)
    note l = links_okD[OF i(2)]
    show "\<exists>i. inodes ?u (d_inode z) = Some i \<and> e \<in> set (i_dentry_list i)" if "dentries ?u e = Some z" "e \<notin> Y" for e z
      using l(1)[of e z] that by (auto split: if_splits)
    show "\<exists>i. inodes ?u (d_parent z) = Some i \<and> e \<in> set (i_child_list i)" if "dentries ?u e = Some z" "e \<notin> Y" for e z
      using l(1)[of e z] that by (auto split: if_splits)
    show "distinct (i_dentry_list i) \<and> distinct (i_child_list i)" if "inodes ?u a = Some i" for a i
      using l(2) that by auto
    show "e \<notin> Y \<and> (\<exists>z. dentries ?u e = Some z \<and> d_inode z = a)" if "inodes ?u a = Some i" "e \<in> set (i_dentry_list i)" for a i e
      using l(3) that by fastforce
    show "e \<notin> Y \<and> (\<exists>z. dentries ?u e = Some z \<and> d_parent z = a)" if "inodes ?u a = Some i" "e \<in> set (i_child_list i)" for a i e
      using l(4) that by fastforce
  qed
  have "dentry_bucket t d = None" using i(3) by (auto simp: names_ok_def dentry_bucket_def split: option.splits)
  then have "dentry_bucket ?u e = dentry_bucket t e" for e by (simp add: dentry_bucket_def split: option.splits)
  then show "names_ok Y ?u" using i(3) unfolding names_ok_def by simp
  show "numbers_ok ?u" by (rule numbers_ok_cong[OF i(4)]) simp_all
  show "lists_ok X ?u" using i(5) unfolding lists_ok_def by simp
  show "refs_ok ?u held" by (rule refs_ok_cong[OF i(6)]) simp
qed

section \<open>Lowering a reference count\<close>

lemma refs_okD:
  assumes "refs_ok t held" "inodes t a = Some i"
  shows "i_ino i = 1 \<Longrightarrow> held a + length (i_child_list i) \<le> unat (i_ref i)"
    and "i_ino i \<noteq> 1 \<Longrightarrow> unat (i_ref i) = held a + length (i_child_list i)"
  using assms unfolding refs_ok_def by (metis (no_types))+

lemma unat_pred: "(w :: u32) \<noteq> 0 \<Longrightarrow> unat (w - 1) = unat w - 1"
  by (simp add: unat_minus_one)

lemma pred_eq_0: "(w :: u32) - 1 = 0 \<longleftrightarrow> w = 1"
  by simp

lemma lists_okD:
  assumes "lists_ok X t"
  shows "distinct (active t)" "distinct (lru t)" "distinct (purge t)"
    "set (active t) \<inter> set (lru t) = {}" "set (active t) \<inter> set (purge t) = {}" "set (lru t) \<inter> set (purge t) = {}"
    "\<And>a. a \<in> set (active t) \<or> a \<in> set (lru t) \<or> a \<in> set (purge t) \<longleftrightarrow> inodes t a \<noteq> None"
    "\<And>a i. inodes t a = Some i \<Longrightarrow> a \<in> set (active t) \<longleftrightarrow> i_ref i \<noteq> 0"
    "\<And>a i. inodes t a = Some i \<Longrightarrow> a \<in> set (purge t) \<Longrightarrow> \<not> i_hashed i \<and> (a \<notin> X \<longrightarrow> i_dentry_list i = [])"
    "active_size t = of_nat (length (active t))" "lru_size t = of_nat (length (lru t))"
    "purge_size t = of_nat (length (purge t))"
  using assms unfolding lists_ok_def by (auto simp: dom_def)

lemma lists_okI:
  assumes "distinct (active t)" "distinct (lru t)" "distinct (purge t)"
    "set (active t) \<inter> set (lru t) = {}" "set (active t) \<inter> set (purge t) = {}" "set (lru t) \<inter> set (purge t) = {}"
    "\<And>a. a \<in> set (active t) \<or> a \<in> set (lru t) \<or> a \<in> set (purge t) \<longleftrightarrow> inodes t a \<noteq> None"
    "\<And>a i. inodes t a = Some i \<Longrightarrow> a \<in> set (active t) \<longleftrightarrow> i_ref i \<noteq> 0"
    "\<And>a i. inodes t a = Some i \<Longrightarrow> a \<in> set (purge t) \<Longrightarrow> \<not> i_hashed i \<and> (a \<notin> X \<longrightarrow> i_dentry_list i = [])"
    "active_size t = of_nat (length (active t))" "lru_size t = of_nat (length (lru t))"
    "purge_size t = of_nat (length (purge t))"
  shows "lists_ok X t"
proof -
  have "set (active t) \<union> set (lru t) \<union> set (purge t) = dom (inodes t)" using assms(7) by (auto simp: dom_def)
  then show ?thesis using assms unfolding lists_ok_def by auto
qed

lemma of_nat_length_remove1:
  assumes "a \<in> set xs"
  shows "(of_nat (length (remove1 a xs)) :: u32) = of_nat (length xs) - 1"
proof -
  obtain n where "length xs = Suc n" "length (remove1 a xs) = n"
    using length_remove1[of a xs] assms by (cases "length xs") auto
  then show ?thesis by simp
qed

definition lowered :: "nat \<Rightarrow> itable \<Rightarrow> itable" where
  "lowered a t = upd_inode a (\<lambda>i. i\<lparr>i_ref := i_ref i - 1\<rparr>) t"

lemma lowered_inode: "inodes (lowered a t) b = (if b = a then map_option (\<lambda>i. i\<lparr>i_ref := i_ref i - 1\<rparr>) (inodes t a) else inodes t b)"
  by (simp add: lowered_def)

text \<open>The parts of the invariant that do not look at counts and lists.\<close>

lemma lowered_parts:
  assumes "table_inv X Y t held" "inodes u = inodes (lowered a t)" "dentries u = dentries t" "name_hash u = name_hash t"
    "inode_hash u = inode_hash t" "it_next u = it_next t" "dt_next u = dt_next t"
  shows "fresh_ok u" "links_ok Y u" "names_ok Y u" "numbers_ok u"
proof -
  note i = table_invD[OF assms(1)]
  show "fresh_ok u" by (rule fresh_ok_cong[OF i(1)]) (use assms(2-) in \<open>auto simp: lowered_inode split: if_splits\<close>)
  show "links_ok Y u" by (rule links_ok_cong[OF i(2)]) (use assms(2-) in \<open>auto simp: lowered_inode option.map_comp comp_def\<close>)
  show "names_ok Y u" by (rule names_ok_cong[OF i(3)]) (use assms(2-) in \<open>auto simp: lowered_inode option.map_comp comp_def\<close>)
  show "numbers_ok u" by (rule numbers_ok_cong[OF i(4)]) (use assms(2-) in \<open>auto simp: lowered_inode option.map_comp comp_def\<close>)
qed

lemma lowered_refs:
  assumes "refs_ok t held" "inodes t a = Some i" "i_ino i \<noteq> 1" "i_ref i \<noteq> 0" "0 < held a" "inodes u = inodes (lowered a t)"
  shows "refs_ok u (held(a := held a - 1))"
  unfolding refs_ok_def
proof (intro allI impI)
  fix b j
  assume b: "inodes u b = Some j"
  show "if i_ino j = 1 then (held(a := held a - 1)) b + length (i_child_list j) \<le> unat (i_ref j)
         else unat (i_ref j) = (held(a := held a - 1)) b + length (i_child_list j)"
  proof (cases "b = a")
    case True
    then have "j = i\<lparr>i_ref := i_ref i - 1\<rparr>" using b assms(2,6) by (simp add: lowered_inode)
    then show ?thesis using True assms(3-5) refs_okD(2)[OF assms(1,2,3)] by (simp add: unat_pred)
  next
    case False
    then have "inodes t b = Some j" using b assms(6) by (simp add: lowered_inode)
    with False show ?thesis using assms(1) unfolding refs_ok_def by simp
  qed
qed

lemma lowered_inv:
  assumes inv: "table_inv X Y t held" and a: "inodes t a = Some i" "i_ino i \<noteq> 1" "0 < held a" "i_ref i \<noteq> 1"
  shows "table_inv X Y (lowered a t) (held(a := held a - 1))"
proof (rule table_invI)
  note i = table_invD[OF inv]
  have ref: "i_ref i \<noteq> 0" using refs_okD(2)[OF i(6) a(1,2)] a(3) by auto
  show "refs_ok (lowered a t) (held(a := held a - 1))" by (rule lowered_refs[OF i(6) a(1,2) ref a(3) refl])
  show "lists_ok X (lowered a t)"
  proof (rule lists_okI)
    note l = lists_okD[OF i(5)]
    show "a' \<in> set (active (lowered a t)) \<longleftrightarrow> i_ref j \<noteq> 0" if "inodes (lowered a t) a' = Some j" for a' j
      using that l(8) a(1,4) ref by (auto simp: lowered_inode lowered_def split: if_splits)
    show "\<not> i_hashed j \<and> (a' \<notin> X \<longrightarrow> i_dentry_list j = [])"
      if "inodes (lowered a t) a' = Some j" "a' \<in> set (purge (lowered a t))" for a' j
      using that l(9) a(1) by (auto simp: lowered_inode lowered_def split: if_splits)
    show "a' \<in> set (active (lowered a t)) \<or> a' \<in> set (lru (lowered a t)) \<or> a' \<in> set (purge (lowered a t))
        \<longleftrightarrow> inodes (lowered a t) a' \<noteq> None" for a'
      using l(7) a(1) by (auto simp: lowered_inode lowered_def)
  qed (use lists_okD[OF i(5)] in \<open>simp_all add: lowered_def\<close>)
qed (use lowered_parts[OF inv, of "lowered a t" a] in \<open>simp_all add: lowered_def\<close>)

text \<open>The last reference: the inode moves from the active list to one of the others.\<close>

definition to_lru :: "nat \<Rightarrow> itable \<Rightarrow> itable" where
  "to_lru a t = (let t = list_del a ((lowered a t)\<lparr>active_size := active_size t - 1\<rparr>)
     in t\<lparr>lru := lru t @ [a], lru_size := lru_size t + 1\<rparr>)"

definition to_purge :: "nat \<Rightarrow> itable \<Rightarrow> itable" where
  "to_purge a t = (let t = list_del a ((lowered a t)\<lparr>active_size := active_size t - 1\<rparr>)
     in inode_unhash a (t\<lparr>purge := purge t @ [a], purge_size := purge_size t + 1\<rparr>))"

lemma to_lru_sel [simp]:
  "inodes (to_lru a t) = inodes (lowered a t)" "dentries (to_lru a t) = dentries t"
  "name_hash (to_lru a t) = name_hash t" "inode_hash (to_lru a t) = inode_hash t"
  "it_next (to_lru a t) = it_next t" "dt_next (to_lru a t) = dt_next t" "root (to_lru a t) = root t"
  "lru_limit (to_lru a t) = lru_limit t"
  "active (to_lru a t) = remove1 a (active t)" "active_size (to_lru a t) = active_size t - 1"
  "lru (to_lru a t) = remove1 a (lru t) @ [a]" "lru_size (to_lru a t) = lru_size t + 1"
  "purge (to_lru a t) = remove1 a (purge t)" "purge_size (to_lru a t) = purge_size t"
  by (simp_all add: to_lru_def list_del_def Let_def lowered_def)

lemma to_purge_sel [simp]:
  "inodes (to_purge a t) b = (if b = a then map_option (\<lambda>i. i\<lparr>i_ref := i_ref i - 1, i_hashed := False\<rparr>) (inodes t a) else inodes t b)"
  "dentries (to_purge a t) = dentries t"
  "name_hash (to_purge a t) = name_hash t" "inode_hash (to_purge a t) = (\<lambda>b. remove1 a (inode_hash t b))"
  "it_next (to_purge a t) = it_next t" "dt_next (to_purge a t) = dt_next t" "root (to_purge a t) = root t"
  "lru_limit (to_purge a t) = lru_limit t"
  "active (to_purge a t) = remove1 a (active t)" "active_size (to_purge a t) = active_size t - 1"
  "lru (to_purge a t) = remove1 a (lru t)" "lru_size (to_purge a t) = lru_size t"
  "purge (to_purge a t) = remove1 a (purge t) @ [a]" "purge_size (to_purge a t) = purge_size t + 1"
  by (auto simp: to_purge_def list_del_def inode_unhash_def Let_def lowered_def option.map_comp comp_def)

lemma to_lru_inv:
  assumes inv: "table_inv X Y t held" and a: "inodes t a = Some i" "i_ino i \<noteq> 1" "0 < held a" "i_ref i = 1"
  shows "table_inv X Y (to_lru a t) (held(a := held a - 1))"
proof (rule table_invI)
  note i = table_invD[OF inv] and l = lists_okD[OF table_invD(5)[OF inv]]
  have act: "a \<in> set (active t)" "a \<notin> set (lru t)" "a \<notin> set (purge t)" using l(4,5) l(8)[OF a(1)] a(4) by auto
  show "refs_ok (to_lru a t) (held(a := held a - 1))"
    by (rule lowered_refs[OF i(6) a(1,2) _ a(3)]) (use a(4) in simp_all)
  show "lists_ok X (to_lru a t)"
  proof (rule lists_okI)
    show "b \<in> set (active (to_lru a t)) \<longleftrightarrow> i_ref j \<noteq> 0" if "inodes (to_lru a t) b = Some j" for b j
      using that l(1) l(8)[of b] a(1,4) by (auto simp: lowered_inode split: if_splits)
    show "\<not> i_hashed j \<and> (b \<notin> X \<longrightarrow> i_dentry_list j = [])"
      if "inodes (to_lru a t) b = Some j" "b \<in> set (purge (to_lru a t))" for b j
      using that l(9)[of b] act by (auto simp: lowered_inode remove1_idem split: if_splits)
    show "b \<in> set (active (to_lru a t)) \<or> b \<in> set (lru (to_lru a t)) \<or> b \<in> set (purge (to_lru a t))
        \<longleftrightarrow> inodes (to_lru a t) b \<noteq> None" for b
      using l(7)[of b] l(1) act a(1) by (auto simp: lowered_inode remove1_idem)
    show "active_size (to_lru a t) = of_nat (length (active (to_lru a t)))"
      using l(10) act by (simp add: of_nat_length_remove1)
  qed (use l act in \<open>auto simp: remove1_idem\<close>)
qed (use lowered_parts[OF inv, of "to_lru a t" a] in simp_all)

lemma to_purge_inv:
  assumes inv: "table_inv X Y t held" and a: "inodes t a = Some i" "i_ino i \<noteq> 1" "0 < held a" "i_ref i = 1"
  shows "table_inv (insert a X) Y (to_purge a t) (held(a := held a - 1))"
proof (rule table_invI)
  note i = table_invD[OF inv] and l = lists_okD[OF table_invD(5)[OF inv]]
  have act: "a \<in> set (active t)" "a \<notin> set (lru t)" "a \<notin> set (purge t)" using l(4,5) l(8)[OF a(1)] a(4) by auto
  show "fresh_ok (to_purge a t)" by (rule fresh_ok_cong[OF i(1)]) (auto split: if_splits)
  show "links_ok Y (to_purge a t)" by (rule links_ok_cong[OF i(2)]) (auto simp: option.map_comp comp_def)
  show "names_ok Y (to_purge a t)" by (rule names_ok_cong[OF i(3)]) (auto simp: option.map_comp comp_def)
  have "inode_bucket (to_purge a t) b = (if b = a then None else inode_bucket t b)" for b
    using a(1) by (simp add: inode_bucket_def split: option.splits)
  then show "numbers_ok (to_purge a t)" using i(4) unfolding numbers_ok_def by auto
  have "refs_ok (to_lru a t) (held(a := held a - 1))"
    by (rule lowered_refs[OF i(6) a(1,2) _ a(3)]) (use a(4) in simp_all)
  then show "refs_ok (to_purge a t) (held(a := held a - 1))"
    by (rule refs_ok_cong) (simp add: lowered_inode option.map_comp comp_def)
  show "lists_ok (insert a X) (to_purge a t)"
  proof (rule lists_okI)
    show "b \<in> set (active (to_purge a t)) \<longleftrightarrow> i_ref j \<noteq> 0" if "inodes (to_purge a t) b = Some j" for b j
      using that l(1) l(8)[of b] a(1,4) by (auto split: if_splits)
    show "\<not> i_hashed j \<and> (b \<notin> insert a X \<longrightarrow> i_dentry_list j = [])"
      if "inodes (to_purge a t) b = Some j" "b \<in> set (purge (to_purge a t))" for b j
      using that l(9)[of b] act by (auto simp: remove1_idem split: if_splits)
    show "b \<in> set (active (to_purge a t)) \<or> b \<in> set (lru (to_purge a t)) \<or> b \<in> set (purge (to_purge a t))
        \<longleftrightarrow> inodes (to_purge a t) b \<noteq> None" for b
      using l(7)[of b] l(1) act a(1) by (auto simp: remove1_idem)
    show "active_size (to_purge a t) = of_nat (length (active (to_purge a t)))"
      using l(10) act by (simp add: of_nat_length_remove1)
  qed (use l act in \<open>auto simp: remove1_idem\<close>)
qed

section \<open>The recursion\<close>

definition unref_spec :: "(nat \<Rightarrow> itable \<Rightarrow> fault + itable) \<Rightarrow> nat \<Rightarrow> bool" where
  "unref_spec f n \<longleftrightarrow> (\<forall>X Y t held a i. table_inv X Y t held \<and> inodes t a = Some i \<and> (i_ino i = 1 \<or> 0 < held a)
     \<and> card (linked Y t) < n \<longrightarrow>
     (\<exists>t'. f a t = Inr t' \<and> table_inv X Y t' (held(a := held a - 1)) \<and> frame_ok {} Y t t'))"

lemma frame_detach:
  assumes inv: "table_inv X Y t held" and d: "dentries t d = Some x" "d \<notin> Y"
    and fr: "frame_ok {} (insert d Y) (detached d (x\<lparr>d_hashed := False\<rparr>) (unhashed d t)) u"
  shows "frame_ok {d_inode x} Y t (u\<lparr>dentries := (dentries u)(d := None)\<rparr>)"
    and "inodes t (d_inode x) = Some i \<Longrightarrow> i_ref i = 0 \<Longrightarrow>
      inodes u (d_inode x) = Some (i\<lparr>i_dentry_list := remove1 d (i_dentry_list i)\<rparr>)"
proof -
  let ?x = "x\<lparr>d_hashed := False\<rparr>"
  let ?s = "detached d ?x (unhashed d t)"
  note i = table_invD[OF inv]
  have par: "i_ref p \<noteq> 0" if "inodes t (d_parent x) = Some p" for p
  proof -
    have "d \<in> set (i_child_list p)" using links_okD(1)[OF i(2) d] that by auto
    then have "0 < length (i_child_list p)" by (auto intro: length_pos_if_in_set)
    moreover have "held (d_parent x) + length (i_child_list p) \<le> unat (i_ref p)"
      using refs_okD[OF i(6) that] by (cases "i_ino p = 1") auto
    ultimately have "0 < unat (i_ref p)" by linarith
    then show ?thesis by auto
  qed
  have s: "inodes ?s b = Some j" if "inodes t b = Some j" "i_ref j = 0" "b \<noteq> d_inode x" for b j
    using that par by (auto simp: detached_inode)
  have ino: "map_option i_ino (inodes ?s b) = map_option i_ino (inodes t b)" for b
    by (simp add: detached_inode option.map_comp comp_def)
  have "\<exists>k. inodes t b = Some k \<and> i_hashed k" if h: "inodes u b = Some j" "i_hashed j" for b j
  proof -
    obtain k where "inodes ?s b = Some k" "i_hashed k" using fr h unfolding frame_ok_def by blast
    then show ?thesis by (auto simp: detached_inode)
  qed
  moreover have "released {d_inode x} t (u\<lparr>dentries := (dentries u)(d := None)\<rparr>)"
  proof (rule releasedI)
    have "released {} ?s u" using fr by (simp add: frame_ok_def)
    note r = releasedD[OF this]
    have live: "\<exists>k. inodes ?s b = Some k \<and> i_ref k = i_ref j \<and> i_hashed k = i_hashed j" if "inodes t b = Some j" for b j
      using that by (auto simp: detached_inode)
    show "\<exists>P. name_hash (u\<lparr>dentries := (dentries u)(d := None)\<rparr>) b = filter P (name_hash t b)" for b
    proof -
      obtain P where P: "name_hash u b = filter P (name_hash ?s b)" using r(1) by blast
      have "name_hash ?s b = filter (\<lambda>e. e \<noteq> d) (name_hash t b)"
        using i(3) by (simp add: names_ok_def distinct_remove1_removeAll removeAll_filter_not_eq) (metis)
      with P show ?thesis by auto
    qed
    show "\<exists>j. inodes (u\<lparr>dentries := (dentries u)(d := None)\<rparr>) b = Some j \<and> i_ref j = 0" if "inodes t b = Some k" "i_ref k = 0" for b k
      using live[OF that(1)] r(2)[of b] that(2) by auto
    show "\<exists>j. inodes (u\<lparr>dentries := (dentries u)(d := None)\<rparr>) b = Some j \<and> (i_hashed j \<or> i_ref j = 0)"
      if "inodes t b = Some k" "i_hashed k" for b k
      using live[OF that(1)] r(3)[of b] that(2) by auto
    show "\<exists>i. inodes t b = Some i \<and> unat (i_ref j) \<le> unat (i_ref i)"
      if h: "inodes (u\<lparr>dentries := (dentries u)(d := None)\<rparr>) b = Some j" for b j
    proof -
      obtain k where "inodes ?s b = Some k" "unat (i_ref j) \<le> unat (i_ref k)" using r(5)[of b j] h by auto
      then show ?thesis by (auto simp: detached_inode)
    qed
    show "d_inode y \<in> {d_inode x} \<or> (\<exists>j. inodes (u\<lparr>dentries := (dentries u)(d := None)\<rparr>) (d_inode y) = Some j \<and> i_ref j = 0)"
      if "dentries t e = Some y" "dentries (u\<lparr>dentries := (dentries u)(d := None)\<rparr>) e \<noteq> Some y" for e y
      using that r(4)[of e y] d by (cases "e = d") auto
  qed
  ultimately show "frame_ok {d_inode x} Y t (u\<lparr>dentries := (dentries u)(d := None)\<rparr>)"
    using fr s d(2) ino unfolding frame_ok_def by (auto split: if_splits)
  assume a: "inodes t (d_inode x) = Some i" "i_ref i = 0"
  then have "d_inode x \<noteq> d_parent x" using par by auto
  then have "inodes ?s (d_inode x) = Some (i\<lparr>i_dentry_list := remove1 d (i_dentry_list i)\<rparr>)"
    using a by (simp add: detached_inode)
  then show "inodes u (d_inode x) = Some (i\<lparr>i_dentry_list := remove1 d (i_dentry_list i)\<rparr>)"
    using fr a(2) unfolding frame_ok_def by simp
qed

lemma unset_ok:
  assumes spec: "unref_spec f n" and inv: "table_inv X Y t held" and d: "dentries t d = Some x" "d \<notin> Y"
    and n: "card (linked Y t) \<le> n"
  shows "\<exists>t'. dentry_unset_by f d t = Inr t' \<and> table_inv X Y t' held \<and> frame_ok {d_inode x} Y t t'
    \<and> (\<forall>i. inodes t (d_inode x) = Some i \<and> i_ref i = 0 \<longrightarrow>
         inodes t' (d_inode x) = Some (i\<lparr>i_dentry_list := remove1 d (i_dentry_list i)\<rparr>))"
proof -
  let ?x = "x\<lparr>d_hashed := False\<rparr>"
  let ?u = "unhashed d t"
  let ?s = "detached d ?x ?u"
  let ?h = "held(d_parent x := Suc (held (d_parent x)))"
  note i = table_invD[OF inv]
  obtain ii p where ip: "inodes t (d_inode x) = Some ii" "inodes t (d_parent x) = Some p"
    using links_okD(1)[OF i(2) d] by blast
  have u: "dentries ?u d = Some ?x" using d(1) by simp
  have sinv: "table_inv X (insert d Y) ?s ?h"
    using detached_inv[OF unhashed_inv[OF inv d(1)] u d(2)] by simp
  obtain p2 where p2: "inodes ?s (d_parent x) = Some p2" using ip(2) by (simp add: detached_inode)
  have "linked (insert d Y) ?s = linked Y t - {d}" by (auto simp: linked_def)
  moreover have "d \<in> linked Y t" using d by (simp add: linked_def)
  ultimately have "card (linked (insert d Y) ?s) < n"
    using n finite_linked[OF i(1)] by (metis card_Diff1_less order_less_le_trans)
  then obtain v where v: "f (d_parent x) ?s = Inr v" "table_inv X (insert d Y) v (?h(d_parent x := ?h (d_parent x) - 1))"
      "frame_ok {} (insert d Y) ?s v"
    using spec sinv p2 unfolding unref_spec_def by (metis fun_upd_same zero_less_Suc)
  let ?t = "v\<lparr>dentries := (dentries v)(d := None)\<rparr>"
  have "?h(d_parent x := ?h (d_parent x) - 1) = held" by auto
  with v(2) have "table_inv X Y ?t held" using freed_dentry_inv[of X d Y v held] d(2) by simp
  moreover have "dentry_unset_by f d t = Inr ?t"
    using v(1) d(1) ip by (simp add: dentry_unset_by_def dentry_unhash_eq get_dentry_Some get_inode_Some detached_def)
  ultimately show ?thesis using frame_detach[OF inv d v(3)] by auto
qed

lemma unset_loop:
  assumes spec: "unref_spec f n" and "table_inv X Y t held" "inodes t a = Some i" "i_ref i = 0" "i_dentry_list i = ds"
    and "card (linked Y t) \<le> n"
  shows "\<exists>t'. foldM (dentry_unset_by f) ds t = Inr t' \<and> table_inv X Y t' held \<and> frame_ok {a} Y t t'
    \<and> inodes t' a = Some (i\<lparr>i_dentry_list := []\<rparr>)"
  using assms(2-)
proof (induction ds arbitrary: t i)
  case Nil
  then show ?case by (auto simp: frame_refl)
next
  case (Cons d ds)
  obtain x where x: "dentries t d = Some x" "d_inode x = a" "d \<notin> Y"
    using links_okD(3)[OF table_invD(2)[OF Cons.prems(1)] Cons.prems(2), of d] Cons.prems(4) by auto
  obtain u where u: "dentry_unset_by f d t = Inr u" "table_inv X Y u held" "frame_ok {a} Y t u"
      "inodes u a = Some (i\<lparr>i_dentry_list := ds\<rparr>)"
    using unset_ok[OF spec Cons.prems(1) x(1,3) Cons.prems(5)] x(2) Cons.prems(2-4) by auto
  have "card (linked Y u) \<le> n"
    using frame_linked[OF u(3) table_invD(1)[OF Cons.prems(1)]] Cons.prems(5) by simp
  then obtain v where v: "foldM (dentry_unset_by f) ds u = Inr v" "table_inv X Y v held" "frame_ok {a} Y u v"
      "inodes v a = Some (i\<lparr>i_dentry_list := []\<rparr>)"
    using Cons.IH[OF u(2,4)] Cons.prems(3) by auto
  then show ?case using u(1) frame_trans[OF u(3) v(3)] by auto
qed

lemma passivate_loop:
  assumes spec: "unref_spec f n" and "table_inv X Y t held" "inodes t a = Some i" "i_ref i = 0"
    and "set ds \<subseteq> set (i_dentry_list i)" "distinct ds" "card (linked Y t) \<le> n"
  shows "\<exists>t'. foldM (unset_if_unhashed f) ds t = Inr t' \<and> table_inv X Y t' held \<and> frame_ok {a} Y t t'"
  using assms(2-)
proof (induction ds arbitrary: t i)
  case Nil
  then show ?case by (auto simp: frame_refl)
next
  case (Cons d ds)
  obtain x where x: "dentries t d = Some x" "d_inode x = a" "d \<notin> Y"
    using links_okD(3)[OF table_invD(2)[OF Cons.prems(1)] Cons.prems(2), of d] Cons.prems(4) by auto
  show ?case
  proof (cases "d_hashed x")
    case True
    then have "unset_if_unhashed f d t = Inr t"
      using x(1) by (simp add: unset_if_unhashed_def is_dentry_hashed_def get_dentry_Some)
    then show ?thesis using Cons.IH[OF Cons.prems(1-3)] Cons.prems(4-6) by auto
  next
    case False
    then have eq: "unset_if_unhashed f d t = dentry_unset_by f d t"
      using x(1) by (simp add: unset_if_unhashed_def is_dentry_hashed_def get_dentry_Some)
    obtain u where u: "dentry_unset_by f d t = Inr u" "table_inv X Y u held" "frame_ok {a} Y t u"
        "inodes u a = Some (i\<lparr>i_dentry_list := remove1 d (i_dentry_list i)\<rparr>)"
      using unset_ok[OF spec Cons.prems(1) x(1,3) Cons.prems(6)] x(2) Cons.prems(2,3) by auto
    have "set ds \<subseteq> set (remove1 d (i_dentry_list i))"
      using Cons.prems(4,5) links_okD(2)[OF table_invD(2)[OF Cons.prems(1)] Cons.prems(2)] by auto
    moreover have "card (linked Y u) \<le> n"
      using frame_linked[OF u(3) table_invD(1)[OF Cons.prems(1)]] Cons.prems(6) by simp
    ultimately obtain v where v: "foldM (unset_if_unhashed f) ds u = Inr v" "table_inv X Y v held" "frame_ok {a} Y u v"
      using Cons.IH[OF u(2,4)] Cons.prems(3,5) by auto
    then show ?thesis using u(1) eq frame_trans[OF u(3) v(3)] by auto
  qed
qed

lemma frame_drop:
  assumes "frame_ok {a} Y t u" "\<And>i. inodes t a = Some i \<Longrightarrow> i_ref i \<noteq> 0" "\<exists>j. inodes u a = Some j \<and> i_ref j = 0"
  shows "frame_ok {} Y t u"
proof -
  have "released {a} t u" using assms(1) by (simp add: frame_ok_def)
  then have "released {} t u" using assms(3) unfolding released_def by blast
  moreover
  have "inodes u b = Some j" if "inodes t b = Some j" "i_ref j = 0" for b j
    using assms that unfolding frame_ok_def by blast
  then have "\<forall>b j. inodes t b = Some j \<and> i_ref j = 0 \<and> b \<notin> {} \<longrightarrow> inodes u b = Some j" by blast
  ultimately show ?thesis using assms(1) unfolding frame_ok_def by (elim conjE, intro conjI)
qed

lemma frame_after_move:
  assumes "frame_ok {a} Y s u" "inodes t a = Some i" "i_ref i \<noteq> 0"
    and "\<And>b. b \<noteq> a \<Longrightarrow> inodes s b = inodes t b" "\<exists>j. inodes s a = Some j \<and> i_ref j = 0 \<and> i_ino j = i_ino i \<and> (i_hashed j \<longrightarrow> i_hashed i)" "dentries s = dentries t"
    "name_hash s = name_hash t"
    "\<exists>ps. purge s = purge t @ ps" "it_next s = it_next t" "dt_next s = dt_next t" "lru_limit s = lru_limit t" "root s = root t"
  shows "frame_ok {} Y t u"
proof -
  have "map_option i_ino (inodes s b) = map_option i_ino (inodes t b)" for b
    using assms(2,4,5) by (cases "b = a") auto
  moreover have "\<exists>i. inodes t b = Some i \<and> i_hashed i" if "inodes s b = Some j" "i_hashed j" for b j
    using that assms(2,4,5) by (cases "b = a") auto
  moreover have "released {a} t s"
  proof (rule releasedI)
    show "\<exists>P. name_hash s b = filter P (name_hash t b)" for b using assms(7) by (auto intro: exI[of _ "\<lambda>_. True"])
    show "\<exists>j. inodes s b = Some j \<and> i_ref j = 0" if "inodes t b = Some k" "i_ref k = 0" for b k
      using that assms(2,4,5) by (cases "b = a") auto
    show "\<exists>j. inodes s b = Some j \<and> (i_hashed j \<or> i_ref j = 0)" if "inodes t b = Some k" "i_hashed k" for b k
      using that assms(4,5) by (cases "b = a") auto
    show "\<exists>i. inodes t b = Some i \<and> unat (i_ref j) \<le> unat (i_ref i)" if "inodes s b = Some j" for b j
      using that assms(2,4,5) by (cases "b = a") auto
  qed (use assms(6) in auto)
  ultimately have "frame_ok {a} Y t s" using assms(4-) by (auto simp: frame_ok_def)
  then have "frame_ok {a} Y t u" using assms(1) by (rule frame_trans)
  moreover have "\<exists>j. inodes u a = Some j \<and> i_ref j = 0"
    using assms(1,5) unfolding frame_ok_def released_def by blast
  ultimately show ?thesis using assms(2,3) by (intro frame_drop) auto
qed

lemma table_inv_shrink:
  assumes "table_inv (insert a X) Y t held" "inodes t a = Some i" "i_dentry_list i = []"
  shows "table_inv X Y t held"
  using assms unfolding table_inv_def lists_ok_def by (metis insertE option.inject)

lemma refs_ok_root:
  assumes "refs_ok t held" "inodes t a = Some i" "i_ino i = 1"
  shows "refs_ok t (held(a := held a - 1))"
  unfolding refs_ok_def
proof (intro allI impI)
  fix b j
  assume b: "inodes t b = Some j"
  show "if i_ino j = 1 then (held(a := held a - 1)) b + length (i_child_list j) \<le> unat (i_ref j)
         else unat (i_ref j) = (held(a := held a - 1)) b + length (i_child_list j)"
    using refs_okD[OF assms(1) b] assms(2,3) b by (cases "b = a") auto
qed

lemma last_ref_childless:
  assumes "refs_ok t held" "inodes t a = Some i" "i_ino i \<noteq> 1" "0 < held a" "i_ref i = 1"
  shows "i_child_list i = []" "held a = 1"
proof -
  have "1 = held a + length (i_child_list i)" using refs_okD(2)[OF assms(1-3)] assms(5) by simp
  then have "length (i_child_list i) = 0" "held a = 1" using assms(4) by linarith+
  then show "i_child_list i = []" "held a = 1" by auto
qed

lemma linked_cong: "dentries u = dentries t \<Longrightarrow> linked Y u = linked Y t"
  by (simp add: linked_def)

lemma passivate_ok:
  assumes spec: "unref_spec f n" and inv: "table_inv X Y t held"
    and a: "inodes t a = Some i" "i_ino i \<noteq> 1" "0 < held a" "i_ref i = 1" and n: "card (linked Y t) \<le> n"
  shows "\<exists>t'. inode_passivate_by f a ((lowered a t)\<lparr>active_size := active_size t - 1\<rparr>) = Inr t'
    \<and> table_inv X Y t' (held(a := held a - 1)) \<and> frame_ok {} Y t t'"
proof -
  let ?s = "to_lru a t"
  have s: "inodes ?s a = Some (i\<lparr>i_ref := 0\<rparr>)" using a by (simp add: lowered_inode)
  have inv': "table_inv X Y ?s (held(a := held a - 1))" by (rule to_lru_inv[OF inv a])
  have "distinct (i_dentry_list i)" using links_okD(2)[OF table_invD(2)[OF inv] a(1)] by simp
  then obtain u where u: "foldM (unset_if_unhashed f) (i_dentry_list i) ?s = Inr u"
      "table_inv X Y u (held(a := held a - 1))" "frame_ok {a} Y ?s u"
    using passivate_loop[OF spec inv' s, of "i_dentry_list i"] n linked_cong[of ?s t Y] by auto
  have "a \<notin> set (purge t)" using lists_okD(5)[OF table_invD(5)[OF inv]] lists_okD(8)[OF table_invD(5)[OF inv] a(1)] a(4) by auto
  then have "frame_ok {} Y t u"
    by (intro frame_after_move[OF u(3) a(1)]) (use a in \<open>auto simp: lowered_inode remove1_idem\<close>)
  moreover have "inode_passivate_by f a ((lowered a t)\<lparr>active_size := active_size t - 1\<rparr>) = Inr u"
    using u(1) s by (simp add: inode_passivate_by_def to_lru_def Let_def get_inode_Some)
  ultimately show ?thesis using u(2) by blast
qed

lemma retire_loop:
  assumes spec: "unref_spec f n" and inv: "table_inv (insert a X) Y s held"
    and s: "inodes s a = Some i" "i_ref i = 0" "i_child_list i = []" and n: "card (linked Y s) \<le> n"
  shows "\<exists>t'. bind_f (get_inode s a) (\<lambda>i. if i_child_list i \<noteq> [] then Inl Assert_Failed
      else foldM (dentry_unset_by f) (i_dentry_list i) s) = Inr t' \<and> table_inv X Y t' held \<and> frame_ok {a} Y s t'"
proof -
  obtain u where u: "foldM (dentry_unset_by f) (i_dentry_list i) s = Inr u" "table_inv (insert a X) Y u held"
      "frame_ok {a} Y s u" "inodes u a = Some (i\<lparr>i_dentry_list := []\<rparr>)"
    using unset_loop[OF spec inv s(1,2) refl n] by auto
  have "table_inv X Y u held" by (rule table_inv_shrink[OF u(2,4)]) simp
  then show ?thesis using u(1,3) s by (simp add: get_inode_Some)
qed

lemma retire_ok:
  assumes spec: "unref_spec f n" and inv: "table_inv X Y t held"
    and a: "inodes t a = Some i" "i_ino i \<noteq> 1" "0 < held a" "i_ref i = 1" and n: "card (linked Y t) \<le> n"
  shows "\<exists>t'. inode_retire_by f a ((lowered a t)\<lparr>active_size := active_size t - 1\<rparr>) = Inr t'
    \<and> table_inv X Y t' (held(a := held a - 1)) \<and> frame_ok {} Y t t'"
proof -
  let ?s = "to_purge a t"
  have s: "inodes ?s a = Some (i\<lparr>i_ref := 0, i_hashed := False\<rparr>)" using a by simp
  have inv': "table_inv (insert a X) Y ?s (held(a := held a - 1))" by (rule to_purge_inv[OF inv a])
  have "i_child_list i = []" by (rule last_ref_childless[OF table_invD(6)[OF inv] a])
  then obtain u where u: "bind_f (get_inode ?s a) (\<lambda>i. if i_child_list i \<noteq> [] then Inl Assert_Failed
        else foldM (dentry_unset_by f) (i_dentry_list i) ?s) = Inr u"
      "table_inv X Y u (held(a := held a - 1))" "frame_ok {a} Y ?s u"
    using retire_loop[OF spec inv' s] n linked_cong[of ?s t Y] by auto
  have "a \<notin> set (purge t)" using lists_okD(5)[OF table_invD(5)[OF inv]] lists_okD(8)[OF table_invD(5)[OF inv] a(1)] a(4) by auto
  then have "frame_ok {} Y t u"
    by (intro frame_after_move[OF u(3) a(1)]) (use a in \<open>auto simp: remove1_idem\<close>)
  moreover have "inode_retire_by f a ((lowered a t)\<lparr>active_size := active_size t - 1\<rparr>) = Inr u"
    using u(1) unfolding inode_retire_by_def to_purge_def Let_def by simp
  ultimately show ?thesis using u(2) by blast
qed

lemma unref_n_ok: "unref_spec (inode_unref_n n) n"
proof (induction n)
  case 0
  then show ?case by (simp add: unref_spec_def)
next
  case (Suc n)
  show ?case
    unfolding unref_spec_def
  proof (intro allI impI, elim conjE)
    fix X Y t held a i
    assume inv: "table_inv X Y t held" and a: "inodes t a = Some i" "i_ino i = 1 \<or> 0 < held a"
      and n: "card (linked Y t) < Suc n"
    show "\<exists>t'. inode_unref_n (Suc n) a t = Inr t' \<and> table_inv X Y t' (held(a := held a - 1)) \<and> frame_ok {} Y t t'"
    proof (cases "i_ino i = 1")
      case True
      have "table_inv X Y t (held(a := held a - 1))"
        using inv refs_ok_root[OF table_invD(6)[OF inv] a(1) True] by (simp add: table_inv_def)
      then show ?thesis using a True by (simp add: get_inode_Some frame_refl)
    next
      case False
      with a have h: "0 < held a" by simp
      have ref: "i_ref i \<noteq> 0" using refs_okD(2)[OF table_invD(6)[OF inv] a(1) False] h by auto
      have n': "card (linked Y t) \<le> n" using n by simp
      show ?thesis
      proof (cases "i_ref i = 1")
        case True
        then show ?thesis
          using passivate_ok[OF Suc inv a(1) False h True n'] retire_ok[OF Suc inv a(1) False h True n'] a(1) False
          by (auto simp: get_inode_Some lowered_def Let_def)
      next
        case r: False
        have "table_inv X Y (lowered a t) (held(a := held a - 1))" by (rule lowered_inv[OF inv a(1) False h r])
        moreover have "frame_ok {} Y t (lowered a t)"
          using a(1) ref by (auto simp: frame_ok_def lowered_def released_def unat_pred intro!: exI[of _ "\<lambda>_. True"])
        moreover have "inode_unref_n (Suc n) a t = Inr (lowered a t)"
          using a(1) False ref r by (simp add: get_inode_Some lowered_def Let_def)
        ultimately show ?thesis by blast
      qed
    qed
  qed
qed

section \<open>Taking a reference\<close>

lemma ref_ok:
  assumes inv: "table_inv X Y t held" and a: "inodes t a = Some i" "unat (i_ref i) < 4294967295" "a \<notin> set (purge t)"
  shows "\<exists>t'. inode_ref_locked a t = Inr t' \<and> table_inv X Y t' (held(a := Suc (held a)))
    \<and> inodes t' = (inodes t)(a \<mapsto> i\<lparr>i_ref := i_ref i + 1\<rparr>) \<and> dentries t' = dentries t
    \<and> name_hash t' = name_hash t \<and> inode_hash t' = inode_hash t \<and> purge t' = purge t \<and> dt_next t' = dt_next t
    \<and> it_next t' = it_next t"
proof -
  let ?t = "if i_ref i = 0 then inode_activate a (t\<lparr>lru_size := lru_size t - 1\<rparr>) else t"
  define r where "r = upd_inode a (\<lambda>i. i\<lparr>i_ref := i_ref i + 1\<rparr>) ?t"
  note I = table_invD[OF inv] and l = lists_okD[OF table_invD(5)[OF inv]]
  have suc: "unat (i_ref i + 1) = Suc (unat (i_ref i))"
    using a(2) unat_add_lem[of "i_ref i" 1] by simp
  then have nz: "i_ref i + 1 \<noteq> 0" by (metis nat.distinct(1) unat_0)
  have u: "inodes r = (inodes t)(a \<mapsto> i\<lparr>i_ref := i_ref i + 1\<rparr>)" "dentries r = dentries t" "name_hash r = name_hash t"
    "inode_hash r = inode_hash t" "purge r = purge t" "dt_next r = dt_next t" "it_next r = it_next t"
    using a(1,3) by (auto simp: r_def inode_activate_def list_del_def Let_def remove1_idem)
  have mem: "a \<in> set (active t) \<longleftrightarrow> i_ref i \<noteq> 0" "a \<in> set (lru t) \<longleftrightarrow> i_ref i = 0"
    using l(4) l(7)[of a] l(8)[OF a(1)] a(1,3) by auto
  have "table_inv X Y r (held(a := Suc (held a)))"
  proof (rule table_invI)
    show "fresh_ok r" by (rule fresh_ok_cong[OF I(1)]) (use a(1) u in \<open>auto split: if_splits\<close>)
    show "links_ok Y r" by (rule links_ok_cong[OF I(2)]) (use a(1) u in auto)
    show "names_ok Y r" by (rule names_ok_cong[OF I(3)]) (use a(1) u in auto)
    show "numbers_ok r" by (rule numbers_ok_cong[OF I(4)]) (use a(1) u in auto)
    show "refs_ok r (held(a := Suc (held a)))"
      unfolding refs_ok_def u(1)
    proof (intro allI impI)
      fix b j
      assume b: "((inodes t)(a \<mapsto> i\<lparr>i_ref := i_ref i + 1\<rparr>)) b = Some j"
      show "if i_ino j = 1 then (held(a := Suc (held a))) b + length (i_child_list j) \<le> unat (i_ref j)
         else unat (i_ref j) = (held(a := Suc (held a))) b + length (i_child_list j)"
        using b refs_okD[OF I(6) a(1)] refs_okD[OF I(6), of b j] suc by (cases "b = a") auto
    qed
    show "lists_ok X r"
    proof (cases "i_ref i = 0")
      case True
      have al: "active r = a # active t" "lru r = remove1 a (lru t)" "active_size r = active_size t + 1"
        "lru_size r = lru_size t - 1" "purge_size r = purge_size t"
        using True mem by (auto simp: r_def inode_activate_def list_del_def Let_def remove1_idem)
      show ?thesis
      proof (rule lists_okI)
        show "b \<in> set (active r) \<longleftrightarrow> i_ref j \<noteq> 0" if "inodes r b = Some j" for b j
          using that l(8)[of b] nz unfolding u(1) al(1) by (auto split: if_splits)
        show "\<not> i_hashed j \<and> (b \<notin> X \<longrightarrow> i_dentry_list j = [])" if "inodes r b = Some j" "b \<in> set (purge r)" for b j
          using that l(9)[of b] a(3) unfolding u(1,5) by (auto split: if_splits)
        show "b \<in> set (active r) \<or> b \<in> set (lru r) \<or> b \<in> set (purge r) \<longleftrightarrow> inodes r b \<noteq> None" for b
          using l(7)[of b] l(2) a(1) mem True unfolding u(1,5) al by auto
        show "lru_size r = of_nat (length (lru r))" using l(11) mem True unfolding al by (simp add: of_nat_length_remove1)
      qed (use l mem True a(3) in \<open>auto simp: u al\<close>)
    next
      case False
      show ?thesis
        proof (rule lists_okI)
        have al: "active r = active t" "lru r = lru t" "active_size r = active_size t" "lru_size r = lru_size t"
          "purge_size r = purge_size t"
          using False by (simp_all add: r_def)
        show "b \<in> set (active r) \<longleftrightarrow> i_ref j \<noteq> 0" if "inodes r b = Some j" for b j
          using that l(8)[of b] nz mem False unfolding u(1) al(1) by (auto split: if_splits)
        show "\<not> i_hashed j \<and> (b \<notin> X \<longrightarrow> i_dentry_list j = [])" if "inodes r b = Some j" "b \<in> set (purge r)" for b j
          using that l(9)[of b] a(3) unfolding u(1,5) by (auto split: if_splits)
        show "b \<in> set (active r) \<or> b \<in> set (lru r) \<or> b \<in> set (purge r) \<longleftrightarrow> inodes r b \<noteq> None" for b
          using l(7)[of b] a(1) unfolding u(1,5) al by auto
      qed (use l False in \<open>simp_all add: u r_def\<close>)
    qed
  qed
  moreover have "inode_ref_locked a t = Inr r" using a(1) by (simp add: r_def inode_ref_locked_def get_inode_Some Let_def)
  ultimately show ?thesis using u by blast
qed

section \<open>Releasing, outside the recursion\<close>

abbreviation inode_inv :: "itable \<Rightarrow> (nat \<Rightarrow> nat) \<Rightarrow> bool" where
  "inode_inv \<equiv> table_inv {} {}"

abbreviation keeps :: "itable \<Rightarrow> itable \<Rightarrow> bool" where
  "keeps \<equiv> frame_ok {} {}"

lemma unref_fuel: "fresh_ok t \<Longrightarrow> unref_spec (inode_unref_n (Suc (dt_next t))) (Suc (dt_next t)) \<and> card (linked Y t) < Suc (dt_next t)"
  using unref_n_ok card_linked[of t Y] by auto

lemma unref_locked_ok:
  assumes "inode_inv t held" "inodes t a = Some i" "i_ino i = 1 \<or> 0 < held a"
  shows "\<exists>t'. inode_unref_locked a t = Inr t' \<and> inode_inv t' (held(a := held a - 1)) \<and> keeps t t'"
  using unref_fuel[OF table_invD(1)[OF assms(1)], of "{}"] assms unfolding unref_spec_def inode_unref_locked_def by blast

lemma dentry_unset_ok:
  assumes "inode_inv t held" "dentries t d = Some x"
  shows "\<exists>t'. dentry_unset d t = Inr t' \<and> inode_inv t' held \<and> frame_ok {d_inode x} {} t t'"
  using unset_ok[OF _ assms(1) assms(2), of "inode_unref_n (Suc (dt_next t))" "Suc (dt_next t)"]
    unref_fuel[OF table_invD(1)[OF assms(1)], of "{}"] unfolding dentry_unset_def by auto

section \<open>Pruning\<close>

text \<open>An inode without references moves from the list of the recently used to the dying ones.\<close>

definition lru_to_purge :: "nat \<Rightarrow> itable \<Rightarrow> itable" where
  "lru_to_purge a t = (let t = list_del a (t\<lparr>lru_size := lru_size t - 1\<rparr>)
     in inode_unhash a (t\<lparr>purge := purge t @ [a], purge_size := purge_size t + 1\<rparr>))"

lemma lru_to_purge_sel [simp]:
  "inodes (lru_to_purge a t) b = (if b = a then map_option (\<lambda>i. i\<lparr>i_hashed := False\<rparr>) (inodes t a) else inodes t b)"
  "dentries (lru_to_purge a t) = dentries t"
  "name_hash (lru_to_purge a t) = name_hash t" "inode_hash (lru_to_purge a t) = (\<lambda>b. remove1 a (inode_hash t b))"
  "it_next (lru_to_purge a t) = it_next t" "dt_next (lru_to_purge a t) = dt_next t" "root (lru_to_purge a t) = root t"
  "lru_limit (lru_to_purge a t) = lru_limit t"
  "active (lru_to_purge a t) = remove1 a (active t)" "active_size (lru_to_purge a t) = active_size t"
  "lru (lru_to_purge a t) = remove1 a (lru t)" "lru_size (lru_to_purge a t) = lru_size t - 1"
  "purge (lru_to_purge a t) = remove1 a (purge t) @ [a]" "purge_size (lru_to_purge a t) = purge_size t + 1"
  by (auto simp: lru_to_purge_def list_del_def inode_unhash_def Let_def)

lemma lru_to_purge_inv:
  assumes inv: "table_inv X Y t held" and a: "a \<in> set (lru t)"
  shows "table_inv (insert a X) Y (lru_to_purge a t) held"
proof (rule table_invI)
  note i = table_invD[OF inv] and l = lists_okD[OF table_invD(5)[OF inv]]
  have nm: "a \<notin> set (active t)" "a \<notin> set (purge t)" using l(4,6) a by auto
  obtain ii where ii: "inodes t a = Some ii" using l(7)[of a] a by auto
  show "fresh_ok (lru_to_purge a t)" by (rule fresh_ok_cong[OF i(1)]) (auto split: if_splits)
  show "links_ok Y (lru_to_purge a t)" by (rule links_ok_cong[OF i(2)]) (auto simp: option.map_comp comp_def)
  show "names_ok Y (lru_to_purge a t)" by (rule names_ok_cong[OF i(3)]) (auto simp: option.map_comp comp_def)
  have "inode_bucket (lru_to_purge a t) b = (if b = a then None else inode_bucket t b)" for b
    using ii by (simp add: inode_bucket_def split: option.splits)
  then show "numbers_ok (lru_to_purge a t)" using i(4) unfolding numbers_ok_def by auto
  show "refs_ok (lru_to_purge a t) held"
    by (rule refs_ok_cong[OF i(6)]) (simp add: option.map_comp comp_def)
  show "lists_ok (insert a X) (lru_to_purge a t)"
  proof (rule lists_okI)
    show "b \<in> set (active (lru_to_purge a t)) \<longleftrightarrow> i_ref j \<noteq> 0" if "inodes (lru_to_purge a t) b = Some j" for b j
      using that l(8)[of b] l(8)[OF ii] ii nm by (auto simp: remove1_idem split: if_splits)
    show "\<not> i_hashed j \<and> (b \<notin> insert a X \<longrightarrow> i_dentry_list j = [])"
      if "inodes (lru_to_purge a t) b = Some j" "b \<in> set (purge (lru_to_purge a t))" for b j
      using that l(9)[of b] nm by (auto simp: remove1_idem split: if_splits)
    show "b \<in> set (active (lru_to_purge a t)) \<or> b \<in> set (lru (lru_to_purge a t)) \<or> b \<in> set (purge (lru_to_purge a t))
        \<longleftrightarrow> inodes (lru_to_purge a t) b \<noteq> None" for b
      using l(7)[of b] l(2) nm a ii by (auto simp: remove1_idem)
    show "lru_size (lru_to_purge a t) = of_nat (length (lru (lru_to_purge a t)))"
      using l(11) a by (simp add: of_nat_length_remove1)
  qed (use l a nm in \<open>auto simp: remove1_idem\<close>)
qed

lemma childless_without_refs:
  assumes "refs_ok t held" "inodes t a = Some i" "i_ref i = 0"
  shows "i_child_list i = []" "held a = 0"
  using refs_okD[OF assms(1,2)] assms(3) by (cases "i_ino i = 1"; simp)+

lemma prune_retire_ok:
  assumes inv: "inode_inv t held" and a: "a \<in> set (lru t)"
  shows "\<exists>t'. inode_retire a (t\<lparr>lru_size := lru_size t - 1\<rparr>) = Inr t' \<and> inode_inv t' held
    \<and> frame_ok {a} {} (lru_to_purge a t) t'"
proof -
  let ?s = "lru_to_purge a t"
  note i = table_invD[OF inv] and l = lists_okD[OF table_invD(5)[OF inv]]
  obtain ii where ii: "inodes t a = Some ii" "i_ref ii = 0" using l(4) l(7)[of a] l(8)[of a] a by auto
  have s: "inodes ?s a = Some (ii\<lparr>i_hashed := False\<rparr>)" using ii by simp
  have "table_inv (insert a {}) {} ?s held" by (rule lru_to_purge_inv[OF inv a])
  then obtain u where "bind_f (get_inode ?s a) (\<lambda>i. if i_child_list i \<noteq> [] then Inl Assert_Failed
        else foldM (dentry_unset_by (inode_unref_n (Suc (dt_next t)))) (i_dentry_list i) ?s) = Inr u"
      "inode_inv u held" "frame_ok {a} {} ?s u"
    using retire_loop[OF unref_n_ok[of "Suc (dt_next t)"] _ s] childless_without_refs[OF i(6) ii]
      card_linked[OF i(1), of "{}"] linked_cong[of ?s t "{}"] ii by fastforce
  moreover have "inode_retire a (t\<lparr>lru_size := lru_size t - 1\<rparr>) = bind_f (get_inode ?s a) (\<lambda>i. if i_child_list i \<noteq> []
      then Inl Assert_Failed else foldM (dentry_unset_by (inode_unref_n (Suc (dt_next t)))) (i_dentry_list i) ?s)"
  proof -
    have dt: "dt_next (t\<lparr>lru_size := lru_size t - 1\<rparr>) = dt_next t" by simp
    show ?thesis unfolding inode_retire_def inode_retire_by_def lru_to_purge_def Let_def dt by (rule refl)
  qed
  ultimately show ?thesis by metis
qed

text \<open>The inodes that are not yet dying bound the loop.\<close>

lemma living_bound:
  assumes "inode_inv t held"
  shows "length (active t) + length (lru t) + length (purge t) \<le> it_next t"
proof -
  note l = lists_okD[OF table_invD(5)[OF assms]]
  have "distinct (active t @ lru t @ purge t)" using l(1-6) by auto
  then have "length (active t @ lru t @ purge t) = card (set (active t @ lru t @ purge t))"
    by (simp only: distinct_card)
  also have "\<dots> \<le> card {..<it_next t}"
    using l(7) table_invD(1)[OF assms] unfolding fresh_ok_def by (intro card_mono) auto
  finally show ?thesis by simp
qed

lemma dom_keeps: "map_option i_ino (inodes u b) = map_option i_ino (inodes t b) \<Longrightarrow> inodes u b = None \<longleftrightarrow> inodes t b = None"
  by (metis map_option_is_None)

definition same_inodes :: "itable \<Rightarrow> itable \<Rightarrow> bool" where
  "same_inodes t u \<longleftrightarrow> (\<forall>b. map_option i_ino (inodes u b) = map_option i_ino (inodes t b))
     \<and> lru_limit u = lru_limit t \<and> it_next u = it_next t \<and> dt_next u = dt_next t \<and> root u = root t
     \<and> (\<forall>d x. dentries u d = Some x \<longrightarrow> dentries t d = Some x)
     \<and> (\<forall>b j. inodes u b = Some j \<and> i_hashed j \<longrightarrow> (\<exists>i. inodes t b = Some i \<and> i_hashed i))"

lemma same_inodes_trans: "same_inodes t u \<Longrightarrow> same_inodes u v \<Longrightarrow> same_inodes t v"
  unfolding same_inodes_def by (metis (no_types))

lemma frame_same_inodes: "frame_ok Z Y t u \<Longrightarrow> same_inodes t u"
  unfolding frame_ok_def same_inodes_def by blast

lemma purge_grows_living:
  assumes "inode_inv t held" "inode_inv u held'" "same_inodes t u" "length (purge t) < length (purge u)"
  shows "length (active u) + length (lru u) < length (active t) + length (lru t)"
proof -
  have c: "length (active v) + length (lru v) + length (purge v) = card (dom (inodes v))" if "inode_inv v h" for v h
  proof -
    note l = lists_okD[OF table_invD(5)[OF that]]
    have "distinct (active v @ lru v @ purge v)" using l(1-6) by auto
    then have "length (active v @ lru v @ purge v) = card (set (active v @ lru v @ purge v))"
      by (simp only: distinct_card)
    moreover have "set (active v @ lru v @ purge v) = dom (inodes v)" using l(7) by auto
    ultimately show ?thesis by simp
  qed
  have "dom (inodes u) = dom (inodes t)" using assms(3) dom_keeps unfolding same_inodes_def dom_def by metis
  then have "card (dom (inodes u)) = card (dom (inodes t))" by simp
  then show ?thesis using c[OF assms(1)] c[OF assms(2)] assms(4) by linarith
qed

lemma released_prune:
  assumes inv: "inode_inv t held" and e: "e \<in> set (lru t)" and fr: "frame_ok {e} {} (lru_to_purge e t) u"
  shows "released {} t u"
proof -
  let ?s = "lru_to_purge e t"
  note l = lists_okD[OF table_invD(5)[OF inv]]
  obtain i where i: "inodes t e = Some i" "i_ref i = 0" using l(4) l(7)[of e] l(8)[of e] e by auto
  have "released {e} t ?s"
    by (rule releasedI) (use i in \<open>auto intro!: exI[of _ "\<lambda>_. True"] split: if_splits\<close>)
  moreover have "released {e} ?s u" using fr by (simp add: frame_ok_def)
  ultimately have r: "released {e} t u" by (rule released_trans)
  moreover obtain j where "inodes u e = Some j" "i_ref j = 0" using releasedD(2)[OF r i] by blast
  ultimately show ?thesis unfolding released_def by blast
qed

lemma prune_loop_ok:
  assumes "inode_inv t held" "length (active t) + length (lru t) \<le> n"
  shows "\<exists>t'. prune_loop n t = Inr t' \<and> inode_inv t' held \<and> same_inodes t t' \<and> released {} t t'
    \<and> (lru_limit t' = 0 \<or> lru_size t' \<le> lru_limit t')"
  using assms
proof (induction n arbitrary: t)
  case 0
  then have "lru t = []" by simp
  then have "lru_size t = 0" using lists_okD(11)[OF table_invD(5)[OF "0.prems"(1)]] by simp
  then show ?case using "0.prems" by (simp add: prune_loop.simps same_inodes_def released_refl)
next
  case (Suc n)
  show ?case
  proof (cases "lru_limit t \<noteq> 0 \<and> lru_limit t < lru_size t")
    case False
    then show ?thesis using Suc.prems by (auto simp: prune_loop.simps[of "Suc n"] same_inodes_def not_less released_refl)
  next
    case True
    then have "lru t \<noteq> []" using lists_okD(11)[OF table_invD(5)[OF Suc.prems(1)]] by auto
    then obtain e es where e: "lru t = e # es" by (cases "lru t") auto
    then have el: "e \<in> set (lru t)" by simp
    obtain u where u: "inode_retire e (t\<lparr>lru_size := lru_size t - 1\<rparr>) = Inr u" "inode_inv u held"
        "frame_ok {e} {} (lru_to_purge e t) u"
      using prune_retire_ok[OF Suc.prems(1) el] by blast
    have "same_inodes t (lru_to_purge e t)"
      using lists_okD(7)[OF table_invD(5)[OF Suc.prems(1)], of e] el
      by (auto simp: same_inodes_def option.map_comp comp_def split: if_splits)
    then have same: "same_inodes t u" using same_inodes_trans frame_same_inodes[OF u(3)] by blast
    have rel: "released {} t u" by (rule released_prune[OF Suc.prems(1) el u(3)])
    have "e \<notin> set (purge t)" using lists_okD(6)[OF table_invD(5)[OF Suc.prems(1)]] el by auto
    then have "length (purge t) < length (purge u)" using u(3) unfolding frame_ok_def by (auto simp: remove1_idem)
    then have "length (active u) + length (lru u) \<le> n"
      using purge_grows_living[OF Suc.prems(1) u(2) same] Suc.prems(2) by linarith
    then obtain v where "prune_loop n u = Inr v" "inode_inv v held" "same_inodes u v" "released {} u v"
        "lru_limit v = 0 \<or> lru_size v \<le> lru_limit v"
      using Suc.IH[OF u(2)] by blast
    then show ?thesis using True e u(1) same_inodes_trans[OF same] released_trans[OF rel]
      by (auto simp: prune_loop.simps[of "Suc n"])
  qed
qed

text \<open>The translators that are told about a destroyed inode.\<close>

definition notices :: "nat \<Rightarrow> inode \<Rightarrow> (nat \<times> nat) list" where
  "notices a i = map (\<lambda>(k, v). (k, a)) (filter (\<lambda>(k, v). k \<noteq> 0) (i_ctx i))"

lemma destroy_loop:
  assumes "\<forall>a \<in> set dead. inodes t a \<noteq> None" "distinct dead"
  shows "foldM (\<lambda>a t. bind_f (inode_forget_locked a 0 t) (inode_destroy a)) dead t =
    Inr (t\<lparr>inodes := (\<lambda>b. if b \<in> set dead then None else inodes t b),
           forgotten := forgotten t @ concat (map (\<lambda>a. notices a (the (inodes t a))) dead)\<rparr>)"
  using assms
proof (induction dead arbitrary: t)
  case Nil
  then show ?case by simp
next
  case (Cons a dead)
  then obtain i where i: "inodes t a = Some i" by auto
  let ?u = "t\<lparr>inodes := (inodes t)(a := None), forgotten := forgotten t @ notices a i\<rparr>"
  let ?f = "\<lambda>a t. bind_f (inode_forget_locked a 0 t) (inode_destroy a)"
  have 1: "?f a t = Inr ?u"
    using i by (simp add: inode_forget_locked_def inode_destroy_def get_inode_Some upd_inode_def notices_def)
  have m: "map (\<lambda>a. notices a (the (inodes ?u a))) dead = map (\<lambda>a. notices a (the (inodes t a))) dead"
    using Cons.prems(2) by (intro map_cong) auto
  have e: "(\<lambda>b. if b \<in> set dead then None else inodes ?u b) = (\<lambda>b. if b \<in> set (a # dead) then None else inodes t b)"
    by (rule ext) simp
  have "foldM ?f (a # dead) t = foldM ?f dead ?u" by (simp only: foldM.simps 1 bind_f_simps)
  also have "\<dots> = Inr (?u\<lparr>inodes := (\<lambda>b. if b \<in> set dead then None else inodes ?u b),
      forgotten := forgotten ?u @ concat (map (\<lambda>a. notices a (the (inodes ?u a))) dead)\<rparr>)"
    using Cons.prems by (intro Cons.IH) auto
  also have "\<dots> = Inr (t\<lparr>inodes := (\<lambda>b. if b \<in> set (a # dead) then None else inodes t b),
      forgotten := forgotten t @ concat (map (\<lambda>a. notices a (the (inodes t a))) (a # dead))\<rparr>)"
    unfolding m e using i by simp
  finally show ?case .
qed

definition buried :: "itable \<Rightarrow> itable" where
  "buried t = t\<lparr>purge := [], purge_size := 0,
     inodes := (\<lambda>b. if b \<in> set (purge t) then None else inodes t b),
     forgotten := forgotten t @ concat (map (\<lambda>a. notices a (the (inodes t a))) (purge t))\<rparr>"

lemma buried_sel [simp]:
  "inodes (buried t) b = (if b \<in> set (purge t) then None else inodes t b)" "dentries (buried t) = dentries t"
  "name_hash (buried t) = name_hash t" "inode_hash (buried t) = inode_hash t" "it_next (buried t) = it_next t"
  "dt_next (buried t) = dt_next t" "root (buried t) = root t" "lru_limit (buried t) = lru_limit t"
  "active (buried t) = active t" "active_size (buried t) = active_size t" "lru (buried t) = lru t"
  "lru_size (buried t) = lru_size t" "purge (buried t) = []" "purge_size (buried t) = 0"
  by (simp_all add: buried_def)

text \<open>A dying inode has no references, no children, no dentries and is on no chain.\<close>

lemma dying:
  assumes "inode_inv t held" "a \<in> set (purge t)" "inodes t a = Some i"
  shows "i_ref i = 0" "i_child_list i = []" "i_dentry_list i = []" "\<not> i_hashed i" "held a = 0"
proof -
  note I = table_invD[OF assms(1)] and l = lists_okD[OF table_invD(5)[OF assms(1)]]
  have "a \<notin> set (active t)" using l(5) assms(2) by auto
  then show r: "i_ref i = 0" using l(8)[OF assms(3)] by simp
  show "i_child_list i = []" "held a = 0" by (rule childless_without_refs[OF I(6) assms(3) r])+
  show "i_dentry_list i = []" "\<not> i_hashed i" using l(9)[OF assms(3,2)] by auto
qed

lemma buried_inv:
  assumes "inode_inv t held"
  shows "inode_inv (buried t) held"
proof (rule table_invI)
  note I = table_invD[OF assms] and l = lists_okD[OF table_invD(5)[OF assms]] and dy = dying[OF assms]
  show "fresh_ok (buried t)" by (rule fresh_ok_cong[OF I(1)]) (auto split: if_splits)
  show "links_ok {} (buried t)"
  proof (rule links_okI)
    note k = links_okD[OF I(2)]
    show "\<exists>i. inodes (buried t) (d_inode x) = Some i \<and> d \<in> set (i_dentry_list i)" if h: "dentries (buried t) d = Some x" for d x
    proof -
      obtain i where "inodes t (d_inode x) = Some i" "d \<in> set (i_dentry_list i)" using k(1)[of d x] h by auto
      then show ?thesis using dy(3)[of "d_inode x" i] by auto
    qed
    show "\<exists>i. inodes (buried t) (d_parent x) = Some i \<and> d \<in> set (i_child_list i)" if h: "dentries (buried t) d = Some x" for d x
    proof -
      obtain i where "inodes t (d_parent x) = Some i" "d \<in> set (i_child_list i)" using k(1)[of d x] h by auto
      then show ?thesis using dy(2)[of "d_parent x" i] by auto
    qed
  qed (use links_okD[OF I(2)] in \<open>auto split: if_splits\<close>)
  have "dentry_bucket (buried t) d = dentry_bucket t d" for d
  proof (cases "dentries t d")
    case (Some x)
    then obtain i where "inodes t (d_parent x) = Some i" "d \<in> set (i_child_list i)" using links_okD(1)[OF I(2), of d x] by auto
    then have "d_parent x \<notin> set (purge t)" using dy(2)[of "d_parent x" i] by auto
    with Some show ?thesis by (simp add: dentry_bucket_def)
  qed (simp add: dentry_bucket_def)
  then show "names_ok {} (buried t)" using I(3) by (simp add: names_ok_def)
  have "inode_bucket (buried t) a = inode_bucket t a" for a
    using dy(4)[of a] by (auto simp: inode_bucket_def split: option.splits)
  then show "numbers_ok (buried t)" using I(4) by (simp add: numbers_ok_def)
  show "refs_ok (buried t) held" using I(6) unfolding refs_ok_def by simp
  show "lists_ok {} (buried t)"
  proof (rule lists_okI)
    show "a \<in> set (active (buried t)) \<or> a \<in> set (lru (buried t)) \<or> a \<in> set (purge (buried t)) \<longleftrightarrow> inodes (buried t) a \<noteq> None" for a
      using l(5,6) l(7)[of a] by auto
  qed (use l in \<open>auto split: if_splits\<close>)
qed

text \<open>Held inodes survive; nothing appears.\<close>

definition survives :: "(nat \<Rightarrow> nat) \<Rightarrow> itable \<Rightarrow> itable \<Rightarrow> bool" where
  "survives held t u \<longleftrightarrow>
     (\<forall>b i. inodes t b = Some i \<and> 0 < held b \<longrightarrow> (\<exists>j. inodes u b = Some j \<and> i_ino j = i_ino i))
   \<and> (\<forall>b j. inodes u b = Some j \<longrightarrow> (\<exists>i. inodes t b = Some i \<and> i_ino i = i_ino j \<and> (i_hashed j \<longrightarrow> i_hashed i)))
   \<and> (\<forall>d x. dentries u d = Some x \<longrightarrow> dentries t d = Some x)
   \<and> (\<forall>b i. inodes t b = Some i \<and> i_hashed i \<and> 0 < held b \<longrightarrow> (\<exists>j. inodes u b = Some j \<and> i_hashed j))
   \<and> (\<forall>d x. dentries t d = Some x \<and> 0 < held (d_inode x) \<longrightarrow> dentries u d = Some x)
   \<and> (\<forall>b. \<exists>P. name_hash u b = filter P (name_hash t b))
   \<and> lru_limit u = lru_limit t \<and> root u = root t \<and> dt_next u = dt_next t \<and> it_next u = it_next t"

lemma survivesD:
  assumes "survives held t u"
  shows "inodes t b = Some i \<Longrightarrow> 0 < held b \<Longrightarrow> \<exists>j. inodes u b = Some j \<and> i_ino j = i_ino i"
    and "inodes u b = Some j \<Longrightarrow> \<exists>i. inodes t b = Some i \<and> i_ino i = i_ino j \<and> (i_hashed j \<longrightarrow> i_hashed i)"
    and "dentries u d = Some x \<Longrightarrow> dentries t d = Some x"
    and "inodes t b = Some i \<Longrightarrow> i_hashed i \<Longrightarrow> 0 < held b \<Longrightarrow> \<exists>j. inodes u b = Some j \<and> i_hashed j"
    and "dentries t d = Some x \<Longrightarrow> 0 < held (d_inode x) \<Longrightarrow> dentries u d = Some x"
    and "\<exists>P. name_hash u h = filter P (name_hash t h)"
  using assms unfolding survives_def by (elim conjE, blast)+

lemma same_inodes_iff:
  assumes "same_inodes t u"
  shows "inodes t b = Some i \<Longrightarrow> \<exists>j. inodes u b = Some j \<and> i_ino j = i_ino i"
    and "inodes u b = Some j \<Longrightarrow> \<exists>i. inodes t b = Some i \<and> i_ino i = i_ino j \<and> (i_hashed j \<longrightarrow> i_hashed i)"
proof -
  have e: "map_option i_ino (inodes u b) = map_option i_ino (inodes t b)" using assms by (simp add: same_inodes_def)
  show "inodes t b = Some i \<Longrightarrow> \<exists>j. inodes u b = Some j \<and> i_ino j = i_ino i" using e by (cases "inodes u b") auto
  assume j: "inodes u b = Some j"
  then obtain i where i: "inodes t b = Some i" "i_ino i = i_ino j" using e by (cases "inodes t b") auto
  moreover have "i_hashed j \<longrightarrow> i_hashed i" using assms j i(1) unfolding same_inodes_def by auto
  ultimately show "\<exists>i. inodes t b = Some i \<and> i_ino i = i_ino j \<and> (i_hashed j \<longrightarrow> i_hashed i)" by blast
qed

lemma prune_ok:
  assumes "inode_inv t held"
  shows "\<exists>t'. inode_table_prune t = Inr t' \<and> inode_inv t' held \<and> purge t' = []
    \<and> (lru_limit t' = 0 \<or> lru_size t' \<le> lru_limit t') \<and> survives held t t'"
proof -
  have "length (active t) + length (lru t) \<le> it_next t" using living_bound[OF assms] by simp
  then obtain u where u: "prune_loop (it_next t) t = Inr u" "inode_inv u held" "same_inodes t u"
      "lru_limit u = 0 \<or> lru_size u \<le> lru_limit u" and rel: "released {} t u"
    using prune_loop_ok[OF assms] by blast
  note l = lists_okD[OF table_invD(5)[OF u(2)]]
  have "foldM (\<lambda>a t. bind_f (inode_forget_locked a 0 t) (inode_destroy a)) (purge u) (u\<lparr>purge := [], purge_size := 0\<rparr>) = Inr (buried u)"
    using l(3,7) by (subst destroy_loop) (auto simp: buried_def cong: if_cong)
  then have eq: "inode_table_prune t = Inr (buried u)" using u(1) by (simp add: inode_table_prune_def Let_def)
  have inuse: "i_ref j \<noteq> 0" if "inodes u b = Some j" "0 < held b" for b j
    using childless_without_refs(2)[OF table_invD(6)[OF u(2)] that(1)] that(2) by auto
  have "survives held t (buried u)"
    unfolding survives_def
  proof (intro conjI allI impI; (elim conjE)?)
    show "\<exists>j. inodes (buried u) b = Some j \<and> i_ino j = i_ino i" if h: "inodes t b = Some i" "0 < held b" for b i
    proof -
      obtain j where j: "inodes u b = Some j" "i_ino j = i_ino i" using same_inodes_iff(1)[OF u(3) h(1)] by blast
      then have "b \<notin> set (purge u)" using dying(5)[OF u(2) _ j(1)] h(2) by auto
      with j show ?thesis by simp
    qed
    show "\<exists>i. inodes t b = Some i \<and> i_ino i = i_ino j \<and> (i_hashed j \<longrightarrow> i_hashed i)" if "inodes (buried u) b = Some j" for b j
      using that same_inodes_iff(2)[OF u(3), of b j] by (auto split: if_splits)
    show "\<exists>j. inodes (buried u) b = Some j \<and> i_hashed j" if h: "inodes t b = Some i" "i_hashed i" "0 < held b" for b i
    proof -
      obtain j where j: "inodes u b = Some j" "i_hashed j" using releasedD(3)[OF rel h(1,2)] inuse h(3) by blast
      then have "b \<notin> set (purge u)" using dying(5)[OF u(2) _ j(1)] h(3) by auto
      with j show ?thesis by simp
    qed
    show "dentries (buried u) d = Some x" if h: "dentries t d = Some x" "0 < held (d_inode x)" for d x
      using releasedD(4)[OF rel h(1)] inuse h(2) by auto
    show "\<exists>P. name_hash (buried u) b = filter P (name_hash t b)" for b using releasedD(1)[OF rel] by simp
  qed (use u(3) in \<open>auto simp: same_inodes_def\<close>)
  with eq show ?thesis using buried_inv[OF u(2)] u(4) by auto
qed

end
