(* ===== verification/Inode_Ops.thy ===== *)
theory Inode_Ops
  imports Inode_Inv
begin

text \<open>
  The operations of the inode table seen from outside: each keeps the table consistent and does not
  fault when its caller holds what it passes, and the properties of the table as a whole. The steps
  of \<open>istep\<close> are the critical sections of \<^verbatim>\<open>inode.c\<close>, so that the invariant also holds between the two
  sections of an operation, when other threads may come in.
\<close>

section \<open>The state between two critical sections\<close>

definition zero_ok :: "itable \<Rightarrow> bool" where
  "zero_ok t \<longleftrightarrow> (\<forall>a i. inodes t a = Some i \<and> i_ino i = 0 \<longrightarrow> \<not> i_hashed i \<and> i_child_list i = [])"

definition held_ok :: "itable \<Rightarrow> (nat \<Rightarrow> nat) \<Rightarrow> bool" where
  "held_ok t held \<longleftrightarrow> (\<forall>a. 0 < held a \<longrightarrow> inodes t a \<noteq> None)"

text \<open>At most one inode is hashed for a number: linking a second one replaces the first.\<close>

definition unique_ok :: "itable \<Rightarrow> bool" where
  "unique_ok t \<longleftrightarrow> (\<forall>a b i j. inodes t a = Some i \<and> inodes t b = Some j \<and> i_hashed i \<and> i_hashed j \<and> i_ino i = i_ino j \<longrightarrow> a = b)"

definition itable_ok :: "itable \<Rightarrow> (nat \<Rightarrow> nat) \<Rightarrow> bool" where
  "itable_ok t held \<longleftrightarrow> inode_inv t held \<and> zero_ok t \<and> held_ok t held \<and> unique_ok t"

lemma itable_okD:
  "itable_ok t held \<Longrightarrow> inode_inv t held" "itable_ok t held \<Longrightarrow> zero_ok t" "itable_ok t held \<Longrightarrow> held_ok t held"
  "itable_ok t held \<Longrightarrow> unique_ok t"
  by (simp_all add: itable_ok_def)

lemma unique_okD: "unique_ok t \<Longrightarrow> inodes t a = Some i \<Longrightarrow> i_hashed i \<Longrightarrow> inodes t b = Some j \<Longrightarrow> i_hashed j \<Longrightarrow> i_ino j = i_ino i \<Longrightarrow> b = a"
  unfolding unique_ok_def by metis

lemma root_irrelevant: "itable_ok (t\<lparr>root := r\<rparr>) held = itable_ok t held"
proof -
  have "dentry_bucket (t\<lparr>root := r\<rparr>) = dentry_bucket t" "inode_bucket (t\<lparr>root := r\<rparr>) = inode_bucket t"
    by (auto simp: dentry_bucket_def inode_bucket_def split: option.split)
  then show ?thesis
    by (simp add: itable_ok_def table_inv_def fresh_ok_def links_ok_def names_ok_def numbers_ok_def lists_ok_def refs_ok_def
        zero_ok_def held_ok_def unique_ok_def)
qed

lemma unique_ok_sub:
  assumes "unique_ok t"
    and "\<And>b j. inodes u b = Some j \<Longrightarrow> i_hashed j \<Longrightarrow> \<exists>i. inodes t b = Some i \<and> i_ino i = i_ino j \<and> i_hashed i"
  shows "unique_ok u"
  unfolding unique_ok_def
proof (intro allI impI, elim conjE)
  fix a b i j
  assume h: "inodes u a = Some i" "inodes u b = Some j" "i_hashed i" "i_hashed j" "i_ino i = i_ino j"
  show "a = b" using assms(2)[OF h(1,3)] assms(2)[OF h(2,4)] h(5) unique_okD[OF assms(1)] by metis
qed

lemma zero_ok_sub:
  assumes "inode_inv t h" "inode_inv u h'" "zero_ok t"
    and "\<And>b j. inodes u b = Some j \<Longrightarrow> \<exists>i. inodes t b = Some i \<and> i_ino i = i_ino j \<and> (i_hashed j \<longrightarrow> i_hashed i)"
    and "\<And>d x. dentries u d = Some x \<Longrightarrow> dentries t d = Some x"
  shows "zero_ok u"
  unfolding zero_ok_def
proof (intro allI impI, elim conjE)
  fix b j
  assume j: "inodes u b = Some j" "i_ino j = 0"
  obtain i where i: "inodes t b = Some i" "i_ino i = i_ino j" "i_hashed j \<longrightarrow> i_hashed i" using assms(4)[OF j(1)] by blast
  then have z: "\<not> i_hashed i" "i_child_list i = []" using assms(3) j(2) by (auto simp: zero_ok_def)
  have "d \<notin> set (i_child_list j)" for d
  proof
    assume "d \<in> set (i_child_list j)"
    then obtain x where "dentries u d = Some x" "d_parent x = b" using links_okD(4)[OF table_invD(2)[OF assms(2)] j(1)] by blast
    then show False using links_okD(1)[OF table_invD(2)[OF assms(1)] assms(5)] i(1) z(2) by fastforce
  qed
  then have "i_child_list j = []" by (cases "i_child_list j") (metis list.set_intros(1))+
  then show "\<not> i_hashed j \<and> i_child_list j = []" using i(3) z by blast
qed

lemma keeps_itable_ok:
  assumes "itable_ok t held" "inode_inv u held'" "frame_ok Z {} t u" "\<And>a. held' a \<le> held a"
  shows "itable_ok u held'"
proof -
  have same: "same_inodes t u" by (rule frame_same_inodes[OF assms(3)])
  have "zero_ok u"
    by (rule zero_ok_sub[OF itable_okD(1)[OF assms(1)] assms(2) itable_okD(2)[OF assms(1)]])
      (use same_inodes_iff(2)[OF same] same in \<open>auto simp: same_inodes_def\<close>)
  moreover have "held_ok u held'"
    using itable_okD(3)[OF assms(1)] assms(4) same_inodes_iff(1)[OF same] unfolding held_ok_def
    by (metis (no_types) gr_zeroI le_zero_eq option.collapse option.distinct(1))
  moreover have "unique_ok u"
    by (rule unique_ok_sub[OF itable_okD(4)[OF assms(1)]]) (use same_inodes_iff(2)[OF same] in blast)
  ultimately show ?thesis using assms(2) by (simp add: itable_ok_def)
qed

lemma survives_itable_ok:
  assumes "itable_ok t held" "inode_inv u held" "survives held t u"
  shows "itable_ok u held"
proof -
  have "zero_ok u"
    by (rule zero_ok_sub[OF itable_okD(1)[OF assms(1)] assms(2) itable_okD(2)[OF assms(1)]])
      (erule survivesD[OF assms(3)])+
  moreover have "held_ok u held"
    using itable_okD(3)[OF assms(1)] survivesD(1)[OF assms(3)] unfolding held_ok_def by (metis (no_types) not_None_eq)
  moreover have "unique_ok u"
    by (rule unique_ok_sub[OF itable_okD(4)[OF assms(1)]]) (use survivesD(2)[OF assms(3)] in blast)
  ultimately show ?thesis using assms(2) by (simp add: itable_ok_def)
qed

section \<open>Searching\<close>

lemma find_inode_ok:
  assumes "\<forall>a \<in> set as. inodes t a \<noteq> None"
  shows "\<exists>r. find_inode t ino as = Inr r \<and> (case r of
      None \<Rightarrow> \<forall>a \<in> set as. i_ino (the (inodes t a)) \<noteq> ino
    | Some a \<Rightarrow> a \<in> set as \<and> i_ino (the (inodes t a)) = ino)"
  using assms
proof (induction as)
  case (Cons a as)
  then obtain i where i: "inodes t a = Some i" by auto
  with Cons show ?case by (fastforce simp: get_inode_Some split: option.splits)
qed simp

lemma search_ino_ok:
  assumes "numbers_ok t"
  shows "\<exists>r. inode_search_ino t ino = Inr r \<and> (case r of
      None \<Rightarrow> \<forall>a i. inodes t a = Some i \<and> i_hashed i \<longrightarrow> i_ino i \<noteq> ino
    | Some a \<Rightarrow> \<exists>i. inodes t a = Some i \<and> i_hashed i \<and> i_ino i = ino)"
proof -
  let ?as = "inode_hash t (hash_inode ino)"
  have mem: "a \<in> set ?as \<longleftrightarrow> inode_bucket t a = Some (hash_inode ino)" for a using assms by (simp add: numbers_ok_def)
  then have live: "\<forall>a \<in> set ?as. inodes t a \<noteq> None" by (auto simp: inode_bucket_def split: option.splits)
  obtain r where r: "find_inode t ino ?as = Inr r" "case r of
      None \<Rightarrow> \<forall>a \<in> set ?as. i_ino (the (inodes t a)) \<noteq> ino
    | Some a \<Rightarrow> a \<in> set ?as \<and> i_ino (the (inodes t a)) = ino"
    using find_inode_ok[OF live] by blast
  show ?thesis
  proof (cases r)
    case None
    have "i_ino i \<noteq> ino" if "inodes t a = Some i" "i_hashed i" for a i
      using r(2) None that mem[of a] by (auto simp: inode_bucket_def)
    with None r(1) show ?thesis by (auto simp: inode_search_ino_def)
  next
    case (Some a)
    then obtain i where "inodes t a = Some i" "i_hashed i" using r(2) mem[of a] by (auto simp: inode_bucket_def split: option.splits if_splits)
    with Some r show ?thesis by (auto simp: inode_search_ino_def)
  qed
qed

lemma find_dentry_ok:
  assumes "\<forall>d \<in> set ds. \<exists>x p. dentries t d = Some x \<and> inodes t (d_parent x) = Some p"
  shows "\<exists>r. find_dentry t par name ds = Inr r \<and> (case r of
      None \<Rightarrow> \<forall>d \<in> set ds. \<forall>x p. dentries t d = Some x \<and> inodes t (d_parent x) = Some p \<longrightarrow> i_ino p \<noteq> par \<or> d_name x \<noteq> name
    | Some d \<Rightarrow> d \<in> set ds \<and> (\<exists>x p. dentries t d = Some x \<and> inodes t (d_parent x) = Some p \<and> i_ino p = par \<and> d_name x = name))"
  using assms
proof (induction ds)
  case (Cons d ds)
  then obtain x p where x: "dentries t d = Some x" "inodes t (d_parent x) = Some p" by auto
  with Cons show ?case by (fastforce simp: get_inode_Some get_dentry_Some split: option.splits)
qed simp

lemma dentry_search_for_inode_ok:
  assumes "links_ok {} t" "inodes t a = Some i"
  shows "\<exists>r. dentry_search_for_inode t a par name = Inr r \<and> (case r of
      None \<Rightarrow> \<forall>d \<in> set (i_dentry_list i). \<forall>x p. dentries t d = Some x \<and> inodes t (d_parent x) = Some p \<longrightarrow> i_ino p \<noteq> par \<or> d_name x \<noteq> name
    | Some d \<Rightarrow> d \<in> set (i_dentry_list i) \<and> (\<exists>x p. dentries t d = Some x \<and> d_inode x = a \<and> inodes t (d_parent x) = Some p \<and> i_ino p = par \<and> d_name x = name))"
proof -
  have "\<forall>d \<in> set (i_dentry_list i). \<exists>x p. dentries t d = Some x \<and> inodes t (d_parent x) = Some p"
    using links_okD(1,3)[OF assms(1)] assms(2) by blast
  then obtain r where r: "find_dentry t par name (i_dentry_list i) = Inr r" "case r of
      None \<Rightarrow> \<forall>d \<in> set (i_dentry_list i). \<forall>x p. dentries t d = Some x \<and> inodes t (d_parent x) = Some p \<longrightarrow> i_ino p \<noteq> par \<or> d_name x \<noteq> name
    | Some d \<Rightarrow> d \<in> set (i_dentry_list i) \<and> (\<exists>x p. dentries t d = Some x \<and> inodes t (d_parent x) = Some p \<and> i_ino p = par \<and> d_name x = name)"
    using find_dentry_ok by blast
  then show ?thesis using assms links_okD(3)[OF assms(1,2)]
    by (intro exI[of _ r]) (fastforce simp: dentry_search_for_inode_def get_inode_Some split: option.splits)
qed

lemma dentry_search_ok:
  assumes "names_ok {} t"
  shows "\<exists>r. dentry_search t par name = Inr r \<and> (case r of
      None \<Rightarrow> True
    | Some d \<Rightarrow> \<exists>x p. dentries t d = Some x \<and> d_hashed x \<and> inodes t (d_parent x) = Some p \<and> i_ino p = par \<and> d_name x = name)"
proof -
  let ?ds = "name_hash t (hash_name par name)"
  have mem: "d \<in> set ?ds \<longleftrightarrow> dentry_bucket t d = Some (hash_name par name)" for d using assms by (simp add: names_ok_def)
  then have "\<exists>x p. dentries t d = Some x \<and> d_hashed x \<and> inodes t (d_parent x) = Some p" if "d \<in> set ?ds" for d
    using that by (auto simp: dentry_bucket_def split: option.splits if_splits)
  then show ?thesis using find_dentry_ok[of ?ds t par name] unfolding dentry_search_def
    by (fastforce split: option.splits)
qed

section \<open>Taking and releasing references\<close>

lemma not_dying:
  assumes "inode_inv t held" "inodes t a = Some i"
    and "0 < held a \<or> i_hashed i \<or> i_dentry_list i \<noteq> [] \<or> i_child_list i \<noteq> []"
  shows "a \<notin> set (purge t)"
proof
  assume p: "a \<in> set (purge t)"
  note l = lists_okD[OF table_invD(5)[OF assms(1)]]
  have "a \<notin> set (active t)" using l(5) p by blast
  then have "i_ref i = 0" using l(8)[OF assms(2)] by simp
  then show False using l(9)[OF assms(2) p] childless_without_refs[OF table_invD(6)[OF assms(1)] assms(2)] assms(3) by auto
qed

lemma ref_itable_ok:
  assumes "itable_ok t held" "inodes t a = Some i" "unat (i_ref i) < 4294967295"
    and "0 < held a \<or> i_hashed i \<or> i_dentry_list i \<noteq> [] \<or> i_child_list i \<noteq> []"
  shows "\<exists>t'. inode_ref_locked a t = Inr t' \<and> itable_ok t' (held(a := Suc (held a)))"
proof -
  note inv = itable_okD(1)[OF assms(1)]
  obtain t' where t': "inode_ref_locked a t = Inr t'" "inode_inv t' (held(a := Suc (held a)))"
      "inodes t' = (inodes t)(a \<mapsto> i\<lparr>i_ref := i_ref i + 1\<rparr>)"
    using ref_ok[OF inv assms(2,3) not_dying[OF inv assms(2,4)]] by blast
  then have "zero_ok t'" "held_ok t' (held(a := Suc (held a)))"
    using itable_okD(2,3)[OF assms(1)] assms(2) by (auto simp: zero_ok_def held_ok_def)
  moreover have "unique_ok t'"
    by (rule unique_ok_sub[OF itable_okD(4)[OF assms(1)]]) (use t'(3) assms(2) in \<open>auto split: if_splits\<close>)
  ultimately show ?thesis using t' by (auto simp: itable_ok_def)
qed

lemma unref_itable_ok:
  assumes "itable_ok t held" "0 < held a"
  shows "\<exists>t'. inode_unref_locked a t = Inr t' \<and> itable_ok t' (held(a := held a - 1)) \<and> keeps t t'"
proof -
  obtain i where "inodes t a = Some i" using itable_okD(3)[OF assms(1)] assms(2) by (auto simp: held_ok_def)
  then obtain t' where t': "inode_unref_locked a t = Inr t'" "inode_inv t' (held(a := held a - 1))" "keeps t t'"
    using unref_locked_ok[OF itable_okD(1)[OF assms(1)]] assms(2) by blast
  then show ?thesis using keeps_itable_ok[OF assms(1) t'(2,3)] by auto
qed

lemma prune_itable_ok:
  assumes "itable_ok t held"
  shows "\<exists>t'. inode_table_prune t = Inr t' \<and> itable_ok t' held \<and> purge t' = []
    \<and> (lru_limit t' = 0 \<or> lru_size t' \<le> lru_limit t') \<and> survives held t t'"
  using prune_ok[OF itable_okD(1)[OF assms]] survives_itable_ok[OF assms] by blast

section \<open>Creating\<close>

lemma create_ok:
  assumes "itable_ok t held"
  shows "\<exists>t'. inode_create True t = (Some (it_next t), t') \<and> itable_ok t' held \<and> it_next t \<in> set (lru t')
    \<and> (\<exists>i. inodes t' = (inodes t)(it_next t \<mapsto> i) \<and> i_ref i = 0 \<and> i_ino i = 0 \<and> i_nlookup i = 0 \<and> \<not> i_hashed i
         \<and> i_dentry_list i = [] \<and> i_child_list i = [])
    \<and> dentries t' = dentries t \<and> inode_hash t' = inode_hash t \<and> name_hash t' = name_hash t \<and> lru_limit t' = lru_limit t"
proof -
  define i where "i = \<lparr>i_nlookup = 0, i_generation = 0, i_ref = 0, i_ino = 0, i_mode = 0, i_dentry_list = [],
                  i_child_list = [], i_hashed = False, i_ctx = replicate (xl_count t) (0, 0)\<rparr>"
  define a where "a = it_next t"
  define u where "u = t\<lparr>inodes := (inodes t)(a \<mapsto> i), it_next := a + 1, lru := a # lru t, lru_size := lru_size t + 1\<rparr>"
  note inv = itable_okD(1)[OF assms]
  note I = table_invD[OF inv] and l = lists_okD[OF table_invD(5)[OF inv]]
  have none: "inodes t a = None" using I(1) unfolding fresh_ok_def a_def by blast
  have i: "i_ref i = 0" "i_ino i = 0" "i_nlookup i = 0" "\<not> i_hashed i" "i_dentry_list i = []" "i_child_list i = []" by (simp_all add: i_def)
  have notin: "a \<notin> set (active t)" "a \<notin> set (lru t)" "a \<notin> set (purge t)" using l(7)[of a] none by auto
  have h0: "held a = 0" using itable_okD(3)[OF assms] none by (auto simp: held_ok_def)
  have par: "d_parent x \<noteq> a" "d_inode x \<noteq> a" if "dentries t d = Some x" for d x
    using links_okD(1)[OF I(2) that] none by auto
  have "inode_inv u held"
  proof (rule table_invI)
    show "fresh_ok u" using I(1) unfolding fresh_ok_def u_def a_def by (auto split: if_splits intro: less_SucI)
    show "links_ok {} u"
      by (rule links_okI) (use links_okD[OF I(2)] par i in \<open>auto simp: u_def split: if_splits\<close>)
    have "dentry_bucket u d = dentry_bucket t d" for d
      using par[of d] by (auto simp: dentry_bucket_def u_def split: option.splits)
    then show "names_ok {} u" using I(3) by (simp add: names_ok_def u_def)
    have "inode_bucket u b = inode_bucket t b" for b
      using none i by (auto simp: inode_bucket_def u_def split: option.splits)
    then show "numbers_ok u" using I(4) by (simp add: numbers_ok_def u_def)
    show "refs_ok u held" using I(6) i h0 by (auto simp: refs_ok_def u_def)
    show "lists_ok {} u"
    proof (rule lists_okI)
      show "b \<in> set (active u) \<longleftrightarrow> i_ref j \<noteq> 0" if "inodes u b = Some j" for b j
        using that l(8)[of b] i notin by (auto simp: u_def split: if_splits)
      show "\<not> i_hashed j \<and> (b \<notin> {} \<longrightarrow> i_dentry_list j = [])" if "inodes u b = Some j" "b \<in> set (purge u)" for b j
        using that l(9)[of b] notin by (auto simp: u_def split: if_splits)
      show "b \<in> set (active u) \<or> b \<in> set (lru u) \<or> b \<in> set (purge u) \<longleftrightarrow> inodes u b \<noteq> None" for b
        using l(7)[of b] by (auto simp: u_def)
    qed (use l notin in \<open>auto simp: u_def\<close>)
  qed
  moreover have "zero_ok u" "held_ok u held" using itable_okD(2,3)[OF assms] i by (auto simp: zero_ok_def held_ok_def u_def)
  moreover have "unique_ok u"
    by (rule unique_ok_sub[OF itable_okD(4)[OF assms]]) (use i in \<open>auto simp: u_def split: if_splits\<close>)
  moreover have "inode_create True t = (Some a, u)" by (simp add: inode_create_def u_def a_def i_def)
  moreover have "inodes u = (inodes t)(a \<mapsto> i)" "dentries u = dentries t" "inode_hash u = inode_hash t" "name_hash u = name_hash t"
    "lru_limit u = lru_limit t" "a \<in> set (lru u)"
    by (simp_all add: u_def)
  ultimately show ?thesis using i unfolding a_def itable_ok_def by blast
qed

lemma new_ok:
  assumes "itable_ok t held"
  shows "\<exists>t'. inode_new True t = Inr (it_next t, t') \<and> itable_ok t' (held(it_next t := 1))"
proof -
  let ?a = "it_next t"
  obtain u i where u: "inode_create True t = (Some ?a, u)" "itable_ok u held" "?a \<in> set (lru u)"
      "inodes u = (inodes t)(?a \<mapsto> i)" "i_ref i = 0"
    using create_ok[OF assms] by blast
  have live: "inodes u ?a = Some i" using u(4) by simp
  have h0: "held ?a = 0" using childless_without_refs(2)[OF table_invD(6)[OF itable_okD(1)[OF u(2)]] live u(5)] .
  have np: "?a \<notin> set (purge u)" using lists_okD(6)[OF table_invD(5)[OF itable_okD(1)[OF u(2)]]] u(3) by blast
  obtain v where v: "inode_ref_locked ?a u = Inr v" "inode_inv v (held(?a := Suc (held ?a)))"
      "inodes v = (inodes u)(?a \<mapsto> i\<lparr>i_ref := i_ref i + 1\<rparr>)"
    using ref_ok[OF itable_okD(1)[OF u(2)] live _ np] u(5) by auto
  then have "zero_ok v" "held_ok v (held(?a := 1))"
    using itable_okD(2,3)[OF u(2)] live by (auto simp: zero_ok_def held_ok_def)
  moreover have "unique_ok v"
    by (rule unique_ok_sub[OF itable_okD(4)[OF u(2)]]) (use v(3) live in \<open>auto split: if_splits\<close>)
  moreover have "inode_new True t = Inr (?a, v)" using u(1) v(1) by (simp add: inode_new_def)
  ultimately show ?thesis using v(2) h0 by (auto simp: itable_ok_def)
qed

section \<open>Counting lookups\<close>

lemma nlookup_ok:
  assumes "itable_ok t held" "\<And>i. \<exists>n g. f i = i\<lparr>i_nlookup := n, i_generation := g\<rparr>"
  shows "itable_ok (upd_inode a f t) held"
proof -
  note I = table_invD[OF itable_okD(1)[OF assms(1)]]
  have f: "i_ino (f i) = i_ino i" "i_ref (f i) = i_ref i" "i_hashed (f i) = i_hashed i" "i_dentry_list (f i) = i_dentry_list i"
    "i_child_list (f i) = i_child_list i" for i
    using assms(2)[of i] by auto
  have m: "map_option h (inodes (upd_inode a f t) b) = map_option h (inodes t b)" if "\<And>i. h (f i) = h i" for h :: "inode \<Rightarrow> 'x" and b
    using that by (cases "inodes t b") auto
  have "inode_inv (upd_inode a f t) held"
  proof (rule table_invI)
    show "fresh_ok (upd_inode a f t)" by (rule fresh_ok_cong[OF I(1)]) (auto split: if_splits)
    show "links_ok {} (upd_inode a f t)" by (rule links_ok_cong[OF I(2) m]) (auto simp: f)
    show "names_ok {} (upd_inode a f t)" by (rule names_ok_cong[OF I(3) _ _ m]) (auto simp: f)
    show "numbers_ok (upd_inode a f t)" by (rule numbers_ok_cong[OF I(4) _ m]) (auto simp: f)
    show "lists_ok {} (upd_inode a f t)" by (rule lists_ok_cong[OF I(5)]) (auto simp: f split: if_splits)
    show "refs_ok (upd_inode a f t) held" by (rule refs_ok_cong[OF I(6) m]) (auto simp: f)
  qed
  moreover have "zero_ok (upd_inode a f t)" "held_ok (upd_inode a f t) held"
    using itable_okD(2,3)[OF assms(1)] f by (auto simp: zero_ok_def held_ok_def split: if_splits)
  moreover have "unique_ok (upd_inode a f t)"
    by (rule unique_ok_sub[OF itable_okD(4)[OF assms(1)]]) (auto simp: f split: if_splits)
  ultimately show ?thesis by (simp add: itable_ok_def)
qed

text \<open>An inode is known to the table if it is hashed or another one is hashed for its number.\<close>

definition known :: "itable \<Rightarrow> nat \<Rightarrow> bool" where
  "known t a \<longleftrightarrow> (\<exists>i b j. inodes t a = Some i \<and> inodes t b = Some j \<and> i_hashed j \<and> i_ino j = i_ino i)"

lemma hashed_inode_ok:
  assumes "itable_ok t held" "known t a"
  shows "\<exists>i b j. hashed_inode a t = Inr b \<and> inodes t a = Some i \<and> inodes t b = Some j \<and> i_hashed j \<and> i_ino j = i_ino i"
proof -
  obtain i b j where i: "inodes t a = Some i" "inodes t b = Some j" "i_hashed j" "i_ino j = i_ino i"
    using assms(2) by (auto simp: known_def)
  show ?thesis
  proof (cases "i_hashed i")
    case False
    obtain r where r: "inode_search_ino t (i_ino i) = Inr r" "case r of
        None \<Rightarrow> \<forall>a k. inodes t a = Some k \<and> i_hashed k \<longrightarrow> i_ino k \<noteq> i_ino i
      | Some a \<Rightarrow> \<exists>k. inodes t a = Some k \<and> i_hashed k \<and> i_ino k = i_ino i"
      using search_ino_ok[OF table_invD(4)[OF itable_okD(1)[OF assms(1)]]] by blast
    with i obtain c where "r = Some c" by (cases r) auto
    with r i False show ?thesis by (auto simp: hashed_inode_def get_inode_Some)
  qed (use i(1) in \<open>auto simp: hashed_inode_def get_inode_Some\<close>)
qed

lemma lookup_ok:
  assumes "itable_ok t held" "known t a"
  shows "\<exists>t'. inode_lookup a t = Inr t' \<and> itable_ok t' held"
proof -
  obtain b j where b: "hashed_inode a t = Inr b" "inodes t b = Some j" using hashed_inode_ok[OF assms] by blast
  have "itable_ok (upd_inode b (\<lambda>i. i\<lparr>i_nlookup := i_nlookup i + 1\<rparr>) t) held"
    by (rule nlookup_ok[OF assms(1)]) (metis inode.surjective inode.update_convs(1,2))
  with b show ?thesis by (simp add: inode_lookup_def get_inode_Some)
qed

lemma forget_locked_ok:
  assumes "itable_ok t held" "inodes t b = Some i" "n \<le> i_nlookup i"
  shows "\<exists>t'. inode_forget_locked b n t = Inr t' \<and> itable_ok t' held"
proof -
  have "itable_ok (upd_inode b (\<lambda>i. i\<lparr>i_nlookup := (if n = 0 then 0 else i_nlookup i - n)\<rparr>) t) held"
    by (rule nlookup_ok[OF assms(1)]) (metis inode.surjective inode.update_convs(1,2))
  with assms(2,3) show ?thesis by (auto simp: inode_forget_locked_def get_inode_Some)
qed

section \<open>Unlinking\<close>

lemma dentry_unset_itable_ok:
  assumes "itable_ok t held" "dentries t d = Some x"
  shows "\<exists>t'. dentry_unset d t = Inr t' \<and> itable_ok t' held \<and> same_inodes t t'"
  using dentry_unset_ok[OF itable_okD(1)[OF assms(1)] assms(2)] keeps_itable_ok[OF assms(1)] frame_same_inodes by blast

lemma unlink_locked_ok:
  assumes "itable_ok t held" "inodes t b = Some i" "inodes t p = Some pi"
  shows "\<exists>t'. inode_unlink_locked b p name t = Inr t' \<and> itable_ok t' held \<and> same_inodes t t'"
proof -
  obtain r where "dentry_search_for_inode t b (i_ino pi) name = Inr r" "case r of None \<Rightarrow> True | Some d \<Rightarrow> \<exists>x. dentries t d = Some x"
    using dentry_search_for_inode_ok[OF table_invD(2)[OF itable_okD(1)[OF assms(1)]] assms(2), of "i_ino pi" name]
    by (fastforce split: option.splits)
  then show ?thesis using assms dentry_unset_itable_ok[OF assms(1)]
    by (cases r) (auto simp: inode_unlink_locked_def get_inode_Some same_inodes_def)
qed

section \<open>Linking\<close>

text \<open>A new dentry on the lists of its inode and of its parent.\<close>

definition grown :: "nat \<Rightarrow> nat \<Rightarrow> nat \<Rightarrow> nat \<Rightarrow> inode \<Rightarrow> inode" where
  "grown d a p b i =
     i\<lparr>i_dentry_list := (if b = a then d # i_dentry_list i else i_dentry_list i),
       i_child_list := (if b = p then d # i_child_list i else i_child_list i)\<rparr>"

lemma grown_sel [simp]:
  "i_dentry_list (grown d a p b i) = (if b = a then d # i_dentry_list i else i_dentry_list i)"
  "i_child_list (grown d a p b i) = (if b = p then d # i_child_list i else i_child_list i)"
  "i_nlookup (grown d a p b i) = i_nlookup i" "i_generation (grown d a p b i) = i_generation i"
  "i_ref (grown d a p b i) = i_ref i" "i_ino (grown d a p b i) = i_ino i" "i_mode (grown d a p b i) = i_mode i"
  "i_hashed (grown d a p b i) = i_hashed i" "i_ctx (grown d a p b i) = i_ctx i"
  by (simp_all add: grown_def)

definition with_dentry :: "nat \<Rightarrow> nat \<Rightarrow> bytes \<Rightarrow> itable \<Rightarrow> itable" where
  "with_dentry a p name t =
     t\<lparr>inodes := (\<lambda>b. map_option (grown (dt_next t) a p b) (inodes t b)),
       dentries := (dentries t)(dt_next t \<mapsto> \<lparr>d_inode = a, d_name = name, d_parent = p, d_hashed = False\<rparr>),
       dt_next := dt_next t + 1\<rparr>"

lemma with_dentry_sel [simp]:
  "inodes (with_dentry a p name t) b = map_option (grown (dt_next t) a p b) (inodes t b)"
  "dentries (with_dentry a p name t) = (dentries t)(dt_next t \<mapsto> \<lparr>d_inode = a, d_name = name, d_parent = p, d_hashed = False\<rparr>)"
  "dt_next (with_dentry a p name t) = dt_next t + 1" "it_next (with_dentry a p name t) = it_next t"
  "root (with_dentry a p name t) = root t" "lru_limit (with_dentry a p name t) = lru_limit t"
  "inode_hash (with_dentry a p name t) = inode_hash t" "name_hash (with_dentry a p name t) = name_hash t"
  "active (with_dentry a p name t) = active t" "active_size (with_dentry a p name t) = active_size t"
  "lru (with_dentry a p name t) = lru t" "lru_size (with_dentry a p name t) = lru_size t"
  "purge (with_dentry a p name t) = purge t" "purge_size (with_dentry a p name t) = purge_size t"
  by (simp_all add: with_dentry_def)

lemma with_dentry_links:
  assumes "fresh_ok t" "links_ok {} t" "inodes t a = Some i" "inodes t p = Some pi"
  shows "links_ok {} (with_dentry a p name t)"
proof (rule links_okI)
  note l = links_okD[OF assms(2)]
  let ?d = "dt_next t" and ?u = "with_dentry a p name t"
  have none: "dentries t ?d = None" using assms(1) unfolding fresh_ok_def by blast
  then have notin: "?d \<notin> set (i_dentry_list j)" "?d \<notin> set (i_child_list j)" if "inodes t b = Some j" for b j
    using l(3,4)[OF that] by fastforce+
  show "\<exists>j. inodes ?u (d_inode x) = Some j \<and> d \<in> set (i_dentry_list j)" if "dentries ?u d = Some x" for d x
    using that assms(3) l(1)[of d x] by (auto split: if_splits)
  show "\<exists>j. inodes ?u (d_parent x) = Some j \<and> d \<in> set (i_child_list j)" if "dentries ?u d = Some x" for d x
    using that assms(4) l(1)[of d x] by (auto split: if_splits)
  show "distinct (i_dentry_list j) \<and> distinct (i_child_list j)" if "inodes ?u b = Some j" for b j
    using that l(2)[of b] notin[of b] by auto
  show "d \<notin> {} \<and> (\<exists>x. dentries ?u d = Some x \<and> d_inode x = b)" if "inodes ?u b = Some j" "d \<in> set (i_dentry_list j)" for b j d
    using that l(3)[of b] none by (fastforce split: if_splits)
  show "d \<notin> {} \<and> (\<exists>x. dentries ?u d = Some x \<and> d_parent x = b)" if "inodes ?u b = Some j" "d \<in> set (i_child_list j)" for b j d
    using that l(4)[of b] none by (fastforce split: if_splits)
qed

lemma with_dentry_inv:
  assumes inv: "inode_inv t (held(p := Suc (held p)))" and a: "inodes t a = Some i" "a \<notin> set (purge t)"
    and p: "inodes t p = Some pi" "p \<notin> set (purge t)"
  shows "inode_inv (with_dentry a p name t) held"
proof (rule table_invI)
  note I = table_invD[OF inv] and l = lists_okD[OF table_invD(5)[OF inv]]
  let ?u = "with_dentry a p name t"
  have none: "dentries t (dt_next t) = None" using I(1) unfolding fresh_ok_def by blast
  show "fresh_ok ?u" using I(1) unfolding fresh_ok_def by (auto split: if_splits intro: less_SucI)
  show "links_ok {} ?u" by (rule with_dentry_links[OF I(1,2) a(1) p(1)])
  have "dentry_bucket ?u d = dentry_bucket t d" for d
    using none by (auto simp: dentry_bucket_def option.map_comp comp_def split: option.splits)
  then show "names_ok {} ?u" using I(3) by (simp add: names_ok_def)
  show "numbers_ok ?u" by (rule numbers_ok_cong[OF I(4)]) (auto simp: option.map_comp comp_def)
  show "refs_ok ?u held"
    unfolding refs_ok_def
  proof (intro allI impI)
    fix b j
    assume "inodes ?u b = Some j"
    then obtain k where k: "inodes t b = Some k" "j = grown (dt_next t) a p b k" by auto
    show "if i_ino j = 1 then held b + length (i_child_list j) \<le> unat (i_ref j)
         else unat (i_ref j) = held b + length (i_child_list j)"
      using refs_okD[OF I(6) k(1)] k(2) by auto
  qed
  show "lists_ok {} ?u"
  proof (rule lists_okI)
    show "b \<in> set (active ?u) \<longleftrightarrow> i_ref j \<noteq> 0" if "inodes ?u b = Some j" for b j using that l(8)[of b] by auto
    show "\<not> i_hashed j \<and> (b \<notin> {} \<longrightarrow> i_dentry_list j = [])" if "inodes ?u b = Some j" "b \<in> set (purge ?u)" for b j
      using that l(9)[of b] a(2) by auto
    show "b \<in> set (active ?u) \<or> b \<in> set (lru ?u) \<or> b \<in> set (purge ?u) \<longleftrightarrow> inodes ?u b \<noteq> None" for b
      using l(7)[of b] by auto
  qed (use l in auto)
qed

lemma child_ref_commute: "i\<lparr>i_child_list := ds, i_ref := n\<rparr> = i\<lparr>i_ref := n, i_child_list := ds\<rparr>"
  by simp

lemma dentry_child_commute: "i\<lparr>i_child_list := ds, i_dentry_list := es\<rparr> = i\<lparr>i_dentry_list := es, i_child_list := ds\<rparr>"
  by simp

lemma ref_commutes:
  assumes "inode_ref_locked p t = Inr u"
  shows "inode_ref_locked p (upd_inode p (\<lambda>i. i\<lparr>i_child_list := d # i_child_list i\<rparr>) t)
    = Inr (upd_inode p (\<lambda>i. i\<lparr>i_child_list := d # i_child_list i\<rparr>) u)"
  using assms by (cases "inodes t p") (auto simp: inode_ref_locked_def get_inode_def upd_inode_def inode_activate_def list_del_def Let_def child_ref_commute)

lemma with_dentry_eq:
  "upd_inode a (\<lambda>i. i\<lparr>i_dentry_list := dt_next t # i_dentry_list i\<rparr>)
     ((upd_inode p (\<lambda>i. i\<lparr>i_child_list := dt_next t # i_child_list i\<rparr>) t)
        \<lparr>dentries := (dentries t)(dt_next t \<mapsto> \<lparr>d_inode = a, d_name = name, d_parent = p, d_hashed = False\<rparr>),
         dt_next := dt_next t + 1\<rparr>) = with_dentry a p name t"
proof -
  have "(inodes t)(p := map_option (\<lambda>i. i\<lparr>i_child_list := dt_next t # i_child_list i\<rparr>) (inodes t p),
      a := map_option (\<lambda>i. i\<lparr>i_dentry_list := dt_next t # i_dentry_list i\<rparr>)
        (((inodes t)(p := map_option (\<lambda>i. i\<lparr>i_child_list := dt_next t # i_child_list i\<rparr>) (inodes t p))) a))
    = (\<lambda>b. map_option (grown (dt_next t) a p b) (inodes t b))"
  proof
    fix b
    show "((inodes t)(p := map_option (\<lambda>i. i\<lparr>i_child_list := dt_next t # i_child_list i\<rparr>) (inodes t p),
      a := map_option (\<lambda>i. i\<lparr>i_dentry_list := dt_next t # i_dentry_list i\<rparr>)
        (((inodes t)(p := map_option (\<lambda>i. i\<lparr>i_child_list := dt_next t # i_child_list i\<rparr>) (inodes t p))) a))) b
      = map_option (grown (dt_next t) a p b) (inodes t b)"
      by (cases "inodes t b") (auto simp: grown_def dentry_child_commute)
  qed
  then show ?thesis by (simp add: upd_inode_def with_dentry_def)
qed

lemma dentry_create_ok:
  assumes inv: "inode_inv t held" and a: "inodes t a = Some i" "a \<notin> set (purge t)"
    and p: "inodes t p = Some pi" "unat (i_ref pi) < 4294967295" "p \<notin> set (purge t)"
  shows "\<exists>t'. dentry_create True a p name t = Inr (dt_next t, t') \<and> inode_inv t' held
    \<and> dentries t' = (dentries t)(dt_next t \<mapsto> \<lparr>d_inode = a, d_name = name, d_parent = p, d_hashed = False\<rparr>)
    \<and> (\<forall>b. map_option (\<lambda>i. (i_ino i, i_hashed i)) (inodes t' b) = map_option (\<lambda>i. (i_ino i, i_hashed i)) (inodes t b))
    \<and> (\<forall>b. b \<noteq> p \<longrightarrow> map_option (\<lambda>i. (i_child_list i, i_ref i)) (inodes t' b) = map_option (\<lambda>i. (i_child_list i, i_ref i)) (inodes t b))
    \<and> name_hash t' = name_hash t \<and> inode_hash t' = inode_hash t
    \<and> purge t' = purge t \<and> (\<forall>b. inodes t' b = map_option (grown (dt_next t) a p b) (((inodes t)(p \<mapsto> pi\<lparr>i_ref := i_ref pi + 1\<rparr>)) b))"
proof -
  obtain u where u: "inode_ref_locked p t = Inr u" "inode_inv u (held(p := Suc (held p)))"
      "inodes u = (inodes t)(p \<mapsto> pi\<lparr>i_ref := i_ref pi + 1\<rparr>)" "dentries u = dentries t" "name_hash u = name_hash t"
      "inode_hash u = inode_hash t" "purge u = purge t" "dt_next u = dt_next t"
    using ref_ok[OF inv p] by blast
  obtain i' where i': "inodes u a = Some i'" using a(1) u(3) by (cases "a = p") auto
  obtain pi' where pi': "inodes u p = Some pi'" using u(3) by auto
  have "dentry_create True a p name t = Inr (dt_next t, with_dentry a p name u)"
    using ref_commutes[OF u(1), of "dt_next t"] with_dentry_eq[where a = a and t = u and p = p and name = name] u(4,8) a(1) p(1)
    by (cases "a = p") (auto simp: dentry_create_def Let_def get_inode_def split: option.splits)
  moreover have "inode_inv (with_dentry a p name u) held"
    by (rule with_dentry_inv[OF u(2) i' _ pi']) (use a(2) p(3) u(7) in auto)
  moreover have "map_option (\<lambda>i. (i_ino i, i_hashed i)) (inodes (with_dentry a p name u) b) = map_option (\<lambda>i. (i_ino i, i_hashed i)) (inodes t b)" for b
    using u(3) p(1) by (cases "b = p") (auto simp: option.map_comp comp_def)
  moreover have "map_option (\<lambda>i. (i_child_list i, i_ref i)) (inodes (with_dentry a p name u) b) = map_option (\<lambda>i. (i_child_list i, i_ref i)) (inodes t b)"
    if "b \<noteq> p" for b
    using that u(3) by (auto simp: option.map_comp comp_def)
  ultimately show ?thesis using u(3-8) by auto
qed

text \<open>Hashing a dentry puts it at the head of its chain and moves it to the head of its parent's list.\<close>

definition rehashed :: "nat \<Rightarrow> dentry \<Rightarrow> nat \<Rightarrow> itable \<Rightarrow> itable" where
  "rehashed d x h t =
     upd_inode (d_parent x) (\<lambda>p. p\<lparr>i_child_list := d # remove1 d (i_child_list p)\<rparr>)
       ((upd_dentry d (\<lambda>x. x\<lparr>d_hashed := True\<rparr>) t)
          \<lparr>name_hash := (\<lambda>b. if b = h then d # remove1 d (name_hash t b) else remove1 d (name_hash t b))\<rparr>)"

lemma rehashed_inv:
  assumes inv: "inode_inv t held" and d: "dentries t d = Some x" and p: "inodes t (d_parent x) = Some pi"
  shows "inode_inv (rehashed d x (hash_name (i_ino pi) (d_name x)) t) held" (is "inode_inv ?u held")
proof (rule table_invI)
  note I = table_invD[OF inv] and l = links_okD[OF table_invD(2)[OF inv]]
  have mem: "d \<in> set (i_child_list pi)" using l(1)[OF d] p by auto
  have dist: "distinct (i_child_list j)" if "inodes t b = Some j" for b j using l(2)[OF that] by blast
  have set: "set (d # remove1 d (i_child_list pi)) = set (i_child_list pi)" using mem dist[OF p] by auto
  have ino: "map_option f (inodes ?u b) = map_option f (inodes t b)"
    if "\<And>i. f (i\<lparr>i_child_list := d # remove1 d (i_child_list i)\<rparr>) = f i" for f :: "inode \<Rightarrow> 'x" and b
    using that p by (auto simp: rehashed_def)
  show "fresh_ok ?u" by (rule fresh_ok_cong[OF I(1)]) (auto simp: rehashed_def split: if_splits)
  show "links_ok {} ?u"
  proof (rule links_okI)
    show "\<exists>i. inodes ?u (d_inode y) = Some i \<and> e \<in> set (i_dentry_list i)" if "dentries ?u e = Some y" for e y
      using that l(1)[of e] d by (auto simp: rehashed_def split: if_splits)
    show "\<exists>i. inodes ?u (d_parent y) = Some i \<and> e \<in> set (i_child_list i)" if h: "dentries ?u e = Some y" for e y
    proof -
      obtain z where z: "dentries t e = Some z" "d_parent z = d_parent y" using h d by (auto simp: rehashed_def split: if_splits)
      then obtain k where "inodes t (d_parent y) = Some k" "e \<in> set (i_child_list k)" using l(1)[OF z(1)] by auto
      then show ?thesis using p set by (cases "d_parent y = d_parent x") (auto simp: rehashed_def)
    qed
    show "distinct (i_dentry_list i) \<and> distinct (i_child_list i)" if "inodes ?u b = Some i" for b i
      using that l(2)[of b] by (auto simp: rehashed_def distinct_remove1 split: if_splits)
    show "e \<notin> {} \<and> (\<exists>y. dentries ?u e = Some y \<and> d_inode y = b)" if h: "inodes ?u b = Some i" "e \<in> set (i_dentry_list i)" for b i e
    proof -
      obtain k where k: "inodes t b = Some k" "i_dentry_list i = i_dentry_list k"
        using h(1) p by (cases "b = d_parent x") (auto simp: rehashed_def)
      then obtain y where "dentries t e = Some y" "d_inode y = b" using l(3)[OF k(1), of e] h(2) by auto
      with d show ?thesis by (auto simp: rehashed_def)
    qed
    show "e \<notin> {} \<and> (\<exists>y. dentries ?u e = Some y \<and> d_parent y = b)" if h: "inodes ?u b = Some i" "e \<in> set (i_child_list i)" for b i e
    proof -
      obtain k where k: "inodes t b = Some k" "set (i_child_list i) = set (i_child_list k)"
      proof (cases "b = d_parent x")
        case True
        then have "i_child_list i = d # remove1 d (i_child_list pi)" using h(1) p by (auto simp: rehashed_def)
        then show ?thesis using that[of pi] True p set by simp
      next
        case False
        then show ?thesis using that[of i] h(1) by (simp add: rehashed_def)
      qed
      then obtain y where "dentries t e = Some y" "d_parent y = b" using l(4)[OF k(1), of e] h(2) by auto
      with d show ?thesis by (auto simp: rehashed_def)
    qed
  qed
  have nh: "distinct (name_hash t b)" "e \<in> set (name_hash t b) \<longleftrightarrow> dentry_bucket t e = Some b" for b e
    using I(3) by (auto simp: names_ok_def)
  have "dentry_bucket ?u e = (if e = d then Some (hash_name (i_ino pi) (d_name x)) else dentry_bucket t e)" for e
    using d p by (auto simp: dentry_bucket_def rehashed_def option.map_comp comp_def split: option.splits)
  then show "names_ok {} ?u" using nh unfolding names_ok_def by (auto simp: rehashed_def)
  show "numbers_ok ?u" by (rule numbers_ok_cong[OF I(4) _ ino]) (auto simp: rehashed_def)
  show "lists_ok {} ?u" by (rule lists_ok_cong[OF I(5)]) (auto simp: rehashed_def split: if_splits)
  have "length (d # remove1 d (i_child_list pi)) = length (i_child_list pi)"
    using mem length_pos_if_in_set[OF mem] by (simp add: length_remove1)
  then show "refs_ok ?u held" by (intro refs_ok_cong[OF I(6)]) (use p in \<open>auto simp: rehashed_def\<close>)
qed

lemma dentry_hash_eq:
  assumes "dentries t d = Some x" "inodes t (d_inode x) = Some i" "inodes t (d_parent x) = Some pi"
  shows "dentry_hash d t = Inr (rehashed d x (hash_name (i_ino pi) (d_name x)) t)"
  using assms by (simp add: dentry_hash_def get_inode_Some get_dentry_Some rehashed_def Let_def)

lemma zero_ok_iff:
  assumes "inode_inv t held"
  shows "zero_ok t \<longleftrightarrow> (\<forall>a i. inodes t a = Some i \<and> i_hashed i \<longrightarrow> i_ino i \<noteq> 0)
    \<and> (\<forall>d x. dentries t d = Some x \<longrightarrow> map_option i_ino (inodes t (d_parent x)) \<noteq> Some 0)" (is "_ \<longleftrightarrow> ?r")
proof
  note l = links_okD[OF table_invD(2)[OF assms]]
  show ?r if z: "zero_ok t"
  proof (intro conjI allI impI)
    show "i_ino i \<noteq> 0" if "inodes t a = Some i \<and> i_hashed i" for a i using z that by (auto simp: zero_ok_def)
    show "map_option i_ino (inodes t (d_parent x)) \<noteq> Some 0" if h: "dentries t d = Some x" for d x
    proof -
      obtain p where p: "inodes t (d_parent x) = Some p" "d \<in> set (i_child_list p)" using l(1)[OF h] by auto
      then have "i_child_list p \<noteq> []" by auto
      then have "i_ino p \<noteq> 0" using z p(1) unfolding zero_ok_def by blast
      with p show ?thesis by simp
    qed
  qed
  show "zero_ok t" if r: ?r
    unfolding zero_ok_def
  proof (intro allI impI conjI; elim conjE)
    fix a i
    assume a: "inodes t a = Some i" "i_ino i = 0"
    show "\<not> i_hashed i" using r a by blast
    have "d \<notin> set (i_child_list i)" for d using l(4)[OF a(1), of d] r a by auto
    then show "i_child_list i = []" by (cases "i_child_list i") (metis list.set_intros(1))+
  qed
qed

text \<open>The inode gets its number; it had none or the same one.\<close>

lemma numbered_ok:
  assumes ok: "itable_ok t held" and a: "inodes t a = Some i" "i_ino i = 0 \<or> i_ino i = n" "n \<noteq> 0"
  shows "itable_ok (upd_inode a (\<lambda>i. i\<lparr>i_ino := n, i_mode := m\<rparr>) t) held" (is "itable_ok ?u held")
proof -
  note I = table_invD[OF itable_okD(1)[OF ok]] and l = links_okD[OF table_invD(2)[OF itable_okD(1)[OF ok]]]
  have zero: "\<not> i_hashed i" "i_child_list i = []" if "i_ino i = 0" using itable_okD(2)[OF ok] a(1) that by (auto simp: zero_ok_def)
  have m: "map_option f (inodes ?u b) = map_option f (inodes t b)" if "\<And>i. f (i\<lparr>i_ino := n, i_mode := m\<rparr>) = f i" for f :: "inode \<Rightarrow> 'x" and b
    using that by (cases "inodes t b") auto
  have par: "map_option i_ino (inodes ?u (d_parent x)) = map_option i_ino (inodes t (d_parent x))" if "dentries t d = Some x" for d x
    using l(1)[OF that] a zero(2) by (cases "d_parent x = a") auto
  have "inode_inv ?u held"
  proof (rule table_invI)
    show "fresh_ok ?u" by (rule fresh_ok_cong[OF I(1)]) (auto split: if_splits)
    show "links_ok {} ?u" by (rule links_ok_cong[OF I(2) m]) auto
    have "dentry_bucket ?u d = dentry_bucket t d" for d
    proof (cases "dentries t d")
      case (Some x)
      have "map_option (\<lambda>p. hash_name (i_ino p) (d_name x)) (inodes ?u (d_parent x)) = map_option (\<lambda>p. hash_name (i_ino p) (d_name x)) (inodes t (d_parent x))"
        using par[OF Some] by (cases "inodes ?u (d_parent x)"; cases "inodes t (d_parent x)") auto
      with Some show ?thesis by (simp add: dentry_bucket_def)
    qed (simp add: dentry_bucket_def)
    then show "names_ok {} ?u" using I(3) by (simp add: names_ok_def)
    have "inode_bucket ?u b = inode_bucket t b" for b
      using a zero(1) by (cases "b = a") (auto simp: inode_bucket_def)
    then show "numbers_ok ?u" using I(4) by (simp add: numbers_ok_def)
    show "lists_ok {} ?u" by (rule lists_ok_cong[OF I(5)]) (auto split: if_splits)
    show "refs_ok ?u held"
      unfolding refs_ok_def
    proof (intro allI impI)
      fix b j
      assume j: "inodes ?u b = Some j"
      show "if i_ino j = 1 then held b + length (i_child_list j) \<le> unat (i_ref j)
         else unat (i_ref j) = held b + length (i_child_list j)"
      proof (cases "b = a")
        case True
        then have "j = i\<lparr>i_ino := n, i_mode := m\<rparr>" using j a(1) by simp
        then show ?thesis using refs_okD[OF I(6) a(1)] a(2) True by auto
      next
        case False
        then show ?thesis using j I(6) by (auto simp: refs_ok_def)
      qed
    qed
  qed
  moreover have "zero_ok ?u" "held_ok ?u held" using itable_okD(2,3)[OF ok] a(3) by (auto simp: zero_ok_def held_ok_def split: if_splits)
  moreover have "unique_ok ?u"
    by (rule unique_ok_sub[OF itable_okD(4)[OF ok]]) (use a(1,2) zero in \<open>auto split: if_splits\<close>)
  ultimately show ?thesis by (simp add: itable_ok_def)
qed

text \<open>No other inode is hashed for the number.\<close>

definition only_for :: "itable \<Rightarrow> nat \<Rightarrow> u64 \<Rightarrow> bool" where
  "only_for t a n \<longleftrightarrow> (\<forall>b j. inodes t b = Some j \<and> i_hashed j \<and> i_ino j = n \<longrightarrow> b = a)"

lemma hash_add_ok:
  assumes ok: "itable_ok t held" and a: "inodes t a = Some i" "a \<notin> set (purge t)" "i_ino i \<noteq> 0" "only_for t a (i_ino i)"
  shows "\<exists>t'. inode_hash_add a t = Inr t' \<and> itable_ok t' held \<and> inodes t' = (inodes t)(a \<mapsto> i\<lparr>i_hashed := True\<rparr>)
    \<and> (\<exists>as. inode_hash t' (hash_inode (i_ino i)) = a # as)
    \<and> dentries t' = dentries t \<and> name_hash t' = name_hash t \<and> purge t' = purge t \<and> dt_next t' = dt_next t"
proof -
  define u where "u = (upd_inode a (\<lambda>i. i\<lparr>i_hashed := True\<rparr>) t)
      \<lparr>inode_hash := (\<lambda>b. if b = hash_inode (i_ino i) then a # remove1 a (inode_hash t b) else remove1 a (inode_hash t b))\<rparr>"
  note I = table_invD[OF itable_okD(1)[OF ok]] and L = lists_okD[OF table_invD(5)[OF itable_okD(1)[OF ok]]]
  have u: "inodes u = (inodes t)(a \<mapsto> i\<lparr>i_hashed := True\<rparr>)" "dentries u = dentries t" "name_hash u = name_hash t"
    "purge u = purge t" "dt_next u = dt_next t" "\<exists>as. inode_hash u (hash_inode (i_ino i)) = a # as"
    "active u = active t" "lru u = lru t"
    using a(1) by (auto simp: u_def)
  have m: "map_option f (inodes u b) = map_option f (inodes t b)" if "\<And>i. f (i\<lparr>i_hashed := True\<rparr>) = f i" for f :: "inode \<Rightarrow> 'x" and b
    using that a(1) u(1) by auto
  have "inode_inv u held"
  proof (rule table_invI)
    show "fresh_ok u" by (rule fresh_ok_cong[OF I(1)]) (use a(1) in \<open>auto simp: u_def split: if_splits\<close>)
    show "links_ok {} u" by (rule links_ok_cong[OF I(2) m]) (auto simp: u)
    show "names_ok {} u" by (rule names_ok_cong[OF I(3) u(3,2) m]) auto
    show "refs_ok u held" by (rule refs_ok_cong[OF I(6) m]) auto
    have nh: "distinct (inode_hash t b)" "c \<in> set (inode_hash t b) \<longleftrightarrow> inode_bucket t c = Some b" for b c
      using I(4) by (auto simp: numbers_ok_def)
    have "inode_bucket u c = (if c = a then Some (hash_inode (i_ino i)) else inode_bucket t c)" for c
      by (simp add: inode_bucket_def u(1))
    then show "numbers_ok u" using nh unfolding numbers_ok_def by (auto simp: u_def)
    show "lists_ok {} u"
    proof (rule lists_okI)
      show "b \<in> set (active u) \<longleftrightarrow> i_ref j \<noteq> 0" if "inodes u b = Some j" for b j
        using that L(8)[of b] a(1) by (auto simp: u split: if_splits)
      show "\<not> i_hashed j \<and> (b \<notin> {} \<longrightarrow> i_dentry_list j = [])" if "inodes u b = Some j" "b \<in> set (purge u)" for b j
        using that L(9)[of b] a(2) by (auto simp: u split: if_splits)
      show "b \<in> set (active u) \<or> b \<in> set (lru u) \<or> b \<in> set (purge u) \<longleftrightarrow> inodes u b \<noteq> None" for b
        using L(7)[of b] a(1) by (auto simp: u)
    qed (use L in \<open>auto simp: u_def\<close>)
  qed
  moreover have "zero_ok u" "held_ok u held" using itable_okD(2,3)[OF ok] a(1,3) by (auto simp: zero_ok_def held_ok_def u split: if_splits)
  moreover have "unique_ok u"
    using unique_okD[OF itable_okD(4)[OF ok]] a(4) unfolding unique_ok_def only_for_def u(1) by (auto split: if_splits)
  moreover have "inode_hash_add a t = Inr u" using a(1) by (simp add: inode_hash_add_def get_inode_Some Let_def u_def)
  ultimately show ?thesis using u by (auto simp: itable_ok_def)
qed

text \<open>What linking under a name leaves: the dentry at the head of its chain, the numbers as they were.\<close>

definition same_numbers :: "itable \<Rightarrow> itable \<Rightarrow> bool" where
  "same_numbers t u \<longleftrightarrow> inode_hash u = inode_hash t
     \<and> (\<forall>b. map_option (\<lambda>i. (i_ino i, i_hashed i)) (inodes u b) = map_option (\<lambda>i. (i_ino i, i_hashed i)) (inodes t b))"

lemma same_numbersD:
  assumes "same_numbers t u"
  shows "inodes t b = Some i \<Longrightarrow> \<exists>j. inodes u b = Some j \<and> i_ino j = i_ino i \<and> i_hashed j = i_hashed i"
    and "inodes u b = Some j \<Longrightarrow> \<exists>i. inodes t b = Some i \<and> i_ino j = i_ino i \<and> i_hashed j = i_hashed i"
    and "map_option i_ino (inodes u b) = map_option i_ino (inodes t b)"
    and "inode_hash u = inode_hash t"
proof -
  have e: "map_option (\<lambda>i. (i_ino i, i_hashed i)) (inodes u b) = map_option (\<lambda>i. (i_ino i, i_hashed i)) (inodes t b)"
    using assms by (simp add: same_numbers_def)
  show "inodes t b = Some i \<Longrightarrow> \<exists>j. inodes u b = Some j \<and> i_ino j = i_ino i \<and> i_hashed j = i_hashed i" using e by (cases "inodes u b") auto
  show "inodes u b = Some j \<Longrightarrow> \<exists>i. inodes t b = Some i \<and> i_ino j = i_ino i \<and> i_hashed j = i_hashed i" using e by (cases "inodes t b") auto
  show "map_option i_ino (inodes u b) = map_option i_ino (inodes t b)" using e by (cases "inodes u b"; cases "inodes t b") auto
  show "inode_hash u = inode_hash t" using assms by (simp add: same_numbers_def)
qed

lemma same_numbers_trans: "same_numbers t u \<Longrightarrow> same_numbers u v \<Longrightarrow> same_numbers t v"
  by (simp add: same_numbers_def)

lemma same_numbers_refl: "same_numbers t t"
  by (simp add: same_numbers_def)

lemma same_numbers_itable_ok:
  assumes "itable_ok t held" "same_numbers t u" "inode_inv u held"
    and "\<And>d x. dentries u d = Some x \<Longrightarrow> (\<exists>y. dentries t d = Some y \<and> d_parent y = d_parent x) \<or> map_option i_ino (inodes t (d_parent x)) \<noteq> Some 0"
  shows "itable_ok u held"
proof -
  note z = itable_okD(2)[OF assms(1), unfolded zero_ok_iff[OF itable_okD(1)[OF assms(1)]]]
  have "zero_ok u"
    unfolding zero_ok_iff[OF assms(3)]
  proof (intro conjI allI impI; (elim conjE)?)
    show "i_ino i \<noteq> 0" if h: "inodes u a = Some i" "i_hashed i" for a i using same_numbersD(2)[OF assms(2) h(1)] h(2) z by force
    show "map_option i_ino (inodes u (d_parent x)) \<noteq> Some 0" if h: "dentries u d = Some x" for d x
      using assms(4)[OF h] z same_numbersD(3)[OF assms(2)] by metis
  qed
  moreover have "held_ok u held"
    using itable_okD(3)[OF assms(1)] same_numbersD(3)[OF assms(2)] unfolding held_ok_def
    by (metis (no_types) option.map_disc_iff)
  moreover have "unique_ok u"
    by (rule unique_ok_sub[OF itable_okD(4)[OF assms(1)]]) (use same_numbersD(2)[OF assms(2)] in fastforce)
  ultimately show ?thesis using assms(3) by (simp add: itable_ok_def)
qed

lemma create_or_find_ok:
  assumes ok: "itable_ok t held" and a: "inodes t a = Some i" "a \<notin> set (purge t)"
    and p: "inodes t p = Some pi" "unat (i_ref pi) < 4294967295" "p \<notin> set (purge t)" "i_ino pi \<noteq> 0" and mem: "mem (dt_next t)"
  shows "\<exists>r d t'. dentry_search_for_inode t a (i_ino pi) name = Inr r
    \<and> (case r of None \<Rightarrow> dentry_create (mem (dt_next t)) a p name t | Some d \<Rightarrow> Inr (d, t)) = Inr (d, t')
    \<and> itable_ok t' held \<and> same_numbers t t'
    \<and> (\<exists>x. dentries t' d = Some x \<and> d_inode x = a \<and> d_name x = name \<and> map_option i_ino (inodes t' (d_parent x)) = Some (i_ino pi))"
proof -
  note inv = itable_okD(1)[OF ok]
  obtain r where r: "dentry_search_for_inode t a (i_ino pi) name = Inr r" "case r of None \<Rightarrow> True | Some d \<Rightarrow>
      \<exists>x q. dentries t d = Some x \<and> d_inode x = a \<and> inodes t (d_parent x) = Some q \<and> i_ino q = i_ino pi \<and> d_name x = name"
    using dentry_search_for_inode_ok[OF table_invD(2)[OF inv] a(1), of "i_ino pi" name] by (fastforce split: option.splits)
  show ?thesis
  proof (cases r)
    case None
    obtain t' where t': "dentry_create True a p name t = Inr (dt_next t, t')" "inode_inv t' held"
        "dentries t' = (dentries t)(dt_next t \<mapsto> \<lparr>d_inode = a, d_name = name, d_parent = p, d_hashed = False\<rparr>)"
        "\<And>b. map_option (\<lambda>i. (i_ino i, i_hashed i)) (inodes t' b) = map_option (\<lambda>i. (i_ino i, i_hashed i)) (inodes t b)"
        "inode_hash t' = inode_hash t"
      using dentry_create_ok[OF inv a p(1-3), of name] by blast
    have s: "same_numbers t t'" using t'(4,5) by (simp add: same_numbers_def)
    have "itable_ok t' held"
      by (rule same_numbers_itable_ok[OF ok s t'(2)]) (use t'(3) p in \<open>auto split: if_splits\<close>)
    moreover have "map_option i_ino (inodes t' p) = Some (i_ino pi)" using same_numbersD(3)[OF s, of p] p(1) by simp
    ultimately show ?thesis using r(1) None t'(1,3) s mem by auto
  next
    case (Some d)
    then show ?thesis using r ok same_numbers_refl by auto
  qed
qed

lemma dentry_unhash_itable_ok:
  assumes "itable_ok t held" "dentries t d = Some x"
  shows "\<exists>t'. dentry_unhash d t = Inr t' \<and> itable_ok t' held \<and> same_numbers t t' \<and> inodes t' = inodes t
    \<and> purge t' = purge t \<and> (\<forall>e. map_option (\<lambda>x. (d_inode x, d_name x, d_parent x)) (dentries t' e) = map_option (\<lambda>x. (d_inode x, d_name x, d_parent x)) (dentries t e))"
proof -
  note inv = itable_okD(1)[OF assms(1)]
  obtain i where i: "inodes t (d_inode x) = Some i" using links_okD(1)[OF table_invD(2)[OF inv] assms(2)] by auto
  have s: "same_numbers t (unhashed d t)" by (simp add: same_numbers_def)
  have "itable_ok (unhashed d t) held"
    by (rule same_numbers_itable_ok[OF assms(1) s unhashed_inv[OF inv assms(2)]]) (auto split: if_splits)
  moreover have "dentry_unhash d t = Inr (unhashed d t)" using dentry_unhash_eq[OF assms(2) i] .
  moreover have "map_option (\<lambda>x. (d_inode x, d_name x, d_parent x)) (dentries (unhashed d t) e) = map_option (\<lambda>x. (d_inode x, d_name x, d_parent x)) (dentries t e)" for e
    by (auto simp: option.map_comp comp_def)
  ultimately show ?thesis using s by auto
qed

lemma dentry_hash_itable_ok:
  assumes "itable_ok t held" "dentries t d = Some x" "map_option i_ino (inodes t (d_parent x)) = Some n"
  shows "\<exists>t'. dentry_hash d t = Inr t' \<and> itable_ok t' held \<and> same_numbers t t'
    \<and> dentries t' = (dentries t)(d \<mapsto> x\<lparr>d_hashed := True\<rparr>) \<and> (\<exists>ds. name_hash t' (hash_name n (d_name x)) = d # ds)
    \<and> purge t' = purge t
    \<and> (\<forall>b j. inodes t' b = Some j \<longrightarrow> (\<exists>i. inodes t b = Some i \<and> i_ref j = i_ref i \<and> i_dentry_list j = i_dentry_list i
          \<and> length (i_child_list j) = length (i_child_list i)))"
proof -
  note inv = itable_okD(1)[OF assms(1)]
  obtain i where i: "inodes t (d_inode x) = Some i" using links_okD(1)[OF table_invD(2)[OF inv] assms(2)] by auto
  obtain p where p: "inodes t (d_parent x) = Some p" "i_ino p = n" using assms(3) by auto
  let ?u = "rehashed d x (hash_name (i_ino p) (d_name x)) t"
  have s: "same_numbers t ?u" using p by (auto simp: same_numbers_def rehashed_def option.map_comp comp_def)
  have de: "dentries ?u = (dentries t)(d \<mapsto> x\<lparr>d_hashed := True\<rparr>)" using assms(2) by (auto simp: rehashed_def)
  have "itable_ok ?u held"
    by (rule same_numbers_itable_ok[OF assms(1) s rehashed_inv[OF inv assms(2) p(1)]]) (use assms(2) de in \<open>auto split: if_splits\<close>)
  moreover have "dentry_hash d t = Inr ?u" using dentry_hash_eq[OF assms(2) i p(1)] .
  moreover have "\<exists>ds. name_hash ?u (hash_name n (d_name x)) = d # ds" using p(2) by (simp add: rehashed_def)
  moreover have "d \<in> set (i_child_list p)" using links_okD(1)[OF table_invD(2)[OF inv] assms(2)] p(1) by auto
  then have "length (d # remove1 d (i_child_list p)) = length (i_child_list p)"
    using length_pos_if_in_set[of d "i_child_list p"] by (simp add: length_remove1)
  then have "\<exists>i. inodes t b = Some i \<and> i_ref j = i_ref i \<and> i_dentry_list j = i_dentry_list i
      \<and> length (i_child_list j) = length (i_child_list i)" if "inodes ?u b = Some j" for b j
    using that p(1) by (cases "b = d_parent x") (auto simp: rehashed_def)
  moreover have "purge ?u = purge t" by (simp add: rehashed_def)
  ultimately show ?thesis using s de by blast
qed

lemma link_dentry_ok:
  assumes ok: "itable_ok t held" and a: "inodes t a = Some i" "a \<notin> set (purge t)"
    and p: "inodes t p = Some pi" "unat (i_ref pi) < 4294967295" "p \<notin> set (purge t)" "i_ino pi \<noteq> 0" and mem: "mem (dt_next t)"
  shows "\<exists>t' d x ds. link_dentry mem a p name t = Inr t' \<and> itable_ok t' held \<and> same_numbers t t'
    \<and> dentries t' d = Some x \<and> d_hashed x \<and> d_inode x = a \<and> d_name x = name
    \<and> map_option i_ino (inodes t' (d_parent x)) = Some (i_ino pi) \<and> name_hash t' (hash_name (i_ino pi) name) = d # ds"
proof -
  obtain r d t1 x where 1: "dentry_search_for_inode t a (i_ino pi) name = Inr r"
      "(case r of None \<Rightarrow> dentry_create (mem (dt_next t)) a p name t | Some d \<Rightarrow> Inr (d, t)) = Inr (d, t1)"
      "itable_ok t1 held" "same_numbers t t1"
      "dentries t1 d = Some x" "d_inode x = a" "d_name x = name" "map_option i_ino (inodes t1 (d_parent x)) = Some (i_ino pi)"
    using create_or_find_ok[where mem = mem, OF ok a p mem] by blast
  obtain old where old: "dentry_search t1 (i_ino pi) name = Inr old" "case old of None \<Rightarrow> True | Some od \<Rightarrow> \<exists>y. dentries t1 od = Some y"
    using dentry_search_ok[OF table_invD(3)[OF itable_okD(1)[OF 1(3)]], of "i_ino pi" name] by (fastforce split: option.splits)
  have "\<exists>t2 x'. (case old of None \<Rightarrow> Inr t1 | Some od \<Rightarrow> dentry_unhash od t1) = Inr t2 \<and> itable_ok t2 held \<and> same_numbers t1 t2
      \<and> dentries t2 d = Some x' \<and> d_inode x' = a \<and> d_name x' = name \<and> map_option i_ino (inodes t2 (d_parent x')) = Some (i_ino pi)"
  proof (cases old)
    case None
    then show ?thesis using 1 same_numbers_refl by auto
  next
    case (Some od)
    then obtain y where "dentries t1 od = Some y" using old(2) by auto
    then obtain t2 where t2: "dentry_unhash od t1 = Inr t2" "itable_ok t2 held" "same_numbers t1 t2" "inodes t2 = inodes t1"
        "\<And>e. map_option (\<lambda>x. (d_inode x, d_name x, d_parent x)) (dentries t2 e) = map_option (\<lambda>x. (d_inode x, d_name x, d_parent x)) (dentries t1 e)"
      using dentry_unhash_itable_ok[OF 1(3)] by blast
    obtain x' where "dentries t2 d = Some x'" "d_inode x' = d_inode x" "d_name x' = d_name x" "d_parent x' = d_parent x"
      using t2(5)[of d] 1(5) by (cases "dentries t2 d") auto
    then show ?thesis using Some t2 1 by auto
  qed
  then obtain t2 x' where 2: "(case old of None \<Rightarrow> Inr t1 | Some od \<Rightarrow> dentry_unhash od t1) = Inr t2" "itable_ok t2 held" "same_numbers t1 t2"
      "dentries t2 d = Some x'" "d_inode x' = a" "d_name x' = name" "map_option i_ino (inodes t2 (d_parent x')) = Some (i_ino pi)"
    by blast
  obtain t3 ds where 3: "dentry_hash d t2 = Inr t3" "itable_ok t3 held" "same_numbers t2 t3"
      "dentries t3 = (dentries t2)(d \<mapsto> x'\<lparr>d_hashed := True\<rparr>)" "name_hash t3 (hash_name (i_ino pi) name) = d # ds"
    using dentry_hash_itable_ok[OF 2(2,4,7)] 2(6) by blast
  have "link_dentry mem a p name t = Inr t3"
    using 1(1,2) old(1) 2(1) 3(1) p(1) by (simp add: link_dentry_def get_inode_Some)
  moreover have "same_numbers t t3" using 1(4) 2(3) 3(3) same_numbers_trans by blast
  moreover have "map_option i_ino (inodes t3 (d_parent x')) = Some (i_ino pi)" using same_numbersD(3)[OF 3(3)] 2(7) by simp
  ultimately show ?thesis
    using 3(2,4,5) 2(5,6) by (intro exI[of _ t3] exI[of _ d] exI[of _ "x'\<lparr>d_hashed := True\<rparr>"] exI[of _ ds]) auto
qed

end
