(* ===== verification/Inode_Replace.thy ===== *)
theory Inode_Replace
  imports Inode_Ops
begin

text \<open>
  Linking an inode for a number that another inode is hashed for replaces that one: its names are
  copied, its children are adopted, its lookup count is taken over and it leaves the hash. The table
  stays consistent as long as no counter wraps around.
\<close>

section \<open>Copying the names\<close>

text \<open>
  What copying up to \<open>k\<close> names to the inode \<open>a\<close> changes: counts and child lists grow by at most \<open>k\<close>, only
  the inode itself gets dentries, and the other dentries keep their inode, name and parent.
\<close>

definition copied :: "nat \<Rightarrow> nat \<Rightarrow> itable \<Rightarrow> itable \<Rightarrow> bool" where
  "copied a k t u \<longleftrightarrow> purge u = purge t
     \<and> (\<forall>b j. inodes u b = Some j \<longrightarrow> (\<exists>i. inodes t b = Some i \<and> unat (i_ref j) \<le> unat (i_ref i) + k
          \<and> length (i_child_list j) \<le> length (i_child_list i) + k \<and> (b \<noteq> a \<longrightarrow> i_dentry_list j = i_dentry_list i)))
     \<and> (\<forall>b. inodes t b \<noteq> None \<longrightarrow> inodes u b \<noteq> None)
     \<and> (\<forall>d x. dentries t d = Some x \<longrightarrow>
          (\<exists>y. dentries u d = Some y \<and> d_inode y = d_inode x \<and> d_name y = d_name x \<and> d_parent y = d_parent x))"

lemma copiedD:
  assumes "copied a k t u"
  shows "purge u = purge t"
    and "inodes u b = Some j \<Longrightarrow> \<exists>i. inodes t b = Some i \<and> unat (i_ref j) \<le> unat (i_ref i) + k
          \<and> length (i_child_list j) \<le> length (i_child_list i) + k \<and> (b \<noteq> a \<longrightarrow> i_dentry_list j = i_dentry_list i)"
    and "inodes t b = Some i \<Longrightarrow> \<exists>j. inodes u b = Some j"
    and "dentries t d = Some x \<Longrightarrow>
          \<exists>y. dentries u d = Some y \<and> d_inode y = d_inode x \<and> d_name y = d_name x \<and> d_parent y = d_parent x"
  using assms unfolding copied_def by blast+

lemma copied_refl: "copied a 0 t t"
  by (simp add: copied_def)

lemma copied_trans:
  assumes "copied a k t u" "copied a l u v"
  shows "copied a (k + l) t v"
  unfolding copied_def
proof (intro conjI allI impI)
  note 1 = copiedD[OF assms(1)] and 2 = copiedD[OF assms(2)]
  show "purge v = purge t" using 1(1) 2(1) by simp
  show "\<exists>i. inodes t b = Some i \<and> unat (i_ref j) \<le> unat (i_ref i) + (k + l)
      \<and> length (i_child_list j) \<le> length (i_child_list i) + (k + l) \<and> (b \<noteq> a \<longrightarrow> i_dentry_list j = i_dentry_list i)"
    if h: "inodes v b = Some j" for b j
  proof -
    obtain m where m: "inodes u b = Some m" "unat (i_ref j) \<le> unat (i_ref m) + l"
        "length (i_child_list j) \<le> length (i_child_list m) + l" "b \<noteq> a \<longrightarrow> i_dentry_list j = i_dentry_list m"
      using 2(2)[OF h] by blast
    obtain i where "inodes t b = Some i" "unat (i_ref m) \<le> unat (i_ref i) + k"
        "length (i_child_list m) \<le> length (i_child_list i) + k" "b \<noteq> a \<longrightarrow> i_dentry_list m = i_dentry_list i"
      using 1(2)[OF m(1)] by blast
    with m(2-4) show ?thesis by auto
  qed
  show "inodes v b \<noteq> None" if "inodes t b \<noteq> None" for b using that 1(3) 2(3) by (metis not_None_eq)
  show "\<exists>y. dentries v d = Some y \<and> d_inode y = d_inode x \<and> d_name y = d_name x \<and> d_parent y = d_parent x"
    if "dentries t d = Some x" for d x
    using 1(4)[OF that] 2(4) by metis
qed

lemma copied_mono: "copied a k t u \<Longrightarrow> k \<le> l \<Longrightarrow> copied a l t u"
  unfolding copied_def by (meson add_left_mono order_trans)

lemma find_copied:
  assumes ok: "itable_ok t held" and a: "inodes t a = Some i" "a \<notin> set (purge t)"
    and p: "inodes t p = Some pi" "unat (i_ref pi) < 4294967295" "p \<notin> set (purge t)" "i_ino pi \<noteq> 0" and mem: "mem (dt_next t)"
  shows "\<exists>r d t'. dentry_search_for_inode t a (i_ino pi) name = Inr r
    \<and> (case r of None \<Rightarrow> dentry_create (mem (dt_next t)) a p name t | Some d \<Rightarrow> Inr (d, t)) = Inr (d, t')
    \<and> itable_ok t' held \<and> same_numbers t t' \<and> copied a 1 t t'
    \<and> (\<exists>x. dentries t' d = Some x \<and> d_inode x = a)"
proof -
  obtain r d t' x where t': "dentry_search_for_inode t a (i_ino pi) name = Inr r"
      "(case r of None \<Rightarrow> dentry_create (mem (dt_next t)) a p name t | Some d \<Rightarrow> Inr (d, t)) = Inr (d, t')"
      "itable_ok t' held" "same_numbers t t'" "dentries t' d = Some x" "d_inode x = a"
    using create_or_find_ok[where mem = mem, OF ok a p mem] by blast
  have "copied a 1 t t'"
  proof (cases r)
    case None
    obtain u where u: "dentry_create True a p name t = Inr (dt_next t, u)"
        "dentries u = (dentries t)(dt_next t \<mapsto> \<lparr>d_inode = a, d_name = name, d_parent = p, d_hashed = False\<rparr>)" "purge u = purge t"
        "\<And>b. inodes u b = map_option (grown (dt_next t) a p b) (((inodes t)(p \<mapsto> pi\<lparr>i_ref := i_ref pi + 1\<rparr>)) b)"
      using dentry_create_ok[OF itable_okD(1)[OF ok] a p(1-3), of name] by blast
    have "u = t'" using t'(2) u(1) None mem by simp
    moreover have "unat (i_ref pi + 1) \<le> unat (i_ref pi) + 1" using p(2) unat_add_lem[of "i_ref pi" 1] by simp
    moreover have "dentries t (dt_next t) = None" using table_invD(1)[OF itable_okD(1)[OF ok]] unfolding fresh_ok_def by blast
    ultimately show ?thesis using u(2-4) p(1) by (auto simp: copied_def split: if_splits)
  next
    case (Some e)
    then show ?thesis using t'(2) copied_mono[OF copied_refl] by simp
  qed
  with t' show ?thesis by blast
qed

lemma hash_copied:
  assumes "itable_ok t held" "dentries t d = Some x" "map_option i_ino (inodes t (d_parent x)) = Some n"
  shows "\<exists>u. dentry_hash d t = Inr u \<and> itable_ok u held \<and> same_numbers t u \<and> copied a 0 t u"
proof -
  obtain u where u: "dentry_hash d t = Inr u" "itable_ok u held" "same_numbers t u"
      "dentries u = (dentries t)(d \<mapsto> x\<lparr>d_hashed := True\<rparr>)" "purge u = purge t"
      "\<And>b j. inodes u b = Some j \<Longrightarrow> \<exists>i. inodes t b = Some i \<and> i_ref j = i_ref i \<and> i_dentry_list j = i_dentry_list i
          \<and> length (i_child_list j) = length (i_child_list i)"
    using dentry_hash_itable_ok[OF assms] by blast
  have "inodes u b \<noteq> None" if "inodes t b \<noteq> None" for b using same_numbersD(1)[OF u(3), of b] that by auto
  then have "copied a 0 t u" using u(4-6) assms(2) unfolding copied_def by (fastforce split: if_splits)
  with u(1-3) show ?thesis by blast
qed

lemma copy_dentry_ok:
  assumes ok: "itable_ok t held" and a: "inodes t a = Some i" "a \<notin> set (purge t)" and d: "dentries t d = Some x"
    and room: "\<forall>b j. inodes t b = Some j \<longrightarrow> unat (i_ref j) < 4294967295" and mem: "\<forall>e. mem e"
  shows "\<exists>u. copy_dentry mem a d t = Inr u \<and> itable_ok u held \<and> same_numbers t u \<and> copied a 1 t u"
proof -
  note inv = itable_okD(1)[OF ok]
  obtain p where p: "inodes t (d_parent x) = Some p" "i_child_list p \<noteq> []" using links_okD(1)[OF table_invD(2)[OF inv] d] by force
  have np: "d_parent x \<notin> set (purge t)" "i_ino p \<noteq> 0"
    using not_dying[OF inv p(1)] p(2) itable_okD(2)[OF ok] p(1) by (auto simp: zero_ok_def)
  obtain r e v y where v: "dentry_search_for_inode t a (i_ino p) (d_name x) = Inr r"
      "(case r of None \<Rightarrow> dentry_create (mem (dt_next t)) a (d_parent x) (d_name x) t | Some e \<Rightarrow> Inr (e, t)) = Inr (e, v)"
      "itable_ok v held" "same_numbers t v" "copied a 1 t v" "dentries v e = Some y"
    using find_copied[where mem = mem, OF ok a p(1) _ np, of "d_name x"] room p(1) mem by blast
  obtain x' where x': "dentries v d = Some x'" using copiedD(4)[OF v(5) d] by blast
  obtain w where w: "dentry_unhash d v = Inr w" "itable_ok w held" "same_numbers v w" "inodes w = inodes v" "purge w = purge v"
      "\<And>f. map_option (\<lambda>x. (d_inode x, d_name x, d_parent x)) (dentries w f) = map_option (\<lambda>x. (d_inode x, d_name x, d_parent x)) (dentries v f)"
    using dentry_unhash_itable_ok[OF v(3) x'] by blast
  have "\<exists>y. dentries w g = Some y \<and> d_inode y = d_inode z \<and> d_name y = d_name z \<and> d_parent y = d_parent z"
    if "dentries v g = Some z" for g z
    using w(6)[of g] that by (cases "dentries w g") auto
  then have vw: "copied a 0 v w" using w(4,5) by (auto simp: copied_def)
  obtain z where z: "dentries w e = Some z" using copiedD(4)[OF vw v(6)] by blast
  obtain q where q: "inodes w (d_parent z) = Some q" using links_okD(1)[OF table_invD(2)[OF itable_okD(1)[OF w(2)]] z] by blast
  then have qn: "map_option i_ino (inodes w (d_parent z)) = Some (i_ino q)" by simp
  obtain n where n: "dentry_hash e w = Inr n" "itable_ok n held" "same_numbers w n" "copied a 0 w n"
    using hash_copied[OF w(2) z qn] by blast
  have "is_dentry_hashed v d = Inr (d_hashed x')" using x' by (simp add: is_dentry_hashed_def get_dentry_Some)
  then have "copy_dentry mem a d t = (if d_hashed x' then Inr n else Inr v)"
    using d p(1) v(1,2) w(1) n(1) by (simp add: copy_dentry_def get_inode_Some get_dentry_Some)
  moreover have "copied a 1 t n" using copied_trans[OF copied_trans[OF v(5) vw] n(4)] by simp
  moreover have "same_numbers t n" using v(4) w(3) n(3) same_numbers_trans by blast
  ultimately show ?thesis using v(3-5) n(2) by (cases "d_hashed x'") auto
qed

lemma copy_fold_ok:
  assumes "itable_ok t held" "inodes t a \<noteq> None" "a \<notin> set (purge t)" "\<forall>d \<in> set ds. dentries t d \<noteq> None" "\<forall>e. mem e"
    and "\<forall>b j. inodes t b = Some j \<longrightarrow> unat (i_ref j) + length ds \<le> 4294967295"
  shows "\<exists>u. foldM (copy_dentry mem a) ds t = Inr u \<and> itable_ok u held \<and> same_numbers t u \<and> copied a (length ds) t u"
  using assms
proof (induction ds arbitrary: t)
  case Nil
  then show ?case by (simp add: copied_refl same_numbers_refl)
next
  case (Cons d ds)
  obtain x where x: "dentries t d = Some x" using Cons.prems(4) by auto
  obtain i where i: "inodes t a = Some i" using Cons.prems(2) by auto
  have "\<forall>b j. inodes t b = Some j \<longrightarrow> unat (i_ref j) < 4294967295" using Cons.prems(6) by fastforce
  then obtain u where u: "copy_dentry mem a d t = Inr u" "itable_ok u held" "same_numbers t u" "copied a 1 t u"
    using copy_dentry_ok[OF Cons.prems(1) i Cons.prems(3) x _ Cons.prems(5)] by blast
  note C = copiedD[OF u(4)]
  have room: "\<forall>b j. inodes u b = Some j \<longrightarrow> unat (i_ref j) + length ds \<le> 4294967295"
  proof (intro allI impI)
    fix b j
    assume "inodes u b = Some j"
    then obtain k where "inodes t b = Some k" "unat (i_ref j) \<le> unat (i_ref k) + 1" using C(2) by blast
    then show "unat (i_ref j) + length ds \<le> 4294967295" using Cons.prems(6) by fastforce
  qed
  have live: "\<forall>e \<in> set ds. dentries u e \<noteq> None" using Cons.prems(4) C(4) by fastforce
  have "inodes u a \<noteq> None" "a \<notin> set (purge u)" using C(1,3) i Cons.prems(3) by auto
  from Cons.IH[OF u(2) this live Cons.prems(5) room]
  obtain v where v: "foldM (copy_dentry mem a) ds u = Inr v" "itable_ok v held" "same_numbers u v" "copied a (length ds) u v" by blast
  have "copied a (length (d # ds)) t v" using copied_trans[OF u(4) v(4)] by simp
  then show ?case using u(1) v(1,2) same_numbers_trans[OF u(3) v(3)] by simp
qed

lemma copy_dentries_ok:
  assumes "itable_ok t held" "inodes t a \<noteq> None" "a \<notin> set (purge t)" "inodes t b = Some old" "\<forall>e. mem e"
    and "\<forall>c j. inodes t c = Some j \<longrightarrow> unat (i_ref j) + length (i_dentry_list old) \<le> 4294967295"
  shows "\<exists>u. copy_dentries mem b a t = Inr u \<and> itable_ok u held \<and> same_numbers t u
    \<and> copied a (length (i_dentry_list old)) t u"
proof -
  have "\<forall>d \<in> set (i_dentry_list old). dentries t d \<noteq> None"
    using links_okD(3)[OF table_invD(2)[OF itable_okD(1)[OF assms(1)]] assms(4)] by auto
  then show ?thesis using copy_fold_ok[OF assms(1-3) _ assms(5,6)] assms(4) by (simp add: copy_dentries_def get_inode_Some)
qed

section \<open>Adopting the children\<close>

text \<open>The table after \<open>k\<close> references moved from the inode \<open>b\<close> to \<open>a\<close> and the dentries \<open>ds\<close> got the parent \<open>a\<close>.\<close>

definition moved_ref :: "nat \<Rightarrow> nat \<Rightarrow> nat \<Rightarrow> nat \<Rightarrow> inode \<Rightarrow> inode" where
  "moved_ref b a k c i = i\<lparr>i_ref := (if c = a then i_ref i + of_nat k else if c = b \<and> i_ino i \<noteq> 1 then i_ref i - of_nat k else i_ref i)\<rparr>"

definition moved :: "nat \<Rightarrow> nat \<Rightarrow> nat list \<Rightarrow> itable \<Rightarrow> itable" where
  "moved b a ds t = t\<lparr>inodes := (\<lambda>c. map_option (moved_ref b a (length ds) c) (inodes t c)),
     dentries := (\<lambda>d. if d \<in> set ds then map_option (\<lambda>x. x\<lparr>d_parent := a\<rparr>) (dentries t d) else dentries t d)\<rparr>"

lemma moved_ref_sel [simp]:
  "i_nlookup (moved_ref b a k c i) = i_nlookup i" "i_generation (moved_ref b a k c i) = i_generation i"
  "i_ino (moved_ref b a k c i) = i_ino i" "i_mode (moved_ref b a k c i) = i_mode i"
  "i_dentry_list (moved_ref b a k c i) = i_dentry_list i" "i_child_list (moved_ref b a k c i) = i_child_list i"
  "i_hashed (moved_ref b a k c i) = i_hashed i" "i_ctx (moved_ref b a k c i) = i_ctx i"
  by (simp_all add: moved_ref_def)

lemma moved_sel [simp]:
  "inodes (moved b a ds t) c = map_option (moved_ref b a (length ds) c) (inodes t c)"
  "dentries (moved b a ds t) d = (if d \<in> set ds then map_option (\<lambda>x. x\<lparr>d_parent := a\<rparr>) (dentries t d) else dentries t d)"
  "it_next (moved b a ds t) = it_next t" "dt_next (moved b a ds t) = dt_next t"
  "root (moved b a ds t) = root t" "lru_limit (moved b a ds t) = lru_limit t"
  "inode_hash (moved b a ds t) = inode_hash t" "name_hash (moved b a ds t) = name_hash t"
  "active (moved b a ds t) = active t" "active_size (moved b a ds t) = active_size t"
  "lru (moved b a ds t) = lru t" "lru_size (moved b a ds t) = lru_size t"
  "purge (moved b a ds t) = purge t" "purge_size (moved b a ds t) = purge_size t"
  "xl_count (moved b a ds t) = xl_count t" "forgotten (moved b a ds t) = forgotten t"
  by (simp_all add: moved_def)

lemma moved_Nil: "moved b a [] t = t"
proof -
  have "moved_ref b a 0 c = (\<lambda>i. i)" for c by (simp add: moved_ref_def fun_eq_iff)
  then show ?thesis by (simp add: moved_def option.map_ident)
qed

lemma moved_ref_Suc: "moved_ref b a k c (moved_ref b a 1 c i) = moved_ref b a (Suc k) c i"
  by (simp add: moved_ref_def algebra_simps)

lemma moved_Cons:
  assumes "d \<notin> set ds"
  shows "moved b a ds (moved b a [d] t) = moved b a (d # ds) t"
proof -
  have "map_option (moved_ref b a (length ds) c) (map_option (moved_ref b a 1 c) x) = map_option (moved_ref b a (Suc (length ds)) c) x"
    for c x
    by (cases x) (simp_all only: option.map moved_ref_Suc)
  moreover have "(\<lambda>e. if e \<in> set ds then map_option (\<lambda>x. x\<lparr>d_parent := a\<rparr>) (dentries (moved b a [d] t) e) else dentries (moved b a [d] t) e)
    = dentries (moved b a (d # ds) t)"
    using assms by (auto simp: fun_eq_iff)
  ultimately show ?thesis by (simp add: moved_def[of b a ds] moved_def[of b a "d # ds"])
qed

lemma adopt_child_eq:
  assumes "dentries t d = Some x" "d_parent x = b" "inodes t b = Some old" "inodes t a = Some new" "a \<noteq> b"
    and "i_ino old = 1 \<or> 1 < unat (i_ref old)" "i_ref new \<noteq> 0"
  shows "adopt_child b a d t = Inr (moved b a [d] t)"
proof -
  have "inode_unref_locked b t = Inr (if i_ino old = 1 then t else upd_inode b (\<lambda>i. i\<lparr>i_ref := i_ref i - 1\<rparr>) t)"
  proof (cases "i_ino old = 1")
    case False
    then have "i_ref old \<noteq> 0" "i_ref old - 1 \<noteq> 0" using assms(6) by auto
    with False assms(3) show ?thesis by (simp add: inode_unref_locked_def get_inode_Some Let_def)
  qed (use assms(3) in \<open>simp add: inode_unref_locked_def get_inode_Some\<close>)
  moreover have "inode_ref_locked a u = Inr (upd_inode a (\<lambda>i. i\<lparr>i_ref := i_ref i + 1\<rparr>) u)" if "inodes u a = Some new" for u
    using that assms(7) by (simp add: inode_ref_locked_def get_inode_Some Let_def)
  moreover have "upd_dentry d (\<lambda>x. x\<lparr>d_parent := a\<rparr>) (upd_inode a (\<lambda>i. i\<lparr>i_ref := i_ref i + 1\<rparr>)
      (if i_ino old = 1 then t else upd_inode b (\<lambda>i. i\<lparr>i_ref := i_ref i - 1\<rparr>) t)) = moved b a [d] t" (is "?v = _")
  proof -
    have "inodes ?v c = inodes (moved b a [d] t) c" for c
      using assms(3,4,5) by (cases "inodes t c") (auto simp: moved_ref_def)
    then show ?thesis by (intro itable.equality ext) auto
  qed
  ultimately show ?thesis using assms by (simp add: adopt_child_def get_dentry_Some)
qed

lemma adopt_fold_eq:
  assumes "\<forall>d \<in> set ds. \<exists>x. dentries t d = Some x \<and> d_parent x = b" "distinct ds"
    and "inodes t b = Some old" "inodes t a = Some new" "a \<noteq> b"
    and "i_ino old = 1 \<or> length ds < unat (i_ref old)" "0 < unat (i_ref new)" "unat (i_ref new) + length ds < 4294967296"
  shows "foldM (adopt_child b a) ds t = Inr (moved b a ds t)"
  using assms
proof (induction ds arbitrary: t old new)
  case (Cons d ds)
  let ?u = "moved b a [d] t"
  obtain x where x: "dentries t d = Some x" "d_parent x = b" using Cons.prems(1) by auto
  have nz: "i_ref new \<noteq> 0" using Cons.prems(7) by (metis less_irrefl unat_0)
  have "adopt_child b a d t = Inr ?u"
    by (rule adopt_child_eq[OF x Cons.prems(3-5) _ nz]) (use Cons.prems(6) in auto)
  moreover have up: "unat (i_ref new + 1) = Suc (unat (i_ref new))"
    using Cons.prems(8) unat_add_lem[of "i_ref new" 1] by simp
  moreover have "foldM (adopt_child b a) ds ?u = Inr (moved b a ds ?u)"
  proof (rule Cons.IH)
    show "\<forall>e \<in> set ds. \<exists>x. dentries ?u e = Some x \<and> d_parent x = b" using Cons.prems(1,2) by auto
    show "inodes ?u b = Some (moved_ref b a 1 b old)" "inodes ?u a = Some (moved_ref b a 1 a new)" using Cons.prems(3,4) by simp_all
    show "i_ino (moved_ref b a 1 b old) = 1 \<or> length ds < unat (i_ref (moved_ref b a 1 b old))"
    proof (cases "i_ino old = 1")
      case False
      then have "length (d # ds) < unat (i_ref old)" using Cons.prems(6) by blast
      then have "unat (i_ref old - 1) = unat (i_ref old) - 1" by (subst unat_sub) (auto simp: word_le_nat_alt)
      then show ?thesis using False \<open>length (d # ds) < unat (i_ref old)\<close> Cons.prems(5) by (simp add: moved_ref_def)
    qed simp
    show "0 < unat (i_ref (moved_ref b a 1 a new))" "unat (i_ref (moved_ref b a 1 a new)) + length ds < 4294967296"
      using up Cons.prems(8) by (simp_all add: moved_ref_def)
  qed (use Cons.prems in auto)
  ultimately show ?case using moved_Cons[of d ds b a t] Cons.prems(2) by simp
qed (simp add: moved_Nil)

text \<open>The children change over to the other list.\<close>

definition spliced :: "nat \<Rightarrow> nat \<Rightarrow> nat list \<Rightarrow> itable \<Rightarrow> itable" where
  "spliced b a ds t = upd_inode b (\<lambda>i. i\<lparr>i_child_list := []\<rparr>) (upd_inode a (\<lambda>i. i\<lparr>i_child_list := ds @ i_child_list i\<rparr>) (moved b a ds t))"

lemma spliced_sel [simp]:
  "dentries (spliced b a ds t) d = (if d \<in> set ds then map_option (\<lambda>x. x\<lparr>d_parent := a\<rparr>) (dentries t d) else dentries t d)"
  "it_next (spliced b a ds t) = it_next t" "dt_next (spliced b a ds t) = dt_next t"
  "root (spliced b a ds t) = root t" "lru_limit (spliced b a ds t) = lru_limit t"
  "inode_hash (spliced b a ds t) = inode_hash t" "name_hash (spliced b a ds t) = name_hash t"
  "active (spliced b a ds t) = active t" "active_size (spliced b a ds t) = active_size t"
  "lru (spliced b a ds t) = lru t" "lru_size (spliced b a ds t) = lru_size t"
  "purge (spliced b a ds t) = purge t" "purge_size (spliced b a ds t) = purge_size t"
  by (simp_all add: spliced_def)

lemma spliced_inode:
  assumes "a \<noteq> b"
  shows "inodes (spliced b a ds t) c = map_option (\<lambda>i. (moved_ref b a (length ds) c i)\<lparr>i_child_list :=
    (if c = a then ds @ i_child_list i else if c = b then [] else i_child_list i)\<rparr>) (inodes t c)"
  using assms by (cases "inodes t c") (auto simp: spliced_def)

lemma spliced_links:
  assumes l: "links_ok {} t" and b: "inodes t b = Some old" and a: "inodes t a = Some new" "a \<noteq> b"
  shows "links_ok {} (spliced b a (i_child_list old) t)" (is "links_ok {} ?u")
proof (rule links_okI)
  note L = links_okD[OF l]
  have dis: "d \<notin> set (i_child_list new)" if "d \<in> set (i_child_list old)" for d
    using L(4)[OF b that] L(4)[OF a(1), of d] a(2) by auto
  have in_old: "d \<in> set (i_child_list old) \<longleftrightarrow> d_parent x = b" if "dentries t d = Some x" for d x
    using L(1)[OF that] L(4)[OF b, of d] that b by auto
  show "\<exists>i. inodes ?u (d_inode x) = Some i \<and> d \<in> set (i_dentry_list i)" if h: "dentries ?u d = Some x" for d x
  proof -
    obtain y where "dentries t d = Some y" "d_inode y = d_inode x" using h by (auto split: if_splits)
    then obtain i where "inodes t (d_inode x) = Some i" "d \<in> set (i_dentry_list i)" using L(1)[of d y] by auto
    then show ?thesis by (simp add: spliced_inode[OF a(2)])
  qed
  show "\<exists>i. inodes ?u (d_parent x) = Some i \<and> d \<in> set (i_child_list i)" if h: "dentries ?u d = Some x" for d x
  proof (cases "d \<in> set (i_child_list old)")
    case True
    then have "d_parent x = a" using h by auto
    then show ?thesis using True a by (simp add: spliced_inode[OF a(2)])
  next
    case False
    then have "dentries t d = Some x" using h by simp
    moreover from this obtain i where "inodes t (d_parent x) = Some i" "d \<in> set (i_child_list i)" using L(1)[of d x] by auto
    moreover have "d_parent x \<noteq> b" using in_old calculation(1) False by blast
    ultimately show ?thesis by (simp add: spliced_inode[OF a(2)])
  qed
  show "distinct (i_dentry_list i) \<and> distinct (i_child_list i)" if "inodes ?u c = Some i" for c i
    using that L(2)[OF b] L(2)[OF a(1)] L(2)[of c] dis a by (auto simp: spliced_inode[OF a(2)] split: if_splits)
  show "d \<notin> {} \<and> (\<exists>x. dentries ?u d = Some x \<and> d_inode x = c)" if "inodes ?u c = Some i" "d \<in> set (i_dentry_list i)" for c i d
    using that L(3)[of c] by (fastforce simp: spliced_inode[OF a(2)])
  show "d \<notin> {} \<and> (\<exists>x. dentries ?u d = Some x \<and> d_parent x = c)" if h: "inodes ?u c = Some i" "d \<in> set (i_child_list i)" for c i d
  proof (cases "d \<in> set (i_child_list old)")
    case True
    then obtain x where x: "dentries t d = Some x" "d_parent x = b" using L(4)[OF b] by blast
    have "c = a"
    proof (rule ccontr)
      assume c: "c \<noteq> a"
      then have "c \<noteq> b" using h by (auto simp: spliced_inode[OF a(2)])
      with c h obtain j where "inodes t c = Some j" "d \<in> set (i_child_list j)" by (auto simp: spliced_inode[OF a(2)])
      then show False using L(4)[of c j d] x \<open>c \<noteq> b\<close> by auto
    qed
    then show ?thesis using x True by simp
  next
    case False
    then obtain j where "inodes t c = Some j" "d \<in> set (i_child_list j)"
      using h by (auto simp: spliced_inode[OF a(2)] split: if_splits)
    then show ?thesis using L(4)[of c j d] False by auto
  qed
qed

lemma spliced_refs:
  assumes "refs_ok t held" "inodes t b = Some old" "inodes t a = Some new" "a \<noteq> b" "0 < held a" "0 < held b"
    and "unat (i_ref new) + length (i_child_list old) < 4294967296" and u: "u = spliced b a (i_child_list old) t"
  shows "refs_ok u held"
    and "\<And>c i. inodes t c = Some i \<Longrightarrow> \<exists>j. inodes u c = Some j \<and> (i_ref j = 0 \<longleftrightarrow> i_ref i = 0)
        \<and> unat (i_ref j) \<le> unat (i_ref i) + (if c = a then length (i_child_list old) else 0)"
proof -
  let ?k = "length (i_child_list old)"
  have new: "unat (i_ref new + of_nat ?k) = unat (i_ref new) + ?k"
    using assms(7) by (simp add: unat_word_ariths unat_of_nat)
  have pos: "0 < unat (i_ref new)" using refs_okD[OF assms(1,3)] assms(5) by (cases "i_ino new = 1") auto
  have old: "unat (i_ref old - of_nat ?k) = held b" if "i_ino old \<noteq> 1"
  proof -
    have e: "unat (i_ref old) = held b + ?k" using refs_okD(2)[OF assms(1,2) that] .
    moreover have "unat (i_ref old) < 2 ^ LENGTH(32)" by (rule unsigned_less)
    ultimately have "?k < 4294967296" by simp
    then show ?thesis using e by (subst unat_sub) (auto simp: word_le_nat_alt unat_of_nat)
  qed
  have case_new: "inodes u a = Some ((moved_ref b a ?k a new)\<lparr>i_child_list := i_child_list old @ i_child_list new\<rparr>)"
    and case_old: "inodes u b = Some ((moved_ref b a ?k b old)\<lparr>i_child_list := []\<rparr>)"
    and other: "c \<noteq> a \<Longrightarrow> c \<noteq> b \<Longrightarrow> inodes u c = inodes t c" for c
    using assms(2-4) u by (auto simp: spliced_inode moved_ref_def option.map_ident)
  show "refs_ok u held"
    unfolding refs_ok_def
  proof (intro allI impI)
    fix c j
    assume j: "inodes u c = Some j"
    consider "c = a" | "c = b" | "c \<noteq> a" "c \<noteq> b" by blast
    then show "if i_ino j = 1 then held c + length (i_child_list j) \<le> unat (i_ref j)
         else unat (i_ref j) = held c + length (i_child_list j)"
    proof cases
      case 1
      then show ?thesis using j case_new refs_okD[OF assms(1,3)] new by (auto simp: moved_ref_def)
    next
      case 2
      then show ?thesis using j case_old refs_okD[OF assms(1,2)] old assms(4) by (auto simp: moved_ref_def)
    next
      case 3
      then show ?thesis using j other refs_okD[OF assms(1), of c j] by auto
    qed
  qed
  show "\<exists>j. inodes u c = Some j \<and> (i_ref j = 0 \<longleftrightarrow> i_ref i = 0) \<and> unat (i_ref j) \<le> unat (i_ref i) + (if c = a then ?k else 0)"
    if h: "inodes t c = Some i" for c i
  proof -
    consider "c = a" | "c = b" | "c \<noteq> a" "c \<noteq> b" by blast
    then show ?thesis
    proof cases
      case 1
      have "i_ref new \<noteq> 0" "i_ref new + of_nat ?k \<noteq> 0" using pos new by (metis add_gr_0 less_irrefl unat_0)+
      then show ?thesis using 1 h case_new assms(3) new by (simp add: moved_ref_def)
    next
      case 2
      have nz: "i_ref old - of_nat ?k \<noteq> 0" "i_ref old \<noteq> 0" "unat (i_ref old - of_nat ?k) \<le> unat (i_ref old)" if n: "i_ino old \<noteq> 1"
        using old[OF n] refs_okD(2)[OF assms(1,2) n] assms(6) by (metis less_irrefl unat_0, metis add_gr_0 less_irrefl unat_0, simp)
      then show ?thesis using 2 h case_old assms(2,4) by (cases "i_ino old = 1") (auto simp: moved_ref_def)
    next
      case 3
      then show ?thesis using h other by auto
    qed
  qed
qed

lemma spliced_inv:
  assumes inv: "inode_inv t held" and b: "inodes t b = Some old" "0 < held b"
    and a: "inodes t a = Some new" "a \<noteq> b" "0 < held a" "i_ino new = i_ino old"
    and room: "unat (i_ref new) + length (i_child_list old) < 4294967296"
  shows "inode_inv (spliced b a (i_child_list old) t) held" (is "inode_inv ?u held")
proof (rule table_invI)
  note I = table_invD[OF inv] and L = lists_okD[OF table_invD(5)[OF inv]]
  note R = spliced_refs[OF I(6) b(1) a(1,2,3) b(2) room refl]
  have m: "map_option f (inodes ?u c) = map_option f (inodes t c)"
    if "\<And>i n ds. f (i\<lparr>i_ref := n, i_child_list := ds\<rparr>) = f i" for f :: "inode \<Rightarrow> 'x" and c
    using that by (cases "inodes t c") (simp_all add: spliced_inode[OF a(2)] moved_ref_def)
  have some: "inodes ?u c \<noteq> None \<longleftrightarrow> inodes t c \<noteq> None" for c by (simp add: spliced_inode[OF a(2)])
  show "fresh_ok ?u" by (rule fresh_ok_cong[OF I(1)]) (use some in \<open>simp_all split: if_splits\<close>)
  show "links_ok {} ?u" by (rule spliced_links[OF I(2) b(1) a(1,2)])
  have "dentry_bucket ?u d = dentry_bucket t d" for d
  proof (cases "dentries t d")
    case (Some x)
    have "d_parent x = b" if "d \<in> set (i_child_list old)" using links_okD(4)[OF I(2) b(1) that] Some by auto
    then have "map_option (\<lambda>p. hash_name (i_ino p) (d_name x)) (inodes t (if d \<in> set (i_child_list old) then a else d_parent x))
        = map_option (\<lambda>p. hash_name (i_ino p) (d_name x)) (inodes t (d_parent x))"
      using a(1,4) b(1) by auto
    with Some m[of "\<lambda>p. hash_name (i_ino p) (d_name x)"] show ?thesis by (auto simp: dentry_bucket_def)
  qed (simp add: dentry_bucket_def)
  then show "names_ok {} ?u" using I(3) by (simp add: names_ok_def)
  show "numbers_ok ?u" by (rule numbers_ok_cong[OF I(4) _ m]) auto
  show "refs_ok ?u held" by (rule R(1))
  show "lists_ok {} ?u"
  proof (rule lists_okI)
    show "c \<in> set (active ?u) \<longleftrightarrow> i_ref j \<noteq> 0" if h: "inodes ?u c = Some j" for c j
    proof -
      obtain i where i: "inodes t c = Some i" using some[of c] h by auto
      then show ?thesis using R(2)[OF i] L(8)[OF i] h by auto
    qed
    show "\<not> i_hashed j \<and> (c \<notin> {} \<longrightarrow> i_dentry_list j = [])" if h: "inodes ?u c = Some j" "c \<in> set (purge ?u)" for c j
      using h L(9)[of c] by (auto simp: spliced_inode[OF a(2)])
    show "c \<in> set (active ?u) \<or> c \<in> set (lru ?u) \<or> c \<in> set (purge ?u) \<longleftrightarrow> inodes ?u c \<noteq> None" for c
      using L(7)[of c] some[of c] by simp
  qed (use L in auto)
qed

lemma adopt_children_eq:
  assumes inv: "inode_inv t held" and b: "inodes t b = Some old" "0 < held b" and a: "inodes t a = Some new" "a \<noteq> b" "0 < held a"
    and room: "unat (i_ref new) + length (i_child_list old) < 4294967296"
  shows "adopt_children b a t = Inr (spliced b a (i_child_list old) t)"
proof -
  note I = table_invD[OF inv]
  have "foldM (adopt_child b a) (i_child_list old) t = Inr (moved b a (i_child_list old) t)"
  proof (rule adopt_fold_eq[OF _ _ b(1) a(1,2) _ _ room])
    show "\<forall>d \<in> set (i_child_list old). \<exists>x. dentries t d = Some x \<and> d_parent x = b" using links_okD(4)[OF I(2) b(1)] by blast
    show "distinct (i_child_list old)" using links_okD(2)[OF I(2) b(1)] by blast
    show "i_ino old = 1 \<or> length (i_child_list old) < unat (i_ref old)" using refs_okD(2)[OF I(6) b(1)] b(2) by (cases "i_ino old = 1") simp_all
    show "0 < unat (i_ref new)" using refs_okD[OF I(6) a(1)] a(3) by (cases "i_ino new = 1") auto
  qed
  then show ?thesis using b(1) by (simp add: adopt_children_def get_inode_Some spliced_def)
qed

lemma adopt_children_ok:
  assumes ok: "itable_ok t held" and b: "inodes t b = Some old" "0 < held b"
    and a: "inodes t a = Some new" "a \<noteq> b" "0 < held a" "i_ino new = i_ino old" "i_ino old \<noteq> 0"
    and room: "unat (i_ref new) + length (i_child_list old) < 4294967296"
  shows "\<exists>u. adopt_children b a t = Inr u \<and> itable_ok u held \<and> same_numbers t u \<and> purge u = purge t
    \<and> (\<forall>c j. inodes u c = Some j \<longrightarrow> (\<exists>i. inodes t c = Some i \<and> unat (i_ref j) \<le> unat (i_ref i) + length (i_child_list old)))"
proof -
  let ?u = "spliced b a (i_child_list old) t"
  note inv = itable_okD(1)[OF ok]
  have same: "same_numbers t ?u"
    using a(2) by (auto simp: same_numbers_def spliced_inode option.map_comp comp_def)
  have "map_option i_ino (inodes t a) \<noteq> Some 0" using a(1,4,5) by simp
  then have "itable_ok ?u held"
    by (intro same_numbers_itable_ok[OF ok same spliced_inv[OF inv b a(1-4) room]]) (auto split: if_splits)
  moreover have "\<exists>i. inodes t c = Some i \<and> unat (i_ref j) \<le> unat (i_ref i) + length (i_child_list old)" if h: "inodes ?u c = Some j" for c j
  proof -
    obtain i where i: "inodes t c = Some i" using same_numbersD(2)[OF same h] by blast
    then show ?thesis
      using spliced_refs(2)[OF table_invD(6)[OF inv] b(1) a(1-3) b(2) room refl i] h by (cases "c = a") auto
  qed
  ultimately show ?thesis using adopt_children_eq[OF inv b a(1-3) room] same by auto
qed

section \<open>Taking over the counts and leaving the hash\<close>

lemma inode_unhash_ok:
  assumes ok: "itable_ok t held"
  shows "itable_ok (inode_unhash b t) held" (is "itable_ok ?u held")
proof -
  note I = table_invD[OF itable_okD(1)[OF ok]]
  have m: "map_option f (inodes ?u c) = map_option f (inodes t c)" if "\<And>i. f (i\<lparr>i_hashed := False\<rparr>) = f i" for f :: "inode \<Rightarrow> 'x" and c
    using that by (cases "inodes t c") (auto simp: inode_unhash_def)
  have "inode_inv ?u held"
  proof (rule table_invI)
    show "fresh_ok ?u" by (rule fresh_ok_cong[OF I(1)]) (auto simp: inode_unhash_def split: if_splits)
    show "links_ok {} ?u" by (rule links_ok_cong[OF I(2) m]) (auto simp: inode_unhash_def)
    show "names_ok {} ?u" by (rule names_ok_cong[OF I(3) _ _ m]) (auto simp: inode_unhash_def)
    have "inode_bucket ?u c = (if c = b then None else inode_bucket t c)" for c
      by (auto simp: inode_bucket_def inode_unhash_def split: option.splits)
    then show "numbers_ok ?u" using I(4) by (auto simp: numbers_ok_def inode_unhash_def)
    show "refs_ok ?u held" by (rule refs_ok_cong[OF I(6) m]) auto
    note L = lists_okD[OF I(5)]
    show "lists_ok {} ?u"
    proof (rule lists_okI)
      show "c \<in> set (active ?u) \<longleftrightarrow> i_ref j \<noteq> 0" if "inodes ?u c = Some j" for c j
        using that L(8)[of c] by (auto simp: inode_unhash_def split: if_splits)
      show "\<not> i_hashed j \<and> (c \<notin> {} \<longrightarrow> i_dentry_list j = [])" if "inodes ?u c = Some j" "c \<in> set (purge ?u)" for c j
        using that L(9)[of c] by (auto simp: inode_unhash_def split: if_splits)
      show "c \<in> set (active ?u) \<or> c \<in> set (lru ?u) \<or> c \<in> set (purge ?u) \<longleftrightarrow> inodes ?u c \<noteq> None" for c
        using L(7)[of c] by (auto simp: inode_unhash_def)
    qed (use L in \<open>auto simp: inode_unhash_def\<close>)
  qed
  moreover have "zero_ok ?u" "held_ok ?u held"
    using itable_okD(2,3)[OF ok] by (auto simp: zero_ok_def held_ok_def inode_unhash_def split: if_splits)
  moreover have "unique_ok ?u"
    by (rule unique_ok_sub[OF itable_okD(4)[OF ok]]) (auto simp: inode_unhash_def split: if_splits)
  ultimately show ?thesis by (simp add: itable_ok_def)
qed

text \<open>How far the counts may rise while an inode with the given lists is replaced.\<close>

definition replace_room :: "inode \<Rightarrow> nat" where
  "replace_room old = 2 * length (i_dentry_list old) + length (i_child_list old)"

lemma inode_replace_ok:
  assumes ok: "itable_ok t held" and b: "inodes t b = Some old" "0 < held b" "i_ino old \<noteq> 0"
    and a: "inodes t a = Some new" "a \<noteq> b" "0 < held a" "i_ino new = i_ino old" and mem: "\<forall>e. mem e"
    and room: "\<forall>c j. inodes t c = Some j \<longrightarrow> unat (i_ref j) + replace_room old < 4294967296"
  shows "\<exists>u. inode_replace mem b a t = Inr u \<and> itable_ok u held
    \<and> (\<forall>c. map_option (\<lambda>i. (i_ino i, i_hashed i)) (inodes u c) =
        map_option (\<lambda>i. (i_ino i, c \<noteq> b \<and> i_hashed i)) (inodes t c))
    \<and> (\<forall>c j. inodes u c = Some j \<longrightarrow> (\<exists>i. inodes t c = Some i \<and> unat (i_ref j) \<le> unat (i_ref i) + replace_room old))"
proof -
  let ?k = "length (i_dentry_list old)" and ?l = "length (i_child_list old)"
  have np: "a \<notin> set (purge t)" using not_dying[OF itable_okD(1)[OF ok] a(1)] a(3) by blast
  have "\<forall>c j. inodes t c = Some j \<longrightarrow> unat (i_ref j) + ?k \<le> 4294967295" using room by (fastforce simp: replace_room_def)
  then obtain u where u: "copy_dentries mem b a t = Inr u" "itable_ok u held" "same_numbers t u" "copied a ?k t u"
    using copy_dentries_ok[OF ok _ np b(1) mem] a(1) by blast
  obtain old' where old': "inodes u b = Some old'" "i_ino old' = i_ino old" using same_numbersD(1)[OF u(3) b(1)] by blast
  obtain new' where new': "inodes u a = Some new'" "i_ino new' = i_ino new" using same_numbersD(1)[OF u(3) a(1)] by blast
  have l: "length (i_child_list old') \<le> ?l + ?k" using copiedD(2)[OF u(4) old'(1)] b(1) by auto
  have "unat (i_ref new') \<le> unat (i_ref new) + ?k" using copiedD(2)[OF u(4) new'(1)] a(1) by auto
  moreover have "unat (i_ref new) + 2 * ?k + ?l < 4294967296" using room a(1) by (fastforce simp: replace_room_def)
  ultimately have rm: "unat (i_ref new') + length (i_child_list old') < 4294967296" using l by simp
  obtain v where v: "adopt_children b a u = Inr v" "itable_ok v held" "same_numbers u v" "purge v = purge u"
      "\<And>c j. inodes v c = Some j \<Longrightarrow> \<exists>i. inodes u c = Some i \<and> unat (i_ref j) \<le> unat (i_ref i) + length (i_child_list old')"
    using adopt_children_ok[OF u(2) old'(1) b(2) new'(1) a(2,3) _ _ rm] old'(2) new'(2) a(4) b(3) by auto
  have tv: "same_numbers t v" using same_numbers_trans[OF u(3) v(3)] .
  obtain o2 where o2: "inodes v b = Some o2" using same_numbersD(1)[OF tv b(1)] by blast
  obtain n2 where n2: "inodes v a = Some n2" using same_numbersD(1)[OF tv a(1)] by blast
  define x where "x = upd_inode a (\<lambda>i. i\<lparr>i_nlookup := i_nlookup o2, i_generation := i_generation o2\<rparr>) v"
  define y where "y = upd_inode b (\<lambda>i. i\<lparr>i_nlookup := 0, i_generation := 0\<rparr>) x"
  define z where "z = inode_unhash b y"
  have z: "itable_ok z held" unfolding z_def y_def x_def by (intro inode_unhash_ok nlookup_ok v(2)) blast+
  have "inodes z a \<noteq> None" using n2 a(2) by (simp add: z_def y_def x_def inode_unhash_def)
  then obtain n3 where n3: "inodes z a = Some n3" by auto
  have "inode_replace mem b a t = Inr (if i_ino n3 = 1 then z\<lparr>root := a\<rparr> else z)"
    using u(1) v(1) o2 n3 unfolding inode_replace_def by (simp add: get_inode_Some Let_def z_def y_def x_def)
  moreover have nums: "map_option (\<lambda>i. (i_ino i, i_hashed i)) (inodes z c) = map_option (\<lambda>i. (i_ino i, c \<noteq> b \<and> i_hashed i)) (inodes t c)" for c
  proof (cases "inodes t c")
    case None
    then have "inodes v c = None" using same_numbersD(3)[OF tv, of c] by simp
    then show ?thesis using None by (auto simp: z_def y_def x_def inode_unhash_def)
  next
    case (Some i)
    then obtain j where "inodes v c = Some j" "i_ino j = i_ino i" "i_hashed j = i_hashed i" using same_numbersD(1)[OF tv] by blast
    then show ?thesis using Some a(2) by (auto simp: z_def y_def x_def inode_unhash_def)
  qed
  moreover have "\<exists>i. inodes t c = Some i \<and> unat (i_ref j) \<le> unat (i_ref i) + replace_room old" if h: "inodes z c = Some j" for c j
  proof -
    obtain j' where j': "inodes v c = Some j'" "i_ref j' = i_ref j" using h by (auto simp: z_def y_def x_def inode_unhash_def split: if_splits)
    obtain m where m: "inodes u c = Some m" "unat (i_ref j) \<le> unat (i_ref m) + length (i_child_list old')" using v(5)[OF j'(1)] j'(2) by auto
    obtain i where "inodes t c = Some i" "unat (i_ref m) \<le> unat (i_ref i) + ?k" using copiedD(2)[OF u(4) m(1)] by blast
    with m(2) l show ?thesis by (auto simp: replace_room_def)
  qed
  ultimately show ?thesis using z by (auto simp: root_irrelevant)
qed

end
