(* ===== verification/Inode_Link.thy ===== *)
theory Inode_Link
  imports Inode_Replace
begin

text \<open>
  Linking, searching, looking for the parent and renaming: each keeps the table consistent and returns
  when its caller holds what it passes, also when the linked inode replaces another one with the same
  number; and the table at the start.
\<close>

section \<open>Linking\<close>

lemma link_number_ok:
  assumes ok: "itable_ok t held" and a: "inodes t a = Some i" "a \<notin> set (purge t)" "i_ino i = 0 \<or> i_ino i = n" "n \<noteq> 0"
    and only: "only_for t a n"
  shows "\<exists>u. inode_link_locked mem a par n m t =
        (case par of None \<Rightarrow> Inr u | Some (p, name) \<Rightarrow> link_dentry mem a p name u)
    \<and> itable_ok u held \<and> inodes u = (inodes t)(a \<mapsto> i\<lparr>i_ino := n, i_mode := m, i_hashed := True\<rparr>)
    \<and> (\<exists>as. inode_hash u (hash_inode n) = a # as)
    \<and> dentries u = dentries t \<and> name_hash u = name_hash t \<and> purge u = purge t \<and> dt_next u = dt_next t"
proof -
  let ?t = "upd_inode a (\<lambda>i. i\<lparr>i_ino := n, i_mode := m\<rparr>) t"
  have ok1: "itable_ok ?t held" by (rule numbered_ok[OF ok a(1,3,4)])
  obtain r where r: "inode_search_ino ?t n = Inr r" "case r of None \<Rightarrow> True | Some b \<Rightarrow> \<exists>j. inodes ?t b = Some j \<and> i_hashed j \<and> i_ino j = n"
    using search_ino_ok[OF table_invD(4)[OF itable_okD(1)[OF ok1]], of n] by (fastforce split: option.splits)
  have ra: "r = None \<or> r = Some a" using r(2) only by (cases r) (auto simp: only_for_def split: if_splits)
  have live: "inodes ?t a = Some (i\<lparr>i_ino := n, i_mode := m\<rparr>)" using a(1) by simp
  have only1: "only_for ?t a n" using only by (auto simp: only_for_def split: if_splits)
  obtain u where u: "inode_hash_add a ?t = Inr u" "itable_ok u held"
      "inodes u = (inodes ?t)(a \<mapsto> i\<lparr>i_ino := n, i_mode := m, i_hashed := True\<rparr>)"
      "\<exists>as. inode_hash u (hash_inode n) = a # as" "dentries u = dentries ?t" "name_hash u = name_hash ?t" "purge u = purge ?t"
      "dt_next u = dt_next ?t"
    using hash_add_ok[OF ok1 live] a(2,4) only1 by auto
  have "inode_link_locked mem a par n m t = (case par of None \<Rightarrow> Inr u | Some (p, name) \<Rightarrow> link_dentry mem a p name u)"
    using a(1,3) r(1) ra u(1) by (auto simp: inode_link_locked_def get_inode_Some Let_def)
  moreover have "inodes u = (inodes t)(a \<mapsto> i\<lparr>i_ino := n, i_mode := m, i_hashed := True\<rparr>)" using u(3) by auto
  ultimately show ?thesis using u by auto
qed

section \<open>Searching, looking for a parent, renaming\<close>

text \<open>No counter is about to wrap around.\<close>

definition unsaturated :: "itable \<Rightarrow> bool" where
  "unsaturated t \<longleftrightarrow> (\<forall>a i. inodes t a = Some i \<longrightarrow> unat (i_ref i) < 4294967295)"

lemma search_ok:
  assumes ok: "itable_ok t held" and "unsaturated t"
  shows "\<exists>r t'. inode_search ino name t = Inr (r, t')
    \<and> itable_ok t' (case r of None \<Rightarrow> held | Some a \<Rightarrow> held(a := Suc (held a)))"
proof -
  note inv = itable_okD(1)[OF ok]
  have "\<exists>r. (case name of
               None \<Rightarrow> inode_search_ino t ino
             | Some n \<Rightarrow> bind_f (dentry_search t ino n) (\<lambda>r.
                 case r of None \<Rightarrow> Inr None
                 | Some d \<Rightarrow> bind_f (get_dentry t d) (\<lambda>x. Inr (Some (d_inode x))))) = Inr r
     \<and> (case r of None \<Rightarrow> True | Some a \<Rightarrow> \<exists>i. inodes t a = Some i \<and> (i_hashed i \<or> i_dentry_list i \<noteq> []))"
  proof (cases name)
    case None
    then show ?thesis using search_ino_ok[OF table_invD(4)[OF inv], of ino] by (fastforce split: option.splits)
  next
    case (Some n)
    obtain r where r: "dentry_search t ino n = Inr r" "case r of None \<Rightarrow> True | Some d \<Rightarrow> \<exists>x. dentries t d = Some x"
      using dentry_search_ok[OF table_invD(3)[OF inv], of ino n] by (fastforce split: option.splits)
    show ?thesis
    proof (cases r)
      case (Some d)
      then obtain x where x: "dentries t d = Some x" using r(2) by auto
      then obtain i where "inodes t (d_inode x) = Some i" "d \<in> set (i_dentry_list i)" using links_okD(1)[OF table_invD(2)[OF inv] x] by auto
      then show ?thesis using \<open>name = Some n\<close> r(1) Some x by (auto simp: get_dentry_Some)
    qed (use Some r(1) in simp)
  qed
  then obtain r where r: "(case name of
               None \<Rightarrow> inode_search_ino t ino
             | Some n \<Rightarrow> bind_f (dentry_search t ino n) (\<lambda>r.
                 case r of None \<Rightarrow> Inr None
                 | Some d \<Rightarrow> bind_f (get_dentry t d) (\<lambda>x. Inr (Some (d_inode x))))) = Inr r"
     "case r of None \<Rightarrow> True | Some a \<Rightarrow> \<exists>i. inodes t a = Some i \<and> (i_hashed i \<or> i_dentry_list i \<noteq> [])"
    by blast
  show ?thesis
  proof (cases r)
    case (Some a)
    then obtain i where i: "inodes t a = Some i" "i_hashed i \<or> i_dentry_list i \<noteq> []" using r(2) by auto
    then obtain t' where "inode_ref_locked a t = Inr t'" "itable_ok t' (held(a := Suc (held a)))"
      using ref_itable_ok[OF ok i(1)] assms(2) by (auto simp: unsaturated_def)
    then show ?thesis using r(1) Some by (simp add: inode_search_def)
  qed (use r(1) ok in \<open>simp add: inode_search_def\<close>)
qed

lemma first_hashed_ok:
  assumes "\<forall>d \<in> set ds. dentries t d \<noteq> None"
  shows "\<exists>r. first_hashed t ds = Inr r \<and> (case r of None \<Rightarrow> True | Some d \<Rightarrow> d \<in> set ds)"
  using assms
proof (induction ds)
  case (Cons d ds)
  then obtain x where "dentries t d = Some x" by auto
  with Cons show ?case by (fastforce simp: is_dentry_hashed_def get_dentry_Some split: option.splits)
qed simp

lemma parent_ok:
  assumes ok: "itable_ok t held" and "unsaturated t" and a: "inodes t a = Some i"
  shows "\<exists>r t'. inode_parent a par name t = Inr (r, t')
    \<and> itable_ok t' (case r of None \<Rightarrow> held | Some p \<Rightarrow> held(p := Suc (held p)))"
proof -
  let ?search = "case name of
               Some n \<Rightarrow> if par \<noteq> 0 then dentry_search_for_inode t a par n else dentry_search_arbit t a
             | None \<Rightarrow> dentry_search_arbit t a"
  note inv = itable_okD(1)[OF ok]
  note l = links_okD[OF table_invD(2)[OF inv]]
  have live: "\<forall>d \<in> set (i_dentry_list i). dentries t d \<noteq> None" using l(3)[OF a] by blast
  have arbit: "\<exists>r. dentry_search_arbit t a = Inr r \<and> (case r of None \<Rightarrow> True | Some d \<Rightarrow> d \<in> set (i_dentry_list i))"
    using first_hashed_ok[OF live] a by (fastforce simp: dentry_search_arbit_def get_inode_Some split: option.splits list.splits)
  have named: "\<exists>r. dentry_search_for_inode t a par n = Inr r \<and> (case r of None \<Rightarrow> True | Some d \<Rightarrow> d \<in> set (i_dentry_list i))" for n
    using dentry_search_for_inode_ok[OF table_invD(2)[OF inv] a, of par n] by (fastforce split: option.splits)
  have "\<exists>r. ?search = Inr r \<and> (case r of None \<Rightarrow> True | Some d \<Rightarrow> d \<in> set (i_dentry_list i))"
    using arbit named by (cases name; cases "par = 0") simp_all
  then obtain r where r: "?search = Inr r" "case r of None \<Rightarrow> True | Some d \<Rightarrow> d \<in> set (i_dentry_list i)" by blast
  show ?thesis
  proof (cases r)
    case (Some d)
    then obtain x where x: "dentries t d = Some x" using r(2) live by auto
    obtain p where p: "inodes t (d_parent x) = Some p" "i_child_list p \<noteq> []" using l(1)[OF x] by force
    then obtain t' where "inode_ref_locked (d_parent x) t = Inr t'" "itable_ok t' (held(d_parent x := Suc (held (d_parent x))))"
      using ref_itable_ok[OF ok p(1)] assms(2) by (auto simp: unsaturated_def)
    then show ?thesis using r(1) Some x by (simp add: inode_parent_def get_dentry_Some)
  qed (use r(1) ok in \<open>simp add: inode_parent_def\<close>)
qed

text \<open>
  Linking \<open>a\<close> for a number that another inode is hashed for replaces that inode; the counts may then rise
  by the number of names and children it has.
\<close>

definition gives_way :: "itable \<Rightarrow> nat \<Rightarrow> u64 \<Rightarrow> nat option" where
  "gives_way t a n = (case inode_search_ino t n of Inr (Some b) \<Rightarrow> if b = a then None else Some b | _ \<Rightarrow> None)"

definition link_room :: "itable \<Rightarrow> nat \<Rightarrow> u64 \<Rightarrow> nat" where
  "link_room t a n =
     (case gives_way t a n of
        None \<Rightarrow> 0
      | Some b \<Rightarrow> (case inodes t b of Some old \<Rightarrow> replace_room old + 1 | None \<Rightarrow> 0))"

definition roomy :: "itable \<Rightarrow> nat \<Rightarrow> bool" where
  "roomy t k \<longleftrightarrow> (\<forall>a i. inodes t a = Some i \<longrightarrow> unat (i_ref i) + k < 4294967295)"

lemma gives_way_ok:
  assumes "itable_ok t held"
  shows "gives_way t a n = None \<Longrightarrow> only_for t a n"
    and "gives_way t a n = Some b \<Longrightarrow> b \<noteq> a \<and> (\<exists>old. inodes t b = Some old \<and> i_hashed old \<and> i_ino old = n)"
proof -
  obtain r where r: "inode_search_ino t n = Inr r" "case r of
      None \<Rightarrow> \<forall>a i. inodes t a = Some i \<and> i_hashed i \<longrightarrow> i_ino i \<noteq> n
    | Some a \<Rightarrow> \<exists>i. inodes t a = Some i \<and> i_hashed i \<and> i_ino i = n"
    using search_ino_ok[OF table_invD(4)[OF itable_okD(1)[OF assms]]] by blast
  show "only_for t a n" if h: "gives_way t a n = None"
  proof (cases r)
    case (Some c)
    then have "c = a" using h r(1) by (auto simp: gives_way_def split: if_splits)
    then show ?thesis using Some r(2) unique_okD[OF itable_okD(4)[OF assms]] unfolding only_for_def by auto
  qed (use r(2) in \<open>auto simp: only_for_def\<close>)
  show "b \<noteq> a \<and> (\<exists>old. inodes t b = Some old \<and> i_hashed old \<and> i_ino old = n)" if "gives_way t a n = Some b"
    using that r by (cases r) (auto simp: gives_way_def split: if_splits)
qed

lemma link_replaces:
  assumes ok: "itable_ok t held" and a: "inodes t a = Some i" "0 < held a" "i_ino i = 0 \<or> i_ino i = n" "n \<noteq> 0"
    and b: "b \<noteq> a" "inodes t b = Some old" "i_hashed old" "i_ino old = n" and mem: "\<forall>e. mem e"
    and room: "roomy t (replace_room old + 1)"
  shows "\<exists>u. bind_f (inode_ref_locked b (upd_inode a (\<lambda>i. i\<lparr>i_ino := n, i_mode := m\<rparr>) t)) (\<lambda>t.
        bind_f (inode_replace mem b a t) (inode_unref_locked b)) = Inr u \<and> itable_ok u held \<and> only_for u a n
    \<and> (\<forall>c. map_option i_ino (inodes u c) = (if c = a then Some n else map_option i_ino (inodes t c)))
    \<and> (\<forall>c j. inodes u c = Some j \<longrightarrow> (\<exists>k. inodes t c = Some k \<and> unat (i_ref j) \<le> unat (i_ref k) + replace_room old + 1))"
proof -
  let ?t = "upd_inode a (\<lambda>i. i\<lparr>i_ino := n, i_mode := m\<rparr>) t"
  have ok1: "itable_ok ?t held" by (rule numbered_ok[OF ok a(1,3,4)])
  have na: "\<not> i_hashed i"
    using unique_okD[OF itable_okD(4)[OF ok] b(2,3) a(1)] itable_okD(2)[OF ok] a b(1,4) by (auto simp: zero_ok_def)
  have b1: "inodes ?t b = Some old" using b(1,2) by simp
  have sat: "unat (i_ref old) < 4294967295" using room b(2) by (fastforce simp: roomy_def)
  have np: "b \<notin> set (purge ?t)" using not_dying[OF itable_okD(1)[OF ok1] b1] b(3) by blast
  obtain v where v: "inode_ref_locked b ?t = Inr v" "inodes v = (inodes ?t)(b \<mapsto> old\<lparr>i_ref := i_ref old + 1\<rparr>)"
    using ref_ok[OF itable_okD(1)[OF ok1] b1 sat np] by blast
  let ?held = "held(b := Suc (held b))"
  have ok2: "itable_ok v ?held" using ref_itable_ok[OF ok1 b1 sat] b(3) v(1) by auto
  have suc: "unat (i_ref old + 1) = unat (i_ref old) + 1" using sat unat_add_lem[of "i_ref old" 1] by simp
  have b2: "inodes v b = Some (old\<lparr>i_ref := i_ref old + 1\<rparr>)" using v(2) by simp
  have a2: "inodes v a = Some (i\<lparr>i_ino := n, i_mode := m\<rparr>)" using v(2) a(1) b(1) by auto
  have refs: "\<exists>k. inodes t c = Some k \<and> unat (i_ref j) \<le> unat (i_ref k) + 1" if "inodes v c = Some j" for c j
    using that v(2) b(1,2) suc a(1) by (auto split: if_splits)
  have room2: "\<forall>c j. inodes v c = Some j \<longrightarrow> unat (i_ref j) + replace_room old < 4294967296"
  proof (intro allI impI)
    fix c j
    assume "inodes v c = Some j"
    then obtain k where "inodes t c = Some k" "unat (i_ref j) \<le> unat (i_ref k) + 1" using refs by blast
    then show "unat (i_ref j) + replace_room old < 4294967296" using room by (fastforce simp: roomy_def)
  qed
  have rr: "replace_room (old\<lparr>i_ref := i_ref old + 1\<rparr>) = replace_room old" by (simp add: replace_room_def)
  obtain w where w: "inode_replace mem b a v = Inr w" "itable_ok w ?held"
      "\<And>c. map_option (\<lambda>i. (i_ino i, i_hashed i)) (inodes w c) = map_option (\<lambda>i. (i_ino i, c \<noteq> b \<and> i_hashed i)) (inodes v c)"
      "\<And>c j. inodes w c = Some j \<Longrightarrow> \<exists>k. inodes v c = Some k \<and> unat (i_ref j) \<le> unat (i_ref k) + replace_room old"
    using inode_replace_ok[OF ok2 b2 _ _ a2 _ _ _ mem, unfolded rr] room2 b(1,4) a(2,4) by auto
  obtain u where u: "inode_unref_locked b w = Inr u" "itable_ok u (?held(b := ?held b - 1))" "keeps w u"
    using unref_itable_ok[OF w(2), of b] by auto
  have un: "itable_ok u held" using u(2) by simp
  have same: "same_inodes w u" by (rule frame_same_inodes[OF u(3)])
  have ino_w: "map_option i_ino (inodes w c) = (if c = a then Some n else map_option i_ino (inodes t c))" for c
    using arg_cong[OF w(3)[of c], of "map_option fst"] v(2) a(1) b(1,2) by (auto simp: option.map_comp comp_def)
  have inos: "map_option i_ino (inodes u c) = (if c = a then Some n else map_option i_ino (inodes t c))" for c
    using same ino_w[of c] by (simp add: same_inodes_def)
  have "only_for u a n"
    unfolding only_for_def
  proof (intro allI impI, elim conjE)
    fix c j
    assume c: "inodes u c = Some j" "i_hashed j" "i_ino j = n"
    then obtain k where k: "inodes w c = Some k" "i_hashed k" "i_ino k = n" using same_inodes_iff(2)[OF same c(1)] by auto
    then obtain l where l: "inodes v c = Some l" "i_hashed l" "i_ino l = n" "c \<noteq> b" using w(3)[of c] by (cases "inodes v c") auto
    then show "c = a" using unique_okD[OF itable_okD(4)[OF ok2] b2 _ l(1,2)] b(3,4) by auto
  qed
  moreover have "\<exists>k. inodes t c = Some k \<and> unat (i_ref j) \<le> unat (i_ref k) + replace_room old + 1" if h: "inodes u c = Some j" for c j
  proof -
    have "released {} w u" using u(3) by (simp add: frame_ok_def)
    then obtain k where k: "inodes w c = Some k" "unat (i_ref j) \<le> unat (i_ref k)" using releasedD(5) h by blast
    then obtain l where l: "inodes v c = Some l" "unat (i_ref k) \<le> unat (i_ref l) + replace_room old" using w(4) by blast
    with refs[OF l(1)] k(2) show ?thesis by auto
  qed
  ultimately show ?thesis using v(1) w(1) u(1) un inos by auto
qed

lemma link_any_number:
  assumes ok: "itable_ok t held" and a: "inodes t a = Some i" "0 < held a" "i_ino i = 0 \<or> i_ino i = n" "n \<noteq> 0"
    and mem: "\<forall>e. mem e" and room: "roomy t (link_room t a n)"
  shows "\<exists>u i'. inode_link_locked mem a par n m t = (case par of None \<Rightarrow> Inr u | Some (p, name) \<Rightarrow> link_dentry mem a p name u)
    \<and> itable_ok u held \<and> inodes u a = Some i' \<and> i_ino i' = n \<and> i_hashed i'
    \<and> (\<forall>c. map_option i_ino (inodes u c) = (if c = a then Some n else map_option i_ino (inodes t c)))
    \<and> (\<forall>c j. inodes u c = Some j \<longrightarrow> unat (i_ref j) < 4294967295)"
proof (cases "gives_way t a n")
  case None
  have np: "a \<notin> set (purge t)" using not_dying[OF itable_okD(1)[OF ok] a(1)] a(2) by blast
  obtain u where "inode_link_locked mem a par n m t = (case par of None \<Rightarrow> Inr u | Some (p, name) \<Rightarrow> link_dentry mem a p name u)"
      "itable_ok u held" "inodes u = (inodes t)(a \<mapsto> i\<lparr>i_ino := n, i_mode := m, i_hashed := True\<rparr>)"
    using link_number_ok[OF ok a(1) np a(3,4) gives_way_ok(1)[OF ok None], of mem par m] by blast
  then show ?thesis using room a(1) None by (intro exI[of _ u]) (auto simp: roomy_def link_room_def)
next
  case (Some b)
  let ?t = "upd_inode a (\<lambda>i. i\<lparr>i_ino := n, i_mode := m\<rparr>) t"
  obtain old where b: "b \<noteq> a" "inodes t b = Some old" "i_hashed old" "i_ino old = n" using gives_way_ok(2)[OF ok Some] by blast
  have rm: "link_room t a n = replace_room old + 1" using Some b(2) by (simp add: link_room_def)
  have ok1: "itable_ok ?t held" by (rule numbered_ok[OF ok a(1,3,4)])
  obtain r where r: "inode_search_ino ?t n = Inr r" "case r of
      None \<Rightarrow> \<forall>a i. inodes ?t a = Some i \<and> i_hashed i \<longrightarrow> i_ino i \<noteq> n
    | Some a \<Rightarrow> \<exists>i. inodes ?t a = Some i \<and> i_hashed i \<and> i_ino i = n"
    using search_ino_ok[OF table_invD(4)[OF itable_okD(1)[OF ok1]]] by blast
  have b1: "inodes ?t b = Some old" using b(1,2) by simp
  have rb: "r = Some b"
  proof (cases r)
    case None
    then show ?thesis using r(2) b1 b(3,4) by fastforce
  next
    case (Some c)
    then obtain j where j: "inodes ?t c = Some j" "i_hashed j" "i_ino j = n" using r(2) by auto
    have "c = b" by (rule unique_okD[OF itable_okD(4)[OF ok1] b1 b(3) j(1,2)]) (simp add: j(3) b(4))
    then show ?thesis using Some by simp
  qed
  obtain u where u: "bind_f (inode_ref_locked b ?t) (\<lambda>t. bind_f (inode_replace mem b a t) (inode_unref_locked b)) = Inr u"
      "itable_ok u held" "only_for u a n"
      "\<And>c. map_option i_ino (inodes u c) = (if c = a then Some n else map_option i_ino (inodes t c))"
      "\<And>c j. inodes u c = Some j \<Longrightarrow> \<exists>k. inodes t c = Some k \<and> unat (i_ref j) \<le> unat (i_ref k) + replace_room old + 1"
    using link_replaces[OF ok a b mem, of m] room rm by auto
  obtain j where j: "inodes u a = Some j" "i_ino j = n" using u(4)[of a] by auto
  have np: "a \<notin> set (purge u)" using not_dying[OF itable_okD(1)[OF u(2)] j(1)] a(2) by blast
  obtain w where w: "inode_hash_add a u = Inr w" "itable_ok w held" "inodes w = (inodes u)(a \<mapsto> j\<lparr>i_hashed := True\<rparr>)"
    using hash_add_ok[OF u(2) j(1) np] j(2) a(4) u(3) by auto
  have "inode_link_locked mem a par n m t = (case par of None \<Rightarrow> Inr w | Some (p, name) \<Rightarrow> link_dentry mem a p name w)"
    using a(1,3) r(1) rb b(1) u(1) w(1) by (auto simp: inode_link_locked_def get_inode_Some Let_def)
  moreover have "unat (i_ref k) < 4294967295" if h: "inodes w c = Some k" for c k
  proof -
    obtain k' where k': "inodes u c = Some k'" "i_ref k' = i_ref k" using h w(3) j(1) by (auto split: if_splits)
    then show ?thesis using u(5)[OF k'(1)] room rm by (fastforce simp: roomy_def)
  qed
  moreover have "map_option i_ino (inodes w c) = (if c = a then Some n else map_option i_ino (inodes t c))" for c
    using u(4)[of c] w(3) j by auto
  moreover have "inodes w a = Some (j\<lparr>i_hashed := True\<rparr>)" "i_ino (j\<lparr>i_hashed := True\<rparr>) = n" "i_hashed (j\<lparr>i_hashed := True\<rparr>)"
    using w(3) j(2) by simp_all
  ultimately show ?thesis using w(2) by blast
qed

lemma link_ok:
  assumes ok: "itable_ok t held" and a: "inodes t a = Some i" "0 < held a" "i_ino i = 0 \<or> i_ino i = n" "n \<noteq> 0"
    and p: "inodes t p = Some pi" "0 < held p" "i_ino pi \<noteq> 0" and mem: "\<forall>e. mem e" and room: "roomy t (link_room t a n)"
  shows "\<exists>t' d x ds q. inode_link_locked mem a (Some (p, name)) n m t = Inr t' \<and> itable_ok t' held
    \<and> map_option (\<lambda>i. (i_ino i, i_hashed i)) (inodes t' a) = Some (n, True)
    \<and> dentries t' d = Some x \<and> d_hashed x \<and> d_inode x = a \<and> d_name x = name
    \<and> q = (if p = a then n else i_ino pi)
    \<and> map_option i_ino (inodes t' (d_parent x)) = Some q \<and> name_hash t' (hash_name q name) = d # ds"
proof -
  obtain u i' where u: "inode_link_locked mem a (Some (p, name)) n m t = link_dentry mem a p name u" "itable_ok u held"
      "inodes u a = Some i'" "i_ino i' = n" "i_hashed i'"
      "\<And>c. map_option i_ino (inodes u c) = (if c = a then Some n else map_option i_ino (inodes t c))"
      "\<And>c j. inodes u c = Some j \<Longrightarrow> unat (i_ref j) < 4294967295"
    using link_any_number[where mem = mem and par = "Some (p, name)" and m = m, OF ok a mem room] by auto
  obtain pj where pj: "inodes u p = Some pj" "i_ino pj = (if p = a then n else i_ino pi)"
    using u(6)[of p] p(1) by (auto split: if_splits)
  have np: "a \<notin> set (purge u)" "p \<notin> set (purge u)"
    using not_dying[OF itable_okD(1)[OF u(2)] u(3)] not_dying[OF itable_okD(1)[OF u(2)] pj(1)] a(2) p(2) by blast+
  have "i_ino pj \<noteq> 0" using pj(2) p(3) a(4) by auto
  then obtain v d x ds where v: "link_dentry mem a p name u = Inr v" "itable_ok v held" "same_numbers u v"
      "dentries v d = Some x" "d_hashed x" "d_inode x = a" "d_name x = name"
      "map_option i_ino (inodes v (d_parent x)) = Some (i_ino pj)" "name_hash v (hash_name (i_ino pj) name) = d # ds"
    using link_dentry_ok[where mem = mem and name = name, OF u(2,3) np(1) pj(1) u(7)[OF pj(1)] np(2)] mem by blast
  have "map_option (\<lambda>i. (i_ino i, i_hashed i)) (inodes v a) = Some (n, True)"
    using v(3) u(3-5) by (simp add: same_numbers_def)
  then show ?thesis using u(1) v pj(2) by (intro exI[of _ v] exI[of _ d] exI[of _ x] exI[of _ ds] exI[of _ "i_ino pj"]) simp
qed

lemma dentry_unset_released:
  assumes "itable_ok t held" "dentries t d = Some x"
  shows "\<exists>t'. dentry_unset d t = Inr t' \<and> itable_ok t' held \<and> same_inodes t t' \<and> released {d_inode x} t t'"
proof -
  obtain t' where t': "dentry_unset d t = Inr t'" "inode_inv t' held" "frame_ok {d_inode x} {} t t'"
    using dentry_unset_ok[OF itable_okD(1)[OF assms(1)] assms(2)] by blast
  then have "released {d_inode x} t t'" by (simp add: frame_ok_def)
  then show ?thesis using t' keeps_itable_ok[OF assms(1) t'(2,3)] frame_same_inodes[OF t'(3)] by auto
qed

text \<open>
  What the first steps of a rename leave of the inodes they do not touch: they stay, with the same
  number, and the counts do not grow.
\<close>

definition at_most :: "itable \<Rightarrow> itable \<Rightarrow> bool" where
  "at_most t u \<longleftrightarrow> same_inodes t u \<and> (\<forall>b j. inodes u b = Some j \<longrightarrow> (\<exists>i. inodes t b = Some i \<and> unat (i_ref j) \<le> unat (i_ref i)))"

lemma at_most_refl: "at_most t t"
  by (auto simp: at_most_def same_inodes_def)

lemma at_most_trans:
  assumes "at_most t u" "at_most u v"
  shows "at_most t v"
proof -
  have "\<exists>i. inodes t b = Some i \<and> unat (i_ref j) \<le> unat (i_ref i)" if h: "inodes v b = Some j" for b j
  proof -
    obtain k where k: "inodes u b = Some k" "unat (i_ref j) \<le> unat (i_ref k)" using assms(2) h unfolding at_most_def by blast
    then obtain i where "inodes t b = Some i" "unat (i_ref k) \<le> unat (i_ref i)" using assms(1) unfolding at_most_def by blast
    with k(2) show ?thesis by auto
  qed
  then show ?thesis using assms same_inodes_trans unfolding at_most_def by blast
qed

lemma at_mostD:
  assumes "at_most t u" "inodes t b = Some i"
  shows "\<exists>j. inodes u b = Some j \<and> i_ino j = i_ino i \<and> unat (i_ref j) \<le> unat (i_ref i)"
proof -
  obtain j where j: "inodes u b = Some j" "i_ino j = i_ino i" using assms same_inodes_iff(1) unfolding at_most_def by blast
  moreover have "unat (i_ref j) \<le> unat (i_ref i)" using assms j(1) unfolding at_most_def by fastforce
  ultimately show ?thesis by blast
qed

lemma dentry_unset_at_most:
  assumes "itable_ok t held" "dentries t d = Some x"
  shows "\<exists>t'. dentry_unset d t = Inr t' \<and> itable_ok t' held \<and> at_most t t'"
proof -
  obtain t' where t': "dentry_unset d t = Inr t'" "itable_ok t' held" "same_inodes t t'" "released {d_inode x} t t'"
    using dentry_unset_released[OF assms] by blast
  then have "at_most t t'" using releasedD(5)[OF t'(4)] by (simp add: at_most_def)
  with t' show ?thesis by blast
qed

lemma unlink_at_most:
  assumes "itable_ok t held" "inodes t b = Some i" "inodes t p = Some pi"
  shows "\<exists>t'. inode_unlink_locked b p name t = Inr t' \<and> itable_ok t' held \<and> at_most t t'"
proof -
  obtain r where "dentry_search_for_inode t b (i_ino pi) name = Inr r" "case r of None \<Rightarrow> True | Some d \<Rightarrow> \<exists>x. dentries t d = Some x"
    using dentry_search_for_inode_ok[OF table_invD(2)[OF itable_okD(1)[OF assms(1)]] assms(2), of "i_ino pi" name]
    by (fastforce split: option.splits)
  then show ?thesis using assms dentry_unset_at_most[OF assms(1)] at_most_refl
    by (cases r) (auto simp: inode_unlink_locked_def get_inode_Some)
qed

lemma dt_next_same: "at_most t u \<Longrightarrow> dt_next u = dt_next t"
  by (simp add: at_most_def same_inodes_def)

lemma hashed_stays_linked:
  assumes "itable_ok v held" "inodes v a = Some k" "i_hashed k \<or> (\<forall>b j. inodes v b = Some j \<and> i_hashed j \<longrightarrow> i_ino j \<noteq> i_ino k)"
  shows "link_room v a (i_ino k) = 0"
proof (cases "gives_way v a (i_ino k)")
  case (Some b)
  then obtain j where "b \<noteq> a" "inodes v b = Some j" "i_hashed j" "i_ino j = i_ino k" using gives_way_ok(2)[OF assms(1)] by blast
  then show ?thesis using assms(3) unique_okD[OF itable_okD(4)[OF assms(1)] assms(2), of b j] by blast
qed (simp add: link_room_def)

lemma rename_ok:
  assumes ok: "itable_ok t held" and a: "inodes t a = Some i" "0 < held a" "i_hashed i" "i_ino i = n"
    and sd: "0 < held sd" and dd: "inodes t dd = Some di" "0 < held dd" "i_ino di \<noteq> 0"
    and mem: "\<forall>e. mem e" and sat: "unsaturated t"
  shows "\<exists>t'. rename_locked mem sd sn dd dn a n m t = Inr t' \<and> itable_ok t' held"
proof -
  have n: "n \<noteq> 0" using itable_okD(2)[OF ok] a by (auto simp: zero_ok_def)
  obtain old where old: "dentry_search t (i_ino di) dn = Inr old" "case old of None \<Rightarrow> True | Some od \<Rightarrow> \<exists>y. dentries t od = Some y"
    using dentry_search_ok[OF table_invD(3)[OF itable_okD(1)[OF ok]], of "i_ino di" dn] by (fastforce split: option.splits)
  have "\<exists>u. (case old of None \<Rightarrow> Inr t | Some d \<Rightarrow> dentry_unset d t) = Inr u \<and> itable_ok u held \<and> at_most t u"
  proof (cases old)
    case (Some od)
    then obtain y where "dentries t od = Some y" using old(2) by auto
    from dentry_unset_at_most[OF ok this] show ?thesis using Some by simp
  qed (simp add: ok at_most_refl)
  then obtain u where u: "(case old of None \<Rightarrow> Inr t | Some d \<Rightarrow> dentry_unset d t) = Inr u" "itable_ok u held" "at_most t u" by blast
  obtain j where j: "inodes u a = Some j" using at_mostD[OF u(3) a(1)] by blast
  obtain sj where sj: "inodes u sd = Some sj" using itable_okD(3)[OF u(2)] sd by (auto simp: held_ok_def)
  obtain v where v: "inode_unlink_locked a sd sn u = Inr v" "itable_ok v held" "at_most u v"
    using unlink_at_most[OF u(2) j sj] by blast
  have tv: "at_most t v" using at_most_trans[OF u(3) v(3)] .
  obtain k where k: "inodes v a = Some k" "i_ino k = n" using at_mostD[OF tv a(1)] a(4) by auto
  obtain dk where dk: "inodes v dd = Some dk" "i_ino dk = i_ino di"
    using at_mostD[OF tv dd(1)] by blast
  have others: "i_hashed k \<or> (\<forall>b j. inodes v b = Some j \<and> i_hashed j \<longrightarrow> i_ino j \<noteq> i_ino k)"
  proof (rule disjCI)
    assume "\<not> (\<forall>b j. inodes v b = Some j \<and> i_hashed j \<longrightarrow> i_ino j \<noteq> i_ino k)"
    then obtain b j where b: "inodes v b = Some j" "i_hashed j" "i_ino j = n" using k(2) by auto
    then obtain l where "inodes t b = Some l" "i_hashed l" "i_ino l = n" using tv same_inodes_iff(2) unfolding at_most_def by metis
    then have "b = a" using unique_okD[OF itable_okD(4)[OF ok] a(1,3), of b l] a(4) by simp
    with b k(1) show "i_hashed k" by simp
  qed
  have "roomy v (link_room v a n)"
    using hashed_stays_linked[OF v(2) k(1) others] k(2) sat tv unfolding roomy_def unsaturated_def at_most_def by fastforce
  then obtain w where w: "inode_link_locked mem a (Some (dd, dn)) n m v = Inr w" "itable_ok w held"
    using link_ok[where mem = mem and name = dn and m = m, OF v(2) k(1) a(2) _ n dk(1) dd(2) _ mem] k(2) dk(2) dd(3) by auto
  have "rename_locked mem sd sn dd dn a n m t = Inr w"
    using a(1,3) dd(1) old(1) u(1) v(1) w(1) by (simp add: rename_locked_def hashed_inode_def get_inode_Some)
  with w(2) show ?thesis by blast
qed

section \<open>The table at the start\<close>

lemma empty_table_ok: "itable_ok (empty_table lim xls) (\<lambda>_. 0)"
  by (simp add: itable_ok_def table_inv_def fresh_ok_def links_ok_def names_ok_def numbers_ok_def lists_ok_def refs_ok_def
      zero_ok_def held_ok_def unique_ok_def empty_table_def dentry_bucket_def inode_bucket_def)

lemma table_new_ok:
  "\<exists>t. inode_table_new True True True True lim xls = Inr (Some t) \<and> itable_ok t (\<lambda>_. 0)
    \<and> (\<exists>i. inodes t (root t) = Some i \<and> i_ino i = 1 \<and> i_hashed i)"
proof -
  let ?e = "empty_table lim xls"
  obtain t i where t: "inode_create True ?e = (Some (it_next ?e), t)" "itable_ok t (\<lambda>_. 0)" "it_next ?e \<in> set (lru t)"
      "inodes t = (inodes ?e)(it_next ?e \<mapsto> i)" "i_ino i = 0" "lru_limit t = lru_limit ?e" "\<not> i_hashed i"
    using create_ok[OF empty_table_ok] by blast
  let ?r = "it_next ?e"
  have live: "inodes t ?r = Some i" using t(4) by simp
  have np: "?r \<notin> set (purge t)" using lists_okD(6)[OF table_invD(5)[OF itable_okD(1)[OF t(2)]]] t(3) by blast
  have only: "only_for t ?r 1" using t(4,7) by (auto simp: only_for_def empty_table_def)
  obtain u where u: "inode_link_locked (\<lambda>_. True) ?r None 1 16877 t = Inr u" "itable_ok u (\<lambda>_. 0)"
      "inodes u = (inodes t)(?r \<mapsto> i\<lparr>i_ino := 1, i_mode := 16877, i_hashed := True\<rparr>)"
    using link_number_ok[OF t(2) live np _ _ only, of "\<lambda>_. True" None 16877] t(5) by auto
  have "inode_table_new True True True True lim xls = Inr (Some (u\<lparr>root := ?r\<rparr>))"
    using t(1) u(1) by (simp add: inode_table_new_def inode_table_init_root_def)
  then show ?thesis using u(2,3) by (auto simp: root_irrelevant)
qed

end
