(* ===== verification/Inode_Calls.thy ===== *)
theory Inode_Calls
  imports Inode_Link
begin

text \<open>
  The inode table as its users see it: the calls, any interleaving of them, and the properties of the
  table: the store stays well-formed, no entitled call faults, linked names are found, the list of
  recently used inodes stays within its limit, and the contexts of the translators.
\<close>

section \<open>Calls\<close>

text \<open>
  The calls of the table's users, cut into the parts that run under its lock: pruning, which the
  public operations do after they released the lock, is a call of its own, so that every other call
  may come in between. \<open>run\<close> is the effect of a call and the inode it returns a reference to, \<open>entitled\<close>
  what the caller has to own and know, and \<open>owned\<close> what the callers own afterwards.
\<close>

datatype icall =
  New | Ref nat | Unref nat | Prune | Search u64 "bytes option" | Parent nat u64 "bytes option" | Lookup nat
  | Forget nat u64 | Link nat nat bytes u64 u32 | Unlink nat nat bytes | Rename nat bytes nat bytes nat u64 u32

fun run :: "icall \<Rightarrow> itable \<Rightarrow> fault + (nat option \<times> itable)" where
  "run New t = bind_f (inode_new True t) (\<lambda>(a, t). Inr (Some a, t))"
| "run (Ref a) t = bind_f (inode_ref a t) (\<lambda>t. Inr (Some a, t))"
| "run (Unref a) t = bind_f (inode_unref_locked a t) (\<lambda>t. Inr (None, t))"
| "run Prune t = bind_f (inode_table_prune t) (\<lambda>t. Inr (None, t))"
| "run (Search n name) t = inode_search n name t"
| "run (Parent a par name) t = inode_parent a par name t"
| "run (Lookup a) t = bind_f (inode_lookup a t) (\<lambda>t. Inr (None, t))"
| "run (Forget a n) t = bind_f (hashed_inode a t) (\<lambda>b. bind_f (inode_forget_locked b n t) (\<lambda>t. Inr (None, t)))"
| "run (Link a p name n m) t = bind_f (inode_link_locked (\<lambda>_. True) a (Some (p, name)) n m t) (\<lambda>t. Inr (None, t))"
| "run (Unlink a p name) t = bind_f (hashed_inode a t) (\<lambda>b. bind_f (inode_unlink_locked b p name t) (\<lambda>t. Inr (None, t)))"
| "run (Rename sd sn dd dn a n m) t = bind_f (rename_locked (\<lambda>_. True) sd sn dd dn a n m t) (\<lambda>t. Inr (None, t))"

fun owned :: "icall \<Rightarrow> nat option \<Rightarrow> (nat \<Rightarrow> nat) \<Rightarrow> nat \<Rightarrow> nat" where
  "owned (Unref a) r held = held(a := held a - 1)"
| "owned c (Some a) held = held(a := Suc (held a))"
| "owned c None held = held"

fun entitled :: "icall \<Rightarrow> itable \<Rightarrow> (nat \<Rightarrow> nat) \<Rightarrow> bool" where
  "entitled (Ref a) t held \<longleftrightarrow> 0 < held a"
| "entitled (Unref a) t held \<longleftrightarrow> 0 < held a"
| "entitled (Parent a _ _) t held \<longleftrightarrow> 0 < held a"
| "entitled (Lookup a) t held \<longleftrightarrow> 0 < held a \<and> known t a"
| "entitled (Forget a n) t held \<longleftrightarrow> 0 < held a \<and> known t a
     \<and> (case hashed_inode a t of Inr b \<Rightarrow> \<forall>i. inodes t b = Some i \<longrightarrow> n \<le> i_nlookup i | Inl _ \<Rightarrow> False)"
| "entitled (Link a p _ n _) t held \<longleftrightarrow> 0 < held a \<and> 0 < held p \<and> n \<noteq> 0 \<and> roomy t (link_room t a n)
     \<and> map_option i_ino (inodes t a) \<in> {Some 0, Some n} \<and> map_option i_ino (inodes t p) \<noteq> Some 0"
| "entitled (Unlink a p _) t held \<longleftrightarrow> 0 < held a \<and> 0 < held p \<and> known t a"
| "entitled (Rename sd _ dd _ a n _) t held \<longleftrightarrow> 0 < held a \<and> 0 < held sd \<and> 0 < held dd
     \<and> map_option (\<lambda>i. (i_ino i, i_hashed i)) (inodes t a) = Some (n, True) \<and> map_option i_ino (inodes t dd) \<noteq> Some 0"
| "entitled _ t held \<longleftrightarrow> True"

lemma held_live:
  assumes "itable_ok t held" "unsaturated t" "0 < held a"
  shows "\<exists>i. inodes t a = Some i \<and> unat (i_ref i) < 4294967295"
  using itable_okD(3)[OF assms(1)] assms(2,3) unfolding held_ok_def unsaturated_def by blast

lemma run_ok:
  assumes ok: "itable_ok t held" and sat: "unsaturated t" and ent: "entitled c t held"
  shows "\<exists>r t'. run c t = Inr (r, t') \<and> itable_ok t' (owned c r held)"
proof (cases c)
  case New
  have "inodes t (it_next t) = None" using table_invD(1)[OF itable_okD(1)[OF ok]] unfolding fresh_ok_def by blast
  then have "held (it_next t) = 0" using itable_okD(3)[OF ok] by (auto simp: held_ok_def)
  then show ?thesis using New new_ok[OF ok] by auto
next
  case (Ref a)
  then have "0 < held a" using ent by simp
  then obtain i where i: "inodes t a = Some i" "unat (i_ref i) < 4294967295" using held_live[OF ok sat] by blast
  then show ?thesis using Ref ref_itable_ok[OF ok i] \<open>0 < held a\<close> by (auto simp: inode_ref_def)
next
  case (Unref a)
  then show ?thesis using ent unref_itable_ok[OF ok, of a] by auto
next
  case Prune
  then show ?thesis using prune_itable_ok[OF ok] by auto
next
  case (Search n name)
  obtain r t' where "inode_search n name t = Inr (r, t')" "itable_ok t' (case r of None \<Rightarrow> held | Some a \<Rightarrow> held(a := Suc (held a)))"
    using search_ok[OF ok sat, of n name] by blast
  then show ?thesis using Search by (cases r) auto
next
  case (Parent a par name)
  then obtain i where i: "inodes t a = Some i" using held_live[OF ok sat] ent by auto
  obtain r t' where "inode_parent a par name t = Inr (r, t')" "itable_ok t' (case r of None \<Rightarrow> held | Some a \<Rightarrow> held(a := Suc (held a)))"
    using parent_ok[OF ok sat i, of par name] by blast
  then show ?thesis using Parent by (cases r) auto
next
  case (Lookup a)
  then show ?thesis using ent lookup_ok[OF ok, of a] by auto
next
  case (Forget a n)
  then have "known t a" using ent by simp
  then obtain b j where b: "hashed_inode a t = Inr b" "inodes t b = Some j" using hashed_inode_ok[OF ok] by blast
  then show ?thesis using Forget ent forget_locked_ok[OF ok b(2), of n] by auto
next
  case (Link a p name n m)
  then have h: "0 < held a" "0 < held p" "n \<noteq> 0" "roomy t (link_room t a n)" using ent by auto
  obtain i where i: "inodes t a = Some i" using held_live[OF ok sat h(1)] by blast
  obtain pi where p: "inodes t p = Some pi" using held_live[OF ok sat h(2)] by blast
  have "i_ino i = 0 \<or> i_ino i = n" "i_ino pi \<noteq> 0" using Link ent i p by auto
  then obtain t' where "inode_link_locked (\<lambda>_. True) a (Some (p, name)) n m t = Inr t'" "itable_ok t' held"
    using link_ok[OF ok i h(1) _ h(3) p h(2) _ _ h(4), of "\<lambda>_. True" name m] by auto
  then show ?thesis using Link by auto
next
  case (Unlink a p name)
  then have h: "0 < held p" "known t a" using ent by auto
  obtain pi where p: "inodes t p = Some pi" using held_live[OF ok sat h(1)] by blast
  obtain b j where b: "hashed_inode a t = Inr b" "inodes t b = Some j" using hashed_inode_ok[OF ok h(2)] by blast
  then show ?thesis using Unlink unlink_locked_ok[OF ok b(2) p, of name] by auto
next
  case (Rename sd sn dd dn a n m)
  then have h: "0 < held a" "0 < held sd" "0 < held dd" using ent by auto
  obtain i where i: "inodes t a = Some i" using held_live[OF ok sat h(1)] by blast
  obtain di where d: "inodes t dd = Some di" using held_live[OF ok sat h(3)] by blast
  have "i_hashed i" "i_ino i = n" "i_ino di \<noteq> 0" using Rename ent i d by auto
  then obtain t' where "rename_locked (\<lambda>_. True) sd sn dd dn a n m t = Inr t'" "itable_ok t' held"
    using rename_ok[OF ok i h(1) _ _ h(2) d h(3) _ _ sat, of n "\<lambda>_. True" sn dn m] by auto
  then show ?thesis using Rename by auto
qed

inductive istep :: "itable \<times> (nat \<Rightarrow> nat) \<Rightarrow> itable \<times> (nat \<Rightarrow> nat) \<Rightarrow> bool" where
  istep: "entitled c t held \<Longrightarrow> unsaturated t \<Longrightarrow> run c t = Inr (r, t') \<Longrightarrow> istep (t, held) (t', owned c r held)"

inductive_cases istepE: "istep s s'"

definition itable_start :: "itable \<times> (nat \<Rightarrow> nat) \<Rightarrow> bool" where
  "itable_start s \<longleftrightarrow> (\<exists>lim xls. inode_table_new True True True True lim xls = Inr (Some (fst s))) \<and> snd s = (\<lambda>_. 0)"

interpretation inode_sys: step_system itable_start istep "\<lambda>s. itable_ok (fst s) (snd s)"
proof
  show "itable_ok (fst s) (snd s)" if h: "itable_start s" for s
  proof -
    obtain lim xls where "inode_table_new True True True True lim xls = Inr (Some (fst s))" "snd s = (\<lambda>_. 0)"
      using h by (auto simp: itable_start_def)
    then show ?thesis using table_new_ok[of lim xls] by auto
  qed
  show "itable_ok (fst s') (snd s')" if "itable_ok (fst s) (snd s)" "istep s s'" for s s'
    using that(2,1) run_ok by (elim istepE) fastforce
qed

text \<open>C19. Every call its caller is entitled to keeps the store of inodes and dentries well-formed, as long
as no counter is about to wrap around: dentries and inodes refer to each other and only to what is
allocated, the chains of both hash tables hold exactly what is hashed, at most one inode is hashed for
a number, every inode is on exactly one of the three lists, whose sizes are right, and the reference
counts are those of the callers and the dentries.\<close>

theorem inode_store_preserved:
  assumes "itable_ok t held" "unsaturated t" "entitled c t held" "run c t = Inr (r, t')"
  shows "itable_ok t' (owned c r held)"
  using run_ok[OF assms(1-3)] assms(4) by auto

text \<open>C8. However the critical sections of the calls of several threads interleave, a call whose caller
is entitled to it returns: no inode or dentry is used after it was freed, no assertion fails and no
recursion runs on, also when a linked inode takes the place of another one; and what a caller holds a
reference to is not freed. Entitled is a caller that holds the references it passes, links an inode without a
number or with the same number under a parent with a number, looks up, forgets and unlinks only inodes
of which the table has one hashed for the number, renames an inode that is itself hashed for the number
it gets, and forgets no more lookups than were counted. Memory is available and no counter is about
to wrap around.\<close>

theorem inode_calls_return:
  assumes "itable_start s" "istep\<^sup>*\<^sup>* s (t, held)" "unsaturated t"
  shows "(\<forall>a. 0 < held a \<longrightarrow> (\<exists>i. inodes t a = Some i \<and> i_ref i \<noteq> 0))
    \<and> (\<forall>c. entitled c t held \<longrightarrow> (\<exists>r t'. run c t = Inr (r, t')))"
proof (intro conjI allI impI)
  have ok: "itable_ok t held" using inode_sys.inv_reach[OF assms(1,2)] by simp
  show "\<exists>r t'. run c t = Inr (r, t')" if "entitled c t held" for c using run_ok[OF ok assms(3) that] by blast
  show "\<exists>i. inodes t a = Some i \<and> i_ref i \<noteq> 0" if h: "0 < held a" for a
  proof -
    obtain i where i: "inodes t a = Some i" using held_live[OF ok assms(3) h] by blast
    then show ?thesis using childless_without_refs(2)[OF table_invD(6)[OF itable_okD(1)[OF ok]] i] h by auto
  qed
qed

section \<open>Linked names and numbers are found\<close>

lemma head_stays:
  assumes "xs = filter P (d # ds)" "d \<in> set xs"
  shows "\<exists>es. xs = d # es"
  using assms by auto

lemma linked_name_found:
  assumes ok: "itable_ok v held" and w: "inode_table_prune v = Inr w" "itable_ok w held" "survives held v w"
    and x: "dentries v d = Some x" "d_hashed x" "0 < held (d_inode x)" "d_name x = name"
    and par: "map_option i_ino (inodes v (d_parent x)) = Some q" and hd: "name_hash v (hash_name q name) = d # ds"
  shows "\<exists>u. inode_search q (Some name) w = Inr (Some (d_inode x), u)"
proof -
  note L = links_okD[OF table_invD(2)[OF itable_okD(1)[OF w(2)]]]
  have xw: "dentries w d = Some x" using survivesD(5)[OF w(3) x(1,3)] .
  obtain p where p: "inodes w (d_parent x) = Some p" using L(1)[OF xw] by blast
  obtain i where i: "inodes w (d_inode x) = Some i" using L(1)[OF xw] by blast
  have q: "i_ino p = q" using survivesD(2)[OF w(3) p] par by auto
  have "dentry_bucket w d = Some (hash_name q name)" using xw x(2,4) p q by (simp add: dentry_bucket_def)
  then have mem: "d \<in> set (name_hash w (hash_name q name))"
    using table_invD(3)[OF itable_okD(1)[OF w(2)]] by (simp add: names_ok_def)
  obtain P where "name_hash w (hash_name q name) = filter P (name_hash v (hash_name q name))" using survivesD(6)[OF w(3)] by blast
  then obtain es where "name_hash w (hash_name q name) = d # es" using head_stays[OF _ mem, of P ds] hd by auto
  then have "dentry_search w q name = Inr (Some d)" using xw p q x(4) by (simp add: dentry_search_def get_dentry_Some get_inode_Some)
  then show ?thesis using xw i by (simp add: inode_search_def get_dentry_Some inode_ref_locked_def get_inode_Some Let_def)
qed

text \<open>C18. After an inode was linked under a name it is found by its name under its parent and by its
number, even though the table is pruned in between and even if it took the place of another inode with
the same number, whose names and children it then has. The caller holds the inode and its parent, the
inode had no number or the same one, the parent has a number, and no counter wraps around.\<close>

theorem link_then_search:
  assumes "itable_ok t held" "inodes t a = Some i" "inodes t p = Some pi" "0 < held a" "0 < held p" "p \<noteq> a"
    and "i_ino i = 0 \<or> i_ino i = n" "n \<noteq> 0" "i_ino pi \<noteq> 0" "roomy t (link_room t a n)"
  shows "\<exists>t'. inode_link (\<lambda>_. True) a (Some (p, name)) n m t = Inr t' \<and> itable_ok t' held
    \<and> (\<exists>u. inode_search (i_ino pi) (Some name) t' = Inr (Some a, u))
    \<and> (\<exists>u. inode_search n None t' = Inr (Some a, u))"
proof -
  obtain v d x ds where v: "inode_link_locked (\<lambda>_. True) a (Some (p, name)) n m t = Inr v" "itable_ok v held"
      "map_option (\<lambda>i. (i_ino i, i_hashed i)) (inodes v a) = Some (n, True)"
      "dentries v d = Some x" "d_hashed x" "d_inode x = a" "d_name x = name"
      "map_option i_ino (inodes v (d_parent x)) = Some (i_ino pi)" "name_hash v (hash_name (i_ino pi) name) = d # ds"
    using link_ok[OF assms(1,2,4,7,8,3,5,9) _ assms(10), of "\<lambda>_. True" name m] assms(6) by auto
  obtain w where w: "inode_table_prune v = Inr w" "itable_ok w held" "survives held v w"
    using prune_itable_ok[OF v(2)] by blast
  have by_name: "\<exists>u. inode_search (i_ino pi) (Some name) w = Inr (Some a, u)"
    using linked_name_found[OF v(2) w v(4,5) _ v(7,8,9)] v(6) assms(4) by simp
  obtain k where k: "inodes v a = Some k" "i_ino k = n" "i_hashed k" using v(3) by auto
  obtain l where l: "inodes w a = Some l" "i_hashed l" using survivesD(4)[OF w(3) k(1,3) assms(4)] by blast
  have ln: "i_ino l = n" using survivesD(2)[OF w(3) l(1)] k by auto
  obtain r where r: "inode_search_ino w n = Inr r" "case r of
      None \<Rightarrow> \<forall>a i. inodes w a = Some i \<and> i_hashed i \<longrightarrow> i_ino i \<noteq> n
    | Some a \<Rightarrow> \<exists>i. inodes w a = Some i \<and> i_hashed i \<and> i_ino i = n"
    using search_ino_ok[OF table_invD(4)[OF itable_okD(1)[OF w(2)]], of n] by blast
  have "r = Some a"
  proof (cases r)
    case None
    then show ?thesis using r(2) l ln by auto
  next
    case (Some b)
    then obtain j where "inodes w b = Some j" "i_hashed j" "i_ino j = n" using r(2) by auto
    then show ?thesis using unique_okD[OF itable_okD(4)[OF w(2)] l, of b j] ln Some by simp
  qed
  then have "\<exists>u. inode_search n None w = Inr (Some a, u)"
    using r(1) l by (simp add: inode_search_def inode_ref_locked_def get_inode_Some Let_def)
  moreover have "inode_link (\<lambda>_. True) a (Some (p, name)) n m t = Inr w" using v(1) w(1) by (simp add: inode_link_def)
  ultimately show ?thesis using w(2) by_name by blast
qed

text \<open>C26. Releasing a reference returns, and leaves at most as many unused inodes on the list of recently
used ones as the limit of the table allows, no dying inode, and every inode that is still held. The table is
well-formed and the caller holds the reference. A limit of 0 means no limit, and the size that is compared is a number
of 32 bits.\<close>

theorem inode_unref_bounds_lru:
  assumes "itable_ok t held" "0 < held a"
  shows "\<exists>t'. inode_unref a t = Inr t' \<and> itable_ok t' (held(a := held a - 1)) \<and> purge t' = []
    \<and> (lru_limit t' = 0 \<or> length (lru t') mod 2 ^ 32 \<le> unat (lru_limit t'))
    \<and> (\<forall>b. 0 < (held(a := held a - 1)) b \<longrightarrow> inodes t' b \<noteq> None)"
proof -
  obtain u where u: "inode_unref_locked a t = Inr u" "itable_ok u (held(a := held a - 1))"
    using unref_itable_ok[OF assms] by blast
  obtain w where w: "inode_table_prune u = Inr w" "itable_ok w (held(a := held a - 1))" "purge w = []"
      "lru_limit w = 0 \<or> lru_size w \<le> lru_limit w"
    using prune_itable_ok[OF u(2)] by blast
  obtain i where "inodes t a = Some i" using itable_okD(3)[OF assms(1)] assms(2) by (auto simp: held_ok_def)
  then have "inode_unref a t = Inr w" using u(1) w(1) by (simp add: inode_unref_def get_inode_Some)
  moreover have "unat (lru_size w) = length (lru w) mod 2 ^ 32"
    using lists_okD(11)[OF table_invD(5)[OF itable_okD(1)[OF w(2)]]] by (simp add: unat_of_nat)
  ultimately show ?thesis using w itable_okD(3)[OF w(2)] by (auto simp: held_ok_def word_le_nat_alt)
qed

section \<open>A small table\<close>

text \<open>A table with its root, then the root looked up, then a second inode.\<close>

definition table0 :: itable where "table0 = the (projr (inode_table_new True True True True 2 1))"
definition table1 :: itable where "table1 = snd (projr (run (Search 1 None) table0))"
definition table2 :: itable where "table2 = snd (projr (run New table1))"
definition held1 :: "nat \<Rightarrow> nat" where "held1 = (\<lambda>_. 0)(1 := 1)"
definition held2 :: "nat \<Rightarrow> nat" where "held2 = held1(2 := 1)"

lemmas table_eval = inode_table_new_def inode_table_init_root_def empty_table_def inode_create_def inode_link_locked_def
  get_inode_def upd_inode_def inode_search_ino_def hash_inode_def HASHSIZE_def inode_hash_add_def Let_def inode_search_def
  inode_ref_locked_def inode_activate_def list_del_def inode_new_def

lemma table0_new: "inode_table_new True True True True 2 1 = Inr (Some table0)"
  using table_new_ok[of 2 1] by (auto simp: table0_def)

lemma table0_inodes:
  "inodes table0 = [1 \<mapsto> \<lparr>i_nlookup = 0, i_generation = 0, i_ref = 0, i_ino = 1, i_mode = 16877, i_dentry_list = [],
     i_child_list = [], i_hashed = True, i_ctx = [(0, 0)]\<rparr>]"
  by (simp add: table0_def table_eval)

lemma table1_run: "run (Search 1 None) table0 = Inr (Some 1, table1)"
  by (simp add: table1_def table0_def table_eval)

lemma table2_run: "run New table1 = Inr (Some 2, table2)"
  by (simp add: table2_def table1_def table0_def table_eval)

lemma table2_inodes:
  "inodes table2 = [1 \<mapsto> \<lparr>i_nlookup = 0, i_generation = 0, i_ref = 1, i_ino = 1, i_mode = 16877, i_dentry_list = [],
     i_child_list = [], i_hashed = True, i_ctx = [(0, 0)]\<rparr>,
     2 \<mapsto> \<lparr>i_nlookup = 0, i_generation = 0, i_ref = 1, i_ino = 0, i_mode = 0, i_dentry_list = [],
     i_child_list = [], i_hashed = False, i_ctx = [(0, 0)]\<rparr>]"
  by (simp add: table2_def table1_def table0_def table_eval numeral_2_eq_2)

lemma table1_inodes:
  "inodes table1 = [1 \<mapsto> \<lparr>i_nlookup = 0, i_generation = 0, i_ref = 1, i_ino = 1, i_mode = 16877, i_dentry_list = [],
     i_child_list = [], i_hashed = True, i_ctx = [(0, 0)]\<rparr>]"
  by (simp add: table1_def table0_def table_eval)

lemma tables_unsaturated: "unsaturated table0" "unsaturated table1" "unsaturated table2"
  by (auto simp: unsaturated_def table0_inodes table1_inodes table2_inodes split: if_splits)

lemma table0_ok: "itable_ok table0 (\<lambda>_. 0)"
  using table_new_ok[of 2 1] table0_new by auto

lemma table1_ok: "itable_ok table1 held1"
  using run_ok[OF table0_ok tables_unsaturated(1), of "Search 1 None"] table1_run by (auto simp: held1_def)

lemma table2_ok: "itable_ok table2 held2"
  using run_ok[OF table1_ok tables_unsaturated(2), of New] table2_run by (auto simp: held2_def held1_def)

lemma table2_reached: "istep\<^sup>*\<^sup>* (table0, \<lambda>_. 0) (table2, held2)"
proof -
  have "istep (table0, \<lambda>_. 0) (table1, held1)"
    using istep.intros[OF _ tables_unsaturated(1) table1_run, of "\<lambda>_. 0"] by (simp add: held1_def)
  moreover have "istep (table1, held1) (table2, held2)"
    using istep.intros[OF _ tables_unsaturated(2) table2_run, of held1] by (simp add: held2_def held1_def)
  ultimately show ?thesis by (meson converse_rtranclp_into_rtranclp r_into_rtranclp)
qed

lemma table2_roomy: "roomy table2 (link_room table2 2 5)"
proof -
  have "gives_way table2 2 5 = None"
    using gives_way_ok(2)[OF table2_ok, of 2 5] by (cases "gives_way table2 2 5") (auto simp: table2_inodes split: if_splits)
  then show ?thesis by (auto simp: roomy_def link_room_def table2_inodes split: if_splits)
qed

text \<open>The second inode is linked for the number 5, and a third one is made.\<close>

definition table3 :: itable where "table3 = snd (projr (run (Link 2 1 [97] 5 33188) table2))"
definition table4 :: itable where "table4 = snd (projr (run New table3))"
definition held4 :: "nat \<Rightarrow> nat" where "held4 = held2(3 := 1)"

lemma table2_sel:
  "dentries table2 = Map.empty" "dt_next table2 = 1" "name_hash table2 = (\<lambda>_. [])" "it_next table2 = 3"
  "xl_count table2 = 1"
  by (simp_all add: table2_def table1_def table0_def table_eval numeral_2_eq_2 numeral_3_eq_3)

lemma table3_run: "run (Link 2 1 [97] 5 33188) table2 = Inr (None, table3)"
proof -
  obtain r t' where "run (Link 2 1 [97] 5 33188) table2 = Inr (r, t')"
    using run_ok[OF table2_ok tables_unsaturated(3), of "Link 2 1 [97] 5 33188"] table2_roomy
    by (auto simp: held2_def held1_def table2_inodes)
  moreover from this have "r = None" by (cases "inode_link_locked (\<lambda>_. True) 2 (Some (1, [97])) 5 33188 table2") auto
  ultimately show ?thesis by (simp add: table3_def)
qed

lemma table3_link: "inode_link_locked (\<lambda>_. True) 2 (Some (1, [97])) 5 33188 table2 = Inr table3"
  using table3_run by (cases "inode_link_locked (\<lambda>_. True) 2 (Some (1, [97])) 5 33188 table2") auto

lemma table3_eval:
  "inodes table3 = [1 \<mapsto> \<lparr>i_nlookup = 0, i_generation = 0, i_ref = 2, i_ino = 1, i_mode = 16877, i_dentry_list = [],
     i_child_list = [1], i_hashed = True, i_ctx = [(0, 0)]\<rparr>,
     2 \<mapsto> \<lparr>i_nlookup = 0, i_generation = 0, i_ref = 1, i_ino = 5, i_mode = 33188, i_dentry_list = [1],
     i_child_list = [], i_hashed = True, i_ctx = [(0, 0)]\<rparr>]
   \<and> it_next table3 = 3 \<and> xl_count table3 = 1"
proof -
  let ?t = "upd_inode 2 (\<lambda>i. i\<lparr>i_ino := 5, i_mode := 33188\<rparr>) table2"
  have "itable_ok ?t held2" by (rule numbered_ok[OF table2_ok, of 2 "the (inodes table2 2)"]) (simp_all add: table2_inodes)
  then obtain r where "inode_search_ino ?t 5 = Inr r" "case r of None \<Rightarrow> True
    | Some a \<Rightarrow> \<exists>i. inodes ?t a = Some i \<and> i_hashed i \<and> i_ino i = 5"
    using search_ino_ok[OF table_invD(4)[OF itable_okD(1)], of ?t held2 5] by (fastforce split: option.splits)
  then have s: "inode_search_ino ?t 5 = Inr None" by (cases r) (auto simp: table2_inodes split: if_splits)
  have t3: "table3 = projr (inode_link_locked (\<lambda>_. True) 2 (Some (1, [97])) 5 33188 table2)" using table3_link by simp
  show ?thesis
    unfolding t3 by (simp add: s fun_eq_iff inode_link_locked_def get_inode_def table2_inodes inode_hash_add_def Let_def link_dentry_def
       dentry_search_for_inode_def dentry_create_def dentry_search_def inode_ref_locked_def table2_sel dentry_hash_def get_dentry_def)
qed

lemmas table3_inodes = conjunct1[OF table3_eval] and table3_next = conjunct2[OF table3_eval]

lemma table3_ok: "itable_ok table3 held2"
  using run_ok[OF table2_ok tables_unsaturated(3), of "Link 2 1 [97] 5 33188"] table3_run table2_roomy
  by (auto simp: held2_def held1_def table2_inodes)

lemma table3_unsaturated: "unsaturated table3"
  by (auto simp: unsaturated_def table3_inodes split: if_splits)

lemma table4_run: "run New table3 = Inr (Some 3, table4)"
proof -
  obtain t' where "inode_new True table3 = Inr (3, t')" using new_ok[OF table3_ok] table3_next by auto
  then show ?thesis by (simp add: table4_def)
qed

lemma table4_inodes:
  "inodes table4 = (inodes table3)(3 \<mapsto> \<lparr>i_nlookup = 0, i_generation = 0, i_ref = 1, i_ino = 0, i_mode = 0, i_dentry_list = [],
     i_child_list = [], i_hashed = False, i_ctx = [(0, 0)]\<rparr>)"
proof -
  have t4: "table4 = snd (projr (inode_new True table3))" using table4_run by (cases "inode_new True table3") auto
  show ?thesis
    unfolding t4 by (auto simp: fun_eq_iff inode_new_def inode_create_def inode_ref_locked_def get_inode_def Let_def inode_activate_def list_del_def table3_next)
qed

lemma table4_ok: "itable_ok table4 held4"
  using run_ok[OF table3_ok table3_unsaturated, of New] table4_run by (auto simp: held4_def held2_def held1_def)

lemma table4_unsaturated: "unsaturated table4"
  by (auto simp: unsaturated_def table4_inodes table3_inodes split: if_splits)

lemma table4_reached: "istep\<^sup>*\<^sup>* (table0, \<lambda>_. 0) (table4, held4)"
proof -
  have "istep (table2, held2) (table3, held2)"
    using istep.intros[OF _ tables_unsaturated(3) table3_run, of held2] table2_roomy by (simp add: held2_def held1_def table2_inodes)
  moreover have "istep (table3, held2) (table4, held4)"
    using istep.intros[OF _ table3_unsaturated table4_run, of held2] by (simp add: held4_def held2_def held1_def)
  ultimately show ?thesis using table2_reached by (meson rtranclp.rtrancl_into_rtrancl)
qed

text \<open>The third inode takes the place of the second when it is linked for the number 5.\<close>

lemma table4_replaces: "gives_way table4 3 5 = Some 2"
proof (cases "gives_way table4 3 5")
  case None
  then have "inodes table4 2 = Some j \<Longrightarrow> i_hashed j \<Longrightarrow> i_ino j = 5 \<Longrightarrow> 2 = (3 :: nat)" for j
    using gives_way_ok(1)[OF table4_ok, of 3 5] unfolding only_for_def by blast
  then show ?thesis by (simp add: table4_inodes table3_inodes)
next
  case (Some b)
  then show ?thesis using gives_way_ok(2)[OF table4_ok, of 3 5 b] by (auto simp: table4_inodes table3_inodes split: if_splits)
qed

lemma table4_roomy: "roomy table4 (link_room table4 3 5)"
  by (auto simp: roomy_def link_room_def table4_replaces replace_room_def table4_inodes table3_inodes split: if_splits)

theorem inode_store_preserved_witness:
  "itable_ok table1 held1 \<and> unsaturated table1 \<and> entitled New table1 held1 \<and> run New table1 = Inr (Some 2, table2)
    \<and> itable_ok table2 (owned New (Some 2) held1)"
  using inode_store_preserved[OF table1_ok tables_unsaturated(2) _ table2_run] table1_ok tables_unsaturated(2) table2_run by simp

theorem inode_calls_return_witness:
  "itable_start (table0, \<lambda>_. 0) \<and> istep\<^sup>*\<^sup>* (table0, \<lambda>_. 0) (table4, held4) \<and> unsaturated table4
    \<and> gives_way table4 3 5 = Some 2 \<and> (\<exists>r t'. run (Link 3 1 [98] 5 33188) table4 = Inr (r, t'))"
proof -
  have s: "itable_start (table0, \<lambda>_. 0)" using table0_new by (auto simp: itable_start_def)
  have "entitled (Link 3 1 [98] 5 33188) table4 held4"
    using table4_roomy by (simp add: held4_def held2_def held1_def table4_inodes table3_inodes)
  then show ?thesis
    using inode_calls_return[OF s table4_reached table4_unsaturated] s table4_reached table4_unsaturated table4_replaces by blast
qed

theorem link_then_search_witness:
  "gives_way table4 3 5 = Some 2
    \<and> (\<exists>t'. inode_link (\<lambda>_. True) 3 (Some (1, [98])) 5 33188 table4 = Inr t' \<and> itable_ok t' held4
      \<and> (\<exists>u. inode_search 1 (Some [98]) t' = Inr (Some 3, u)) \<and> (\<exists>u. inode_search 5 None t' = Inr (Some 3, u)))"
  using link_then_search[OF table4_ok, of 3 "the (inodes table4 3)" 1 "the (inodes table4 1)" 5 "[98]" 33188]
    table4_roomy table4_replaces by (simp add: table4_inodes table3_inodes held4_def held2_def held1_def)

theorem inode_unref_bounds_lru_witness:
  "itable_ok table2 held2 \<and> 0 < held2 2 \<and> (\<exists>t'. inode_unref 2 table2 = Inr t' \<and> purge t' = [] \<and> inodes t' 1 \<noteq> None)"
  using inode_unref_bounds_lru[OF table2_ok, of 2] table2_ok by (auto simp: held2_def held1_def)

section \<open>Contexts\<close>

lemma ctx_put_get: "ctx_put k v cs = Some cs' \<Longrightarrow> k \<noteq> 0 \<Longrightarrow> ctx_get k cs' = Some v"
  by (induction cs arbitrary: cs' rule: ctx_put.induct) (auto split: if_splits)

lemma ctx_put_other: "ctx_put k v cs = Some cs' \<Longrightarrow> k' \<noteq> k \<Longrightarrow> k' \<noteq> 0 \<Longrightarrow> ctx_get k' cs' = ctx_get k' cs"
  by (induction cs arbitrary: cs' rule: ctx_put.induct) (auto split: if_splits)

lemma ctx_put_room: "ctx_put k v cs = None \<longleftrightarrow> (\<forall>(k', v') \<in> set cs. k' \<noteq> 0 \<and> k' \<noteq> k)"
  by (induction cs rule: ctx_put.induct) auto

text \<open>C38. A translator reads back the context it stored with an inode, and the contexts of the other
translators stay as they were; storing fails only when every slot belongs to another translator.\<close>

theorem ctx_put_then_get:
  assumes "inodes t a = Some i" "xl \<noteq> 0" "\<exists>(k, v) \<in> set (i_ctx i). k = 0 \<or> k = xl"
  shows "\<exists>t'. inode_ctx_put a xl val t = Inr (0, t') \<and> inode_ctx_get a xl t' = Inr (0, Some val)
    \<and> (\<forall>y. y \<noteq> xl \<longrightarrow> inode_ctx_get a y t' = inode_ctx_get a y t)"
proof -
  have "ctx_put xl val (i_ctx i) \<noteq> None" using assms(3) by (auto simp: ctx_put_room)
  then obtain cs where cs: "ctx_put xl val (i_ctx i) = Some cs" by blast
  have "inode_ctx_get a y (upd_inode a (\<lambda>i. i\<lparr>i_ctx := cs\<rparr>) t) = inode_ctx_get a y t" if "y \<noteq> xl" for y
    using assms(1) ctx_put_other[OF cs that] by (cases "y = 0") (simp_all add: inode_ctx_get_def get_inode_Some)
  then show ?thesis
    using assms(1,2) cs ctx_put_get[OF cs assms(2)] by (simp add: inode_ctx_put_def inode_ctx_get_def get_inode_Some)
qed

theorem ctx_put_then_get_witness:
  "\<exists>t'. inode_ctx_put 1 7 42 table0 = Inr (0, t') \<and> inode_ctx_get 1 7 t' = Inr (0, Some 42)"
  using ctx_put_then_get[of table0 1 _ 7 42] by (auto simp: table0_inodes)

text \<open>A context can come back after it was deleted: storing takes the first slot that is free or
the translator's own, so a slot that another translator gave up is taken although a later slot still
holds the translator's old value; after a deletion the old value is read again.\<close>

theorem ctx_deleted_comes_back:
  assumes "inodes t a = Some i" "i_ctx i = [(x, u), (y, old)]" "x \<noteq> 0" "y \<noteq> 0" "x \<noteq> y"
  shows "\<exists>t1 t2 t3. inode_ctx_del a x t = Inr (0, Some u, t1) \<and> inode_ctx_put a y new t1 = Inr (0, t2)
    \<and> inode_ctx_del a y t2 = Inr (0, Some new, t3) \<and> inode_ctx_get a y t3 = Inr (0, Some old)"
  using assms by (simp add: inode_ctx_del_def inode_ctx_put_def inode_ctx_get_def get_inode_Some)

theorem ctx_deleted_comes_back_witness:
  "\<exists>t1 t2 t3. inode_ctx_del 1 7 (upd_inode 1 (\<lambda>i. i\<lparr>i_ctx := [(7, 1), (8, 2)]\<rparr>) table0) = Inr (0, Some 1, t1)
    \<and> inode_ctx_put 1 8 3 t1 = Inr (0, t2)
    \<and> inode_ctx_del 1 8 t2 = Inr (0, Some 3, t3) \<and> inode_ctx_get 1 8 t3 = Inr (0, Some 2)"
  using ctx_deleted_comes_back[of "upd_inode 1 (\<lambda>i. i\<lparr>i_ctx := [(7, 1), (8, 2)]\<rparr>) table0" 1 _ 7 1 8 2 3]
  by (auto simp: table0_inodes)

end
