(* ===== verification/Afr_Changelog.thy ===== *)
theory Afr_Changelog
  imports Byte_Order
begin

text \<open>
  The changelog of the replicate translator: how it is kept on the children, and how the children
  with the right contents are chosen from it. \<^verbatim>\<open>xlators/cluster/afr/src/afr-self-heal-common.c\<close>, the
  array functions of \<^verbatim>\<open>afr-transaction.c\<close>, and the addition that the storage translator does for
  them, \<^verbatim>\<open>xlators/storage/posix/src/posix.c\<close>.

  Every child keeps, for each of three kinds of change, an array with a number for every child: how
  many operations are known not to have been done there. An array is a list of 32-bit words, in the
  byte order of the network when it is stored. The extended attributes of one child are \<open>None\<close> for a
  null pointer, and otherwise give the value of each of the three keys.
\<close>

section \<open>Arrays\<close>

datatype afr_key = AFR_METADATA_PENDING | AFR_DATA_PENDING | AFR_ENTRY_PENDING

type_synonym xattrs = "afr_key \<rightharpoonup> u32 list"
type_synonym matrix = "u32 list list"

definition mark_all_pending :: "bool \<Rightarrow> nat \<Rightarrow> u32 list" where
  "mark_all_pending e n = replicate n (hton32 e 1)"

definition mark_all_success :: "bool \<Rightarrow> nat \<Rightarrow> u32 list" where
  "mark_all_success e n = replicate n (hton32 e (- 1))"

definition mark_child_dead :: "u32 list \<Rightarrow> nat \<Rightarrow> u32 list" where
  "mark_child_dead pending child = pending[child := 0]"

definition mark_down_children :: "u32 list \<Rightarrow> bool list \<Rightarrow> u32 list" where
  "mark_down_children pending child_up = map2 (\<lambda>x up. if up then x else 0) pending child_up"

text \<open>
  \<^verbatim>\<open>posix_xattrop_common\<close> reads the stored array (all zero if there is none), adds, and writes the
  sum back; the addition wraps around.
\<close>

definition add_array :: "bool \<Rightarrow> u32 list \<Rightarrow> u32 list \<Rightarrow> u32 list" where
  "add_array e dest src = map2 (\<lambda>x y. hton32 e (hton32 e x + hton32 e y)) dest src"

definition xattrop_add :: "bool \<Rightarrow> u32 list option \<Rightarrow> u32 list \<Rightarrow> u32 list" where
  "xattrop_add e old src = add_array e (case old of None \<Rightarrow> replicate (length src) 0 | Some d \<Rightarrow> d) src"

section \<open>Sources\<close>

fun afr_sh_select_source :: "bool list \<Rightarrow> nat option" where
  "afr_sh_select_source [] = None"
| "afr_sh_select_source (s # ss) = (if s then Some 0 else map_option Suc (afr_sh_select_source ss))"

definition afr_sh_sink_count :: "bool list \<Rightarrow> nat" where
  "afr_sh_sink_count sources = length (filter Not sources)"

definition afr_sh_source_count :: "bool list \<Rightarrow> nat" where
  "afr_sh_source_count sources = length (filter id sources)"

definition afr_sh_supress_errenous_children :: "bool list \<Rightarrow> int list \<Rightarrow> bool list" where
  "afr_sh_supress_errenous_children sources child_errno = map2 (\<lambda>s err. if err \<noteq> 0 \<and> s then False else s) sources child_errno"

text \<open>If no child has the key, empty files are no sources; otherwise the children without it are none.\<close>

definition has_key :: "xattrs option \<Rightarrow> afr_key \<Rightarrow> bool" where
  "has_key x key = (case x of None \<Rightarrow> False | Some d \<Rightarrow> d key \<noteq> None)"

definition afr_sh_supress_empty_children :: "bool list \<Rightarrow> xattrs option list \<Rightarrow> nat list \<Rightarrow> afr_key \<Rightarrow> bool list" where
  "afr_sh_supress_empty_children sources xattr sizes key =
     (if \<not> (\<exists>x \<in> set xattr. has_key x key) then map2 (\<lambda>s size. if size = 0 then False else s) sources sizes
      else map2 (\<lambda>s x. if has_key x key then s else False) sources xattr)"

section \<open>The matrix\<close>

text \<open>
  Row \<open>i\<close> is what child \<open>i\<close> knows about the others. The length of the stored array is not checked: an
  array that is too short is read past its end.
\<close>

definition build_row :: "bool \<Rightarrow> nat \<Rightarrow> afr_key \<Rightarrow> xattrs option \<Rightarrow> fault + u32 list" where
  "build_row e n key x =
     (case x of
        None \<Rightarrow> Inr (replicate n 0)
      | Some d \<Rightarrow> (case d key of
          None \<Rightarrow> Inr (replicate n 0)
        | Some pending \<Rightarrow> if length pending < n then Inl Out_Of_Bounds else Inr (map (hton32 e) (take n pending))))"

fun afr_sh_build_pending_matrix :: "bool \<Rightarrow> nat \<Rightarrow> afr_key \<Rightarrow> xattrs option list \<Rightarrow> fault + matrix" where
  "afr_sh_build_pending_matrix e n key [] = Inr []"
| "afr_sh_build_pending_matrix e n key (x # xs) =
     bind_f (build_row e n key x) (\<lambda>r. bind_f (afr_sh_build_pending_matrix e n key xs) (\<lambda>rs. Inr (r # rs)))"

text \<open>The entries of the children about themselves are cleared in the matrix itself.\<close>

definition clear_diagonal :: "matrix \<Rightarrow> matrix" where
  "clear_diagonal m = map (\<lambda>(i, r). r[i := 0]) (enumerate 0 m)"

definition accused :: "matrix \<Rightarrow> nat \<Rightarrow> bool" where
  "accused m i \<longleftrightarrow> (\<exists>r \<in> set m. r ! i \<noteq> 0)"

definition afr_sh_mark_sources :: "matrix \<Rightarrow> nat \<Rightarrow> nat \<times> bool list \<times> matrix" where
  "afr_sh_mark_sources m n =
     (let m = clear_diagonal m; sources = map (\<lambda>i. \<not> accused m i) [0..<n]
      in (length (filter id sources), sources, m))"

definition afr_sh_pending_to_delta :: "matrix \<Rightarrow> bool list \<Rightarrow> matrix" where
  "afr_sh_pending_to_delta m success = map (\<lambda>r. map2 (\<lambda>x ok. if ok then - x else 0) r success) m"

definition afr_sh_delta_to_xattr :: "bool \<Rightarrow> matrix \<Rightarrow> xattrs option list \<Rightarrow> afr_key \<Rightarrow> xattrs option list" where
  "afr_sh_delta_to_xattr e delta xattr key =
     map2 (\<lambda>r x. map_option (\<lambda>d. d(key \<mapsto> map (hton32 e) r)) x) delta xattr"

text \<open>
  Does a child know of anything pending on another one? The index of the child is the argument that the
  source calls \<^verbatim>\<open>child_count\<close>. The number in the array is not brought into the order of the host.
\<close>

fun pending_loop :: "u32 list \<Rightarrow> nat \<Rightarrow> nat list \<Rightarrow> fault + bool" where
  "pending_loop pending self [] = Inr False"
| "pending_loop pending self (i # is) =
     (if i = self then pending_loop pending self is
      else if length pending \<le> i then Inl Out_Of_Bounds
      else if pending ! i \<noteq> 0 then Inr True else pending_loop pending self is)"

definition afr_sh_has_pending :: "afr_key \<Rightarrow> nat \<Rightarrow> nat \<Rightarrow> xattrs \<Rightarrow> fault + bool" where
  "afr_sh_has_pending key n self x =
     (case x key of None \<Rightarrow> Inr False | Some pending \<Rightarrow> pending_loop pending self [0..<n])"

definition afr_sh_has_metadata_pending :: "nat \<Rightarrow> nat \<Rightarrow> xattrs \<Rightarrow> fault + bool" where
  "afr_sh_has_metadata_pending = afr_sh_has_pending AFR_METADATA_PENDING"

definition afr_sh_has_data_pending :: "nat \<Rightarrow> nat \<Rightarrow> xattrs \<Rightarrow> fault + bool" where
  "afr_sh_has_data_pending = afr_sh_has_pending AFR_DATA_PENDING"

definition afr_sh_has_entry_pending :: "nat \<Rightarrow> nat \<Rightarrow> xattrs \<Rightarrow> fault + bool" where
  "afr_sh_has_entry_pending = afr_sh_has_pending AFR_ENTRY_PENDING"

definition afr_sh_is_matrix_zero :: "matrix \<Rightarrow> bool" where
  "afr_sh_is_matrix_zero m \<longleftrightarrow> (\<forall>r \<in> set m. \<forall>x \<in> set r. x = 0)"

section \<open>Reading the matrix\<close>

lemma hton32_0 [simp]: "hton32 e 0 = 0"
  by (rule bit_word_eqI) (simp add: hton32_def swap32_def noswap32_def bit_do_swap4)

lemma hton32_eq_0 [simp]: "hton32 e x = 0 \<longleftrightarrow> x = 0"
  by (metis hton32_0 hton32_involutive)

lemma mark_sources_nth:
  assumes "length m = n" "\<forall>r \<in> set m. length r = n"
  shows "fst (snd (afr_sh_mark_sources m n)) = map (\<lambda>j. \<forall>i < n. i \<noteq> j \<longrightarrow> m ! i ! j = 0) [0..<n]"
proof -
  have c: "clear_diagonal m ! i = (m ! i)[i := 0]" if "i < n" for i
    using that assms(1) by (simp add: clear_diagonal_def nth_enumerate_eq)
  have "accused (clear_diagonal m) j \<longleftrightarrow> (\<exists>i < n. i \<noteq> j \<and> m ! i ! j \<noteq> 0)" if j: "j < n" for j
  proof -
    have "length (clear_diagonal m) = n" using assms(1) by (simp add: clear_diagonal_def)
    then have "accused (clear_diagonal m) j \<longleftrightarrow> (\<exists>i < n. clear_diagonal m ! i ! j \<noteq> 0)"
      unfolding accused_def by (metis in_set_conv_nth)
    moreover have "clear_diagonal m ! i ! j = (if i = j then 0 else m ! i ! j)" if "i < n" for i
      using c[OF that] that j assms by (simp add: nth_list_update)
    ultimately show ?thesis by (metis (full_types))
  qed
  then show ?thesis by (auto simp: afr_sh_mark_sources_def Let_def)
qed

lemma build_matrix:
  assumes "\<forall>x \<in> set xs. \<exists>r. build_row e n key x = Inr r"
  shows "\<exists>m. afr_sh_build_pending_matrix e n key xs = Inr m \<and> length m = length xs \<and> (\<forall>i < length xs. build_row e n key (xs ! i) = Inr (m ! i))"
  using assms
proof (induction xs)
  case (Cons x xs)
  then obtain r m where "build_row e n key x = Inr r" "afr_sh_build_pending_matrix e n key xs = Inr m" "length m = length xs"
    "\<forall>i < length xs. build_row e n key (xs ! i) = Inr (m ! i)" by auto
  then show ?case by (auto simp: nth_Cons split: nat.splits)
qed simp

end
