(* ===== verification/Afr_Transaction.thy ===== *)
theory Afr_Transaction
  imports Afr_Changelog
begin

text \<open>
  The transactions of the replicate translator, \<^verbatim>\<open>xlators/cluster/afr/src/afr-transaction.c\<close>, and the
  operations that run in them (\<^verbatim>\<open>afr-inode-write.c\<close>, \<^verbatim>\<open>afr-dir-write.c\<close>). A transaction locks the
  children one after the other, announces the change in the changelogs of all of them, does the
  operation on all of them, takes the announcement back, unlocks, and calls \<^verbatim>\<open>done\<close>.

  The state \<open>txn\<close> is what the callbacks share, \<^verbatim>\<open>afr_local_t\<close>, with the calls that were sent and not yet
  answered and what was returned to the caller. Replies come in any order, after the handler that
  sent the calls has returned. Of the arguments of the calls only the child, the place (for an entry
  operation the directory, for a rename both directories) and the changelog array are kept; of the
  results of the operations the return value and the error. Allocations succeed.
\<close>

section \<open>State\<close>

datatype tx_type = AFR_DATA_TRANSACTION | AFR_METADATA_TRANSACTION | AFR_ENTRY_TRANSACTION
  | AFR_ENTRY_RENAME_TRANSACTION | AFR_FLUSH_TRANSACTION

datatype fop_op = GF_FOP_WRITE | GF_FOP_FTRUNCATE | GF_FOP_FLUSH | Other_fop

record afr_private =
  child_count :: nat
  data_change_log :: bool
  metadata_change_log :: bool
  entry_change_log :: bool
  data_lock_server_count :: nat
  metadata_lock_server_count :: nat
  entry_lock_server_count :: nat
  wait_count :: nat
  data_self_heal :: bool
  metadata_self_heal :: bool
  favorite_child :: "nat option"
  little_endian :: bool

datatype fop_name = Chmod | Fchmod | Chown | Fchown | Writev | Truncate | Ftruncate | Utimens | Setxattr | Removexattr
  | Create | Mknod | Mkdir | Link | Symlink | Rename | Unlink | Rmdir | Setdents | Flush

record afr_fop =
  tx_type :: tx_type
  tx_op :: fop_op
  tx_key :: afr_key
  tx_fd :: bool
  tx_name :: fop_name
  tx_here_first :: bool

datatype place = Here | New_Parent

datatype afr_call = Lock nat place | Pre_Op nat place "u32 list" | Fop nat | Post_Op nat place "u32 list" | Unlock nat place

record txn =
  child_up :: "bool list"
  call_count :: int
  success_count :: nat
  op_ret :: int
  op_errno :: int
  pending_array :: "u32 list"
  locked_nodes :: "bool list"
  lock_count :: nat
  main_frame :: bool
  fd_seen :: bool
  calls :: "afr_call list"
  unwound :: "(int \<times> int) list"
  destroyed :: nat

abbreviation (input) ENOSYS :: int where "ENOSYS \<equiv> 38"
abbreviation (input) EUCLEAN :: int where "EUCLEAN \<equiv> 117"

definition child_went_down :: "int \<Rightarrow> int \<Rightarrow> bool" where
  "child_went_down ret err \<longleftrightarrow> ret < 0 \<and> (err = ENOTCONN \<or> err = EBADFD)"

definition afr_up_children_count :: "bool list \<Rightarrow> int" where
  "afr_up_children_count up = int (length (filter id up))"

definition afr_locked_nodes_count :: "bool list \<Rightarrow> int" where
  "afr_locked_nodes_count locked = int (length (filter id locked))"

section \<open>Which steps are needed\<close>

definition changelog_enabled :: "afr_private \<Rightarrow> tx_type \<Rightarrow> bool" where
  "changelog_enabled p t =
     (case t of
        AFR_DATA_TRANSACTION \<Rightarrow> data_change_log p
      | AFR_METADATA_TRANSACTION \<Rightarrow> metadata_change_log p
      | AFR_ENTRY_TRANSACTION \<Rightarrow> entry_change_log p
      | AFR_ENTRY_RENAME_TRANSACTION \<Rightarrow> entry_change_log p
      | AFR_FLUSH_TRANSACTION \<Rightarrow> True)"

text \<open>The first write on an open file is noted with the file.\<close>

definition changelog_needed_pre_op :: "afr_private \<Rightarrow> afr_fop \<Rightarrow> txn \<Rightarrow> bool \<times> txn" where
  "changelog_needed_pre_op p f s =
     (if changelog_enabled p (tx_type f) then
        (case tx_op f of
           GF_FOP_FLUSH \<Rightarrow> (False, s)
         | Other_fop \<Rightarrow> (True, s)
         | _ \<Rightarrow> if \<not> tx_fd f then (True, s) else (\<not> fd_seen s, s\<lparr>fd_seen := True\<rparr>))
      else (False, s))"

definition changelog_needed_post_op :: "afr_private \<Rightarrow> afr_fop \<Rightarrow> bool" where
  "changelog_needed_post_op p f \<longleftrightarrow>
     changelog_enabled p (tx_type f) \<and> tx_op f \<noteq> GF_FOP_WRITE \<and> tx_op f \<noteq> GF_FOP_FTRUNCATE"

definition afr_lock_server_count :: "afr_private \<Rightarrow> tx_type \<Rightarrow> nat" where
  "afr_lock_server_count p t =
     (case t of
        AFR_FLUSH_TRANSACTION \<Rightarrow> data_lock_server_count p
      | AFR_DATA_TRANSACTION \<Rightarrow> data_lock_server_count p
      | AFR_METADATA_TRANSACTION \<Rightarrow> metadata_lock_server_count p
      | AFR_ENTRY_TRANSACTION \<Rightarrow> entry_lock_server_count p
      | AFR_ENTRY_RENAME_TRANSACTION \<Rightarrow> entry_lock_server_count p)"

section \<open>The end\<close>

text \<open>\<^verbatim>\<open>afr_chmod_unwind\<close> and its kin: the caller gets an answer if it has none yet.\<close>

definition afr_unwind :: "txn \<Rightarrow> txn" where
  "afr_unwind s =
     (if main_frame s then s\<lparr>main_frame := False, unwound := unwound s @ [(op_ret s, op_errno s)]\<rparr> else s)"

definition afr_done :: "txn \<Rightarrow> txn" where
  "afr_done s = (let s = afr_unwind s in s\<lparr>destroyed := destroyed s + 1\<rparr>)"

text \<open>
  A loop over the children that sends calls to the selected ones and stops when the number of calls
  announced before has been sent.
\<close>

fun wind_each :: "(nat \<Rightarrow> bool) \<Rightarrow> (nat \<Rightarrow> afr_call list) \<Rightarrow> nat list \<Rightarrow> int \<Rightarrow> txn \<Rightarrow> txn" where
  "wind_each sel cs [] cnt s = s"
| "wind_each sel cs (i # is) cnt s =
     (if sel i then
        (let s = s\<lparr>calls := calls s @ cs i\<rparr>; cnt = cnt - int (length (cs i))
         in if cnt = 0 then s else wind_each sel cs is cnt s)
      else wind_each sel cs is cnt s)"

definition places :: "afr_fop \<Rightarrow> place list" where
  "places f = (if tx_type f = AFR_ENTRY_RENAME_TRANSACTION then [New_Parent, Here] else [Here])"

definition twice :: "afr_fop \<Rightarrow> int \<Rightarrow> int" where
  "twice f cnt = (if tx_type f = AFR_ENTRY_RENAME_TRANSACTION then cnt * 2 else cnt)"

definition afr_unlock :: "afr_private \<Rightarrow> afr_fop \<Rightarrow> txn \<Rightarrow> txn" where
  "afr_unlock p f s =
     (let cnt = afr_locked_nodes_count (locked_nodes s)
      in if cnt = 0 then afr_done s
         else wind_each (\<lambda>i. locked_nodes s ! i) (\<lambda>i. map (Unlock i) (places f)) [0..<child_count p] (twice f cnt)
                (s\<lparr>call_count := twice f cnt\<rparr>))"

definition afr_unlock_common_cbk :: "txn \<Rightarrow> txn" where
  "afr_unlock_common_cbk s =
     (let s = s\<lparr>call_count := call_count s - 1\<rparr> in if call_count s = 0 then afr_done s else s)"

definition unlock_or_done :: "afr_private \<Rightarrow> afr_fop \<Rightarrow> txn \<Rightarrow> txn" where
  "unlock_or_done p f s = (if afr_lock_server_count p (tx_type f) = 0 then afr_done s else afr_unlock p f s)"

section \<open>Taking the announcement back\<close>

definition afr_changelog_post_op_cbk :: "afr_private \<Rightarrow> afr_fop \<Rightarrow> txn \<Rightarrow> txn" where
  "afr_changelog_post_op_cbk p f s =
     (let s = s\<lparr>call_count := call_count s - 1\<rparr> in if call_count s = 0 then unlock_or_done p f s else s)"

definition afr_changelog_post_op :: "afr_private \<Rightarrow> afr_fop \<Rightarrow> txn \<Rightarrow> txn" where
  "afr_changelog_post_op p f s =
     (let pend = mark_down_children (mark_all_success (little_endian p) (child_count p)) (child_up s);
          cnt = twice f (afr_up_children_count (child_up s));
          s = s\<lparr>pending_array := pend, call_count := cnt\<rparr>
      in if cnt = 0 then afr_unlock p f s
         else wind_each (\<lambda>i. child_up s ! i) (\<lambda>i. map (\<lambda>w. Post_Op i w pend) (places f)) [0..<child_count p] cnt s)"

definition afr_transaction_resume :: "afr_private \<Rightarrow> afr_fop \<Rightarrow> txn \<Rightarrow> txn" where
  "afr_transaction_resume p f s =
     (if changelog_needed_post_op p f then afr_changelog_post_op p f s else unlock_or_done p f s)"

section \<open>The operation\<close>

definition afr_transaction_child_died :: "nat \<Rightarrow> txn \<Rightarrow> txn" where
  "afr_transaction_child_died i s = s\<lparr>pending_array := mark_child_dead (pending_array s) i\<rparr>"

definition afr_wind :: "afr_private \<Rightarrow> afr_fop \<Rightarrow> txn \<Rightarrow> txn" where
  "afr_wind p f s =
     (let cnt = afr_up_children_count (child_up s)
      in if cnt = 0 then afr_transaction_resume p f s
         else wind_each (\<lambda>i. child_up s ! i) (\<lambda>i. [Fop i]) [0..<child_count p] cnt (s\<lparr>call_count := cnt\<rparr>))"

definition note_death :: "nat \<Rightarrow> int \<Rightarrow> int \<Rightarrow> txn \<Rightarrow> txn" where
  "note_death i ret err s = (if child_went_down ret err then afr_transaction_child_died i s else s)"

text \<open>The last reply continues the transaction.\<close>

definition afr_frame_return :: "txn \<Rightarrow> txn" where
  "afr_frame_return s = s\<lparr>call_count := call_count s - 1\<rparr>"

definition resume_if_last :: "afr_private \<Rightarrow> afr_fop \<Rightarrow> txn \<Rightarrow> txn" where
  "resume_if_last p f s = (if call_count s = 0 then afr_transaction_resume p f s else s)"

definition unwind_and_resume_if_last :: "afr_private \<Rightarrow> afr_fop \<Rightarrow> txn \<Rightarrow> txn" where
  "unwind_and_resume_if_last p f s = (if call_count s = 0 then afr_transaction_resume p f (afr_unwind s) else s)"

definition count_success :: "int \<Rightarrow> txn \<Rightarrow> txn" where
  "count_success ret s =
     (if ret \<noteq> - 1 then s\<lparr>op_ret := (if success_count s = 0 then ret else op_ret s), success_count := success_count s + 1\<rparr> else s)"

text \<open>
  Returns to the caller after \<^verbatim>\<open>wait_count\<close> successes, or at the end. The callbacks of five other operations
  have the same text.
\<close>

definition afr_chmod_wind_cbk :: "afr_private \<Rightarrow> afr_fop \<Rightarrow> nat \<Rightarrow> int \<Rightarrow> int \<Rightarrow> txn \<Rightarrow> txn" where
  "afr_chmod_wind_cbk p f i ret err s =
     (let s = (count_success ret (note_death i ret err s))\<lparr>op_errno := err\<rparr>;
          s = (if ret \<noteq> - 1 \<and> success_count s = wait_count p then afr_unwind s else s)
      in resume_if_last p f (afr_frame_return s))"

definition afr_fchmod_wind_cbk :: "afr_private \<Rightarrow> afr_fop \<Rightarrow> nat \<Rightarrow> int \<Rightarrow> int \<Rightarrow> txn \<Rightarrow> txn" where
  "afr_fchmod_wind_cbk = afr_chmod_wind_cbk"

definition afr_chown_wind_cbk :: "afr_private \<Rightarrow> afr_fop \<Rightarrow> nat \<Rightarrow> int \<Rightarrow> int \<Rightarrow> txn \<Rightarrow> txn" where
  "afr_chown_wind_cbk = afr_chmod_wind_cbk"

definition afr_fchown_wind_cbk :: "afr_private \<Rightarrow> afr_fop \<Rightarrow> nat \<Rightarrow> int \<Rightarrow> int \<Rightarrow> txn \<Rightarrow> txn" where
  "afr_fchown_wind_cbk = afr_chmod_wind_cbk"

definition afr_truncate_wind_cbk :: "afr_private \<Rightarrow> afr_fop \<Rightarrow> nat \<Rightarrow> int \<Rightarrow> int \<Rightarrow> txn \<Rightarrow> txn" where
  "afr_truncate_wind_cbk = afr_chmod_wind_cbk"

definition afr_ftruncate_wind_cbk :: "afr_private \<Rightarrow> afr_fop \<Rightarrow> nat \<Rightarrow> int \<Rightarrow> int \<Rightarrow> txn \<Rightarrow> txn" where
  "afr_ftruncate_wind_cbk = afr_chmod_wind_cbk"

text \<open>The same, but without a look whether the child went down.\<close>

definition afr_setxattr_wind_cbk :: "afr_private \<Rightarrow> afr_fop \<Rightarrow> nat \<Rightarrow> int \<Rightarrow> int \<Rightarrow> txn \<Rightarrow> txn" where
  "afr_setxattr_wind_cbk p f i ret err s =
     (let s = (count_success ret s)\<lparr>op_errno := err\<rparr>;
          s = (if ret \<noteq> - 1 \<and> success_count s = wait_count p then afr_unwind s else s)
      in resume_if_last p f (afr_frame_return s))"

definition afr_removexattr_wind_cbk :: "afr_private \<Rightarrow> afr_fop \<Rightarrow> nat \<Rightarrow> int \<Rightarrow> int \<Rightarrow> txn \<Rightarrow> txn" where
  "afr_removexattr_wind_cbk = afr_setxattr_wind_cbk"

text \<open>Returns to the caller with the last reply.\<close>

definition afr_writev_wind_cbk :: "afr_private \<Rightarrow> afr_fop \<Rightarrow> nat \<Rightarrow> int \<Rightarrow> int \<Rightarrow> txn \<Rightarrow> txn" where
  "afr_writev_wind_cbk p f i ret err s =
     (let s = (count_success ret (note_death i ret err s))\<lparr>op_errno := err\<rparr>
      in unwind_and_resume_if_last p f (afr_frame_return s))"

definition afr_unlink_wind_cbk :: "afr_private \<Rightarrow> afr_fop \<Rightarrow> nat \<Rightarrow> int \<Rightarrow> int \<Rightarrow> txn \<Rightarrow> txn" where
  "afr_unlink_wind_cbk = afr_writev_wind_cbk"

definition afr_rmdir_wind_cbk :: "afr_private \<Rightarrow> afr_fop \<Rightarrow> nat \<Rightarrow> int \<Rightarrow> int \<Rightarrow> txn \<Rightarrow> txn" where
  "afr_rmdir_wind_cbk = afr_writev_wind_cbk"

text \<open>Also takes the result of every success; the callbacks of the operations that make an entry.\<close>

definition afr_create_wind_cbk :: "afr_private \<Rightarrow> afr_fop \<Rightarrow> nat \<Rightarrow> int \<Rightarrow> int \<Rightarrow> txn \<Rightarrow> txn" where
  "afr_create_wind_cbk p f i ret err s =
     (let s = note_death i ret err s;
          s = (if ret \<noteq> - 1 then s\<lparr>op_ret := ret, success_count := success_count s + 1\<rparr> else s);
          s = s\<lparr>op_errno := err\<rparr>
      in unwind_and_resume_if_last p f (afr_frame_return s))"

definition afr_mknod_wind_cbk :: "afr_private \<Rightarrow> afr_fop \<Rightarrow> nat \<Rightarrow> int \<Rightarrow> int \<Rightarrow> txn \<Rightarrow> txn" where
  "afr_mknod_wind_cbk = afr_create_wind_cbk"

definition afr_mkdir_wind_cbk :: "afr_private \<Rightarrow> afr_fop \<Rightarrow> nat \<Rightarrow> int \<Rightarrow> int \<Rightarrow> txn \<Rightarrow> txn" where
  "afr_mkdir_wind_cbk = afr_create_wind_cbk"

definition afr_link_wind_cbk :: "afr_private \<Rightarrow> afr_fop \<Rightarrow> nat \<Rightarrow> int \<Rightarrow> int \<Rightarrow> txn \<Rightarrow> txn" where
  "afr_link_wind_cbk = afr_create_wind_cbk"

definition afr_symlink_wind_cbk :: "afr_private \<Rightarrow> afr_fop \<Rightarrow> nat \<Rightarrow> int \<Rightarrow> int \<Rightarrow> txn \<Rightarrow> txn" where
  "afr_symlink_wind_cbk = afr_create_wind_cbk"

text \<open>Only the first success is counted.\<close>

definition first_success :: "int \<Rightarrow> txn \<Rightarrow> txn" where
  "first_success ret s =
     (if ret \<noteq> - 1 \<and> success_count s = 0 then s\<lparr>op_ret := ret, success_count := success_count s + 1\<rparr> else s)"

definition afr_rename_wind_cbk :: "afr_private \<Rightarrow> afr_fop \<Rightarrow> nat \<Rightarrow> int \<Rightarrow> int \<Rightarrow> txn \<Rightarrow> txn" where
  "afr_rename_wind_cbk p f i ret err s =
     (let s = (first_success ret (note_death i ret err s))\<lparr>op_errno := err\<rparr>
      in unwind_and_resume_if_last p f (afr_frame_return s))"

definition afr_setdents_wind_cbk :: "afr_private \<Rightarrow> afr_fop \<Rightarrow> nat \<Rightarrow> int \<Rightarrow> int \<Rightarrow> txn \<Rightarrow> txn" where
  "afr_setdents_wind_cbk p f i ret err s =
     (let s = (first_success ret (note_death i ret err s))\<lparr>op_errno := err\<rparr>
      in resume_if_last p f (afr_frame_return s))"

text \<open>The flag that asks for the return to the caller is set from the start.\<close>

definition afr_utimens_wind_cbk :: "afr_private \<Rightarrow> afr_fop \<Rightarrow> nat \<Rightarrow> int \<Rightarrow> int \<Rightarrow> txn \<Rightarrow> txn" where
  "afr_utimens_wind_cbk p f i ret err s =
     (let s = (count_success ret (note_death i ret err s))\<lparr>op_errno := err\<rparr>
      in resume_if_last p f (afr_frame_return (afr_unwind s)))"

definition afr_flush_wind_cbk :: "afr_private \<Rightarrow> afr_fop \<Rightarrow> nat \<Rightarrow> int \<Rightarrow> int \<Rightarrow> txn \<Rightarrow> txn" where
  "afr_flush_wind_cbk p f i ret err s =
     (let s = s\<lparr>op_ret := (if ret = 0 then 0 else op_ret s), op_errno := err\<rparr>
      in resume_if_last p f (afr_frame_return s))"

definition fop_cbk :: "afr_private \<Rightarrow> afr_fop \<Rightarrow> nat \<Rightarrow> int \<Rightarrow> int \<Rightarrow> txn \<Rightarrow> txn" where
  "fop_cbk p f =
     (case tx_name f of
        Chmod \<Rightarrow> afr_chmod_wind_cbk p f
      | Fchmod \<Rightarrow> afr_fchmod_wind_cbk p f
      | Chown \<Rightarrow> afr_chown_wind_cbk p f
      | Fchown \<Rightarrow> afr_fchown_wind_cbk p f
      | Writev \<Rightarrow> afr_writev_wind_cbk p f
      | Truncate \<Rightarrow> afr_truncate_wind_cbk p f
      | Ftruncate \<Rightarrow> afr_ftruncate_wind_cbk p f
      | Utimens \<Rightarrow> afr_utimens_wind_cbk p f
      | Setxattr \<Rightarrow> afr_setxattr_wind_cbk p f
      | Removexattr \<Rightarrow> afr_removexattr_wind_cbk p f
      | Create \<Rightarrow> afr_create_wind_cbk p f
      | Mknod \<Rightarrow> afr_mknod_wind_cbk p f
      | Mkdir \<Rightarrow> afr_mkdir_wind_cbk p f
      | Link \<Rightarrow> afr_link_wind_cbk p f
      | Symlink \<Rightarrow> afr_symlink_wind_cbk p f
      | Rename \<Rightarrow> afr_rename_wind_cbk p f
      | Unlink \<Rightarrow> afr_unlink_wind_cbk p f
      | Rmdir \<Rightarrow> afr_rmdir_wind_cbk p f
      | Setdents \<Rightarrow> afr_setdents_wind_cbk p f
      | Flush \<Rightarrow> afr_flush_wind_cbk p f)"

section \<open>Announcing the change\<close>

definition afr_changelog_pre_op_cbk :: "afr_private \<Rightarrow> afr_fop \<Rightarrow> nat \<Rightarrow> int \<Rightarrow> int \<Rightarrow> txn \<Rightarrow> txn" where
  "afr_changelog_pre_op_cbk p f i ret err s =
     (let s = (if ret = - 1 then
                 s\<lparr>child_up := (child_up s)[i := False], op_ret := (if err = ENOTSUP then - 1 else op_ret s), op_errno := err\<rparr>
               else s);
          s = s\<lparr>call_count := call_count s - 1\<rparr>
      in if call_count s = 0 then
           (if op_ret s = - 1 \<and> op_errno s = ENOTSUP then afr_transaction_resume p f s else afr_wind p f s)
         else s)"

definition afr_changelog_pre_op :: "afr_private \<Rightarrow> afr_fop \<Rightarrow> txn \<Rightarrow> txn" where
  "afr_changelog_pre_op p f s =
     (let cnt = twice f (afr_up_children_count (child_up s))
      in if cnt = 0 then afr_unlock p f s
         else let pend = mark_all_pending (little_endian p) (child_count p);
                  s = s\<lparr>call_count := cnt, pending_array := pend\<rparr>
              in wind_each (\<lambda>i. child_up s ! i) (\<lambda>i. map (\<lambda>w. Pre_Op i w pend) (places f)) [0..<child_count p] cnt s)"

definition start_op :: "afr_private \<Rightarrow> afr_fop \<Rightarrow> txn \<Rightarrow> txn" where
  "start_op p f s =
     (case changelog_needed_pre_op p f s of
        (True, s) \<Rightarrow> afr_changelog_pre_op p f s
      | (False, s) \<Rightarrow> afr_wind p f s)"

section \<open>Locking\<close>

text \<open>
  The two locks of a rename are asked for in the order of the paths of the directories and, if these
  are the same, of the names; \<^verbatim>\<open>strcmp\<close> compares bytes.
\<close>

fun strcmp_le :: "bytes \<Rightarrow> bytes \<Rightarrow> bool" where
  "strcmp_le [] ys = True"
| "strcmp_le (x # xs) [] = False"
| "strcmp_le (x # xs) (y # ys) = (if x = y then strcmp_le xs ys else x < y)"

definition lower_path :: "bytes \<Rightarrow> bytes \<Rightarrow> bytes \<Rightarrow> bytes \<Rightarrow> bool" where
  "lower_path l1 b1 l2 b2 = (if l1 = l2 then strcmp_le b1 b2 else strcmp_le l1 l2)"

definition lock_places :: "afr_fop \<Rightarrow> place list" where
  "lock_places f =
     (if tx_type f = AFR_ENTRY_RENAME_TRANSACTION then if tx_here_first f then [Here, New_Parent] else [New_Parent, Here]
      else [Here])"

text \<open>The first child from position \<open>i\<close> on that is up, or the number of children.\<close>

fun next_up :: "bool list \<Rightarrow> nat \<Rightarrow> nat list \<Rightarrow> nat" where
  "next_up up n [] = n"
| "next_up up n (i # is) = (if up ! i then i else next_up up n is)"

definition afr_lock_rec :: "afr_private \<Rightarrow> afr_fop \<Rightarrow> nat \<Rightarrow> txn \<Rightarrow> txn" where
  "afr_lock_rec p f child_index s =
     (let i = next_up (child_up s) (child_count p) [child_index..<child_count p]
      in if i = child_count p \<and> lock_count s = 0 then afr_done (s\<lparr>op_ret := - 1, op_errno := EAGAIN\<rparr>)
         else if i = child_count p \<or> lock_count s = afr_lock_server_count p (tx_type f) then start_op p f s
         else let s = s\<lparr>calls := calls s @ map (Lock i) (lock_places f)\<rparr>
              in if tx_type f = AFR_ENTRY_RENAME_TRANSACTION then s\<lparr>call_count := 2\<rparr> else s)"

definition afr_lock_cbk :: "afr_private \<Rightarrow> afr_fop \<Rightarrow> nat \<Rightarrow> int \<Rightarrow> int \<Rightarrow> txn \<Rightarrow> txn" where
  "afr_lock_cbk p f i ret err s =
     (let rename = (tx_type f = AFR_ENTRY_RENAME_TRANSACTION);
          s = (if rename then s\<lparr>call_count := call_count s - 1\<rparr> else s);
          s = (if ret = - 1 then
                 s\<lparr>op_ret := (if err = ENOSYS then ret else op_ret s), child_up := (child_up s)[i := False], op_errno := err\<rparr>
               else s)
      in if rename \<and> call_count s \<noteq> 0 then s
         else if op_ret s = - 1 \<and> op_errno s = ENOSYS then afr_unlock p f s
         else afr_lock_rec p f (i + 1) (s\<lparr>locked_nodes := (locked_nodes s)[i := True], lock_count := lock_count s + 1\<rparr>))"

definition afr_lock :: "afr_private \<Rightarrow> afr_fop \<Rightarrow> txn \<Rightarrow> txn" where
  "afr_lock p f s = afr_lock_rec p f 0 s"

section \<open>Transactions\<close>

text \<open>\<^verbatim>\<open>AFR_LOCAL_INIT\<close> and \<^verbatim>\<open>afr_transaction_local_init\<close>; \<open>up\<close> are the children that are up.\<close>

definition AFR_LOCAL_INIT :: "bool list \<Rightarrow> bool \<Rightarrow> int + txn" where
  "AFR_LOCAL_INIT up seen =
     (if afr_up_children_count up = 0 then Inl (- ENOTCONN)
      else Inr \<lparr>child_up = up, call_count = afr_up_children_count up, success_count = 0, op_ret = - 1, op_errno = EUCLEAN,
        pending_array = [], locked_nodes = [], lock_count = 0, main_frame = True, fd_seen = seen, calls = [],
        unwound = [], destroyed = 0\<rparr>)"

definition afr_transaction :: "afr_private \<Rightarrow> afr_fop \<Rightarrow> txn \<Rightarrow> txn" where
  "afr_transaction p f s =
     (let s = s\<lparr>pending_array := replicate (child_count p) 0, locked_nodes := replicate (child_count p) False\<rparr>
      in if afr_lock_server_count p (tx_type f) = 0 then start_op p f s else afr_lock p f s)"

text \<open>The result of an operation of the translator: an immediate error, or a transaction that has begun.\<close>

definition begin_fop :: "afr_private \<Rightarrow> bool list \<Rightarrow> bool \<Rightarrow> afr_fop \<Rightarrow> int + txn" where
  "begin_fop p up seen f =
     (case AFR_LOCAL_INIT up seen of Inl err \<Rightarrow> Inl (- err) | Inr s \<Rightarrow> Inr (afr_transaction p f s))"

definition fop_of :: "tx_type \<Rightarrow> fop_op \<Rightarrow> afr_key \<Rightarrow> bool \<Rightarrow> fop_name \<Rightarrow> afr_fop" where
  "fop_of t op key fd name = \<lparr>tx_type = t, tx_op = op, tx_key = key, tx_fd = fd, tx_name = name, tx_here_first = True\<rparr>"

definition afr_chmod :: "afr_private \<Rightarrow> bool list \<Rightarrow> bool \<Rightarrow> int + txn" where
  "afr_chmod p up seen = begin_fop p up seen (fop_of AFR_METADATA_TRANSACTION Other_fop AFR_METADATA_PENDING False Chmod)"

definition afr_fchmod :: "afr_private \<Rightarrow> bool list \<Rightarrow> bool \<Rightarrow> int + txn" where
  "afr_fchmod p up seen = begin_fop p up seen (fop_of AFR_METADATA_TRANSACTION Other_fop AFR_METADATA_PENDING True Fchmod)"

definition afr_chown :: "afr_private \<Rightarrow> bool list \<Rightarrow> bool \<Rightarrow> int + txn" where
  "afr_chown p up seen = begin_fop p up seen (fop_of AFR_METADATA_TRANSACTION Other_fop AFR_METADATA_PENDING False Chown)"

definition afr_fchown :: "afr_private \<Rightarrow> bool list \<Rightarrow> bool \<Rightarrow> int + txn" where
  "afr_fchown p up seen = begin_fop p up seen (fop_of AFR_METADATA_TRANSACTION Other_fop AFR_METADATA_PENDING True Fchown)"

definition afr_writev :: "afr_private \<Rightarrow> bool list \<Rightarrow> bool \<Rightarrow> int + txn" where
  "afr_writev p up seen = begin_fop p up seen (fop_of AFR_DATA_TRANSACTION GF_FOP_WRITE AFR_DATA_PENDING True Writev)"

definition afr_truncate :: "afr_private \<Rightarrow> bool list \<Rightarrow> bool \<Rightarrow> int + txn" where
  "afr_truncate p up seen = begin_fop p up seen (fop_of AFR_DATA_TRANSACTION Other_fop AFR_DATA_PENDING False Truncate)"

definition afr_ftruncate :: "afr_private \<Rightarrow> bool list \<Rightarrow> bool \<Rightarrow> int + txn" where
  "afr_ftruncate p up seen = begin_fop p up seen (fop_of AFR_DATA_TRANSACTION GF_FOP_FTRUNCATE AFR_DATA_PENDING True Ftruncate)"

definition afr_utimens :: "afr_private \<Rightarrow> bool list \<Rightarrow> bool \<Rightarrow> int + txn" where
  "afr_utimens p up seen = begin_fop p up seen (fop_of AFR_METADATA_TRANSACTION Other_fop AFR_METADATA_PENDING False Utimens)"

definition afr_setxattr :: "afr_private \<Rightarrow> bool list \<Rightarrow> bool \<Rightarrow> int + txn" where
  "afr_setxattr p up seen = begin_fop p up seen (fop_of AFR_METADATA_TRANSACTION Other_fop AFR_METADATA_PENDING False Setxattr)"

definition afr_removexattr :: "afr_private \<Rightarrow> bool list \<Rightarrow> bool \<Rightarrow> int + txn" where
  "afr_removexattr p up seen = begin_fop p up seen (fop_of AFR_METADATA_TRANSACTION Other_fop AFR_METADATA_PENDING False Removexattr)"

definition afr_create :: "afr_private \<Rightarrow> bool list \<Rightarrow> bool \<Rightarrow> int + txn" where
  "afr_create p up seen = begin_fop p up seen (fop_of AFR_ENTRY_TRANSACTION Other_fop AFR_ENTRY_PENDING False Create)"

definition afr_mknod :: "afr_private \<Rightarrow> bool list \<Rightarrow> bool \<Rightarrow> int + txn" where
  "afr_mknod p up seen = begin_fop p up seen (fop_of AFR_ENTRY_TRANSACTION Other_fop AFR_ENTRY_PENDING False Mknod)"

definition afr_mkdir :: "afr_private \<Rightarrow> bool list \<Rightarrow> bool \<Rightarrow> int + txn" where
  "afr_mkdir p up seen = begin_fop p up seen (fop_of AFR_ENTRY_TRANSACTION Other_fop AFR_ENTRY_PENDING False Mkdir)"

definition afr_link :: "afr_private \<Rightarrow> bool list \<Rightarrow> bool \<Rightarrow> int + txn" where
  "afr_link p up seen = begin_fop p up seen (fop_of AFR_ENTRY_TRANSACTION Other_fop AFR_ENTRY_PENDING False Link)"

definition afr_symlink :: "afr_private \<Rightarrow> bool list \<Rightarrow> bool \<Rightarrow> int + txn" where
  "afr_symlink p up seen = begin_fop p up seen (fop_of AFR_ENTRY_TRANSACTION Other_fop AFR_ENTRY_PENDING False Symlink)"

definition afr_unlink :: "afr_private \<Rightarrow> bool list \<Rightarrow> bool \<Rightarrow> int + txn" where
  "afr_unlink p up seen = begin_fop p up seen (fop_of AFR_ENTRY_TRANSACTION Other_fop AFR_ENTRY_PENDING False Unlink)"

definition afr_rmdir :: "afr_private \<Rightarrow> bool list \<Rightarrow> bool \<Rightarrow> int + txn" where
  "afr_rmdir p up seen = begin_fop p up seen (fop_of AFR_ENTRY_TRANSACTION Other_fop AFR_ENTRY_PENDING False Rmdir)"

definition afr_setdents :: "afr_private \<Rightarrow> bool list \<Rightarrow> bool \<Rightarrow> int + txn" where
  "afr_setdents p up seen = begin_fop p up seen (fop_of AFR_ENTRY_TRANSACTION Other_fop AFR_ENTRY_PENDING True Setdents)"

definition afr_rename :: "afr_private \<Rightarrow> bool list \<Rightarrow> bytes \<Rightarrow> bytes \<Rightarrow> bytes \<Rightarrow> bytes \<Rightarrow> bool \<Rightarrow> int + txn" where
  "afr_rename p up l1 b1 l2 b2 seen =
     begin_fop p up seen ((fop_of AFR_ENTRY_RENAME_TRANSACTION Other_fop AFR_ENTRY_PENDING False Rename)
       \<lparr>tx_here_first := lower_path l1 b1 l2 b2\<rparr>)"

text \<open>
  A flush is a transaction only if something was written through the open file; otherwise the calls
  are just sent, and their callback answers with the last reply.
\<close>

definition flush_fop :: afr_fop where
  "flush_fop = fop_of AFR_FLUSH_TRANSACTION GF_FOP_FLUSH AFR_DATA_PENDING True Flush"

definition afr_flush :: "afr_private \<Rightarrow> bool list \<Rightarrow> bool \<Rightarrow> int + txn" where
  "afr_flush p up seen =
     (case AFR_LOCAL_INIT up seen of
        Inl err \<Rightarrow> Inl (- err)
      | Inr s \<Rightarrow>
          Inr (if fd_seen s then afr_transaction p flush_fop s
               else wind_each (\<lambda>i. child_up s ! i) (\<lambda>i. [Fop i]) [0..<child_count p] (call_count s) s))"

definition afr_simple_flush_cbk :: "int \<Rightarrow> int \<Rightarrow> txn \<Rightarrow> txn" where
  "afr_simple_flush_cbk ret err s =
     (let s = afr_frame_return (s\<lparr>op_ret := (if ret = 0 then 0 else op_ret s), op_errno := err\<rparr>)
      in if call_count s = 0 then afr_done s else s)"

section \<open>Replies\<close>

definition afr_reply :: "afr_private \<Rightarrow> afr_fop \<Rightarrow> afr_call \<Rightarrow> int \<Rightarrow> int \<Rightarrow> txn \<Rightarrow> txn" where
  "afr_reply p f c ret err s =
     (let s = s\<lparr>calls := remove1 c (calls s)\<rparr>
      in case c of
           Lock i w \<Rightarrow> afr_lock_cbk p f i ret err s
         | Pre_Op i w a \<Rightarrow> afr_changelog_pre_op_cbk p f i ret err s
         | Fop i \<Rightarrow> fop_cbk p f i ret err s
         | Post_Op i w a \<Rightarrow> afr_changelog_post_op_cbk p f s
         | Unlock i w \<Rightarrow> afr_unlock_common_cbk s)"

section \<open>A volume with two children\<close>

definition pair :: afr_private where
  "pair = \<lparr>child_count = 2, data_change_log = True, metadata_change_log = True, entry_change_log = True,
     data_lock_server_count = 1, metadata_lock_server_count = 1, entry_lock_server_count = 1, wait_count = 1,
     data_self_heal = True, metadata_self_heal = True, favorite_child = None, little_endian = True\<rparr>"

end
