(* ===== verification/Afr_Runs.thy ===== *)
theory Afr_Runs
  imports Afr_Transaction
begin

text \<open>
  Runs of a transaction of the replicate translator: what each handler sends, the invariant that every
  reply keeps, the measure that every reply makes smaller, and the case distinctions of a reply that the
  other theories about transactions use.
\<close>

section \<open>What the handlers send\<close>

lemma wind_each_all:
  assumes "cnt = int (length (concat (map cs (filter sel is))))" "\<And>i. i \<in> set is \<Longrightarrow> cs i \<noteq> []"
  shows "wind_each sel cs is cnt s = s\<lparr>calls := calls s @ concat (map cs (filter sel is))\<rparr>"
  using assms
proof (induction "is" arbitrary: cnt s)
  case (Cons i "is")
  define R where "R = concat (map cs (filter sel is))"
  have IH: "wind_each sel cs is (int (length R)) t = t\<lparr>calls := calls t @ R\<rparr>" for t
    unfolding R_def using Cons.prems(2) by (intro Cons.IH) auto
  show ?case
  proof (cases "sel i")
    case True
    have all: "concat (map cs (filter sel (i # is))) = cs i @ R" using True by (simp add: R_def)
    then have "cnt - int (length (cs i)) = int (length R)" using Cons.prems(1) by (simp only: all) simp
    then show ?thesis unfolding all using True IH by (cases R) (simp_all add: Let_def)
  next
    case False
    then have all: "concat (map cs (filter sel (i # is))) = R" by (simp add: R_def)
    show ?thesis using False Cons.prems(1) IH unfolding all by simp
  qed
qed simp

lemma filter_positions: "length (filter (\<lambda>i. xs ! i) [0..<length xs]) = length (filter id xs)"
proof -
  have "filter id (map ((!) xs) [0..<length xs]) = map ((!) xs) (filter (\<lambda>i. xs ! i) [0..<length xs])"
    by (simp add: filter_map comp_def)
  then show ?thesis by (metis length_map map_nth)
qed

lemma twice_eq: "twice f n = n * int (length (places f))"
  by (simp add: places_def twice_def)

lemma places_length: "places f \<noteq> []" "lock_places f \<noteq> []"
  "length (lock_places f) = length (places f)" "length (places f) \<le> 2" "0 < length (places f)"
  by (simp_all add: places_def twice_def lock_places_def)

definition sent_to :: "bool list \<Rightarrow> (nat \<Rightarrow> afr_call list) \<Rightarrow> afr_call list" where
  "sent_to sel cs = concat (map cs (filter (\<lambda>i. sel ! i) [0..<length sel]))"

lemma length_concat_same: "(\<And>i. i \<in> set is \<Longrightarrow> length (cs i) = m) \<Longrightarrow> length (concat (map cs is)) = length is * m"
  by (induction "is") auto

lemma length_sent_to: "(\<And>i. length (cs i) = m) \<Longrightarrow> length (sent_to sel cs) = length (filter id sel) * m"
  using length_concat_same[of "filter (\<lambda>i. sel ! i) [0..<length sel]" cs m] filter_positions[of sel]
  by (simp add: sent_to_def)

lemma wind_each_sent:
  assumes "length sel = n" "\<And>i. length (cs i) = m" "0 < m" "cnt = int (length (filter id sel)) * int m"
  shows "wind_each (\<lambda>i. sel ! i) cs [0..<n] cnt s = s\<lparr>calls := calls s @ sent_to sel cs\<rparr>"
proof -
  have c: "cnt = int (length (concat (map cs (filter (\<lambda>i. sel ! i) [0..<n]))))"
    using length_sent_to[of cs m sel, OF assms(2)] assms(1,4) by (simp add: sent_to_def)
  have "cs i \<noteq> []" for i using assms(2)[of i] assms(3) by auto
  then show ?thesis unfolding sent_to_def assms(1) by (rule wind_each_all[OF c])
qed

text \<open>The states that the translator's own bookkeeping relies on.\<close>

definition txn_wf :: "afr_private \<Rightarrow> txn \<Rightarrow> bool" where
  "txn_wf p s \<longleftrightarrow> length (child_up s) = child_count p \<and> length (locked_nodes s) = child_count p"

lemma afr_unlock_eq:
  assumes "txn_wf p s"
  shows "afr_unlock p f s = (let us = sent_to (locked_nodes s) (\<lambda>i. map (Unlock i) (places f))
    in if us = [] then afr_done s else s\<lparr>call_count := int (length us), calls := calls s @ us\<rparr>)"
proof -
  let ?n = "length (filter id (locked_nodes s))"
  let ?us = "sent_to (locked_nodes s) (\<lambda>i. map (Unlock i) (places f))"
  have len: "int (length ?us) = twice f (int ?n)"
    using length_sent_to[of "\<lambda>i. map (Unlock i) (places f)" "length (places f)" "locked_nodes s"]
    by (simp add: twice_eq)
  show ?thesis
  proof (cases "?n = 0")
    case True
    then have "length ?us = 0" using len by (simp add: twice_def split: if_splits)
    then show ?thesis using True by (simp add: afr_unlock_def afr_locked_nodes_count_def)
  next
    case False
    then have ne: "length ?us \<noteq> 0" using len by (auto simp: twice_def split: if_splits)
    have "wind_each ((!) (locked_nodes s)) (\<lambda>i. map (Unlock i) (places f)) [0..<child_count p] (twice f (int ?n)) t
        = t\<lparr>calls := calls t @ ?us\<rparr>" for t
      by (rule wind_each_sent[where m = "length (places f)"]) (use assms in \<open>simp_all add: txn_wf_def twice_eq places_length\<close>)
    then show ?thesis using False ne len by (auto simp: afr_unlock_def afr_locked_nodes_count_def Let_def)
  qed
qed

abbreviation post_array :: "afr_private \<Rightarrow> bool list \<Rightarrow> u32 list" where
  "post_array p up \<equiv> mark_down_children (mark_all_success (little_endian p) (child_count p)) up"

abbreviation pre_array :: "afr_private \<Rightarrow> u32 list" where
  "pre_array p \<equiv> mark_all_pending (little_endian p) (child_count p)"

lemma afr_post_op_eq:
  assumes "txn_wf p s"
  shows "afr_changelog_post_op p f s = (let pend = post_array p (child_up s); cs = sent_to (child_up s) (\<lambda>i. map (\<lambda>w. Post_Op i w pend) (places f));
      s' = s\<lparr>pending_array := pend, call_count := int (length cs)\<rparr>
    in if cs = [] then afr_unlock p f s' else s'\<lparr>calls := calls s @ cs\<rparr>)"
proof -
  let ?n = "length (filter id (child_up s))" and ?pend = "post_array p (child_up s)"
  let ?cs = "sent_to (child_up s) (\<lambda>i. map (\<lambda>w. Post_Op i w ?pend) (places f))"
  have len: "int (length ?cs) = twice f (int ?n)"
    using length_sent_to[of "\<lambda>i. map (\<lambda>w. Post_Op i w ?pend) (places f)" "length (places f)" "child_up s"]
    by (simp add: twice_eq)
  have "wind_each ((!) (child_up s)) (\<lambda>i. map (\<lambda>w. Post_Op i w ?pend) (places f)) [0..<child_count p] (twice f (int ?n)) t
      = t\<lparr>calls := calls t @ ?cs\<rparr>" for t
    by (rule wind_each_sent[where m = "length (places f)"]) (use assms in \<open>simp_all add: txn_wf_def twice_eq places_length\<close>)
  moreover have "(?cs = []) = (twice f (int ?n) = 0)" using len by (cases ?cs) auto
  ultimately show ?thesis using len by (auto simp: afr_changelog_post_op_def afr_up_children_count_def Let_def)
qed

lemma afr_pre_op_eq:
  assumes "txn_wf p s"
  shows "afr_changelog_pre_op p f s = (let cs = sent_to (child_up s) (\<lambda>i. map (\<lambda>w. Pre_Op i w (pre_array p)) (places f))
    in if cs = [] then afr_unlock p f s
       else s\<lparr>call_count := int (length cs), pending_array := pre_array p, calls := calls s @ cs\<rparr>)"
proof -
  let ?n = "length (filter id (child_up s))"
  let ?cs = "sent_to (child_up s) (\<lambda>i. map (\<lambda>w. Pre_Op i w (pre_array p)) (places f))"
  have len: "int (length ?cs) = twice f (int ?n)"
    using length_sent_to[of "\<lambda>i. map (\<lambda>w. Pre_Op i w (pre_array p)) (places f)" "length (places f)" "child_up s"]
    by (simp add: twice_eq)
  have "wind_each ((!) (child_up s)) (\<lambda>i. map (\<lambda>w. Pre_Op i w (pre_array p)) (places f)) [0..<child_count p] (twice f (int ?n)) t
      = t\<lparr>calls := calls t @ ?cs\<rparr>" for t
    by (rule wind_each_sent[where m = "length (places f)"]) (use assms in \<open>simp_all add: txn_wf_def twice_eq places_length\<close>)
  moreover have "(?cs = []) = (twice f (int ?n) = 0)" using len by (cases ?cs) auto
  ultimately show ?thesis using len by (auto simp: afr_changelog_pre_op_def afr_up_children_count_def Let_def)
qed

lemma afr_wind_eq:
  assumes "txn_wf p s"
  shows "afr_wind p f s = (let cs = sent_to (child_up s) (\<lambda>i. [Fop i])
    in if cs = [] then afr_transaction_resume p f s else s\<lparr>call_count := int (length cs), calls := calls s @ cs\<rparr>)"
proof -
  let ?n = "length (filter id (child_up s))" and ?cs = "sent_to (child_up s) (\<lambda>i. [Fop i])"
  have len: "length ?cs = ?n" using length_sent_to[of "\<lambda>i. [Fop i]" 1 "child_up s"] by simp
  have "wind_each ((!) (child_up s)) (\<lambda>i. [Fop i]) [0..<child_count p] (int ?n) t = t\<lparr>calls := calls t @ ?cs\<rparr>" for t
    by (rule wind_each_sent[where m = 1]) (use assms in \<open>auto simp: txn_wf_def\<close>)
  moreover have "(?cs = []) = (?n = 0)" using len by (cases ?cs) auto
  ultimately show ?thesis using len by (auto simp: afr_wind_def afr_up_children_count_def Let_def)
qed

section \<open>Every transaction ends, and answers once\<close>

fun kind :: "afr_call \<Rightarrow> nat" where
  "kind (Lock i w) = 4"
| "kind (Pre_Op i w a) = 3"
| "kind (Fop i) = 2"
| "kind (Post_Op i w a) = 1"
| "kind (Unlock i w) = 0"

definition answered :: "txn \<Rightarrow> bool" where
  "answered s \<longleftrightarrow> (main_frame s \<longleftrightarrow> unwound s = []) \<and> length (unwound s) \<le> 1"

definition ready :: "afr_private \<Rightarrow> txn \<Rightarrow> bool" where
  "ready p s \<longleftrightarrow> txn_wf p s \<and> answered s \<and> calls s = [] \<and> destroyed s = 0"

definition waiting :: "afr_private \<Rightarrow> afr_fop \<Rightarrow> txn \<Rightarrow> bool" where
  "waiting p f s \<longleftrightarrow>
     (\<exists>k < 4. (\<forall>c \<in> set (calls s). kind c = k) \<and> call_count s = int (length (calls s)))
   \<or> (\<exists>i < child_count p. (\<forall>c \<in> set (calls s). \<exists>w. c = Lock i w)
        \<and> (if tx_type f = AFR_ENTRY_RENAME_TRANSACTION then call_count s = int (length (calls s)) \<and> length (calls s) \<le> 2
           else length (calls s) = 1))"

definition tx_inv :: "afr_private \<Rightarrow> afr_fop \<Rightarrow> txn \<Rightarrow> bool" where
  "tx_inv p f s \<longleftrightarrow> txn_wf p s \<and> answered s \<and>
     (if calls s = [] then destroyed s = 1 \<and> \<not> main_frame s else destroyed s = 0 \<and> waiting p f s)"

abbreviation W :: "afr_private \<Rightarrow> nat" where "W p \<equiv> 2 * child_count p + 1"

fun weight :: "afr_private \<Rightarrow> afr_call \<Rightarrow> nat" where
  "weight p (Lock i w) = 4 * W p + 3 * (child_count p - i)"
| "weight p c = kind c * W p"

definition left :: "afr_private \<Rightarrow> txn \<Rightarrow> nat" where
  "left p s = (case calls s of [] \<Rightarrow> 0 | c # _ \<Rightarrow> weight p c + length (calls s))"

lemma sent_to_mem: "c \<in> set (sent_to sel cs) \<Longrightarrow> \<exists>i. c \<in> set (cs i)"
  by (auto simp: sent_to_def)

lemma sent_to_bound:
  assumes "\<And>i. length (cs i) = m" "m \<le> 2"
  shows "length (sent_to sel cs) \<le> 2 * length sel"
proof -
  have "length (filter id sel) * m \<le> length sel * 2" using assms(2) length_filter_le by (intro mult_le_mono) auto
  then show ?thesis using length_sent_to[of cs m sel] assms(1) by (simp add: mult.commute)
qed

lemma sent_inv:
  assumes "txn_wf p s" "answered s" "destroyed s = 0" "cs \<noteq> []" "calls s = cs" "call_count s = int (length cs)"
    and "\<forall>c \<in> set cs. kind c = k" "k < 4" "length cs \<le> 2 * child_count p"
  shows "tx_inv p f s \<and> left p s < Suc k * W p"
proof -
  have "waiting p f s" using assms(5-8) unfolding waiting_def by blast
  moreover obtain c ds where c: "cs = c # ds" using assms(4) by (cases cs) auto
  then have "weight p c = k * W p" using assms(7,8) by (cases c) auto
  then have "left p s < Suc k * W p" using assms(5,9) c by (simp add: left_def)
  ultimately show ?thesis using assms(1-5) by (simp add: tx_inv_def)
qed

lemma done_ok:
  assumes "txn_wf p s" "answered s" "calls s = []" "destroyed s = 0"
  shows "tx_inv p f (afr_done s) \<and> left p (afr_done s) = 0"
  using assms by (auto simp: tx_inv_def afr_done_def afr_unwind_def answered_def txn_wf_def left_def Let_def)

lemma unlock_ok:
  assumes "ready p s"
  shows "tx_inv p f (afr_unlock p f s) \<and> left p (afr_unlock p f s) < W p"
proof -
  let ?us = "sent_to (locked_nodes s) (\<lambda>i. map (Unlock i) (places f))"
  have r: "txn_wf p s" "answered s" "calls s = []" "destroyed s = 0" using assms by (simp_all add: ready_def)
  show ?thesis
  proof (cases "?us = []")
    case True
    then show ?thesis using done_ok[OF r] by (simp add: afr_unlock_eq[OF r(1)] Let_def)
  next
    case False
    let ?s = "s\<lparr>call_count := int (length ?us), calls := ?us\<rparr>"
    have "tx_inv p f ?s \<and> left p ?s < Suc 0 * W p"
    proof (rule sent_inv[where cs = ?us])
      show "\<forall>c \<in> set ?us. kind c = 0" using sent_to_mem by fastforce
      show "length ?us \<le> 2 * child_count p"
        using sent_to_bound[of "\<lambda>i. map (Unlock i) (places f)" "length (places f)" "locked_nodes s"] places_length r(1)
        by (simp add: txn_wf_def)
    qed (use r False in \<open>auto simp: txn_wf_def answered_def\<close>)
    then show ?thesis using False r(3) by (simp add: afr_unlock_eq[OF r(1)] Let_def)
  qed
qed

lemma unlock_or_done_ok:
  assumes "ready p s"
  shows "tx_inv p f (unlock_or_done p f s) \<and> left p (unlock_or_done p f s) < W p"
  using unlock_ok[OF assms] done_ok[of p s f] assms by (auto simp: unlock_or_done_def ready_def)

lemma post_op_ok:
  assumes "ready p s"
  shows "tx_inv p f (afr_changelog_post_op p f s) \<and> left p (afr_changelog_post_op p f s) < 2 * W p"
proof -
  let ?pend = "post_array p (child_up s)"
  let ?cs = "sent_to (child_up s) (\<lambda>i. map (\<lambda>w. Post_Op i w ?pend) (places f))"
  let ?s = "s\<lparr>pending_array := ?pend, call_count := int (length ?cs)\<rparr>"
  have r: "txn_wf p s" "answered s" "calls s = []" "destroyed s = 0" using assms by (simp_all add: ready_def)
  show ?thesis
  proof (cases "?cs = []")
    case True
    have "ready p ?s" using assms by (simp add: ready_def txn_wf_def answered_def)
    then show ?thesis using unlock_ok[of p ?s f] True by (simp add: afr_post_op_eq[OF r(1)] Let_def)
  next
    case False
    have "tx_inv p f (?s\<lparr>calls := ?cs\<rparr>) \<and> left p (?s\<lparr>calls := ?cs\<rparr>) < Suc 1 * W p"
    proof (rule sent_inv[where cs = ?cs])
      show "\<forall>c \<in> set ?cs. kind c = 1" using sent_to_mem by fastforce
      show "length ?cs \<le> 2 * child_count p"
        using sent_to_bound[of "\<lambda>i. map (\<lambda>w. Post_Op i w ?pend) (places f)" "length (places f)" "child_up s"] places_length r(1)
        by (simp add: txn_wf_def)
    qed (use r False in \<open>auto simp: txn_wf_def answered_def\<close>)
    then show ?thesis using False r(3) by (simp add: afr_post_op_eq[OF r(1)] Let_def)
  qed
qed

lemma resume_ok:
  assumes "ready p s"
  shows "tx_inv p f (afr_transaction_resume p f s) \<and> left p (afr_transaction_resume p f s) < 2 * W p"
  using post_op_ok[OF assms, of f] unlock_or_done_ok[OF assms, of f] by (auto simp: afr_transaction_resume_def)

lemma wind_ok:
  assumes "ready p s"
  shows "tx_inv p f (afr_wind p f s) \<and> left p (afr_wind p f s) < 3 * W p"
proof -
  let ?cs = "sent_to (child_up s) (\<lambda>i. [Fop i])"
  have r: "txn_wf p s" "answered s" "calls s = []" "destroyed s = 0" using assms by (simp_all add: ready_def)
  show ?thesis
  proof (cases "?cs = []")
    case True
    then show ?thesis using resume_ok[OF assms, of f] by (simp add: afr_wind_eq[OF r(1)] Let_def)
  next
    case False
    let ?s = "s\<lparr>call_count := int (length ?cs), calls := ?cs\<rparr>"
    have "tx_inv p f ?s \<and> left p ?s < Suc 2 * W p"
    proof (rule sent_inv[where cs = ?cs])
      show "\<forall>c \<in> set ?cs. kind c = 2" using sent_to_mem by fastforce
      show "length ?cs \<le> 2 * child_count p"
        using sent_to_bound[of "\<lambda>i. [Fop i]" 1 "child_up s"] r(1) by (simp add: txn_wf_def)
    qed (use r False in \<open>auto simp: txn_wf_def answered_def\<close>)
    then show ?thesis using False r(3) by (simp add: afr_wind_eq[OF r(1)] Let_def)
  qed
qed

lemma pre_op_ok:
  assumes "ready p s"
  shows "tx_inv p f (afr_changelog_pre_op p f s) \<and> left p (afr_changelog_pre_op p f s) < 4 * W p"
proof -
  let ?cs = "sent_to (child_up s) (\<lambda>i. map (\<lambda>w. Pre_Op i w (pre_array p)) (places f))"
  let ?s = "s\<lparr>call_count := int (length ?cs), pending_array := pre_array p, calls := ?cs\<rparr>"
  have r: "txn_wf p s" "answered s" "calls s = []" "destroyed s = 0" using assms by (simp_all add: ready_def)
  show ?thesis
  proof (cases "?cs = []")
    case True
    then show ?thesis using unlock_ok[OF assms, of f] by (simp add: afr_pre_op_eq[OF r(1)] Let_def)
  next
    case False
    have "tx_inv p f ?s \<and> left p ?s < Suc 3 * W p"
    proof (rule sent_inv[where cs = ?cs])
      show "\<forall>c \<in> set ?cs. kind c = 3" using sent_to_mem by fastforce
      show "length ?cs \<le> 2 * child_count p"
        using sent_to_bound[of "\<lambda>i. map (\<lambda>w. Pre_Op i w (pre_array p)) (places f)" "length (places f)" "child_up s"] places_length r(1)
        by (simp add: txn_wf_def)
    qed (use r False in \<open>auto simp: txn_wf_def answered_def\<close>)
    then show ?thesis using False r(3) by (simp add: afr_pre_op_eq[OF r(1)] Let_def)
  qed
qed

lemma start_op_ok:
  assumes "ready p s"
  shows "tx_inv p f (start_op p f s) \<and> left p (start_op p f s) < 4 * W p"
proof -
  obtain b s' where b: "changelog_needed_pre_op p f s = (b, s')" by fastforce
  then have "ready p s'"
    using assms by (auto simp: changelog_needed_pre_op_def ready_def txn_wf_def answered_def split: if_splits fop_op.splits)
  then show ?thesis using b pre_op_ok[of p s' f] wind_ok[of p s' f] by (cases b) (auto simp: start_op_def)
qed

lemma next_up_bound: "next_up up n [i..<n] \<le> n \<and> (i \<le> n \<longrightarrow> i \<le> next_up up n [i..<n])"
proof -
  have "next_up up n is \<in> insert n (set is)" for "is" by (induction "is") auto
  from this[of "[i..<n]"] show ?thesis by auto
qed

lemma lock_rec_cases:
  assumes "calls s = []" "i \<le> child_count p"
  obtains (none) "lock_count s = 0" "afr_lock_rec p f i s = afr_done (s\<lparr>op_ret := - 1, op_errno := EAGAIN\<rparr>)"
  | (start) "afr_lock_rec p f i s = start_op p f s"
  | (lock) j where "i \<le> j" "j < child_count p"
      "afr_lock_rec p f i s = s\<lparr>calls := map (Lock j) (lock_places f),
         call_count := (if tx_type f = AFR_ENTRY_RENAME_TRANSACTION then 2 else call_count s)\<rparr>"
proof -
  let ?j = "next_up (child_up s) (child_count p) [i..<child_count p]"
  have j: "?j \<le> child_count p" "i \<le> ?j" using next_up_bound assms(2) by blast+
  show ?thesis
  proof (cases "?j = child_count p \<or> lock_count s = afr_lock_server_count p (tx_type f)")
    case True
    then show ?thesis using none start by (cases "?j = child_count p \<and> lock_count s = 0") (auto simp: afr_lock_rec_def)
  next
    case False
    then show ?thesis using lock[of ?j] j assms(1) by (auto simp: afr_lock_rec_def Let_def)
  qed
qed

lemma lock_rec_ok:
  assumes "ready p s" "i \<le> child_count p"
  shows "tx_inv p f (afr_lock_rec p f i s) \<and> left p (afr_lock_rec p f i s) < 4 * W p + 3 * (child_count p - i) + 3"
proof -
  have r: "txn_wf p s" "answered s" "calls s = []" "destroyed s = 0" using assms(1) by (simp_all add: ready_def)
  from r(3) assms(2) show ?thesis
  proof (cases rule: lock_rec_cases[where f = f, consumes 2, case_names none start lock])
    case none
    then show ?thesis using done_ok[of p "s\<lparr>op_ret := - 1, op_errno := EAGAIN\<rparr>" f] r
      by (simp add: txn_wf_def answered_def)
  next
    case start
    then show ?thesis using start_op_ok[OF assms(1), of f] by auto
  next
    case (lock j)
    let ?s = "s\<lparr>calls := map (Lock j) (lock_places f),
      call_count := (if tx_type f = AFR_ENTRY_RENAME_TRANSACTION then 2 else call_count s)\<rparr>"
    have "waiting p f ?s"
      unfolding waiting_def using lock(2) by (intro disjI2 exI[of _ j]) (auto simp: lock_places_def)
    moreover have "left p ?s < 4 * W p + 3 * (child_count p - i) + 3"
    proof -
      have "3 * (child_count p - j) \<le> 3 * (child_count p - i)" using lock(1) by (intro mult_le_mono diff_le_mono2) auto
      moreover obtain w ws where "lock_places f = w # ws" "length ws \<le> 1" using places_length[of f] by (cases "lock_places f") auto
      ultimately show ?thesis by (auto simp: left_def)
    qed
    ultimately show ?thesis using lock(3) r places_length(2)[of f] by (auto simp: tx_inv_def txn_wf_def answered_def)
  qed
qed

text \<open>What the callbacks note before they go on.\<close>

definition lock_noted :: "afr_fop \<Rightarrow> nat \<Rightarrow> int \<Rightarrow> int \<Rightarrow> txn \<Rightarrow> txn" where
  "lock_noted f i ret err s =
     (let s = (if tx_type f = AFR_ENTRY_RENAME_TRANSACTION then s\<lparr>call_count := call_count s - 1\<rparr> else s)
      in if ret = - 1 then s\<lparr>op_ret := (if err = ENOSYS then ret else op_ret s), child_up := (child_up s)[i := False], op_errno := err\<rparr> else s)"

definition now_locked :: "nat \<Rightarrow> txn \<Rightarrow> txn" where
  "now_locked i s = s\<lparr>locked_nodes := (locked_nodes s)[i := True], lock_count := lock_count s + 1\<rparr>"

lemma afr_lock_cbk_eq:
  "afr_lock_cbk p f i ret err s =
    (let t = lock_noted f i ret err s
     in if tx_type f = AFR_ENTRY_RENAME_TRANSACTION \<and> call_count t \<noteq> 0 then t
        else if op_ret t = - 1 \<and> op_errno t = ENOSYS then afr_unlock p f t else afr_lock_rec p f (i + 1) (now_locked i t))"
  unfolding afr_lock_cbk_def lock_noted_def now_locked_def Let_def by (rule refl)

definition pre_noted :: "nat \<Rightarrow> int \<Rightarrow> int \<Rightarrow> txn \<Rightarrow> txn" where
  "pre_noted i ret err s =
     (let s = (if ret = - 1 then
        s\<lparr>child_up := (child_up s)[i := False], op_ret := (if err = ENOTSUP then - 1 else op_ret s), op_errno := err\<rparr> else s)
      in s\<lparr>call_count := call_count s - 1\<rparr>)"

lemma afr_pre_op_cbk_eq:
  "afr_changelog_pre_op_cbk p f i ret err s =
    (let t = pre_noted i ret err s
     in if call_count t = 0 then
          (if op_ret t = - 1 \<and> op_errno t = ENOTSUP then afr_transaction_resume p f t else afr_wind p f t)
        else t)"
  unfolding afr_changelog_pre_op_cbk_def pre_noted_def Let_def by (rule refl)

lemma lock_cbk_ok:
  assumes "txn_wf p s" "answered s" "destroyed s = 0" "i < child_count p"
    and "\<forall>c \<in> set (calls s). \<exists>w. c = Lock i w"
    and "if tx_type f = AFR_ENTRY_RENAME_TRANSACTION then call_count s = int (length (calls s)) + 1 \<and> length (calls s) \<le> 1
         else calls s = []"
  shows "tx_inv p f (afr_lock_cbk p f i ret err s)
    \<and> left p (afr_lock_cbk p f i ret err s) < 4 * W p + 3 * (child_count p - i) + length (calls s) + 1"
proof -
  let ?rn = "tx_type f = AFR_ENTRY_RENAME_TRANSACTION"
  define s1 where "s1 = lock_noted f i ret err s"
  have s1: "txn_wf p s1" "answered s1" "destroyed s1 = 0" "calls s1 = calls s" "?rn \<Longrightarrow> call_count s1 = int (length (calls s))"
    using assms by (auto simp: s1_def lock_noted_def txn_wf_def answered_def Let_def)
  have eq: "afr_lock_cbk p f i ret err s =
    (if ?rn \<and> call_count s1 \<noteq> 0 then s1 else if op_ret s1 = - 1 \<and> op_errno s1 = ENOSYS then afr_unlock p f s1
     else afr_lock_rec p f (i + 1) (now_locked i s1))"
    by (simp add: afr_lock_cbk_eq s1_def Let_def)
  show ?thesis
  proof (cases "calls s = []")
    case True
    let ?t = "now_locked i s1"
    have "ready p s1" "ready p ?t" using s1 True by (auto simp: ready_def now_locked_def txn_wf_def answered_def)
    moreover have "3 * (child_count p - (i + 1)) + 3 = 3 * (child_count p - i)" using assms(4) by simp
    ultimately show ?thesis using unlock_ok[of p s1 f] lock_rec_ok[of p ?t "i + 1" f] s1(5) True assms(4)
      unfolding eq by auto
  next
    case False
    then have rn: "?rn" "length (calls s) = 1" using assms(6) by (auto split: if_splits simp: le_Suc_eq)
    then obtain w where w: "calls s = [Lock i w]" using assms(5) by (cases "calls s") auto
    then have "waiting p f s1" using rn s1(4,5) assms(4) unfolding waiting_def by (intro disjI2 exI[of _ i]) auto
    then show ?thesis using rn s1 w unfolding eq by (auto simp: tx_inv_def left_def)
  qed
qed

lemma pre_op_cbk_ok:
  assumes "txn_wf p s" "answered s" "destroyed s = 0" "call_count s = int (length (calls s)) + 1"
    and "\<forall>c \<in> set (calls s). kind c = 3"
  shows "tx_inv p f (afr_changelog_pre_op_cbk p f i ret err s)
    \<and> left p (afr_changelog_pre_op_cbk p f i ret err s) < 3 * W p + length (calls s) + 1"
proof -
  define s1 where "s1 = pre_noted i ret err s"
  have s1: "txn_wf p s1" "answered s1" "destroyed s1 = 0" "calls s1 = calls s" "call_count s1 = int (length (calls s))"
    using assms by (auto simp: s1_def pre_noted_def txn_wf_def answered_def Let_def)
  have eq: "afr_changelog_pre_op_cbk p f i ret err s = (if call_count s1 = 0 then
    (if op_ret s1 = - 1 \<and> op_errno s1 = ENOTSUP then afr_transaction_resume p f s1 else afr_wind p f s1) else s1)"
    by (simp add: afr_pre_op_cbk_eq s1_def Let_def)
  show ?thesis
  proof (cases "calls s = []")
    case True
    then have "ready p s1" using s1 by (simp add: ready_def)
    then show ?thesis using resume_ok[of p s1 f] wind_ok[of p s1 f] s1(5) True unfolding eq by auto
  next
    case False
    then have "waiting p f s1" using s1(4,5) assms(5) unfolding waiting_def by (intro disjI1 exI[of _ 3]) auto
    moreover obtain c ds where c: "calls s = c # ds" using False by (cases "calls s") auto
    then have "weight p c = 3 * W p" using assms(5) by (cases c) auto
    ultimately show ?thesis using s1 False c unfolding eq by (auto simp: tx_inv_def left_def)
  qed
qed

text \<open>What the callbacks of the operations have in common.\<close>

definition fop_noted :: "txn \<Rightarrow> txn \<Rightarrow> bool" where
  "fop_noted s t \<longleftrightarrow> child_up t = child_up s \<and> locked_nodes t = locked_nodes s \<and> calls t = calls s \<and> destroyed t = destroyed s
     \<and> call_count t = call_count s - 1 \<and> fd_seen t = fd_seen s \<and> lock_count t = lock_count s \<and> (answered s \<longrightarrow> answered t)"

lemma fop_cbk_cases:
  obtains "fop_cbk p f = afr_chmod_wind_cbk p f" "tx_name f \<noteq> Utimens" "tx_name f \<noteq> Flush"
  | "fop_cbk p f = afr_setxattr_wind_cbk p f" "tx_name f \<noteq> Utimens" "tx_name f \<noteq> Flush"
  | "fop_cbk p f = afr_writev_wind_cbk p f" "tx_name f \<noteq> Utimens" "tx_name f \<noteq> Flush"
  | "fop_cbk p f = afr_create_wind_cbk p f" "tx_name f \<noteq> Utimens" "tx_name f \<noteq> Flush"
  | "fop_cbk p f = afr_rename_wind_cbk p f" "tx_name f \<noteq> Utimens" "tx_name f \<noteq> Flush"
  | "fop_cbk p f = afr_setdents_wind_cbk p f" "tx_name f \<noteq> Utimens" "tx_name f \<noteq> Flush"
  | "fop_cbk p f = afr_utimens_wind_cbk p f" "tx_name f = Utimens" | "fop_cbk p f = afr_flush_wind_cbk p f" "tx_name f = Flush"
  by (cases "tx_name f") (simp_all add: fop_cbk_def afr_fchmod_wind_cbk_def afr_chown_wind_cbk_def afr_fchown_wind_cbk_def
    afr_truncate_wind_cbk_def afr_ftruncate_wind_cbk_def afr_removexattr_wind_cbk_def afr_unlink_wind_cbk_def afr_rmdir_wind_cbk_def
    afr_mknod_wind_cbk_def afr_mkdir_wind_cbk_def afr_link_wind_cbk_def afr_symlink_wind_cbk_def)

lemma fop_cbk_eq: "\<exists>t. fop_noted s t \<and> fop_cbk p f i ret err s = (if call_count t = 0 then afr_transaction_resume p f t else t)"
proof -
  have u: "fop_noted s (afr_frame_return u) \<Longrightarrow> fop_noted s (afr_frame_return (afr_unwind u))" for u
    by (auto simp: fop_noted_def afr_unwind_def afr_frame_return_def answered_def)
  have r: "fop_noted s t \<Longrightarrow> \<exists>t. fop_noted s t \<and> resume_if_last p f t0 = (if call_count t = 0 then afr_transaction_resume p f t else t)"
    if "t0 = t" for t t0 using that by (auto simp: resume_if_last_def)
  have ur: "fop_noted s t \<Longrightarrow> \<exists>t. fop_noted s t \<and> unwind_and_resume_if_last p f t0 = (if call_count t = 0 then afr_transaction_resume p f t else t)"
    if "t0 = t" for t t0
  proof (cases "call_count t = 0")
    case True
    assume n: "fop_noted s t"
    then have "fop_noted s (afr_unwind t)" by (auto simp: fop_noted_def afr_unwind_def answered_def)
    then show ?thesis using True that by (intro exI[of _ "afr_unwind t"]) (simp add: unwind_and_resume_if_last_def afr_unwind_def)
  next
    case False
    assume "fop_noted s t"
    then show ?thesis using False that by (auto simp: unwind_and_resume_if_last_def)
  qed
  note defs = fop_noted_def afr_frame_return_def count_success_def first_success_def note_death_def
    afr_transaction_child_died_def answered_def
  show ?thesis
    by (rule fop_cbk_cases[of p f]; simp only:;
        unfold afr_chmod_wind_cbk_def afr_setxattr_wind_cbk_def afr_writev_wind_cbk_def afr_create_wind_cbk_def
          afr_rename_wind_cbk_def afr_utimens_wind_cbk_def afr_setdents_wind_cbk_def afr_flush_wind_cbk_def Let_def;
        (rule r[OF refl] ur[OF refl]); (intro u conjI | cases "ret = - 1"); simp add: defs afr_unwind_def)
qed

lemma still_waiting:
  assumes "txn_wf p s" "answered s" "destroyed s = 0" "calls s \<noteq> []" "call_count s = int (length (calls s))"
    and "\<forall>c \<in> set (calls s). kind c = k" "k < 4"
  shows "tx_inv p f s \<and> left p s = k * W p + length (calls s)"
proof -
  obtain c ds where c: "calls s = c # ds" using assms(4) by (cases "calls s") auto
  then have "weight p c = k * W p" using assms(6,7) by (cases c) auto
  moreover have "waiting p f s" using assms(5-7) unfolding waiting_def by blast
  ultimately show ?thesis using assms(1-4) c by (simp add: tx_inv_def left_def)
qed

lemma count_down_ok:
  assumes "txn_wf p s" "answered s" "destroyed s = 0" "call_count s = int (length (calls s))"
    and "\<forall>c \<in> set (calls s). kind c = k" "k < 4"
    and "ready p s \<Longrightarrow> tx_inv p f (go s) \<and> left p (go s) < k * W p + 1"
  shows "tx_inv p f (if call_count s = 0 then go s else s) \<and> left p (if call_count s = 0 then go s else s) < k * W p + length (calls s) + 1"
proof (cases "calls s = []")
  case True
  then have "ready p s" using assms by (simp add: ready_def)
  then show ?thesis using True assms(4,7) by simp
next
  case False
  then show ?thesis using still_waiting[OF assms(1-3) _ assms(4-6), of f] assms(4) by simp
qed

lemma waiting_lock:
  assumes "waiting p f s" "Lock j w \<in> set (calls s)"
  shows "j < child_count p" "\<forall>c \<in> set (calls s). \<exists>w. c = Lock j w"
    "if tx_type f = AFR_ENTRY_RENAME_TRANSACTION then call_count s = int (length (calls s)) \<and> length (calls s) \<le> 2
     else length (calls s) = 1"
proof -
  have "\<not> (\<exists>k < 4. \<forall>c \<in> set (calls s). kind c = k)" using assms(2) by force
  then obtain i where i: "i < child_count p" "\<forall>c \<in> set (calls s). \<exists>w. c = Lock i w"
    "if tx_type f = AFR_ENTRY_RENAME_TRANSACTION then call_count s = int (length (calls s)) \<and> length (calls s) \<le> 2
     else length (calls s) = 1"
    using assms(1) unfolding waiting_def by blast
  moreover have "i = j" using assms(2) i(2) by force
  ultimately show "j < child_count p" "\<forall>c \<in> set (calls s). \<exists>w. c = Lock j w"
    "if tx_type f = AFR_ENTRY_RENAME_TRANSACTION then call_count s = int (length (calls s)) \<and> length (calls s) \<le> 2
     else length (calls s) = 1" by auto
qed

lemma waiting_other:
  assumes "waiting p f s" "c \<in> set (calls s)" "\<nexists>i w. c = Lock i w"
  shows "\<forall>d \<in> set (calls s). kind d = kind c" "kind c < 4" "call_count s = int (length (calls s))"
proof -
  have "\<not> (\<exists>i. \<forall>c \<in> set (calls s). \<exists>w. c = Lock i w)" using assms(2,3) by metis
  then obtain k where "k < 4" "\<forall>c \<in> set (calls s). kind c = k" "call_count s = int (length (calls s))"
    using assms(1) unfolding waiting_def by blast
  then show "\<forall>d \<in> set (calls s). kind d = kind c" "kind c < 4" "call_count s = int (length (calls s))"
    using assms(2) by auto
qed

lemma afr_reply_ok:
  assumes "tx_inv p f s" "c \<in> set (calls s)"
  shows "tx_inv p f (afr_reply p f c ret err s) \<and> left p (afr_reply p f c ret err s) < left p s"
proof -
  let ?s = "s\<lparr>calls := remove1 c (calls s)\<rparr>"
  have i: "txn_wf p ?s" "answered ?s" "destroyed ?s = 0" and w: "waiting p f s"
    using assms by (auto simp: tx_inv_def txn_wf_def answered_def split: if_splits)
  have len: "length (calls s) = Suc (length (calls ?s))" using assms(2) length_pos_if_in_set[OF assms(2)] by (simp add: length_remove1)
  have sub: "set (calls ?s) \<subseteq> set (calls s)" by (simp add: set_remove1_subset)
  show ?thesis
  proof (cases "\<exists>i w. c = Lock i w")
    case True
    then obtain j w where c: "c = Lock j w" by blast
    note j = waiting_lock[OF w assms(2)[unfolded c]]
    have "tx_inv p f (afr_lock_cbk p f j ret err ?s)
      \<and> left p (afr_lock_cbk p f j ret err ?s) < 4 * W p + 3 * (child_count p - j) + length (calls ?s) + 1"
      using len sub j by (intro lock_cbk_ok[OF i]) (auto split: if_splits)
    moreover have "left p s = 4 * W p + 3 * (child_count p - j) + length (calls s)"
      using assms(2) j(2) by (cases "calls s") (auto simp: left_def)
    ultimately show ?thesis using c len by (simp add: afr_reply_def)
  next
    case False
    note k = waiting_other[OF w assms(2) False]
    then have rest: "\<forall>d \<in> set (calls ?s). kind d = kind c" "call_count ?s = int (length (calls ?s)) + 1" using sub len by auto
    have ne: "calls s \<noteq> []" using assms(2) by auto
    then have "left p s = kind c * W p + length (calls s)"
      using still_waiting[of p s "kind c" f] k assms(1) by (simp add: tx_inv_def)
    then have l: "left p s = kind c * W p + length (calls ?s) + 1" using len by simp
    let ?t = "?s\<lparr>call_count := call_count ?s - 1\<rparr>"
    have t: "txn_wf p ?t" "answered ?t" "destroyed ?t = 0" "call_count ?t = int (length (calls ?t))"
      using i rest(2) by (auto simp: txn_wf_def answered_def)
    show ?thesis
    proof (cases c)
      case (Lock i w)
      then show ?thesis using False by simp
    next
      case (Pre_Op j w a)
      then show ?thesis using pre_op_cbk_ok[OF i rest(2), of f j ret err] rest(1) l by (simp add: afr_reply_def)
    next
      case (Fop j)
      obtain u where u: "fop_noted ?s u" "fop_cbk p f j ret err ?s = (if call_count u = 0 then afr_transaction_resume p f u else u)"
        using fop_cbk_eq by blast
      have eq: "calls u = calls ?s" using u(1) by (simp add: fop_noted_def)
      have "tx_inv p f (fop_cbk p f j ret err ?s) \<and> left p (fop_cbk p f j ret err ?s) < 2 * W p + length (calls u) + 1"
        unfolding u(2)
        by (rule count_down_ok)
          (use u(1) i rest Fop resume_ok[of p u f] in \<open>auto simp: fop_noted_def txn_wf_def\<close>)
      then show ?thesis using l eq Fop by (simp add: afr_reply_def)
    next
      case (Post_Op j w a)
      have "tx_inv p f (if call_count ?t = 0 then unlock_or_done p f ?t else ?t)
        \<and> left p (if call_count ?t = 0 then unlock_or_done p f ?t else ?t) < 1 * W p + length (calls ?t) + 1"
        by (rule count_down_ok[OF t]) (use rest Post_Op unlock_or_done_ok[of p ?t f] in auto)
      then show ?thesis using l Post_Op by (simp add: afr_reply_def afr_changelog_post_op_cbk_def Let_def cong: if_cong)
    next
      case (Unlock j w)
      have "tx_inv p f (if call_count ?t = 0 then afr_done ?t else ?t)
        \<and> left p (if call_count ?t = 0 then afr_done ?t else ?t) < 0 * W p + length (calls ?t) + 1"
        by (rule count_down_ok[OF t]) (use rest Unlock done_ok[of p ?t f] in \<open>auto simp: ready_def\<close>)
      then show ?thesis using l Unlock by (simp add: afr_reply_def afr_unlock_common_cbk_def Let_def cong: if_cong)
    qed
  qed
qed

text \<open>
  A run: replies to outstanding calls in any order, each with any result. The history has the calls
  answered so far, the last first, and whether they succeeded.
\<close>

type_synonym history = "(afr_call \<times> bool) list"

inductive afr_step :: "afr_private \<Rightarrow> afr_fop \<Rightarrow> txn \<times> history \<Rightarrow> txn \<times> history \<Rightarrow> bool" for p f where
  reply: "c \<in> set (calls s) \<Longrightarrow> afr_step p f (s, h) (afr_reply p f c ret err s, (c, ret \<noteq> - 1) # h)"

inductive_cases afr_stepE: "afr_step p f (s, h) t"

definition afr_start :: "afr_private \<Rightarrow> afr_fop \<Rightarrow> txn \<times> history \<Rightarrow> bool" where
  "afr_start p f = (\<lambda>(s, h). h = [] \<and> (\<exists>up seen. length up = child_count p \<and> begin_fop p up seen f = Inr s))"

lemma afr_transaction_ok:
  assumes "AFR_LOCAL_INIT up seen = Inr s" "length up = child_count p"
  shows "tx_inv p f (afr_transaction p f s) \<and> left p (afr_transaction p f s) < 4 * W p + 3 * child_count p + 3"
proof -
  let ?s = "s\<lparr>pending_array := replicate (child_count p) 0, locked_nodes := replicate (child_count p) False\<rparr>"
  have "ready p ?s" using assms by (auto simp: AFR_LOCAL_INIT_def ready_def txn_wf_def answered_def split: if_splits)
  then show ?thesis using start_op_ok[of p ?s f] lock_rec_ok[of p ?s 0 f] by (auto simp: afr_transaction_def afr_lock_def Let_def)
qed

lemma afr_startE:
  assumes "afr_start p f (s, h)"
  obtains up seen t where "length up = child_count p" "AFR_LOCAL_INIT up seen = Inr t" "s = afr_transaction p f t" "h = []"
proof -
  obtain up seen where u: "length up = child_count p" "begin_fop p up seen f = Inr s" "h = []"
    using assms by (auto simp: afr_start_def)
  then show ?thesis using that by (cases "AFR_LOCAL_INIT up seen") (auto simp: begin_fop_def)
qed

lemma afr_start_ok:
  assumes "afr_start p f (s, h)"
  shows "tx_inv p f s \<and> left p s < 11 * child_count p + 7"
proof -
  obtain up seen t where "length up = child_count p" "AFR_LOCAL_INIT up seen = Inr t" "s = afr_transaction p f t"
    using afr_startE[OF assms] by metis
  then show ?thesis using afr_transaction_ok[of up seen t p f] by auto
qed

section \<open>What a handler changes\<close>

text \<open>
  The part of the state that the steps after a callback leave alone, up to the answer to the caller.
\<close>

definition same :: "txn \<Rightarrow> txn \<Rightarrow> bool" where
  "same s t \<longleftrightarrow> child_up t = child_up s \<and> locked_nodes t = locked_nodes s \<and> lock_count t = lock_count s
     \<and> op_ret t = op_ret s \<and> success_count t = success_count s
     \<and> (main_frame t = main_frame s \<and> unwound t = unwound s
        \<or> main_frame s \<and> \<not> main_frame t \<and> unwound t = unwound s @ [(op_ret s, op_errno s)] \<and> calls t = [])"

lemma same_refl: "same s s"
  by (simp add: same_def)

lemma done_same: "calls s = [] \<Longrightarrow> same s (afr_done s)" "calls (afr_done s) = calls s"
  by (simp_all add: same_def afr_done_def afr_unwind_def Let_def)

abbreviation unlocks :: "afr_fop \<Rightarrow> txn \<Rightarrow> afr_call list" where
  "unlocks f s \<equiv> sent_to (locked_nodes s) (\<lambda>i. map (Unlock i) (places f))"

abbreviation posts :: "afr_private \<Rightarrow> afr_fop \<Rightarrow> txn \<Rightarrow> afr_call list" where
  "posts p f s \<equiv> sent_to (child_up s) (\<lambda>i. map (\<lambda>w. Post_Op i w (post_array p (child_up s))) (places f))"

abbreviation pres :: "afr_private \<Rightarrow> afr_fop \<Rightarrow> txn \<Rightarrow> afr_call list" where
  "pres p f s \<equiv> sent_to (child_up s) (\<lambda>i. map (\<lambda>w. Pre_Op i w (pre_array p)) (places f))"

lemma unlock_moves:
  assumes "txn_wf p s" "calls s = []"
  shows "same s (afr_unlock p f s)" "calls (afr_unlock p f s) = unlocks f s"
  using assms done_same[of s] by (auto simp: afr_unlock_eq[OF assms(1)] Let_def same_def)

lemma unlock_or_done_moves:
  assumes "txn_wf p s" "calls s = []"
  shows "same s (unlock_or_done p f s)"
    "calls (unlock_or_done p f s) = (if afr_lock_server_count p (tx_type f) = 0 then [] else unlocks f s)"
  using assms done_same[of s] unlock_moves[OF assms, of f] by (auto simp: unlock_or_done_def)

lemma sent_to_same: "same s t \<Longrightarrow> unlocks f t = unlocks f s" "same s t \<Longrightarrow> posts p f t = posts p f s" "same s t \<Longrightarrow> pres p f t = pres p f s"
  by (simp_all add: same_def)

lemma post_op_moves:
  assumes "txn_wf p s" "calls s = []"
  shows "same s (afr_changelog_post_op p f s)"
    "calls (afr_changelog_post_op p f s) = (if posts p f s = [] then unlocks f s else posts p f s)"
proof -
  let ?t = "s\<lparr>pending_array := post_array p (child_up s), call_count := int (length (posts p f s))\<rparr>"
  have t: "txn_wf p ?t" "calls ?t = []" using assms by (simp_all add: txn_wf_def)
  show "same s (afr_changelog_post_op p f s)"
    "calls (afr_changelog_post_op p f s) = (if posts p f s = [] then unlocks f s else posts p f s)"
    using unlock_moves[OF t, of f] assms(2) by (auto simp: afr_post_op_eq[OF assms(1)] Let_def same_def)
qed

lemma resume_moves:
  assumes "txn_wf p s" "calls s = []"
  shows "same s (afr_transaction_resume p f s)"
    "calls (afr_transaction_resume p f s) =
      (if changelog_needed_post_op p f then if posts p f s = [] then unlocks f s else posts p f s
       else if afr_lock_server_count p (tx_type f) = 0 then [] else unlocks f s)"
  using post_op_moves[OF assms, of f] unlock_or_done_moves[OF assms, of f] by (auto simp: afr_transaction_resume_def)

abbreviation fops :: "txn \<Rightarrow> afr_call list" where
  "fops s \<equiv> sent_to (child_up s) (\<lambda>i. [Fop i])"

lemma wind_moves:
  assumes "txn_wf p s" "calls s = []"
  shows "same s (afr_wind p f s)"
    "calls (afr_wind p f s) = (if fops s = [] then calls (afr_transaction_resume p f s) else fops s)"
  using resume_moves(1)[OF assms, of f] assms(2) by (auto simp: afr_wind_eq[OF assms(1)] Let_def same_def)

lemma pre_op_moves:
  assumes "txn_wf p s" "calls s = []"
  shows "same s (afr_changelog_pre_op p f s)"
    "calls (afr_changelog_pre_op p f s) = (if pres p f s = [] then unlocks f s else pres p f s)"
  using unlock_moves[OF assms, of f] assms(2) by (auto simp: afr_pre_op_eq[OF assms(1)] Let_def same_def)

lemma start_op_moves:
  assumes "txn_wf p s" "calls s = []"
  shows "same s (start_op p f s)"
    "calls (start_op p f s) = (if pres p f s = [] then unlocks f s else pres p f s)
     \<or> calls (start_op p f s) = calls (afr_wind p f s) \<and> \<not> (changelog_enabled p (tx_type f) \<and> tx_op f = Other_fop)"
proof -
  obtain b s' where b: "changelog_needed_pre_op p f s = (b, s')" by fastforce
  then have s': "s' = s \<or> s' = s\<lparr>fd_seen := True\<rparr>"
    and nb: "\<not> b \<Longrightarrow> \<not> (changelog_enabled p (tx_type f) \<and> tx_op f = Other_fop)"
    by (auto simp: changelog_needed_pre_op_def split: if_splits fop_op.splits)
  then have w: "txn_wf p s'" "calls s' = []" using assms by (auto simp: txn_wf_def)
  have ss: "same s s'" and rs: "same s' t \<Longrightarrow> same s t" for t using s' by (auto simp: same_def)
  show "same s (start_op p f s)"
    using b rs pre_op_moves(1)[OF w, of f] wind_moves(1)[OF w, of f] by (cases b) (simp_all add: start_op_def)
  have "calls (afr_wind p f s') = calls (afr_wind p f s)"
    using s' wind_moves(2)[OF w, of f] wind_moves(2)[OF assms, of f] resume_moves(2)[OF w, of f] resume_moves(2)[OF assms, of f] by auto
  then show "calls (start_op p f s) = (if pres p f s = [] then unlocks f s else pres p f s)
     \<or> calls (start_op p f s) = calls (afr_wind p f s) \<and> \<not> (changelog_enabled p (tx_type f) \<and> tx_op f = Other_fop)"
    using b nb pre_op_moves(2)[OF w, of f] sent_to_same[OF ss] by (cases b) (simp_all add: start_op_def)
qed

lemma sent_kinds:
  "c \<in> set (unlocks f s) \<Longrightarrow> kind c = 0" "c \<in> set (posts p f s) \<Longrightarrow> kind c = 1" "c \<in> set (fops s) \<Longrightarrow> kind c = 2"
  by (auto dest!: sent_to_mem)

lemma resume_kinds:
  assumes "txn_wf p s" "calls s = []" "c \<in> set (calls (afr_transaction_resume p f s))"
  shows "kind c < 2"
  using assms(3) unfolding resume_moves(2)[OF assms(1,2)] by (auto split: if_splits dest: sent_kinds)

interpretation afr_life: bounded_system "afr_start p f" "afr_step p f" "\<lambda>(s, h). tx_inv p f s" "\<lambda>(s, h). left p s" for p f
proof unfold_locales
  show "afr_start p f s \<Longrightarrow> case s of (s, h) \<Rightarrow> tx_inv p f s" for p f s
    using afr_start_ok by (cases s) blast
  show "\<lbrakk>case s of (s, h) \<Rightarrow> tx_inv p f s; afr_step p f s t\<rbrakk> \<Longrightarrow> case t of (s, h) \<Rightarrow> tx_inv p f s" for p f s t
    using afr_reply_ok by (auto elim!: afr_step.cases)
  show "\<lbrakk>case s of (s, h) \<Rightarrow> tx_inv p f s; afr_step p f s t\<rbrakk>
      \<Longrightarrow> (case t of (s, h) \<Rightarrow> left p s) < (case s of (s, h) \<Rightarrow> left p s)" for p f s t
    using afr_reply_ok by (auto elim!: afr_step.cases)
qed

section \<open>The cases of a reply\<close>

lemma lock_noted_same [simp]:
  "calls (lock_noted f i ret err s) = calls s" "unwound (lock_noted f i ret err s) = unwound s"
  "main_frame (lock_noted f i ret err s) = main_frame s" "success_count (lock_noted f i ret err s) = success_count s"
  "locked_nodes (lock_noted f i ret err s) = locked_nodes s" "lock_count (lock_noted f i ret err s) = lock_count s"
  "child_up (lock_noted f i ret err s) = (if ret = - 1 then (child_up s)[i := False] else child_up s)"
  "answered (lock_noted f i ret err s) = answered s" "txn_wf p (lock_noted f i ret err s) = txn_wf p s"
  "call_count (lock_noted f i ret err s) = (if tx_type f = AFR_ENTRY_RENAME_TRANSACTION then call_count s - 1 else call_count s)"
  by (simp_all add: lock_noted_def Let_def answered_def txn_wf_def)

lemma pre_noted_same [simp]:
  "calls (pre_noted i ret err s) = calls s" "unwound (pre_noted i ret err s) = unwound s"
  "main_frame (pre_noted i ret err s) = main_frame s" "success_count (pre_noted i ret err s) = success_count s"
  "locked_nodes (pre_noted i ret err s) = locked_nodes s" "lock_count (pre_noted i ret err s) = lock_count s"
  "child_up (pre_noted i ret err s) = (if ret = - 1 then (child_up s)[i := False] else child_up s)"
  "answered (pre_noted i ret err s) = answered s" "txn_wf p (pre_noted i ret err s) = txn_wf p s"
  "call_count (pre_noted i ret err s) = call_count s - 1"
  by (simp_all add: pre_noted_def Let_def answered_def txn_wf_def)

abbreviation received :: "afr_call \<Rightarrow> txn \<Rightarrow> txn" where
  "received c s \<equiv> s\<lparr>calls := remove1 c (calls s)\<rparr>"

definition counted :: "txn \<Rightarrow> txn" where
  "counted s = s\<lparr>call_count := call_count s - 1\<rparr>"

lemma counted_same [simp]:
  "calls (counted s) = calls s" "unwound (counted s) = unwound s" "main_frame (counted s) = main_frame s"
  "success_count (counted s) = success_count s" "op_ret (counted s) = op_ret s" "op_errno (counted s) = op_errno s"
  "locked_nodes (counted s) = locked_nodes s" "lock_count (counted s) = lock_count s" "child_up (counted s) = child_up s"
  "answered (counted s) = answered s" "txn_wf p (counted s) = txn_wf p s" "call_count (counted s) = call_count s - 1"
  by (simp_all add: counted_def answered_def txn_wf_def)

lemma received_same [simp]: "answered (s\<lparr>calls := cs\<rparr>) = answered s" "txn_wf p (s\<lparr>calls := cs\<rparr>) = txn_wf p s"
  by (simp_all add: answered_def txn_wf_def)

lemma tx_invD:
  assumes "tx_inv p f s" "c \<in> set (calls s)"
  shows "txn_wf p s" "answered s" "waiting p f s" "length (calls s) = Suc (length (remove1 c (calls s)))"
  using assms length_pos_if_in_set[OF assms(2)] by (auto simp: tx_inv_def length_remove1 split: if_splits)

lemma lock_reply_cases:
  fixes ret err :: int
  assumes "tx_inv p f s" "Lock j w \<in> set (calls s)"
  defines "t \<equiv> lock_noted f j ret err (received (Lock j w) s)" and "r \<equiv> afr_reply p f (Lock j w) ret err s"
  obtains (more) "tx_type f = AFR_ENTRY_RENAME_TRANSACTION" "r = t"
  | (enosys) "calls t = []" "op_ret t = - 1" "op_errno t = ENOSYS" "r = afr_unlock p f t"
  | (go_on) "calls t = []" "\<not> (op_ret t = - 1 \<and> op_errno t = ENOSYS)" "j < child_count p"
      "r = afr_lock_rec p f (j + 1) (now_locked j t)"
proof -
  note i = tx_invD[OF assms(1,2)] and wl = waiting_lock[OF tx_invD(3)[OF assms(1,2)] assms(2)]
  have r: "r = (if tx_type f = AFR_ENTRY_RENAME_TRANSACTION \<and> call_count t \<noteq> 0 then t
        else if op_ret t = - 1 \<and> op_errno t = ENOSYS then afr_unlock p f t else afr_lock_rec p f (j + 1) (now_locked j t))"
    by (simp add: r_def t_def afr_reply_def afr_lock_cbk_eq Let_def)
  show ?thesis
  proof (cases "tx_type f = AFR_ENTRY_RENAME_TRANSACTION \<and> call_count t \<noteq> 0")
    case True
    then show ?thesis using more r by simp
  next
    case False
    then have "calls t = []" using wl(3) i(4) by (auto simp: t_def split: if_splits)
    then show ?thesis using enosys go_on wl(1) r False by (auto split: if_splits)
  qed
qed

lemma counted_last:
  assumes "tx_inv p f s" "c \<in> set (calls s)" "kind c < 4"
  shows "call_count s = 1 \<longleftrightarrow> calls (received c s) = []" "\<forall>d \<in> set (calls (received c s)). kind d = kind c"
proof -
  have "\<nexists>i w. c = Lock i w" using assms(3) by auto
  note o = waiting_other[OF tx_invD(3)[OF assms(1,2)] assms(2) this]
  show "call_count s = 1 \<longleftrightarrow> calls (received c s) = []" using o(3) tx_invD(4)[OF assms(1,2)] by auto
  show "\<forall>d \<in> set (calls (received c s)). kind d = kind c" using o(1) set_remove1_subset[of c "calls s"] by auto
qed

lemma pre_reply_cases:
  fixes ret err :: int
  assumes "tx_inv p f s" "Pre_Op j w a \<in> set (calls s)"
  defines "t \<equiv> pre_noted j ret err (received (Pre_Op j w a) s)" and "r \<equiv> afr_reply p f (Pre_Op j w a) ret err s"
  obtains (more) "calls t \<noteq> []" "r = t" | (resume) "calls t = []" "r = afr_transaction_resume p f t"
  | (wind) "calls t = []" "r = afr_wind p f t"
proof -
  have "r = (if calls t = [] then if op_ret t = - 1 \<and> op_errno t = ENOTSUP then afr_transaction_resume p f t else afr_wind p f t else t)"
    using counted_last(1)[OF assms(1,2)] by (simp add: r_def t_def afr_reply_def afr_pre_op_cbk_eq Let_def)
  then show ?thesis using more resume wind by (auto split: if_splits)
qed

lemma late_reply_eq:
  assumes "tx_inv p f s" "c \<in> set (calls s)"
  shows "c = Post_Op j w a \<Longrightarrow> afr_reply p f c ret err s =
      (let t = counted (received c s) in if calls t = [] then unlock_or_done p f t else t)"
    "c = Unlock j w \<Longrightarrow> afr_reply p f c ret err s = (let t = counted (received c s) in if calls t = [] then afr_done t else t)"
  using counted_last(1)[OF assms]
  by (auto simp: afr_reply_def afr_changelog_post_op_cbk_def afr_unlock_common_cbk_def counted_def Let_def)

section \<open>Concrete runs\<close>

fun afr_run :: "afr_private \<Rightarrow> afr_fop \<Rightarrow> (afr_call \<times> int \<times> int) list \<Rightarrow> txn \<times> history \<Rightarrow> (txn \<times> history) option" where
  "afr_run p f [] s = Some s"
| "afr_run p f ((c, ret, err) # rs) s =
     (if c \<in> set (calls (fst s)) then afr_run p f rs (afr_reply p f c ret err (fst s), (c, ret \<noteq> - 1) # snd s) else None)"

lemma afr_run_steps: "afr_run p f rs s = Some t \<Longrightarrow> (afr_step p f ^^ length rs) s t"
proof (induction rs arbitrary: s)
  case (Cons x rs)
  obtain c ret err where x: "x = (c, ret, err)" by (cases x)
  obtain u h where s: "s = (u, h)" by (cases s)
  have "c \<in> set (calls u)" "afr_run p f rs (afr_reply p f c ret err u, (c, ret \<noteq> - 1) # h) = Some t"
    using Cons.prems by (auto simp: x s split: if_splits)
  then have "afr_step p f s (afr_reply p f c ret err u, (c, ret \<noteq> - 1) # h)"
    "(afr_step p f ^^ length rs) (afr_reply p f c ret err u, (c, ret \<noteq> - 1) # h) t"
    using Cons.IH by (auto simp: s intro: afr_step.intros)
  then show ?case by (metis length_Cons relpowp_Suc_I2)
qed simp

lemma afr_run_reaches: "afr_run p f rs s = Some t \<Longrightarrow> (afr_step p f)\<^sup>*\<^sup>* s t"
  using afr_run_steps relpowp_imp_rtranclp by metis

definition chmod_fop :: afr_fop where
  "chmod_fop = fop_of AFR_METADATA_TRANSACTION Other_fop AFR_METADATA_PENDING False Chmod"

definition started :: "afr_private \<Rightarrow> afr_fop \<Rightarrow> txn \<times> history" where
  "started p f = (case begin_fop p (replicate (child_count p) True) False f of Inr s \<Rightarrow> (s, []) | Inl _ \<Rightarrow> undefined)"

lemma started_ok: "0 < child_count p \<Longrightarrow> afr_start p f (started p f)"
proof -
  assume "0 < child_count p"
  then have "afr_up_children_count (replicate (child_count p) True) \<noteq> 0" by (simp add: afr_up_children_count_def)
  then obtain s where "begin_fop p (replicate (child_count p) True) False f = Inr s"
    by (simp add: begin_fop_def AFR_LOCAL_INIT_def)
  then show ?thesis by (auto simp: started_def afr_start_def intro!: exI[of _ "replicate (child_count p) True"])
qed

definition replies_ok :: "(afr_call \<times> int \<times> int) list" where
  "replies_ok = [(Lock 0 Here, 0, 0), (Pre_Op 1 Here (pre_array pair), 0, 0), (Pre_Op 0 Here (pre_array pair), - 1, ENOTCONN),
     (Fop 1, 0, 0), (Post_Op 1 Here (post_array pair [False, True]), 0, 0), (Unlock 0 Here, 0, 0)]"

text \<open>C4. Every transaction of the replicate translator ends, whatever the children answer and in which
  order: after fewer than \<open>11 * child_count + 7\<close> replies no call is outstanding, then the caller has got
  exactly one answer and the transaction was freed exactly once. It is never answered twice, and it is
  not freed while a call is outstanding.\<close>

theorem afr_transaction_ends:
  assumes "afr_start p f s" "(afr_step p f ^^ k) s (t, h)"
  shows "k < 11 * child_count p + 7 \<and> length (unwound t) \<le> 1
    \<and> (if calls t = [] then length (unwound t) = 1 \<and> destroyed t = 1 else destroyed t = 0)
    \<and> (\<exists>u g. (afr_step p f)\<^sup>*\<^sup>* (t, h) (u, g) \<and> calls u = [])"
proof -
  obtain s0 h0 where s: "s = (s0, h0)" by (cases s)
  have b: "left p t + k \<le> left p s0" "tx_inv p f t"
    using afr_life.run_bound[OF afr_life.inv_start[OF assms(1)] assms(2)] s by auto
  obtain u g where u: "(afr_step p f)\<^sup>*\<^sup>* (t, h) (u, g)" "\<nexists>v. afr_step p f (u, g) v"
    using afr_life.run_ends[of p f "(t, h)"] b(2) by auto
  have "calls u = []" using u(2) afr_step.intros[of "hd (calls u)" u p f g 0 0] list.set_sel(1) by metis
  then show ?thesis using b u(1) afr_start_ok[OF assms(1)[unfolded s]]
    by (auto simp: tx_inv_def answered_def le_Suc_eq)
qed

lemma run_finishes: "map_option (\<lambda>(t, h). calls t) (afr_run pair chmod_fop replies_ok (started pair chmod_fop)) = Some []"
  by code_simp

lemma pair_started: "afr_start pair chmod_fop (started pair chmod_fop)"
  by (rule started_ok) (simp add: pair_def)

theorem afr_transaction_ends_witness:
  "\<exists>t h. (afr_step pair chmod_fop ^^ 6) (started pair chmod_fop) (t, h) \<and> calls t = [] \<and> length (unwound t) = 1 \<and> destroyed t = 1"
proof -
  obtain t h where t: "afr_run pair chmod_fop replies_ok (started pair chmod_fop) = Some (t, h)" "calls t = []"
    using run_finishes by auto
  have "length replies_ok = 6" by (simp add: replies_ok_def)
  then have run: "(afr_step pair chmod_fop ^^ 6) (started pair chmod_fop) (t, h)" using afr_run_steps[OF t(1)] by simp
  show ?thesis using afr_transaction_ends[OF pair_started run] run t(2) by auto
qed

end
