(* ===== verification/Afr_Answers.thy ===== *)
theory Afr_Answers
  imports Afr_Runs
begin

text \<open>
  What the caller of a transaction of the replicate translator is told, compared with what the children
  did, and what happens to the locks.
\<close>

section \<open>What the caller is told\<close>

definition did :: "history \<Rightarrow> bool" where
  "did h \<longleftrightarrow> (\<exists>(c, ok) \<in> set h. ok \<and> (case c of Fop i \<Rightarrow> True | _ \<Rightarrow> False))"

lemma did_Cons [simp]: "did ((c, ok) # h) \<longleftrightarrow> ok \<and> (\<exists>i. c = Fop i) \<or> did h"
  by (auto simp: did_def split: afr_call.splits)

definition truthful :: "txn \<Rightarrow> history \<Rightarrow> bool" where
  "truthful s h \<longleftrightarrow> (op_ret s = - 1 \<longleftrightarrow> \<not> did h) \<and> (success_count s = 0 \<longleftrightarrow> \<not> did h)
     \<and> (\<forall>r e. unwound s = [(r, e)] \<longrightarrow> (r = - 1 \<longleftrightarrow> \<not> did h))"

definition told_failure :: "txn \<Rightarrow> bool" where
  "told_failure s \<longleftrightarrow> (\<exists>e. unwound s = [(- 1, e)])"

definition ans_inv :: "txn \<Rightarrow> history \<Rightarrow> bool" where
  "ans_inv s h \<longleftrightarrow> truthful s h \<and> ((\<exists>c \<in> set (calls s). 2 < kind c) \<longrightarrow> \<not> did h)
     \<and> (told_failure s \<longrightarrow> (\<forall>c \<in> set (calls s). kind c < 2))"

lemma truthful_same:
  assumes "same s t" "answered s" "truthful s h"
  shows "truthful t h" "told_failure t \<Longrightarrow> told_failure s \<or> calls t = []"
  using assms by (auto simp: same_def truthful_def answered_def told_failure_def)

lemma ans_same:
  assumes "same s t" "answered s" "truthful s h" "told_failure s \<Longrightarrow> \<forall>c \<in> set (calls t). kind c < 2"
    and "did h \<Longrightarrow> \<forall>c \<in> set (calls t). kind c \<le> 2"
  shows "ans_inv t h"
  using truthful_same[OF assms(1-3)] assms(4,5) unfolding ans_inv_def by fastforce

text \<open>The operations whose callbacks report the first success, if there is one.\<close>

definition honest :: "afr_fop \<Rightarrow> bool" where
  "honest f \<longleftrightarrow> tx_name f \<noteq> Utimens \<and> tx_name f \<noteq> Flush"

lemma note_death_same [simp]:
  "op_ret (note_death i ret err s) = op_ret s" "success_count (note_death i ret err s) = success_count s"
  "unwound (note_death i ret err s) = unwound s" "main_frame (note_death i ret err s) = main_frame s"
  "call_count (note_death i ret err s) = call_count s" "child_up (note_death i ret err s) = child_up s"
  "locked_nodes (note_death i ret err s) = locked_nodes s" "lock_count (note_death i ret err s) = lock_count s"
  "calls (note_death i ret err s) = calls s" "destroyed (note_death i ret err s) = destroyed s"
  "fd_seen (note_death i ret err s) = fd_seen s"
  by (simp_all add: note_death_def afr_transaction_child_died_def)

lemma fop_cbk_truthful:
  assumes "honest f" "truthful s h" "answered s" "\<not> told_failure s"
  shows "\<exists>t. fop_noted s t \<and> fop_cbk p f i ret err s = (if call_count t = 0 then afr_transaction_resume p f t else t)
    \<and> truthful t ((Fop i, ret \<noteq> - 1) # h) \<and> (call_count t \<noteq> 0 \<longrightarrow> \<not> told_failure t)"
proof -
  let ?G = "\<lambda>r. \<exists>t. fop_noted s t \<and> r = (if call_count t = 0 then afr_transaction_resume p f t else t)
    \<and> truthful t ((Fop i, ret \<noteq> - 1) # h) \<and> (call_count t \<noteq> 0 \<longrightarrow> \<not> told_failure t)"
  let ?ok = "\<lambda>t. fop_noted s t \<and> truthful t ((Fop i, ret \<noteq> - 1) # h) \<and> \<not> told_failure t"
  have r: "?G (resume_if_last p f t)" if "?ok t" for t
    using that by (intro exI[of _ t]) (auto simp: resume_if_last_def)
  have ur: "?G (unwind_and_resume_if_last p f t)" if t: "?ok t" for t
  proof (cases "call_count t = 0")
    case True
    have "fop_noted s (afr_unwind t)" "truthful (afr_unwind t) ((Fop i, ret \<noteq> - 1) # h)"
      using t assms(3) by (auto simp: fop_noted_def afr_unwind_def answered_def truthful_def)
    then show ?thesis using True by (intro exI[of _ "afr_unwind t"]) (simp add: unwind_and_resume_if_last_def afr_unwind_def)
  next
    case False
    then show ?thesis using t by (intro exI[of _ t]) (simp add: unwind_and_resume_if_last_def)
  qed
  have ew: "?ok (afr_frame_return (if ret \<noteq> - 1 \<and> success_count u = wait_count p then afr_unwind u else u))"
    if "?ok (afr_frame_return u)" for u
  proof -
    have "op_ret u \<noteq> - 1" if "ret \<noteq> - 1" using that \<open>?ok (afr_frame_return u)\<close> by (auto simp: truthful_def afr_frame_return_def)
    then show ?thesis using that assms(3)
      by (auto simp: fop_noted_def truthful_def told_failure_def afr_unwind_def afr_frame_return_def answered_def)
  qed
  have cs: "?ok (afr_frame_return ((count_success ret u)\<lparr>op_errno := err\<rparr>))" if "u = s \<or> u = note_death i ret err s" for u
    using that assms(2-4) by (auto simp: fop_noted_def truthful_def told_failure_def afr_frame_return_def answered_def count_success_def)
  have fs: "?ok (afr_frame_return ((first_success ret (note_death i ret err s))\<lparr>op_errno := err\<rparr>))"
    using assms(2-4) by (auto simp: fop_noted_def truthful_def told_failure_def afr_frame_return_def answered_def first_success_def)
  have es: "?ok (afr_frame_return ((if ret \<noteq> - 1 then (note_death i ret err s)\<lparr>op_ret := ret, success_count := success_count (note_death i ret err s) + 1\<rparr>
      else note_death i ret err s)\<lparr>op_errno := err\<rparr>))"
    using assms(2-4) by (auto simp: fop_noted_def truthful_def told_failure_def afr_frame_return_def answered_def)
  show ?thesis
  proof (cases rule: fop_cbk_cases[of p f])
    case 1
    show ?thesis unfolding 1 afr_chmod_wind_cbk_def Let_def by (intro r ew cs) simp
  next
    case 2
    show ?thesis unfolding 2 afr_setxattr_wind_cbk_def Let_def by (intro r ew cs) simp
  next
    case 3
    show ?thesis unfolding 3 afr_writev_wind_cbk_def Let_def by (intro ur cs) simp
  next
    case 4
    show ?thesis unfolding 4 afr_create_wind_cbk_def Let_def by (intro ur es)
  next
    case 5
    show ?thesis unfolding 5 afr_rename_wind_cbk_def Let_def by (intro ur fs)
  next
    case 6
    show ?thesis unfolding 6 afr_setdents_wind_cbk_def Let_def by (intro r fs)
  qed (use assms(1) in \<open>simp_all add: honest_def\<close>)
qed

section \<open>The answer\<close>

lemma ans_before:
  assumes "ans_inv s h" "c \<in> set (calls s)"
  shows "2 \<le> kind c \<Longrightarrow> \<not> told_failure s" "2 < kind c \<Longrightarrow> \<not> did h"
  using assms unfolding ans_inv_def by force+

lemma ans_nothing_done:
  assumes "same s t" "answered s" "truthful s h" "\<not> did h" "\<not> told_failure s"
  shows "ans_inv t h"
  by (rule ans_same[OF assms(1-3)]) (use assms(4,5) in auto)

lemma ans_lock_rec:
  assumes "txn_wf p s" "answered s" "calls s = []" "truthful s h" "\<not> did h" "\<not> told_failure s" "i \<le> child_count p"
  shows "ans_inv (afr_lock_rec p f i s) h"
proof -
  from assms(3,7) show ?thesis
  proof (cases rule: lock_rec_cases[where f = f, consumes 2, case_names none start lock])
    case none
    let ?s = "s\<lparr>op_ret := - 1, op_errno := EAGAIN\<rparr>"
    have "same ?s (afr_done ?s)" using assms(3) by (simp add: done_same)
    then show ?thesis unfolding none(2)
      by (rule ans_nothing_done) (use assms in \<open>auto simp: answered_def truthful_def told_failure_def\<close>)
  next
    case start
    then show ?thesis using ans_nothing_done[OF start_op_moves(1)[OF assms(1,3), of f] assms(2,4,5,6)] by simp
  next
    case (lock j)
    then show ?thesis using assms(4-6) by (auto simp: ans_inv_def truthful_def told_failure_def)
  qed
qed

lemma ans_lock:
  assumes "tx_inv p f s" "ans_inv s h" "Lock j w \<in> set (calls s)"
  shows "ans_inv (afr_reply p f (Lock j w) ret err s) ((Lock j w, ret \<noteq> - 1) # h)"
proof -
  let ?t = "lock_noted f j ret err (received (Lock j w) s)" and ?h = "(Lock j w, ret \<noteq> - 1) # h"
  have nd: "\<not> did ?h" "\<not> told_failure s" using ans_before[OF assms(2,3)] by auto
  have i: "txn_wf p ?t" "answered ?t" using tx_invD[OF assms(1,3)] by auto
  have t: "truthful ?t ?h" "\<not> told_failure ?t"
    using nd assms(2) by (auto simp: ans_inv_def truthful_def told_failure_def lock_noted_def Let_def)
  from assms(1,3) show ?thesis
  proof (cases rule: lock_reply_cases[of p f s j w ret err, consumes 2, case_names more enosys go_on])
    case more
    then show ?thesis using ans_nothing_done[OF same_refl i(2) t(1) nd(1) t(2)] by simp
  next
    case enosys
    then show ?thesis using ans_nothing_done[OF unlock_moves(1)[OF i(1) enosys(1)] i(2) t(1) nd(1) t(2)] by simp
  next
    case go_on
    then show ?thesis using ans_lock_rec[of p "now_locked j ?t" ?h "j + 1" f] i t nd
      by (auto simp: now_locked_def txn_wf_def answered_def truthful_def told_failure_def)
  qed
qed

lemma ans_pre_op:
  assumes "tx_inv p f s" "ans_inv s h" "Pre_Op j w a \<in> set (calls s)"
  shows "ans_inv (afr_reply p f (Pre_Op j w a) ret err s) ((Pre_Op j w a, ret \<noteq> - 1) # h)"
proof -
  let ?t = "pre_noted j ret err (received (Pre_Op j w a) s)" and ?h = "(Pre_Op j w a, ret \<noteq> - 1) # h"
  have nd: "\<not> did ?h" "\<not> told_failure s" using ans_before[OF assms(2,3)] by auto
  have i: "txn_wf p ?t" "answered ?t" using tx_invD[OF assms(1,3)] by auto
  have t: "truthful ?t ?h" "\<not> told_failure ?t"
    using nd assms(2) by (auto simp: ans_inv_def truthful_def told_failure_def pre_noted_def Let_def)
  note ok = ans_nothing_done[OF _ i(2) t(1) nd(1) t(2)]
  from assms(1,3) show ?thesis
  proof (cases rule: pre_reply_cases[of p f s j w a ret err, consumes 2, case_names more resume wind])
    case more
    then show ?thesis using ok[OF same_refl] by simp
  next
    case resume
    then show ?thesis using ok[OF resume_moves(1)[OF i(1) resume(1)]] by simp
  next
    case wind
    then show ?thesis using ok[OF wind_moves(1)[OF i(1) wind(1)]] by simp
  qed
qed

lemma ans_fop:
  assumes "honest f" "tx_inv p f s" "ans_inv s h" "Fop j \<in> set (calls s)"
  shows "ans_inv (afr_reply p f (Fop j) ret err s) ((Fop j, ret \<noteq> - 1) # h)"
proof -
  let ?s = "received (Fop j) s" and ?h = "(Fop j, ret \<noteq> - 1) # h"
  note iv = tx_invD[OF assms(2,4)]
  have "truthful ?s h" "\<not> told_failure ?s" "answered ?s"
    using ans_before[OF assms(3,4)] assms(3) iv by (auto simp: ans_inv_def truthful_def told_failure_def)
  then obtain t where t: "fop_noted ?s t"
    "fop_cbk p f j ret err ?s = (if call_count t = 0 then afr_transaction_resume p f t else t)"
    "truthful t ?h" "call_count t \<noteq> 0 \<longrightarrow> \<not> told_failure t"
    using fop_cbk_truthful[OF assms(1)] by metis
  have i: "txn_wf p t" "answered t" "calls t = calls ?s" "call_count t = call_count s - 1"
    using t(1) iv by (auto simp: fop_noted_def txn_wf_def)
  note l = counted_last[OF assms(2,4)]
  show ?thesis
  proof (cases "call_count t = 0")
    case True
    then have e: "calls t = []" using l(1) i(3,4) by simp
    show ?thesis using ans_same[OF resume_moves(1)[OF i(1) e] i(2) t(3)] resume_kinds[OF i(1) e] True t(2)
      by (fastforce simp: afr_reply_def)
  next
    case False
    have "\<forall>c \<in> set (calls t). kind c \<le> 2" using l(2) i(3) by auto
    then show ?thesis using ans_same[OF same_refl i(2) t(3)] False t(2,4) by (auto simp: afr_reply_def)
  qed
qed

lemma ans_late:
  assumes "tx_inv p f s" "ans_inv s h" "c \<in> set (calls s)" "kind c < 2"
  shows "ans_inv (afr_reply p f c ret err s) ((c, ret \<noteq> - 1) # h)"
proof -
  let ?t = "counted (received c s)" and ?h = "(c, ret \<noteq> - 1) # h"
  note iv = tx_invD[OF assms(1,3)] and l = counted_last[OF assms(1,3)]
  have i: "txn_wf p ?t" "answered ?t" "truthful ?t ?h"
    using iv assms(2,4) by (auto simp: ans_inv_def truthful_def)
  have k: "\<forall>d \<in> set (calls ?t). kind d < 2" using l(2) assms(4) by auto
  have "ans_inv ?t ?h" by (rule ans_same[OF same_refl i(2,3)]) (use k in auto)
  moreover have "ans_inv (unlock_or_done p f ?t) ?h" if "calls ?t = []"
    by (rule ans_same[OF unlock_or_done_moves(1)[OF i(1) that] i(2,3)])
      (auto simp: unlock_or_done_moves(2)[OF i(1) that] dest: sent_kinds split: if_splits)
  moreover have "ans_inv (afr_done ?t) ?h" if "calls ?t = []"
    by (rule ans_same[OF done_same(1)[OF that] i(2,3)]) (use that in \<open>auto simp: done_same(2)\<close>)
  ultimately show ?thesis using assms(4) late_reply_eq[OF assms(1,3)] by (cases c) (auto simp: Let_def)
qed

lemma ans_reply:
  assumes "honest f" "tx_inv p f s" "ans_inv s h" "c \<in> set (calls s)"
  shows "ans_inv (afr_reply p f c ret err s) ((c, ret \<noteq> - 1) # h)"
  using assms ans_lock ans_pre_op ans_fop ans_late by (cases c) (auto simp del: One_nat_def)

lemma ans_start:
  assumes "afr_start p f (s, h)"
  shows "ans_inv s h"
proof -
  obtain up seen t where t: "length up = child_count p" "AFR_LOCAL_INIT up seen = Inr t" "s = afr_transaction p f t" "h = []"
    using afr_startE[OF assms] by metis
  let ?t = "t\<lparr>pending_array := replicate (child_count p) 0, locked_nodes := replicate (child_count p) False\<rparr>"
  have i: "txn_wf p ?t" "answered ?t" "calls ?t = []" "truthful ?t h" "\<not> did h" "\<not> told_failure ?t"
    using t(1,2,4) by (auto simp: AFR_LOCAL_INIT_def txn_wf_def answered_def truthful_def did_def told_failure_def split: if_splits)
  show ?thesis
    using ans_lock_rec[OF i, of 0 f] ans_nothing_done[OF start_op_moves(1)[OF i(1,3), of f] i(2,4,5,6)] t(3)
    by (auto simp: afr_transaction_def afr_lock_def Let_def)
qed

interpretation afr_ans: step_system "\<lambda>s. honest f \<and> afr_start p f s" "afr_step p f"
  "\<lambda>(s, h). honest f \<and> tx_inv p f s \<and> ans_inv s h" for p f
proof unfold_locales
  show "honest f \<and> afr_start p f s \<Longrightarrow> case s of (s, h) \<Rightarrow> honest f \<and> tx_inv p f s \<and> ans_inv s h" for p f s
    using afr_start_ok ans_start by (cases s) blast
  show "\<lbrakk>case s of (s, h) \<Rightarrow> honest f \<and> tx_inv p f s \<and> ans_inv s h; afr_step p f s t\<rbrakk>
      \<Longrightarrow> case t of (s, h) \<Rightarrow> honest f \<and> tx_inv p f s \<and> ans_inv s h" for p f s t
    using afr_reply_ok ans_reply by (auto elim!: afr_step.cases)
qed

section \<open>Locks are given back\<close>

definition locks_known :: "afr_private \<Rightarrow> afr_fop \<Rightarrow> txn \<Rightarrow> history \<Rightarrow> bool" where
  "locks_known p f s h \<longleftrightarrow>
     (\<forall>i w. (Lock i w, True) \<in> set h \<longrightarrow> i < child_count p \<and> w \<in> set (places f) \<and> locked_nodes s ! i)
   \<and> (lock_count s = 0 \<or> afr_lock_server_count p (tx_type f) = 0 \<longrightarrow> True \<notin> set (locked_nodes s))"

definition no_locks :: "txn \<Rightarrow> bool" where
  "no_locks s \<longleftrightarrow> (\<forall>i w. Lock i w \<notin> set (calls s))"

definition given_back :: "afr_private \<Rightarrow> afr_fop \<Rightarrow> txn \<Rightarrow> history \<Rightarrow> bool" where
  "given_back p f s h \<longleftrightarrow> (\<exists>c \<in> set (calls s). 0 < kind c)
     \<or> (\<forall>i < child_count p. locked_nodes s ! i \<longrightarrow> (\<forall>w \<in> set (places f). Unlock i w \<in> set (calls s) \<or> (\<exists>ok. (Unlock i w, ok) \<in> set h)))"

definition lk_inv :: "afr_private \<Rightarrow> afr_fop \<Rightarrow> txn \<Rightarrow> history \<Rightarrow> bool" where
  "lk_inv p f s h \<longleftrightarrow> locks_known p f s h \<and> given_back p f s h
     \<and> (\<forall>i w. Lock i w \<in> set (calls s) \<longrightarrow> op_errno s \<noteq> ENOSYS \<and> w \<in> set (places f) \<and> afr_lock_server_count p (tx_type f) \<noteq> 0)"

text \<open>The calls that follow the locks: either more work is outstanding, or the locks are being given back.\<close>

definition heads_home :: "afr_private \<Rightarrow> afr_fop \<Rightarrow> txn \<Rightarrow> txn \<Rightarrow> bool" where
  "heads_home p f s t \<longleftrightarrow> same s t \<and> no_locks t \<and>
     ((\<exists>c \<in> set (calls t). 0 < kind c) \<or> calls t = unlocks f s \<or> afr_lock_server_count p (tx_type f) = 0 \<and> calls t = [])"

lemma sent_locks: "Lock i w \<notin> set (unlocks f s)" "Lock i w \<notin> set (posts p f s)" "Lock i w \<notin> set (fops s)" "Lock i w \<notin> set (pres p f s)"
  by (auto dest!: sent_to_mem)

lemma sent_busy:
  "posts p f s \<noteq> [] \<Longrightarrow> \<exists>c \<in> set (posts p f s). 0 < kind c" "fops s \<noteq> [] \<Longrightarrow> \<exists>c \<in> set (fops s). 0 < kind c"
  "pres p f s \<noteq> [] \<Longrightarrow> \<exists>c \<in> set (pres p f s). 0 < kind c"
proof -
  have some: "cs \<noteq> [] \<Longrightarrow> (\<And>c. c \<in> set cs \<Longrightarrow> 0 < kind c) \<Longrightarrow> \<exists>c \<in> set cs. 0 < kind c" for cs
    by (cases cs) auto
  show "posts p f s \<noteq> [] \<Longrightarrow> \<exists>c \<in> set (posts p f s). 0 < kind c" "fops s \<noteq> [] \<Longrightarrow> \<exists>c \<in> set (fops s). 0 < kind c"
    "pres p f s \<noteq> [] \<Longrightarrow> \<exists>c \<in> set (pres p f s). 0 < kind c"
    by (rule some; auto dest!: sent_to_mem)+
qed


lemma home_unlock: "txn_wf p s \<Longrightarrow> calls s = [] \<Longrightarrow> heads_home p f s (afr_unlock p f s)"
  using unlock_moves by (auto simp: heads_home_def no_locks_def sent_locks)

lemma home_unlock_or_done: "txn_wf p s \<Longrightarrow> calls s = [] \<Longrightarrow> heads_home p f s (unlock_or_done p f s)"
  using unlock_or_done_moves[of p s f] by (auto simp: heads_home_def no_locks_def sent_locks)

lemma home_resume: "txn_wf p s \<Longrightarrow> calls s = [] \<Longrightarrow> heads_home p f s (afr_transaction_resume p f s)"
  using resume_moves[of p s f] sent_busy(1)[of s p f] by (auto simp: heads_home_def no_locks_def sent_locks)

lemma home_wind: "txn_wf p s \<Longrightarrow> calls s = [] \<Longrightarrow> heads_home p f s (afr_wind p f s)"
  using wind_moves[of p s f] sent_busy(2)[of s] home_resume[of p s f] by (auto simp: heads_home_def no_locks_def sent_locks)

lemma home_start_op: "txn_wf p s \<Longrightarrow> calls s = [] \<Longrightarrow> heads_home p f s (start_op p f s)"
  using start_op_moves[of p s f] sent_busy(3)[of s p f] home_wind[of p s f]
  by (cases "pres p f s = []") (auto simp: heads_home_def no_locks_def sent_locks)

lemma lk_home:
  assumes "heads_home p f s t" "txn_wf p s" "locks_known p f s h"
  shows "lk_inv p f t h"
proof -
  have s: "same s t" "no_locks t" using assms(1) by (auto simp: heads_home_def)
  then have k: "locks_known p f t h" and l: "locked_nodes t = locked_nodes s"
    using assms(3) by (auto simp: same_def locks_known_def)
  have len: "length (locked_nodes s) = child_count p" using assms(2) by (simp add: txn_wf_def)
  consider (busy) "\<exists>c \<in> set (calls t). 0 < kind c" | (unl) "calls t = unlocks f s"
    | (none) "afr_lock_server_count p (tx_type f) = 0" using assms(1) by (auto simp: heads_home_def)
  then have "given_back p f t h"
  proof cases
    case unl
    have "Unlock i w \<in> set (unlocks f s)" if "i < child_count p" "locked_nodes s ! i" "w \<in> set (places f)" for i w
      using that len by (auto simp: sent_to_def)
    then show ?thesis using l unl by (auto simp: given_back_def)
  next
    case none
    then have "True \<notin> set (locked_nodes s)" using assms(3) by (simp add: locks_known_def)
    then show ?thesis using l len unfolding given_back_def by (metis nth_mem)
  qed (auto simp: given_back_def)
  then show ?thesis using k s(2) by (simp add: lk_inv_def no_locks_def)
qed

lemma lk_lock_rec:
  assumes "txn_wf p s" "calls s = []" "locks_known p f s h" "i \<le> child_count p" "op_errno s \<noteq> ENOSYS"
    "afr_lock_server_count p (tx_type f) \<noteq> 0"
  shows "lk_inv p f (afr_lock_rec p f i s) h"
proof -
  from assms(2,4) show ?thesis
  proof (cases rule: lock_rec_cases[where f = f, consumes 2, case_names none start lock])
    case none
    have "True \<notin> set (locked_nodes s)" using none(1) assms(3) by (simp add: locks_known_def)
    then have "\<forall>i < child_count p. \<not> locked_nodes s ! i" using assms(1) unfolding txn_wf_def by (metis nth_mem)
    then show ?thesis using none assms(2,3)
      by (auto simp: lk_inv_def locks_known_def given_back_def afr_done_def afr_unwind_def Let_def)
  next
    case start
    then show ?thesis using lk_home[OF home_start_op[OF assms(1,2)] assms(1,3)] by simp
  next
    case (lock j)
    have "set (lock_places f) = set (places f)" by (auto simp: lock_places_def places_def)
    then show ?thesis using lock(3) assms(3,5,6) places_length(2)[of f]
      by (cases "lock_places f") (auto simp: lk_inv_def locks_known_def given_back_def)
  qed
qed

lemma lk_known:
  assumes "lk_inv p f s h" "locked_nodes t = locked_nodes s" "lock_count t = lock_count s" "\<nexists>i w. c = Lock i w"
  shows "locks_known p f t ((c, ok) # h)"
  using assms by (auto simp: lk_inv_def locks_known_def)

lemma lk_still:
  assumes "tx_inv p f s" "lk_inv p f s h" "c \<in> set (calls s)" "kind c < 4"
    and "locked_nodes t = locked_nodes s" "lock_count t = lock_count s" "calls t = remove1 c (calls s)" "calls t \<noteq> []"
  shows "lk_inv p f t ((c, ok) # h)"
proof -
  have k: "\<forall>d \<in> set (calls t). kind d = kind c" using counted_last(2)[OF assms(1,3,4)] assms(7) by simp
  have nl: "\<nexists>i w. c = Lock i w" using assms(4) by auto
  have "given_back p f t ((c, ok) # h)"
  proof (cases "0 < kind c")
    case True
    then show ?thesis using k assms(8) unfolding given_back_def by (metis list.set_intros(1) neq_Nil_conv)
  next
    case False
    then have "\<forall>d \<in> set (calls s). kind d = 0"
      using waiting_other(1)[OF tx_invD(3)[OF assms(1,3)] assms(3) nl] by simp
    then have g: "Unlock i w \<in> set (calls s) \<or> (\<exists>ok. (Unlock i w, ok) \<in> set h)"
      if "i < child_count p" "locked_nodes s ! i" "w \<in> set (places f)" for i w
      using assms(2) that by (auto simp: lk_inv_def given_back_def)
    have "Unlock i w \<in> set (calls t) \<or> (\<exists>ok'. (Unlock i w, ok') \<in> set ((c, ok) # h))"
      if "i < child_count p" "locked_nodes s ! i" "w \<in> set (places f)" for i w
      using g[OF that] assms(7) by (cases "Unlock i w = c") auto
    then show ?thesis using assms(5) by (auto simp: given_back_def)
  qed
  then show ?thesis using lk_known[OF assms(2,5,6) nl] k assms(4) unfolding lk_inv_def by force
qed

lemma lk_lock:
  assumes "tx_type f \<noteq> AFR_ENTRY_RENAME_TRANSACTION" "tx_inv p f s" "lk_inv p f s h" "Lock j w \<in> set (calls s)"
  shows "lk_inv p f (afr_reply p f (Lock j w) ret err s) ((Lock j w, ret \<noteq> - 1) # h)"
proof -
  let ?t = "lock_noted f j ret err (received (Lock j w) s)" and ?h = "(Lock j w, ret \<noteq> - 1) # h"
  note iv = tx_invD[OF assms(2,4)]
  have l: "op_errno s \<noteq> ENOSYS" "w \<in> set (places f)" "afr_lock_server_count p (tx_type f) \<noteq> 0" "locks_known p f s h"
    using assms(3,4) by (auto simp: lk_inv_def)
  from assms(2,4) show ?thesis
  proof (cases rule: lock_reply_cases[of p f s j w ret err, consumes 2, case_names more enosys go_on])
    case more
    then show ?thesis using assms(1) by simp
  next
    case enosys
    then have "ret = - 1" using l(1) by (auto simp: lock_noted_def Let_def split: if_splits)
    then have "locks_known p f ?t ?h" using l(4) by (auto simp: locks_known_def)
    then show ?thesis using lk_home[OF home_unlock, of p ?t f ?h] enosys iv(1) by simp
  next
    case go_on
    let ?u = "now_locked j ?t"
    have "locks_known p f ?u ?h" using l go_on(3) iv(1)
      by (auto simp: locks_known_def now_locked_def txn_wf_def nth_list_update)
    moreover have "op_errno ?u \<noteq> ENOSYS" using go_on(2) l(1) assms(1)
      by (auto simp: lock_noted_def now_locked_def Let_def split: if_splits)
    ultimately show ?thesis using lk_lock_rec[of p ?u f ?h "j + 1"] go_on l(3) iv(1)
      by (simp add: now_locked_def txn_wf_def)
  qed
qed

lemma lk_reply:
  assumes "tx_type f \<noteq> AFR_ENTRY_RENAME_TRANSACTION" "tx_inv p f s" "lk_inv p f s h" "c \<in> set (calls s)"
  shows "lk_inv p f (afr_reply p f c ret err s) ((c, ret \<noteq> - 1) # h)"
proof -
  let ?h = "(c, ret \<noteq> - 1) # h"
  note iv = tx_invD[OF assms(2,4)] and still = lk_still[OF assms(2-4)]
  have home: "lk_inv p f t ?h" if "heads_home p f u t" "txn_wf p u" "locked_nodes u = locked_nodes s" "lock_count u = lock_count s"
    "\<nexists>i w. c = Lock i w" for u t
    using lk_home[OF that(1,2) lk_known[OF assms(3) that(3-5)]] .
  show ?thesis
  proof (cases c)
    case (Lock j w)
    then show ?thesis using lk_lock[OF assms(1-3)] assms(4) by simp
  next
    case (Pre_Op j w a)
    let ?t = "pre_noted j ret err (received c s)"
    from assms(2) assms(4)[unfolded Pre_Op] show ?thesis
    proof (cases rule: pre_reply_cases[of p f s j w a ret err, consumes 2, case_names more resume wind])
      case more
      then show ?thesis using still[of ?t] Pre_Op by simp
    next
      case resume
      then show ?thesis using home[OF home_resume, of ?t] iv(1) Pre_Op by simp
    next
      case wind
      then show ?thesis using home[OF home_wind, of ?t] iv(1) Pre_Op by simp
    qed
  next
    case (Fop j)
    obtain t where t: "fop_noted (received c s) t"
      "fop_cbk p f j ret err (received c s) = (if call_count t = 0 then afr_transaction_resume p f t else t)"
      using fop_cbk_eq by blast
    have e: "call_count t = 0 \<longleftrightarrow> calls t = []" using t(1) counted_last(1)[OF assms(2,4)] Fop by (auto simp: fop_noted_def)
    have w: "txn_wf p t" "locked_nodes t = locked_nodes s" "lock_count t = lock_count s" "calls t = calls (received c s)"
      using t(1) iv(1) by (auto simp: fop_noted_def txn_wf_def)
    then show ?thesis using home[OF home_resume, of t] still[of t] t(2) e Fop by (auto simp: afr_reply_def)
  next
    case (Post_Op j w a)
    let ?t = "counted (received c s)"
    have "txn_wf p ?t" using iv(1) by simp
    then show ?thesis using home[OF home_unlock_or_done, of ?t] still[of ?t] Post_Op late_reply_eq(1)[OF assms(2,4) Post_Op]
      by (auto simp: Let_def)
  next
    case (Unlock j w)
    let ?t = "counted (received c s)"
    show ?thesis
    proof (cases "calls ?t = []")
      case True
      then have "calls s = [c]" using assms(4) iv(4) by (cases "calls s") auto
      then have "given_back p f (afr_done ?t) ?h" using assms(3) Unlock unfolding lk_inv_def given_back_def
        by (auto simp: afr_done_def afr_unwind_def Let_def)
      then show ?thesis using True lk_known[OF assms(3), of "afr_done ?t"] Unlock late_reply_eq(2)[OF assms(2,4) Unlock]
        by (auto simp: lk_inv_def Let_def afr_done_def afr_unwind_def)
    next
      case False
      then show ?thesis using still[of ?t] Unlock late_reply_eq(2)[OF assms(2,4) Unlock] by (auto simp: Let_def)
    qed
  qed
qed

lemma lk_start:
  assumes "afr_start p f (s, h)"
  shows "lk_inv p f s h"
proof -
  obtain up seen t where t: "length up = child_count p" "AFR_LOCAL_INIT up seen = Inr t" "s = afr_transaction p f t" "h = []"
    using afr_startE[OF assms] by metis
  let ?t = "t\<lparr>pending_array := replicate (child_count p) 0, locked_nodes := replicate (child_count p) False\<rparr>"
  have i: "txn_wf p ?t" "calls ?t = []" "locks_known p f ?t h" "op_errno ?t \<noteq> ENOSYS"
    using t(1,2,4) by (auto simp: AFR_LOCAL_INIT_def txn_wf_def locks_known_def split: if_splits)
  show ?thesis
    using lk_lock_rec[OF i(1-3) _ i(4), of 0] lk_home[OF home_start_op[OF i(1,2)] i(1,3)] t(3)
    by (auto simp: afr_transaction_def afr_lock_def Let_def)
qed

interpretation afr_locks: step_system "\<lambda>s. tx_type f \<noteq> AFR_ENTRY_RENAME_TRANSACTION \<and> afr_start p f s" "afr_step p f"
  "\<lambda>(s, h). tx_type f \<noteq> AFR_ENTRY_RENAME_TRANSACTION \<and> tx_inv p f s \<and> lk_inv p f s h" for p f
proof unfold_locales
  show "tx_type f \<noteq> AFR_ENTRY_RENAME_TRANSACTION \<and> afr_start p f s \<Longrightarrow>
      case s of (s, h) \<Rightarrow> tx_type f \<noteq> AFR_ENTRY_RENAME_TRANSACTION \<and> tx_inv p f s \<and> lk_inv p f s h" for p f s
    using afr_start_ok lk_start by (cases s) blast
  show "\<lbrakk>case s of (s, h) \<Rightarrow> tx_type f \<noteq> AFR_ENTRY_RENAME_TRANSACTION \<and> tx_inv p f s \<and> lk_inv p f s h; afr_step p f s t\<rbrakk>
      \<Longrightarrow> case t of (s, h) \<Rightarrow> tx_type f \<noteq> AFR_ENTRY_RENAME_TRANSACTION \<and> tx_inv p f s \<and> lk_inv p f s h" for p f s t
    using afr_reply_ok lk_reply by (auto elim!: afr_step.cases)
qed

text \<open>C15. The caller is told the truth. For every operation whose callback keeps the first success, the one
  answer the caller gets is an error exactly if no child did the operation.\<close>

theorem afr_answer_truthful:
  assumes "honest f" "afr_start p f s" "(afr_step p f)\<^sup>*\<^sup>* s (t, h)" "calls t = []"
  shows "\<exists>ret err. unwound t = [(ret, err)] \<and> (ret = - 1 \<longleftrightarrow> (\<nexists>i. (Fop i, True) \<in> set h))"
proof -
  have "case (t, h) of (s, h) \<Rightarrow> honest f \<and> tx_inv p f s \<and> ans_inv s h"
    by (rule afr_ans.inv_reach[OF _ assms(3)]) (use assms(1,2) in simp)
  then have i: "tx_inv p f t" "truthful t h" by (auto simp: ans_inv_def)
  then have "length (unwound t) = 1" using assms(4) by (auto simp: tx_inv_def answered_def le_Suc_eq)
  then obtain ret err where "unwound t = [(ret, err)]" by (metis One_nat_def length_0_conv length_Suc_conv surj_pair)
  moreover have "did h \<longleftrightarrow> (\<exists>i. (Fop i, True) \<in> set h)" by (fastforce simp: did_def split: afr_call.splits)
  ultimately show ?thesis using i(2) by (auto simp: truthful_def)
qed

theorem afr_answer_truthful_witness:
  "\<exists>t h ret err. (afr_step pair chmod_fop)\<^sup>*\<^sup>* (started pair chmod_fop) (t, h) \<and> unwound t = [(ret, err)]
     \<and> (ret = - 1 \<longleftrightarrow> (\<nexists>i. (Fop i, True) \<in> set h))"
proof -
  obtain t h where t: "afr_run pair chmod_fop replies_ok (started pair chmod_fop) = Some (t, h)" "calls t = []"
    using run_finishes by auto
  have "honest chmod_fop" by (simp add: honest_def chmod_fop_def fop_of_def)
  then show ?thesis using afr_answer_truthful[OF _ pair_started afr_run_reaches[OF t(1)] t(2)] afr_run_reaches[OF t(1)] by blast
qed

text \<open>C21. Locks are given back. When a transaction other than a rename is over, an unlock was sent to every
  child that granted a lock, whatever went wrong on the way.\<close>

theorem afr_locks_released:
  assumes "tx_type f \<noteq> AFR_ENTRY_RENAME_TRANSACTION" "afr_start p f s" "(afr_step p f)\<^sup>*\<^sup>* s (t, h)" "calls t = []"
    and "(Lock i w, True) \<in> set h"
  shows "\<exists>ok. (Unlock i w, ok) \<in> set h"
proof -
  have "case (t, h) of (s, h) \<Rightarrow> tx_type f \<noteq> AFR_ENTRY_RENAME_TRANSACTION \<and> tx_inv p f s \<and> lk_inv p f s h"
    by (rule afr_locks.inv_reach[OF _ assms(3)]) (use assms(1,2) in simp)
  then show ?thesis using assms(4,5) by (auto simp: lk_inv_def locks_known_def given_back_def)
qed

lemma run_locks: "map_option (\<lambda>(t, h). (Lock 0 Here, True) \<in> set h) (afr_run pair chmod_fop replies_ok (started pair chmod_fop)) = Some True"
  by code_simp

theorem afr_locks_released_witness:
  "\<exists>t h ok. (afr_step pair chmod_fop)\<^sup>*\<^sup>* (started pair chmod_fop) (t, h) \<and> (Lock 0 Here, True) \<in> set h \<and> (Unlock 0 Here, ok) \<in> set h"
proof -
  obtain t h where t: "afr_run pair chmod_fop replies_ok (started pair chmod_fop) = Some (t, h)" "calls t = []"
    using run_finishes by auto
  have "tx_type chmod_fop \<noteq> AFR_ENTRY_RENAME_TRANSACTION" "(Lock 0 Here, True) \<in> set h"
    using run_locks t(1) by (simp_all add: chmod_fop_def fop_of_def)
  then show ?thesis using afr_locks_released[OF _ pair_started afr_run_reaches[OF t(1)] t(2)] afr_run_reaches[OF t(1)] by blast
qed

text \<open>\<^verbatim>\<open>utimens\<close> answers with the first reply, even if that is an error: its callback asks for the answer from the
  start. The caller is told that the operation failed while a child does it.\<close>

theorem afr_utimens_first_reply:
  "\<exists>s t h. afr_utimens pair [True, True] False = Inr s
     \<and> (afr_step pair (fop_of AFR_METADATA_TRANSACTION Other_fop AFR_METADATA_PENDING False Utimens))\<^sup>*\<^sup>* (s, []) (t, h)
     \<and> unwound t = [(- 1, ENOTCONN)] \<and> (Fop 1, True) \<in> set h"
proof -
  let ?f = "fop_of AFR_METADATA_TRANSACTION Other_fop AFR_METADATA_PENDING False Utimens"
  let ?rs = "[(Lock 0 Here, 0, 0), (Pre_Op 0 Here (pre_array pair), 0, 0), (Pre_Op 1 Here (pre_array pair), 0, 0),
    (Fop 0, - 1, ENOTCONN), (Fop 1, 0, 0)]"
  have "map_option (\<lambda>(t, h). (unwound t, (Fop 1, True) \<in> set h)) (afr_run pair ?f ?rs (started pair ?f)) = Some ([(- 1, ENOTCONN)], True)"
    by code_simp
  then obtain t h where t: "afr_run pair ?f ?rs (started pair ?f) = Some (t, h)" "unwound t = [(- 1, ENOTCONN)]" "(Fop 1, True) \<in> set h"
    by auto
  obtain s where "afr_utimens pair [True, True] False = Inr s" "started pair ?f = (s, [])"
    by (simp add: afr_utimens_def started_def begin_fop_def AFR_LOCAL_INIT_def afr_up_children_count_def pair_def numeral_2_eq_2)
  then show ?thesis using afr_run_reaches[OF t(1)] t(2,3) by metis
qed

end
