(* ===== verification/Afr_Sources.thy ===== *)
theory Afr_Sources
  imports Afr_Runs
begin

text \<open>
  The changelogs that a transaction leaves on the children, and the children that the self-heal takes as
  sources when it reads them.
\<close>

section \<open>What the changelogs say\<close>

text \<open>The changelog of child \<open>i\<close> on disk, from what it was before and the calls that succeeded there.\<close>

fun stored :: "bool \<Rightarrow> (nat \<Rightarrow> u32 list option) \<Rightarrow> history \<Rightarrow> nat \<Rightarrow> u32 list option" where
  "stored e x0 [] i = x0 i"
| "stored e x0 ((Pre_Op j w a, ok) # h) i = (if ok \<and> j = i then Some (xattrop_add e (stored e x0 h i) a) else stored e x0 h i)"
| "stored e x0 ((Post_Op j w a, ok) # h) i = (if ok \<and> j = i then Some (xattrop_add e (stored e x0 h i) a) else stored e x0 h i)"
| "stored e x0 ((c, ok) # h) i = stored e x0 h i"

definition logged :: "afr_private \<Rightarrow> afr_fop \<Rightarrow> bool" where
  "logged p f \<longleftrightarrow> tx_type f \<noteq> AFR_ENTRY_RENAME_TRANSACTION \<and> changelog_enabled p (tx_type f) \<and> tx_op f = Other_fop"

definition clean :: "nat \<Rightarrow> u32 list option \<Rightarrow> bool" where
  "clean n x \<longleftrightarrow> x = None \<or> x = Some (replicate n 0)"

definition posted :: "history \<Rightarrow> nat \<Rightarrow> bool" where
  "posted h i \<longleftrightarrow> (\<exists>(c, ok) \<in> set h. ok \<and> (case c of Post_Op j w a \<Rightarrow> j = i | _ \<Rightarrow> False))"

definition quiet :: "history \<Rightarrow> bool" where
  "quiet h \<longleftrightarrow> (\<forall>(c, ok) \<in> set h. kind c \<noteq> 3 \<and> kind c \<noteq> 1)"

definition left_over :: "afr_private \<Rightarrow> bool list \<Rightarrow> u32 list" where
  "left_over p up = map (\<lambda>u. if u then 0 else hton32 (little_endian p) 1) up"

definition announcing :: "txn \<Rightarrow> nat set" where
  "announcing s = {i. \<exists>w a. Pre_Op i w a \<in> set (calls s)}"

definition ledger :: "afr_private \<Rightarrow> (nat \<Rightarrow> u32 list option) \<Rightarrow> bool list \<Rightarrow> nat set \<Rightarrow> history \<Rightarrow> bool" where
  "ledger p x0 up ann h \<longleftrightarrow> (\<forall>i < child_count p. stored (little_endian p) x0 h i =
     (if \<not> up ! i \<or> i \<in> ann then x0 i else if posted h i then Some (left_over p up) else Some (pre_array p)))"

definition log_call :: "afr_private \<Rightarrow> txn \<Rightarrow> history \<Rightarrow> afr_call \<Rightarrow> bool" where
  "log_call p s h c =
     (case c of
        Lock i w \<Rightarrow> False
      | Pre_Op i w a \<Rightarrow> i < child_count p \<and> child_up s ! i \<and> w = Here \<and> a = pre_array p \<and> (\<forall>i. \<not> posted h i)
      | Fop i \<Rightarrow> \<forall>i. \<not> posted h i
      | Post_Op i w a \<Rightarrow> i < child_count p \<and> child_up s ! i \<and> w = Here \<and> a = post_array p (child_up s) \<and> \<not> posted h i
      | Unlock i w \<Rightarrow> True)"

definition cl_inv :: "afr_private \<Rightarrow> (nat \<Rightarrow> u32 list option) \<Rightarrow> txn \<Rightarrow> history \<Rightarrow> bool" where
  "cl_inv p x0 s h \<longleftrightarrow> quiet h \<and> (\<forall>c \<in> set (calls s). kind c = 4 \<or> kind c = 0)
     \<or> ledger p x0 (child_up s) (announcing s) h \<and> distinct (calls s) \<and> (\<forall>c \<in> set (calls s). log_call p s h c)"

lemma stored_quiet: "quiet h \<Longrightarrow> stored e x0 h = x0"
proof (induction h)
  case (Cons x h)
  then show ?case by (cases x, cases "fst x") (force simp: quiet_def)+
qed auto

lemma posted_Cons [simp]: "posted ((c, ok) # h) i \<longleftrightarrow> ok \<and> (\<exists>w a. c = Post_Op i w a) \<or> posted h i"
  by (auto simp: posted_def split: afr_call.splits)

lemma quiet_posted: "quiet h \<Longrightarrow> \<not> posted h i"
  by (fastforce simp: quiet_def posted_def split: afr_call.splits)

lemma quiet_Cons [simp]: "quiet ((c, ok) # h) \<longleftrightarrow> kind c \<noteq> 3 \<and> kind c \<noteq> 1 \<and> quiet h"
  by (auto simp: quiet_def)

lemma stored_Cons [simp]: "kind c \<noteq> 3 \<Longrightarrow> kind c \<noteq> 1 \<Longrightarrow> stored e x0 ((c, ok) # h) = stored e x0 h"
  by (cases c) auto

lemma announce_clean:
  assumes "clean (child_count p) x"
  shows "xattrop_add (little_endian p) x (pre_array p) = pre_array p"
proof -
  have "xattrop_add (little_endian p) x (pre_array p) = add_array (little_endian p) (replicate (child_count p) 0) (pre_array p)"
    using assms by (auto simp: clean_def xattrop_add_def mark_all_pending_def)
  then show ?thesis by (simp add: add_array_def mark_all_pending_def zip_replicate)
qed

lemma take_back:
  assumes "length up = child_count p"
  shows "xattrop_add (little_endian p) (Some (pre_array p)) (post_array p up) = left_over p up"
  using assms
  by (intro nth_equalityI)
    (auto simp: xattrop_add_def add_array_def mark_all_pending_def mark_down_children_def mark_all_success_def left_over_def)

lemma distinct_sent_to:
  assumes "\<And>i. distinct (cs i)" "\<And>i j. i \<noteq> j \<Longrightarrow> set (cs i) \<inter> set (cs j) = {}"
  shows "distinct (sent_to sel cs)"
proof -
  have "distinct is \<Longrightarrow> distinct (concat (map cs is))" for "is"
  proof (induction "is")
    case (Cons i "is")
    have "set (cs i) \<inter> set (cs j) = {}" if "j \<in> set is" for j using Cons.prems that assms(2)[of i j] by auto
    then have "set (cs i) \<inter> (\<Union>j \<in> set is. set (cs j)) = {}" by blast
    then show ?case using Cons assms(1) by simp
  qed simp
  then show ?thesis by (simp add: sent_to_def)
qed

lemma distinct_sent: "distinct (unlocks f s)" "distinct (posts p f s)" "distinct (pres p f s)" "distinct (fops s)"
  by (rule distinct_sent_to; auto simp: places_def)+

lemma cl_unlock_calls:
  assumes "ledger p x0 (child_up t) {} h" "distinct (calls t)" "\<forall>c \<in> set (calls t). kind c = 0"
  shows "cl_inv p x0 t h"
proof -
  have "announcing t = {}" using assms(3) by (force simp: announcing_def)
  moreover have "\<forall>c \<in> set (calls t). log_call p t h c" using assms(3) by (auto simp: log_call_def split: afr_call.splits)
  ultimately show ?thesis using assms by (simp add: cl_inv_def)
qed

lemma cl_resume:
  assumes "logged p f" "txn_wf p s" "calls s = []" "ledger p x0 (child_up s) {} h" "\<forall>i. \<not> posted h i"
  shows "cl_inv p x0 (afr_transaction_resume p f s) h"
proof -
  let ?t = "afr_transaction_resume p f s"
  have up: "child_up ?t = child_up s" using resume_moves(1)[OF assms(2,3), of f] by (simp add: same_def)
  have c: "calls ?t = (if posts p f s = [] then unlocks f s else posts p f s)"
    using resume_moves(2)[OF assms(2,3), of f] assms(1) by (simp add: changelog_needed_post_op_def logged_def)
  show ?thesis
  proof (cases "posts p f s = []")
    case True
    then show ?thesis using c up assms(4) by (intro cl_unlock_calls) (auto simp: distinct_sent dest: sent_kinds)
  next
    case False
    have pl: "places f = [Here]" using assms(1) by (simp add: places_def logged_def)
    have "\<forall>c \<in> set (posts p f s). \<exists>i < child_count p. child_up s ! i \<and> c = Post_Op i Here (post_array p (child_up s))"
      using assms(2) by (auto simp: pl sent_to_def txn_wf_def)
    then have "\<forall>c \<in> set (calls ?t). log_call p ?t h c" "announcing ?t = {}"
      using False c up assms(5) by (force simp: log_call_def announcing_def)+
    then show ?thesis using assms(4) up c False distinct_sent(2)[of s p f] by (simp add: cl_inv_def)
  qed
qed

lemma cl_wind:
  assumes "logged p f" "txn_wf p s" "calls s = []" "ledger p x0 (child_up s) {} h" "\<forall>i. \<not> posted h i"
  shows "cl_inv p x0 (afr_wind p f s) h"
proof (cases "fops s = []")
  case True
  then show ?thesis using cl_resume[OF assms] by (simp add: afr_wind_eq[OF assms(2)])
next
  case False
  let ?t = "afr_wind p f s"
  have "child_up ?t = child_up s" "calls ?t = fops s"
    using wind_moves[OF assms(2,3), of f] False by (simp_all add: same_def)
  moreover have "\<forall>c \<in> set (fops s). \<exists>i. c = Fop i" by (auto simp: sent_to_def)
  then have "\<forall>c \<in> set (fops s). log_call p ?t h c" "\<nexists>i w a. Pre_Op i w a \<in> set (fops s)"
    using assms(5) by (force simp: log_call_def)+
  ultimately show ?thesis using assms(4) distinct_sent(4)[of s] by (simp add: cl_inv_def announcing_def)
qed

lemma cl_start_op:
  assumes "logged p f" "txn_wf p s" "calls s = []" "quiet h"
  shows "cl_inv p x0 (start_op p f s) h"
proof -
  let ?t = "start_op p f s"
  have up: "child_up ?t = child_up s" and c: "calls ?t = (if pres p f s = [] then unlocks f s else pres p f s)"
    using start_op_moves[OF assms(2,3), of f] assms(1) by (simp_all add: same_def logged_def)
  show ?thesis
  proof (cases "pres p f s = []")
    case True
    then show ?thesis using c assms(4) by (auto simp: cl_inv_def dest: sent_kinds)
  next
    case False
    have pl: "places f = [Here]" using assms(1) by (simp add: places_def logged_def)
    have set: "set (pres p f s) = (\<lambda>i. Pre_Op i Here (pre_array p)) ` {i. i < child_count p \<and> child_up s ! i}"
      using assms(2) by (auto simp: pl sent_to_def txn_wf_def)
    have "\<forall>c \<in> set (calls ?t). log_call p ?t h c"
      using c False up quiet_posted[OF assms(4)] by (auto simp: set log_call_def)
    moreover have "announcing ?t = {i. i < child_count p \<and> child_up s ! i}" using c False by (auto simp: announcing_def set)
    then have "ledger p x0 (child_up ?t) (announcing ?t) h"
      using up stored_quiet[OF assms(4)] by (auto simp: ledger_def)
    ultimately show ?thesis using c False distinct_sent(3)[of s p f] by (simp add: cl_inv_def)
  qed
qed

lemma cl_lock_rec:
  assumes "logged p f" "txn_wf p s" "calls s = []" "quiet h" "i \<le> child_count p"
  shows "cl_inv p x0 (afr_lock_rec p f i s) h"
proof -
  from assms(3,5) show ?thesis
  proof (cases rule: lock_rec_cases[where f = f, consumes 2, case_names none start lock])
    case none
    then show ?thesis using assms(3,4) by (simp add: cl_inv_def done_same)
  next
    case start
    then show ?thesis using cl_start_op[OF assms(1-4)] by simp
  next
    case (lock j)
    then show ?thesis using assms(4) by (auto simp: cl_inv_def)
  qed
qed

lemma cl_lock:
  assumes "logged p f" "tx_inv p f s" "cl_inv p x0 s h" "Lock j w \<in> set (calls s)"
  shows "cl_inv p x0 (afr_reply p f (Lock j w) ret err s) ((Lock j w, ret \<noteq> - 1) # h)"
proof -
  let ?t = "lock_noted f j ret err (received (Lock j w) s)" and ?h = "(Lock j w, ret \<noteq> - 1) # h"
  have q: "quiet ?h" using assms(3,4) by (force simp: cl_inv_def log_call_def)
  note iv = tx_invD[OF assms(2,4)]
  from assms(2,4) show ?thesis
  proof (cases rule: lock_reply_cases[of p f s j w ret err, consumes 2, case_names more enosys go_on])
    case more
    then show ?thesis using assms(1) by (simp add: logged_def)
  next
    case enosys
    have "calls (afr_unlock p f ?t) = unlocks f ?t" using unlock_moves(2)[OF _ enosys(1)] iv(1) by simp
    then show ?thesis using enosys(4) q by (auto simp: cl_inv_def dest: sent_kinds)
  next
    case go_on
    then show ?thesis using cl_lock_rec[of p f "now_locked j ?t" ?h "j + 1" x0] assms(1) iv(1) q
      by (simp add: now_locked_def txn_wf_def)
  qed
qed

lemma cl_log_calls:
  assumes "cl_inv p x0 s h" "c \<in> set (calls s)" "0 < kind c" "kind c < 4"
  shows "ledger p x0 (child_up s) (announcing s) h" "distinct (calls s)" "\<forall>d \<in> set (calls s). log_call p s h d"
  using assms unfolding cl_inv_def by force+

lemma cl_pre_op:
  assumes "logged p f" "\<forall>i < child_count p. clean (child_count p) (x0 i)"
    and "tx_inv p f s" "cl_inv p x0 s h" "Pre_Op j w a \<in> set (calls s)"
  shows "cl_inv p x0 (afr_reply p f (Pre_Op j w a) ret err s) ((Pre_Op j w a, ret \<noteq> - 1) # h)"
proof -
  let ?c = "Pre_Op j w a"
  let ?t = "pre_noted j ret err (received ?c s)" and ?h = "(?c, ret \<noteq> - 1) # h"
  note iv = tx_invD[OF assms(3,5)]
  have l: "ledger p x0 (child_up s) (announcing s) h" "distinct (calls s)" "\<forall>d \<in> set (calls s). log_call p s h d"
    using cl_log_calls[OF assms(4,5)] by auto
  have j: "j < child_count p" "child_up s ! j" "w = Here" "a = pre_array p" "\<forall>i. \<not> posted h i"
    using l(3) assms(5) by (auto simp: log_call_def)
  have k3: "\<exists>i w a. d = Pre_Op i w a" if "d \<in> set (calls s)" for d
    using waiting_other(1)[OF iv(3) assms(5)] that by (cases d) auto
  have rest: "set (calls ?t) = set (calls s) - {?c}" using l(2) by simp
  have same_a: "v = Here \<and> b = pre_array p" if "Pre_Op i v b \<in> set (calls s)" for i v b using l(3) that by (auto simp: log_call_def)
  have ann: "announcing ?t = announcing s - {j}"
    using rest same_a j(3,4) by (auto simp: announcing_def)
  have up: "child_up ?t ! i = (if i = j then ret \<noteq> - 1 else child_up s ! i)" for i
    using j iv(1) by (auto simp: txn_wf_def)
  have np: "\<forall>i. \<not> posted ?h i" using j(5) by simp
  have led: "ledger p x0 (child_up ?t) (announcing ?t) ?h"
    unfolding ledger_def
  proof (intro allI impI)
    fix i assume i: "i < child_count p"
    have old: "stored (little_endian p) x0 h i = (if \<not> child_up s ! i \<or> i \<in> announcing s then x0 i else Some (pre_array p))"
      using l(1) i j(5) by (simp add: ledger_def)
    have "j \<in> announcing s" using assms(5) by (auto simp: announcing_def)
    then show "stored (little_endian p) x0 ?h i = (if \<not> child_up ?t ! i \<or> i \<in> announcing ?t then x0 i
        else if posted ?h i then Some (left_over p (child_up ?t)) else Some (pre_array p))"
      using old up[of i] ann np announce_clean[of p "x0 i"] assms(2) i j(4) by auto
  qed
  have calls: "\<forall>d \<in> set (calls ?t). log_call p ?t ?h d"
  proof
    fix d assume d: "d \<in> set (calls ?t)"
    then obtain i v b where dd: "d = Pre_Op i v b" using k3 rest by blast
    have "i \<noteq> j" using d dd rest same_a[of i v b] j(3,4) by auto
    moreover have "log_call p s h d" using l(3) d rest by blast
    ultimately show "log_call p ?t ?h d" using dd up[of i] np by (auto simp: log_call_def)
  qed
  have e: "announcing ?t = {}" if "calls ?t = []" using that by (simp add: announcing_def)
  from assms(3,5) show ?thesis
  proof (cases rule: pre_reply_cases[of p f s j w a ret err, consumes 2, case_names more resume wind])
    case more
    then show ?thesis using led calls l(2) by (simp add: cl_inv_def)
  next
    case resume
    then show ?thesis using cl_resume[of p f ?t x0 ?h] assms(1) iv(1) led e np by simp
  next
    case wind
    then show ?thesis using cl_wind[of p f ?t x0 ?h] assms(1) iv(1) led e np by simp
  qed
qed

lemma cl_fop:
  assumes "logged p f" "tx_inv p f s" "cl_inv p x0 s h" "Fop j \<in> set (calls s)"
  shows "cl_inv p x0 (afr_reply p f (Fop j) ret err s) ((Fop j, ret \<noteq> - 1) # h)"
proof -
  let ?s = "received (Fop j) s" and ?h = "(Fop j, ret \<noteq> - 1) # h"
  note iv = tx_invD[OF assms(2,4)]
  have l: "ledger p x0 (child_up s) (announcing s) h" "distinct (calls s)" "\<forall>d \<in> set (calls s). log_call p s h d"
    using cl_log_calls[OF assms(3,4)] by auto
  have np: "\<forall>i. \<not> posted ?h i" using l(3) assms(4) by (auto simp: log_call_def)
  have k: "\<exists>i. d = Fop i" if "d \<in> set (calls s)" for d
    using waiting_other(1)[OF iv(3) assms(4)] that by (cases d) auto
  then have "announcing s = {}" by (fastforce simp: announcing_def)
  then have led: "ledger p x0 (child_up s) {} ?h" using l(1) by (simp add: ledger_def)
  obtain t where t: "fop_noted ?s t" "fop_cbk p f j ret err ?s = (if call_count t = 0 then afr_transaction_resume p f t else t)"
    using fop_cbk_eq by blast
  have w: "txn_wf p t" "child_up t = child_up s" "calls t = calls ?s" "call_count t = 0 \<longleftrightarrow> calls t = []"
    using t(1) iv(1) counted_last(1)[OF assms(2,4)] by (auto simp: fop_noted_def txn_wf_def)
  show ?thesis
  proof (cases "calls t = []")
    case True
    then show ?thesis using cl_resume[OF assms(1) w(1) True, of x0 ?h] led np w(2,4) t(2) by (simp add: afr_reply_def)
  next
    case False
    have "\<forall>d \<in> set (calls t). \<exists>i. d = Fop i" using k w(3) set_remove1_subset[of "Fop j" "calls s"] by auto
    then have "\<forall>d \<in> set (calls t). log_call p t ?h d" "announcing t = {}"
      using np by (force simp: log_call_def announcing_def)+
    then have "cl_inv p x0 t ?h" using led w(2,3) l(2) by (simp add: cl_inv_def)
    then show ?thesis using False w(4) t(2) by (simp add: afr_reply_def)
  qed
qed

lemma cl_post_op:
  assumes "logged p f" "tx_inv p f s" "cl_inv p x0 s h" "Post_Op j w a \<in> set (calls s)"
  shows "cl_inv p x0 (afr_reply p f (Post_Op j w a) ret err s) ((Post_Op j w a, ret \<noteq> - 1) # h)"
proof -
  let ?c = "Post_Op j w a"
  let ?t = "counted (received ?c s)" and ?h = "(?c, ret \<noteq> - 1) # h"
  note iv = tx_invD[OF assms(2,4)]
  have l: "ledger p x0 (child_up s) (announcing s) h" "distinct (calls s)" "\<forall>d \<in> set (calls s). log_call p s h d"
    using cl_log_calls[OF assms(3,4)] by auto
  have j: "j < child_count p" "child_up s ! j" "w = Here" "a = post_array p (child_up s)" "\<not> posted h j"
    using l(3) assms(4) by (auto simp: log_call_def)
  have k: "\<exists>i w a. d = Post_Op i w a" if "d \<in> set (calls s)" for d
    using waiting_other(1)[OF iv(3) assms(4)] that by (cases d) auto
  then have ann: "announcing s = {}" "announcing ?t = {}" using set_remove1_subset[of ?c "calls s"]
    by (fastforce simp: announcing_def)+
  have led: "ledger p x0 (child_up s) {} ?h"
    unfolding ledger_def
  proof (intro allI impI)
    fix i assume i: "i < child_count p"
    then show "stored (little_endian p) x0 ?h i = (if \<not> child_up s ! i \<or> i \<in> {} then x0 i
        else if posted ?h i then Some (left_over p (child_up s)) else Some (pre_array p))"
      using l(1) ann(1) j take_back[of "child_up s" p] iv(1) by (auto simp: ledger_def txn_wf_def)
  qed
  have calls: "\<forall>d \<in> set (calls ?t). log_call p ?t ?h d"
  proof
    fix d assume d: "d \<in> set (calls ?t)"
    then have ds: "d \<in> set (calls s)" "d \<noteq> ?c" using l(2) by auto
    then obtain i v b where dd: "d = Post_Op i v b" using k by blast
    have "log_call p s h d" using l(3) ds(1) by blast
    then show "log_call p ?t ?h d" using dd ds(2) j(3,4) by (auto simp: log_call_def)
  qed
  show ?thesis
  proof (cases "calls ?t = []")
    case True
    let ?u = "unlock_or_done p f ?t"
    have u: "child_up ?u = child_up s" "calls ?u = [] \<or> calls ?u = unlocks f ?t"
      using unlock_or_done_moves[of p ?t f] iv(1) True by (auto simp: same_def)
    have "cl_inv p x0 ?u ?h"
      using led u by (intro cl_unlock_calls) (auto simp: distinct_sent dest: sent_kinds)
    then show ?thesis using True late_reply_eq(1)[OF assms(2,4) refl] by (simp add: Let_def)
  next
    case False
    have "cl_inv p x0 ?t ?h" using led calls ann(2) l(2) by (simp add: cl_inv_def)
    then show ?thesis using False late_reply_eq(1)[OF assms(2,4) refl] by (simp add: Let_def)
  qed
qed

lemma cl_unlock:
  assumes "tx_inv p f s" "cl_inv p x0 s h" "Unlock j w \<in> set (calls s)"
  shows "cl_inv p x0 (afr_reply p f (Unlock j w) ret err s) ((Unlock j w, ret \<noteq> - 1) # h)"
proof -
  let ?c = "Unlock j w"
  let ?t = "counted (received ?c s)" and ?h = "(?c, ret \<noteq> - 1) # h" and ?r = "afr_reply p f ?c ret err s"
  have k: "\<forall>d \<in> set (calls s). kind d = 0" using waiting_other(1)[OF tx_invD(3)[OF assms(1,3)] assms(3)] by simp
  have sub: "set (calls ?t) \<subseteq> set (calls s)" by (simp add: set_remove1_subset)
  have r: "child_up ?r = child_up s" "calls ?r = calls ?t"
    using late_reply_eq(2)[OF assms(1,3) refl, of ret err]
    by (auto simp: Let_def afr_done_def afr_unwind_def split: if_splits)
  have kr: "\<forall>d \<in> set (calls ?r). kind d = 0" using k sub unfolding r(2) by blast
  show ?thesis
  proof (cases "quiet h")
    case True
    then show ?thesis using kr by (simp add: cl_inv_def)
  next
    case False
    then have "ledger p x0 (child_up s) (announcing s) h" "distinct (calls s)" using assms(2) by (auto simp: cl_inv_def)
    moreover have "announcing s = {}" using k by (force simp: announcing_def)
    ultimately show ?thesis using kr r by (intro cl_unlock_calls) (auto simp: ledger_def)
  qed
qed

definition all_clean :: "afr_private \<Rightarrow> (nat \<Rightarrow> u32 list option) \<Rightarrow> bool" where
  "all_clean p x0 \<longleftrightarrow> (\<forall>i < child_count p. clean (child_count p) (x0 i))"

lemma cl_reply:
  assumes "logged p f" "all_clean p x0" "tx_inv p f s" "cl_inv p x0 s h" "c \<in> set (calls s)"
  shows "cl_inv p x0 (afr_reply p f c ret err s) ((c, ret \<noteq> - 1) # h)"
  using cl_lock[OF assms(1,3,4)] cl_pre_op[OF assms(1) assms(2)[unfolded all_clean_def] assms(3,4)] cl_fop[OF assms(1,3,4)]
    cl_post_op[OF assms(1,3,4)] cl_unlock[OF assms(3,4)] assms(5) by (cases c) simp_all

lemma cl_start:
  assumes "logged p f" "afr_start p f (s, h)"
  shows "cl_inv p x0 s h"
proof -
  obtain up seen t where t: "length up = child_count p" "AFR_LOCAL_INIT up seen = Inr t" "s = afr_transaction p f t" "h = []"
    using afr_startE[OF assms(2)] by metis
  let ?t = "t\<lparr>pending_array := replicate (child_count p) 0, locked_nodes := replicate (child_count p) False\<rparr>"
  have i: "txn_wf p ?t" "calls ?t = []" "quiet h"
    using t(1,2,4) by (auto simp: AFR_LOCAL_INIT_def txn_wf_def quiet_def split: if_splits)
  show ?thesis using cl_lock_rec[OF assms(1) i, of 0] cl_start_op[OF assms(1) i] t(3)
    by (auto simp: afr_transaction_def afr_lock_def Let_def)
qed

interpretation afr_log: step_system "\<lambda>s. logged p f \<and> all_clean p x0 \<and> afr_start p f s" "afr_step p f"
  "\<lambda>(s, h). logged p f \<and> all_clean p x0 \<and> tx_inv p f s \<and> cl_inv p x0 s h" for p f x0
proof unfold_locales
  show "logged p f \<and> all_clean p x0 \<and> afr_start p f s \<Longrightarrow>
      case s of (s, h) \<Rightarrow> logged p f \<and> all_clean p x0 \<and> tx_inv p f s \<and> cl_inv p x0 s h" for p f x0 s
    using afr_start_ok cl_start by (cases s) blast
  show "\<lbrakk>case s of (s, h) \<Rightarrow> logged p f \<and> all_clean p x0 \<and> tx_inv p f s \<and> cl_inv p x0 s h; afr_step p f s t\<rbrakk>
      \<Longrightarrow> case t of (s, h) \<Rightarrow> logged p f \<and> all_clean p x0 \<and> tx_inv p f s \<and> cl_inv p x0 s h" for p f x0 s t
    using afr_reply_ok cl_reply by (auto elim!: afr_step.cases)
qed

section \<open>Who is believed\<close>

text \<open>What a lookup on the children returns after a run.\<close>

definition read_back :: "afr_private \<Rightarrow> afr_fop \<Rightarrow> (nat \<Rightarrow> u32 list option) \<Rightarrow> history \<Rightarrow> xattrs option list" where
  "read_back p f x0 h =
     map (\<lambda>i. Some (\<lambda>key. if key = tx_key f then stored (little_endian p) x0 h i else None)) [0..<child_count p]"

definition believed :: "afr_private \<Rightarrow> afr_fop \<Rightarrow> (nat \<Rightarrow> u32 list option) \<Rightarrow> history \<Rightarrow> fault + bool list" where
  "believed p f x0 h =
     bind_f (afr_sh_build_pending_matrix (little_endian p) (child_count p) (tx_key f) (read_back p f x0 h))
       (\<lambda>m. Inr (fst (snd (afr_sh_mark_sources m (child_count p)))))"

lemma believed_ledger:
  assumes "ledger p x0 up {} h" "all_clean p x0" "length up = child_count p"
  shows "believed p f x0 h = Inr (map (\<lambda>j. \<forall>i < child_count p. i \<noteq> j \<and> up ! i \<longrightarrow> posted h i \<and> up ! j) [0..<child_count p])"
proof -
  let ?n = "child_count p" and ?e = "little_endian p" and ?xs = "read_back p f x0 h"
  have row: "build_row ?e ?n (tx_key f) (?xs ! i) = Inr (if \<not> up ! i then replicate ?n 0
      else if posted h i then map (\<lambda>u. if u then 0 else 1) up else replicate ?n 1)" if i: "i < ?n" for i
  proof -
    have "stored ?e x0 h i = (if \<not> up ! i then x0 i else if posted h i then Some (left_over p up) else Some (pre_array p))"
      using assms(1) i by (simp add: ledger_def)
    moreover have "x0 i = None \<or> x0 i = Some (replicate ?n 0)" using assms(2) i by (simp add: all_clean_def clean_def)
    ultimately show ?thesis using i assms(3)
      by (auto simp: build_row_def read_back_def left_over_def mark_all_pending_def)
  qed
  have len: "length ?xs = ?n" by (simp add: read_back_def)
  have "\<exists>r. build_row ?e ?n (tx_key f) x = Inr r" if "x \<in> set ?xs" for x
  proof -
    obtain i where "i < ?n" "x = ?xs ! i" using \<open>x \<in> set ?xs\<close> len by (metis in_set_conv_nth)
    then show ?thesis using row by blast
  qed
  then obtain m where m: "afr_sh_build_pending_matrix ?e ?n (tx_key f) ?xs = Inr m" "length m = ?n"
    "\<forall>i < ?n. build_row ?e ?n (tx_key f) (?xs ! i) = Inr (m ! i)"
    using build_matrix[of ?xs ?e ?n "tx_key f"] len by auto
  have mi: "m ! i = (if \<not> up ! i then replicate ?n 0 else if posted h i then map (\<lambda>u. if u then 0 else 1) up else replicate ?n 1)"
    if "i < ?n" for i using row[OF that] m(3) that by simp
  have "\<forall>r \<in> set m. length r = ?n" using mi m(2) assms(3) by (auto simp: in_set_conv_nth)
  note src = mark_sources_nth[OF m(2) this]
  show ?thesis unfolding believed_def m(1) using mi assms(3) by (auto simp: src)
qed

lemma ledger_after:
  assumes "logged p f" "all_clean p x0" "afr_start p f s" "(afr_step p f)\<^sup>*\<^sup>* s (t, h)" "calls t = []" "\<not> quiet h"
  shows "ledger p x0 (child_up t) {} h" "length (child_up t) = child_count p"
proof -
  have "case (t, h) of (s, h) \<Rightarrow> logged p f \<and> all_clean p x0 \<and> tx_inv p f s \<and> cl_inv p x0 s h"
    by (rule afr_log.inv_reach[OF _ assms(4)]) (use assms(1-3) in simp)
  then have i: "tx_inv p f t" "cl_inv p x0 t h" by auto
  then have "ledger p x0 (child_up t) (announcing t) h" using assms(6) by (simp add: cl_inv_def)
  moreover have "announcing t = {}" using assms(5) by (simp add: announcing_def)
  ultimately show "ledger p x0 (child_up t) {} h" by simp
  show "length (child_up t) = child_count p" using i(1) by (simp add: tx_inv_def txn_wf_def)
qed

lemma believed_after:
  assumes "logged p f" "all_clean p x0" "afr_start p f s" "(afr_step p f)\<^sup>*\<^sup>* s (t, h)" "calls t = []" "\<not> quiet h"
  shows "believed p f x0 h =
    Inr (map (\<lambda>j. \<forall>i < child_count p. i \<noteq> j \<and> child_up t ! i \<longrightarrow> posted h i \<and> child_up t ! j) [0..<child_count p])"
    "length (child_up t) = child_count p"
  using believed_ledger[OF ledger_after(1)[OF assms] assms(2) ledger_after(2)[OF assms]] ledger_after(2)[OF assms] by simp_all

text \<open>C12. The changelogs name the children to heal from. After a logged operation on a file whose changelogs
  were clean, if the children that were up until the end have taken the announcement back, then the
  children that the self-heal chooses as sources are exactly these. A child that was down, or that failed
  before the operation was sent, is a sink.\<close>

theorem afr_sources_are_survivors:
  assumes "logged p f" "all_clean p x0" "afr_start p f s" "(afr_step p f)\<^sup>*\<^sup>* s (t, h)" "calls t = []" "\<not> quiet h"
    and "\<exists>i < child_count p. child_up t ! i" "\<forall>i < child_count p. child_up t ! i \<longrightarrow> posted h i"
  shows "believed p f x0 h = Inr (child_up t)"
proof -
  have "map (\<lambda>j. \<forall>i < child_count p. i \<noteq> j \<and> child_up t ! i \<longrightarrow> posted h i \<and> child_up t ! j) [0..<child_count p] = child_up t"
    using believed_after(2)[OF assms(1-6)] assms(7,8) by (intro nth_equalityI) auto
  then show ?thesis using believed_after(1)[OF assms(1-6)] by simp
qed

lemma run_sources: "map_option (\<lambda>(t, h). (calls t, child_up t, quiet h, posted h 1)) (afr_run pair chmod_fop replies_ok (started pair chmod_fop))
    = Some ([], [False, True], False, True)"
  by code_simp

lemma chmod_logged: "logged pair chmod_fop" "all_clean pair (\<lambda>_. None)"
  by (simp_all add: logged_def all_clean_def clean_def pair_def chmod_fop_def fop_of_def changelog_enabled_def)

theorem afr_sources_are_survivors_witness:
  "\<exists>t h. (afr_step pair chmod_fop)\<^sup>*\<^sup>* (started pair chmod_fop) (t, h) \<and> child_up t = [False, True]
     \<and> believed pair chmod_fop (\<lambda>_. None) h = Inr [False, True]"
proof -
  obtain t h where t: "afr_run pair chmod_fop replies_ok (started pair chmod_fop) = Some (t, h)" "calls t = []" "\<not> quiet h"
    "child_up t = [False, True]" "posted h 1"
    using run_sources by auto
  have c: "child_count pair = 2" by (simp add: pair_def)
  have "\<exists>i < child_count pair. child_up t ! i" "\<forall>i < child_count pair. child_up t ! i \<longrightarrow> posted h i"
    using t(4,5) c by (auto simp: less_2_cases_iff)
  then show ?thesis
    using afr_sources_are_survivors[OF chmod_logged pair_started afr_run_reaches[OF t(1)] t(2,3)] afr_run_reaches[OF t(1)] t(4) by auto
qed

text \<open>C37. A child that goes down while it does the operation becomes the only source. The child was told
  that a change is pending, and the announcement is taken back everywhere but there. That it went down was
  noted with \<^verbatim>\<open>afr_transaction_child_died\<close>, but the post-operation overwrites the note. When the child is back, the
  self-heal copies its old contents over those of the children that did the operation. The operation is logged and no
  rename, \<^verbatim>\<open>write\<close>, \<^verbatim>\<open>ftruncate\<close> or \<^verbatim>\<open>flush\<close>, the file was clean before, the operation was announced, and every other child
  that was up to the end has taken the announcement back.\<close>

theorem afr_dead_child_sole_source:
  assumes "logged p f" "all_clean p x0" "afr_start p f s" "(afr_step p f)\<^sup>*\<^sup>* s (t, h)" "calls t = []" "\<not> quiet h"
    and "j < child_count p" "child_up t ! j" "\<not> posted h j"
    and "\<forall>i < child_count p. i \<noteq> j \<and> child_up t ! i \<longrightarrow> posted h i"
  shows "believed p f x0 h = Inr (map (\<lambda>i. i = j) [0..<child_count p])"
proof -
  have "(\<forall>i < child_count p. i \<noteq> k \<and> child_up t ! i \<longrightarrow> posted h i \<and> child_up t ! k) \<longleftrightarrow> k = j" for k
    using assms(7-10) by auto
  then show ?thesis using believed_after(1)[OF assms(1-6)] by simp
qed

definition replies_dead :: "(afr_call \<times> int \<times> int) list" where
  "replies_dead = [(Lock 0 Here, 0, 0), (Pre_Op 0 Here (pre_array pair), 0, 0), (Pre_Op 1 Here (pre_array pair), 0, 0),
     (Fop 0, - 1, ENOTCONN), (Fop 1, 0, 0), (Post_Op 0 Here (post_array pair [True, True]), - 1, ENOTCONN),
     (Post_Op 1 Here (post_array pair [True, True]), 0, 0), (Unlock 0 Here, - 1, ENOTCONN)]"

lemma run_dead: "map_option (\<lambda>(t, h). (calls t, child_up t, quiet h, posted h 0, posted h 1, (Fop 0, False) \<in> set h, (Fop 1, True) \<in> set h))
    (afr_run pair chmod_fop replies_dead (started pair chmod_fop)) = Some ([], [True, True], False, False, True, True, True)"
  by code_simp

theorem afr_dead_child_sole_source_witness:
  "\<exists>t h. (afr_step pair chmod_fop)\<^sup>*\<^sup>* (started pair chmod_fop) (t, h) \<and> (Fop 0, False) \<in> set h \<and> (Fop 1, True) \<in> set h
     \<and> believed pair chmod_fop (\<lambda>_. None) h = Inr [True, False]"
proof -
  obtain t h where t: "afr_run pair chmod_fop replies_dead (started pair chmod_fop) = Some (t, h)" "calls t = []" "\<not> quiet h"
    "child_up t = [True, True]" "\<not> posted h 0" "posted h 1" "(Fop 0, False) \<in> set h" "(Fop 1, True) \<in> set h"
    using run_dead by auto
  have c: "child_count pair = 2" by (simp add: pair_def)
  have "0 < child_count pair" "child_up t ! 0" "\<forall>i < child_count pair. i \<noteq> 0 \<and> child_up t ! i \<longrightarrow> posted h i"
    using t(4,6) c by (auto simp: less_2_cases_iff)
  then have "believed pair chmod_fop (\<lambda>_. None) h = Inr (map (\<lambda>i. i = 0) [0..<child_count pair])"
    using afr_dead_child_sole_source[OF chmod_logged pair_started afr_run_reaches[OF t(1)] t(2,3)] t(5) by blast
  then show ?thesis using afr_run_reaches[OF t(1)] t(7,8) c by (auto simp: numeral_2_eq_2)
qed

end
