(* ===== verification/Afr_Heal_Data.thy ===== *)
theory Afr_Heal_Data
  imports Afr_Transaction
begin

text \<open>
  The self-heal of the contents of a file, \<^verbatim>\<open>xlators/cluster/afr/src/afr-self-heal-data.c\<close>: lock the file on
  all children that are up, look it up, choose the sources from the changelogs, copy from one source to
  all sinks block by block, cut the sinks to the right size, erase the changelogs, unlock, close.

  The state \<open>self_heal\<close> is \<^verbatim>\<open>afr_self_heal_t\<close> with the fields of \<^verbatim>\<open>afr_local_t\<close> that are used here, and the calls that were
  sent and not yet answered. Sizes and offsets are natural numbers: \<^verbatim>\<open>off_t\<close> has 63 bits and no file gets near.
  The favorite child of the configuration is one of the children. Of \<^verbatim>\<open>struct stat\<close> the size and the blocks are kept.
\<close>

section \<open>State\<close>

record sh_stat =
  buf_size :: nat
  buf_blocks :: nat

datatype sh_call = H_Lock nat | H_Lookup nat | H_Open nat | H_Read nat nat nat | H_Write nat bytes nat | H_Trim nat nat
  | H_Erase nat "u32 list" | H_Unlock nat | H_Flush nat

record self_heal =
  sh_up :: "bool list"
  sh_count :: int
  sh_xattr :: "xattrs option list"
  sh_errno :: "int list"
  sh_buf :: "sh_stat list"
  sh_sources :: "bool list"
  sh_source :: nat
  sh_sinks :: int
  sh_success :: "bool list"
  sh_matrix :: matrix
  sh_fd :: bool
  sh_failed :: bool
  sh_holes :: bool
  sh_size :: nat
  sh_offset :: nat
  sh_govinda :: bool
  sh_calls :: "sh_call list"
  sh_completed :: nat

definition FILE_HAS_HOLES :: "sh_stat \<Rightarrow> bool" where
  "FILE_HAS_HOLES b \<longleftrightarrow> buf_blocks b * 512 < buf_size b"

definition SIZE_DIFFERS :: "sh_stat \<Rightarrow> sh_stat \<Rightarrow> bool" where
  "SIZE_DIFFERS b1 b2 \<longleftrightarrow> buf_size b1 \<noteq> buf_size b2"

text \<open>A loop over the children that sends one call to each selected one until the counter is zero.\<close>

fun send_while :: "(nat \<Rightarrow> bool) \<Rightarrow> (nat \<Rightarrow> 'c) \<Rightarrow> nat list \<Rightarrow> int \<Rightarrow> 'c list" where
  "send_while sel c [] cnt = []"
| "send_while sel c (i # is) cnt =
     (if sel i then c i # (if cnt - 1 = 0 then [] else send_while sel c is (cnt - 1)) else send_while sel c is cnt)"

definition is_sink :: "self_heal \<Rightarrow> nat \<Rightarrow> bool" where
  "is_sink s i \<longleftrightarrow> \<not> sh_sources s ! i \<and> sh_up s ! i"

definition sh_frame_return :: "self_heal \<Rightarrow> self_heal" where
  "sh_frame_return s = s\<lparr>sh_count := sh_count s - 1\<rparr>"

section \<open>The end\<close>

definition afr_sh_data_done :: "self_heal \<Rightarrow> self_heal" where
  "afr_sh_data_done s = s\<lparr>sh_completed := sh_completed s + 1\<rparr>"

definition afr_sh_data_flush_cbk :: "self_heal \<Rightarrow> self_heal" where
  "afr_sh_data_flush_cbk s =
     (let s = sh_frame_return s in if sh_count s = 0 then afr_sh_data_done (s\<lparr>sh_fd := False\<rparr>) else s)"

definition afr_sh_data_close :: "afr_private \<Rightarrow> self_heal \<Rightarrow> self_heal" where
  "afr_sh_data_close p s =
     (if \<not> sh_fd s then afr_sh_data_done s
      else s\<lparr>sh_count := sh_sinks s + 1,
             sh_calls := sh_calls s @ H_Flush (sh_source s) # send_while (is_sink s) H_Flush [0..<child_count p] (sh_sinks s)\<rparr>)"

definition afr_sh_data_unlck_cbk :: "afr_private \<Rightarrow> self_heal \<Rightarrow> self_heal" where
  "afr_sh_data_unlck_cbk p s =
     (let s = sh_frame_return s in if sh_count s = 0 then afr_sh_data_close p s else s)"

definition afr_sh_data_unlock :: "afr_private \<Rightarrow> self_heal \<Rightarrow> self_heal" where
  "afr_sh_data_unlock p s =
     (let cnt = afr_up_children_count (sh_up s)
      in s\<lparr>sh_count := cnt, sh_calls := sh_calls s @ send_while (\<lambda>i. sh_up s ! i) H_Unlock [0..<child_count p] cnt\<rparr>)"

definition afr_sh_data_finish :: "afr_private \<Rightarrow> self_heal \<Rightarrow> self_heal" where
  "afr_sh_data_finish p s = afr_sh_data_unlock p s"

section \<open>Erasing the changelogs\<close>

definition afr_sh_data_erase_pending_cbk :: "afr_private \<Rightarrow> self_heal \<Rightarrow> self_heal" where
  "afr_sh_data_erase_pending_cbk p s =
     (let s = sh_frame_return s in if sh_count s = 0 then afr_sh_data_finish p s else s)"

definition erase_array :: "xattrs option list \<Rightarrow> nat \<Rightarrow> u32 list" where
  "erase_array erase i = (case erase ! i of None \<Rightarrow> [] | Some d \<Rightarrow> (case d AFR_DATA_PENDING of None \<Rightarrow> [] | Some a \<Rightarrow> a))"

definition afr_sh_data_erase_pending :: "afr_private \<Rightarrow> self_heal \<Rightarrow> self_heal" where
  "afr_sh_data_erase_pending p s =
     (let delta = afr_sh_pending_to_delta (sh_matrix s) (sh_success s);
          cnt = int (length (filter (\<lambda>x. x \<noteq> None) (sh_xattr s)));
          erase = afr_sh_delta_to_xattr (little_endian p) delta (map (map_option (\<lambda>_. Map.empty)) (sh_xattr s)) AFR_DATA_PENDING
      in s\<lparr>sh_count := cnt,
           sh_calls := sh_calls s @ send_while (\<lambda>i. erase ! i \<noteq> None) (\<lambda>i. H_Erase i (erase_array erase i)) [0..<child_count p] cnt\<rparr>)"

section \<open>Copying\<close>

text \<open>That a sink could not be cut to the right size is only logged.\<close>

definition afr_sh_data_trim_cbk :: "afr_private \<Rightarrow> self_heal \<Rightarrow> self_heal" where
  "afr_sh_data_trim_cbk p s =
     (let s = sh_frame_return s in if sh_count s = 0 then afr_sh_data_erase_pending p s else s)"

definition afr_sh_data_trim_sinks :: "afr_private \<Rightarrow> self_heal \<Rightarrow> self_heal" where
  "afr_sh_data_trim_sinks p s =
     s\<lparr>sh_count := sh_sinks s,
       sh_calls := sh_calls s @ send_while (is_sink s) (\<lambda>i. H_Trim i (sh_size s)) [0..<child_count p] (sh_sinks s)\<rparr>"

definition afr_sh_data_read_write :: "self_heal \<Rightarrow> self_heal" where
  "afr_sh_data_read_write s = s\<lparr>sh_calls := sh_calls s @ [H_Read (sh_source s) 65536 (sh_offset s)]\<rparr>"

definition afr_sh_data_read_write_iter :: "afr_private \<Rightarrow> self_heal \<Rightarrow> self_heal" where
  "afr_sh_data_read_write_iter p s =
     (if sh_failed s then afr_sh_data_finish p s
      else if sh_size s \<le> sh_offset s then afr_sh_data_trim_sinks p s
      else afr_sh_data_read_write s)"

definition afr_sh_data_write_cbk :: "afr_private \<Rightarrow> int \<Rightarrow> self_heal \<Rightarrow> self_heal" where
  "afr_sh_data_write_cbk p ret s =
     (let s = sh_frame_return (if ret = - 1 then s\<lparr>sh_failed := True\<rparr> else s)
      in if sh_count s = 0 then afr_sh_data_read_write_iter p s else s)"

text \<open>The answer to a read: the bytes, or \<open>None\<close> for an error. An error is taken for the end of the file.\<close>

definition afr_sh_data_read_cbk :: "afr_private \<Rightarrow> bytes option \<Rightarrow> self_heal \<Rightarrow> self_heal" where
  "afr_sh_data_read_cbk p r s =
     (let s = s\<lparr>sh_count := sh_sinks s\<rparr>
      in case r of
           None \<Rightarrow> afr_sh_data_trim_sinks p s
         | Some d \<Rightarrow>
             if d = [] then afr_sh_data_trim_sinks p s
             else let offset = sh_offset s; s = s\<lparr>sh_offset := offset + length d\<rparr>
                  in if sh_holes s \<and> (\<forall>b \<in> set d. b = 0) then afr_sh_data_read_write_iter p s
                     else s\<lparr>sh_calls := sh_calls s @ send_while (is_sink s) (\<lambda>i. H_Write i d offset) [0..<child_count p] (sh_sinks s)\<rparr>)"

definition afr_sh_data_open_cbk :: "afr_private \<Rightarrow> int \<Rightarrow> self_heal \<Rightarrow> self_heal" where
  "afr_sh_data_open_cbk p ret s =
     (let s = sh_frame_return (if ret = - 1 then s\<lparr>sh_failed := True\<rparr> else s)
      in if sh_count s = 0 then if sh_failed s then afr_sh_data_finish p s else afr_sh_data_read_write s
         else s)"

definition afr_sh_data_open :: "afr_private \<Rightarrow> self_heal \<Rightarrow> self_heal" where
  "afr_sh_data_open p s =
     (let b = sh_buf s ! sh_source s
      in s\<lparr>sh_count := sh_sinks s + 1, sh_fd := True, sh_size := buf_size b, sh_holes := (FILE_HAS_HOLES b \<or> sh_holes s),
           sh_calls := sh_calls s @ H_Open (sh_source s) # send_while (is_sink s) H_Open [0..<child_count p] (sh_sinks s)\<rparr>)"

section \<open>Choosing\<close>

definition afr_sh_data_sync_prepare :: "afr_private \<Rightarrow> self_heal \<Rightarrow> self_heal" where
  "afr_sh_data_sync_prepare p s =
     (let active_sinks = length (filter (is_sink s) [0..<child_count p]);
          success = map (\<lambda>i. is_sink s i \<or> sh_success s ! i) [0..<child_count p];
          s = s\<lparr>sh_success := success[sh_source s := True]\<rparr>
      in if active_sinks = 0 then afr_sh_data_finish p s else afr_sh_data_open p (s\<lparr>sh_sinks := int active_sinks\<rparr>))"

definition pick_favorite :: "afr_private \<Rightarrow> self_heal \<Rightarrow> bool list \<Rightarrow> bool list" where
  "pick_favorite p s sources =
     (case favorite_child p of
        Some f \<Rightarrow> if afr_sh_source_count sources = 0 \<and> sh_errno s ! f = 0 then sources[f := True] else sources
      | None \<Rightarrow> sources)"

definition drop_different :: "self_heal \<Rightarrow> nat \<Rightarrow> bool list \<Rightarrow> bool list" where
  "drop_different s source sources =
     map (\<lambda>i. if i = source \<or> sh_errno s ! i \<noteq> 0 then sources ! i
              else sources ! i \<and> \<not> SIZE_DIFFERS (sh_buf s ! i) (sh_buf s ! source)) [0..<length sources]"

definition afr_sh_data_fix :: "afr_private \<Rightarrow> self_heal \<Rightarrow> fault + self_heal" where
  "afr_sh_data_fix p s =
     bind_f (afr_sh_build_pending_matrix (little_endian p) (child_count p) AFR_DATA_PENDING (sh_xattr s)) (\<lambda>m.
       let (nsources, sources, m) = afr_sh_mark_sources m (child_count p);
           sources = afr_sh_supress_empty_children sources (sh_xattr s) (map buf_size (sh_buf s)) AFR_DATA_PENDING;
           sources = afr_sh_supress_errenous_children sources (sh_errno s);
           sources = pick_favorite p s sources;
           s = s\<lparr>sh_matrix := m, sh_sources := sources\<rparr>
       in case afr_sh_select_source sources of
            None \<Rightarrow> Inr (afr_sh_data_finish p (s\<lparr>sh_govinda := True\<rparr>))
          | Some source \<Rightarrow>
              Inr (afr_sh_data_sync_prepare p (s\<lparr>sh_source := source, sh_sources := drop_different s source sources\<rparr>)))"

section \<open>Looking\<close>

text \<open>The answer to a lookup: \<open>None\<close>, or the attributes and the dictionary of extended attributes, which may be null.\<close>

definition afr_sh_data_lookup_cbk :: "afr_private \<Rightarrow> nat \<Rightarrow> (sh_stat \<times> xattrs option) option \<Rightarrow> self_heal \<Rightarrow> fault + self_heal" where
  "afr_sh_data_lookup_cbk p i r s =
     (let s = (case r of None \<Rightarrow> s | Some (b, x) \<Rightarrow> s\<lparr>sh_xattr := (sh_xattr s)[i := x], sh_buf := (sh_buf s)[i := b]\<rparr>);
          s = sh_frame_return s
      in if sh_count s = 0 then afr_sh_data_fix p s else Inr s)"

definition afr_sh_data_lookup :: "afr_private \<Rightarrow> self_heal \<Rightarrow> self_heal" where
  "afr_sh_data_lookup p s =
     (let cnt = afr_up_children_count (sh_up s)
      in s\<lparr>sh_count := cnt, sh_calls := sh_calls s @ send_while (\<lambda>i. sh_up s ! i) H_Lookup [0..<child_count p] cnt\<rparr>)"

definition afr_sh_data_lock_cbk :: "afr_private \<Rightarrow> int \<Rightarrow> self_heal \<Rightarrow> self_heal" where
  "afr_sh_data_lock_cbk p ret s =
     (let s = sh_frame_return (if ret = - 1 then s\<lparr>sh_failed := True\<rparr> else s)
      in if sh_count s = 0 then if sh_failed s then afr_sh_data_finish p s else afr_sh_data_lookup p s
         else s)"

text \<open>
  The source counts with \<^verbatim>\<open>local->child_count\<close>, the number of children up when \<^verbatim>\<open>afr_lookup\<close> copied
  \<^verbatim>\<open>child_up\<close>; nothing changes the copy before the locks are sent, so it is the number of children up in it.
\<close>

definition afr_sh_data_lock :: "afr_private \<Rightarrow> self_heal \<Rightarrow> self_heal" where
  "afr_sh_data_lock p s =
     (let cnt = afr_up_children_count (sh_up s)
      in s\<lparr>sh_count := cnt, sh_calls := sh_calls s @ send_while (\<lambda>i. sh_up s ! i) H_Lock [0..<child_count p] cnt\<rparr>)"

definition afr_self_heal_data :: "afr_private \<Rightarrow> bool \<Rightarrow> self_heal \<Rightarrow> self_heal" where
  "afr_self_heal_data p need s = (if need \<and> data_self_heal p then afr_sh_data_lock p s else afr_sh_data_done s)"

section \<open>Replies\<close>

datatype sh_reply = Status int | Found "(sh_stat \<times> xattrs option) option" | Data "bytes option"

definition afr_sh_data_reply :: "afr_private \<Rightarrow> sh_call \<Rightarrow> sh_reply \<Rightarrow> self_heal \<Rightarrow> fault + self_heal" where
  "afr_sh_data_reply p c r s =
     (let s = s\<lparr>sh_calls := remove1 c (sh_calls s)\<rparr>
      in case (c, r) of
           (H_Lock i, Status ret) \<Rightarrow> Inr (afr_sh_data_lock_cbk p ret s)
         | (H_Lookup i, Found x) \<Rightarrow> afr_sh_data_lookup_cbk p i x s
         | (H_Open i, Status ret) \<Rightarrow> Inr (afr_sh_data_open_cbk p ret s)
         | (H_Read i n off, Data d) \<Rightarrow> Inr (afr_sh_data_read_cbk p d s)
         | (H_Write i d off, Status ret) \<Rightarrow> Inr (afr_sh_data_write_cbk p ret s)
         | (H_Trim i n, Status ret) \<Rightarrow> Inr (afr_sh_data_trim_cbk p s)
         | (H_Erase i a, Status ret) \<Rightarrow> Inr (afr_sh_data_erase_pending_cbk p s)
         | (H_Unlock i, Status ret) \<Rightarrow> Inr (afr_sh_data_unlck_cbk p s)
         | (H_Flush i, Status ret) \<Rightarrow> Inr (afr_sh_data_flush_cbk s)
         | _ \<Rightarrow> Inl Type_Confusion)"

end
