(* ===== verification/Afr_Heal_Runs.thy ===== *)
theory Afr_Heal_Runs
  imports Afr_Heal_Data "HOL-Library.Product_Lexorder"
begin

text \<open>
  The runs of the self-heal of contents: in every state the calls that are outstanding are of one kind and as many
  as the counter says, or a single read. What is left to do is ordered by the kind of the calls, the bytes that
  are still to be copied, and the number of the calls.
\<close>

section \<open>The invariant of a run\<close>

lemma nth_update_if: "xs[i := x] ! j = (if i = j \<and> j < length xs then x else xs ! j)"
  by (cases "i = j"; cases "j < length xs") (simp_all add: list_update_beyond)

lemma send_while_all:
  assumes "cnt = int (length (filter sel is))"
  shows "send_while sel c is cnt = map c (filter sel is)"
  using assms
proof (induction "is" arbitrary: cnt)
  case (Cons i "is")
  show ?case
  proof (cases "sel i")
    case True
    then have "cnt - 1 = int (length (filter sel is))" using Cons.prems by simp
    then show ?thesis using True Cons.IH[of "cnt - 1"] by (cases "filter sel is") auto
  next
    case False
    then show ?thesis using Cons by simp
  qed
qed simp

lemma is_sink_eq: "is_sink s = (\<lambda>i. \<not> sh_sources s ! i \<and> sh_up s ! i)"
  by (simp add: is_sink_def fun_eq_iff)

fun stage :: "sh_call \<Rightarrow> nat" where
  "stage (H_Lock i) = 8"
| "stage (H_Lookup i) = 7"
| "stage (H_Open i) = 6"
| "stage (H_Read i n off) = 5"
| "stage (H_Write i d off) = 5"
| "stage (H_Trim i n) = 4"
| "stage (H_Erase i a) = 3"
| "stage (H_Unlock i) = 2"
| "stage (H_Flush i) = 1"

fun is_read :: "sh_call \<Rightarrow> bool" where
  "is_read (H_Read i n off) = True"
| "is_read c = False"

definition sinks :: "afr_private \<Rightarrow> self_heal \<Rightarrow> nat list" where
  "sinks p s = filter (is_sink s) [0..<child_count p]"

definition ups :: "afr_private \<Rightarrow> self_heal \<Rightarrow> nat list" where
  "ups p s = filter (\<lambda>i. sh_up s ! i) [0..<child_count p]"

definition heal_wf :: "afr_private \<Rightarrow> self_heal \<Rightarrow> bool" where
  "heal_wf p s \<longleftrightarrow> length (sh_up s) = child_count p \<and> length (sh_xattr s) = child_count p \<and> length (sh_errno s) = child_count p
     \<and> length (sh_buf s) = child_count p \<and> ups p s \<noteq> []
     \<and> (\<forall>x \<in> set (sh_xattr s). \<forall>d a. x = Some d \<longrightarrow> d AFR_DATA_PENDING = Some a \<longrightarrow> child_count p \<le> length a)
     \<and> (\<forall>i < child_count p. sh_xattr s ! i = None \<longrightarrow> buf_size (sh_buf s ! i) = 0)"

definition committed :: "afr_private \<Rightarrow> self_heal \<Rightarrow> bool" where
  "committed p s \<longleftrightarrow> sh_sinks s = int (length (sinks p s)) \<and> sinks p s \<noteq> [] \<and> length (sh_matrix s) = child_count p
     \<and> length (sh_success s) = child_count p \<and> (\<exists>x \<in> set (sh_xattr s). x \<noteq> None)"

definition heal_waiting :: "self_heal \<Rightarrow> bool" where
  "heal_waiting s \<longleftrightarrow> (\<exists>c. sh_calls s = [c] \<and> is_read c)
     \<or> (\<exists>k. \<forall>c \<in> set (sh_calls s). stage c = k \<and> \<not> is_read c) \<and> sh_count s = int (length (sh_calls s))"

definition dh_inv :: "afr_private \<Rightarrow> self_heal \<Rightarrow> bool" where
  "dh_inv p s \<longleftrightarrow> heal_wf p s \<and> (sh_fd s \<longrightarrow> committed p s) \<and>
     (if sh_calls s = [] then sh_completed s = 1
      else sh_completed s = 0 \<and> heal_waiting s \<and> (\<forall>c \<in> set (sh_calls s). (stage c \<in> {3..6} \<longrightarrow> sh_fd s) \<and> (7 \<le> stage c \<longrightarrow> \<not> sh_fd s)))"

definition sh_ready :: "afr_private \<Rightarrow> self_heal \<Rightarrow> bool" where
  "sh_ready p s \<longleftrightarrow> heal_wf p s \<and> (sh_fd s \<longrightarrow> committed p s) \<and> sh_calls s = [] \<and> sh_completed s = 0"

definition rounds :: "sh_call \<Rightarrow> self_heal \<Rightarrow> nat" where
  "rounds c s =
     (if is_read c then 2 * (sh_size s - sh_offset s) + (if sh_size s \<le> sh_offset s then 2 else 0)
      else 2 * (sh_size s - sh_offset s) + 1)"

definition sh_left :: "self_heal \<Rightarrow> nat \<times> nat \<times> nat" where
  "sh_left s = (case sh_calls s of [] \<Rightarrow> (0, 0, 0) | c # _ \<Rightarrow> (stage c, if stage c = 5 then rounds c s else 0, length (sh_calls s)))"

lemma sh_sent_ok:
  assumes "sh_ready p s" "is \<noteq> []" "\<And>i. stage (c i) = k \<and> \<not> is_read (c i)" "k \<in> {3..6} \<Longrightarrow> sh_fd s" "7 \<le> k \<Longrightarrow> \<not> sh_fd s"
    "t = s\<lparr>sh_count := int (length is), sh_calls := map c is\<rparr>"
  shows "dh_inv p t \<and> fst (sh_left t) = k"
proof
  have "heal_waiting t" using assms(3,6) unfolding heal_waiting_def by (intro disjI2) auto
  moreover have "heal_wf p t" "sh_fd t \<longrightarrow> committed p t" "sh_completed t = 0"
    using assms(1,6) by (auto simp: sh_ready_def heal_wf_def ups_def committed_def sinks_def is_sink_eq)
  ultimately show "dh_inv p t" using assms by (auto simp: dh_inv_def)
  show "fst (sh_left t) = k" using assms(2,3,6) by (cases "is") (auto simp: sh_left_def)
qed

lemma ups_count: "heal_wf p s \<Longrightarrow> afr_up_children_count (sh_up s) = int (length (ups p s))"
proof -
  assume w: "heal_wf p s"
  have "filter id (map ((!) (sh_up s)) [0..<length (sh_up s)]) = map ((!) (sh_up s)) (filter (\<lambda>i. sh_up s ! i) [0..<length (sh_up s)])"
    by (simp add: filter_map comp_def)
  then have "length (filter id (sh_up s)) = length (filter (\<lambda>i. sh_up s ! i) [0..<length (sh_up s)])" by (metis length_map map_nth)
  then show ?thesis using w by (simp add: afr_up_children_count_def ups_def heal_wf_def)
qed

lemma sh_done_ok:
  assumes "sh_ready p s"
  shows "dh_inv p (afr_sh_data_done s) \<and> fst (sh_left (afr_sh_data_done s)) = 0"
  using assms by (auto simp: sh_ready_def dh_inv_def afr_sh_data_done_def sh_left_def heal_wf_def ups_def committed_def sinks_def is_sink_eq)

text \<open>The calls that are sent when none is outstanding.\<close>

lemma up_sent:
  assumes "heal_wf p s"
  shows "send_while (\<lambda>i. sh_up s ! i) c [0..<child_count p] (afr_up_children_count (sh_up s)) = map c (ups p s)"
  using ups_count[OF assms] send_while_all[of "int (length (ups p s))" "\<lambda>i. sh_up s ! i" "[0..<child_count p]" c] by (simp add: ups_def)

lemma sink_sent:
  assumes "committed p s"
  shows "send_while (is_sink s) c [0..<child_count p] (sh_sinks s) = map c (sinks p s)"
  using assms send_while_all[of "sh_sinks s" "is_sink s" "[0..<child_count p]" c] by (simp add: committed_def sinks_def)

lemma ready_sends_up:
  assumes "sh_ready p s"
  shows "afr_sh_data_finish p s = s\<lparr>sh_count := int (length (ups p s)), sh_calls := map H_Unlock (ups p s)\<rparr>"
    "afr_sh_data_lookup p s = s\<lparr>sh_count := int (length (ups p s)), sh_calls := map H_Lookup (ups p s)\<rparr>"
    "afr_sh_data_lock p s = s\<lparr>sh_count := int (length (ups p s)), sh_calls := map H_Lock (ups p s)\<rparr>" "ups p s \<noteq> []"
proof -
  have "heal_wf p s" "sh_calls s = []" using assms by (simp_all add: sh_ready_def)
  then show "afr_sh_data_finish p s = s\<lparr>sh_count := int (length (ups p s)), sh_calls := map H_Unlock (ups p s)\<rparr>"
    "afr_sh_data_lookup p s = s\<lparr>sh_count := int (length (ups p s)), sh_calls := map H_Lookup (ups p s)\<rparr>"
    "afr_sh_data_lock p s = s\<lparr>sh_count := int (length (ups p s)), sh_calls := map H_Lock (ups p s)\<rparr>" "ups p s \<noteq> []"
    by (simp_all add: afr_sh_data_finish_def afr_sh_data_unlock_def afr_sh_data_lookup_def afr_sh_data_lock_def up_sent Let_def)
      (simp_all add: ups_count heal_wf_def)
qed

lemma ready_sends_sinks:
  assumes "sh_ready p s" "sh_fd s"
  shows "afr_sh_data_close p s = s\<lparr>sh_count := int (length (sh_source s # sinks p s)), sh_calls := map H_Flush (sh_source s # sinks p s)\<rparr>"
    "afr_sh_data_trim_sinks p s = s\<lparr>sh_count := int (length (sinks p s)), sh_calls := map (\<lambda>i. H_Trim i (sh_size s)) (sinks p s)\<rparr>"
    "sinks p s \<noteq> []"
proof -
  have "committed p s" "sh_calls s = []" using assms by (simp_all add: sh_ready_def)
  then show "afr_sh_data_close p s = s\<lparr>sh_count := int (length (sh_source s # sinks p s)), sh_calls := map H_Flush (sh_source s # sinks p s)\<rparr>"
    "afr_sh_data_trim_sinks p s = s\<lparr>sh_count := int (length (sinks p s)), sh_calls := map (\<lambda>i. H_Trim i (sh_size s)) (sinks p s)\<rparr>"
    "sinks p s \<noteq> []"
    using assms(2) by (simp_all add: afr_sh_data_close_def afr_sh_data_trim_sinks_def sink_sent) (simp_all add: committed_def)
qed

lemma ready_opens:
  assumes "sh_ready p s" "committed p s"
    and t: "t = s\<lparr>sh_fd := True, sh_size := buf_size (sh_buf s ! sh_source s), sh_holes := (FILE_HAS_HOLES (sh_buf s ! sh_source s) \<or> sh_holes s)\<rparr>"
  shows "sh_ready p t" "sinks p t = sinks p s"
    "afr_sh_data_open p s = t\<lparr>sh_count := int (length (sh_source s # sinks p s)), sh_calls := map H_Open (sh_source s # sinks p s)\<rparr>"
  using assms sink_sent[OF assms(2), of H_Open]
  by (auto simp: afr_sh_data_open_def sh_ready_def heal_wf_def ups_def committed_def sinks_def is_sink_eq Let_def)

text \<open>The array that is sent to a child to erase its changelog.\<close>

definition erased_row :: "afr_private \<Rightarrow> self_heal \<Rightarrow> nat \<Rightarrow> u32 list" where
  "erased_row p s i = map (hton32 (little_endian p)) (map2 (\<lambda>x ok. if ok then - x else 0) (sh_matrix s ! i) (sh_success s))"

definition seen :: "afr_private \<Rightarrow> self_heal \<Rightarrow> nat list" where
  "seen p s = filter (\<lambda>i. sh_xattr s ! i \<noteq> None) [0..<child_count p]"

lemma ready_erases:
  assumes "sh_ready p s" "sh_fd s"
  shows "afr_sh_data_erase_pending p s = s\<lparr>sh_count := int (length (seen p s)), sh_calls := map (\<lambda>i. H_Erase i (erased_row p s i)) (seen p s)\<rparr>"
    "seen p s \<noteq> []"
proof -
  let ?n = "child_count p"
  define erase where "erase = afr_sh_delta_to_xattr (little_endian p) (afr_sh_pending_to_delta (sh_matrix s) (sh_success s))
    (map (map_option (\<lambda>_. Map.empty)) (sh_xattr s)) AFR_DATA_PENDING"
  have c: "committed p s" and w: "heal_wf p s" "sh_calls s = []" using assms by (simp_all add: sh_ready_def)
  have e: "(erase ! i \<noteq> None) = (sh_xattr s ! i \<noteq> None)" "sh_xattr s ! i \<noteq> None \<Longrightarrow> erase_array erase i = erased_row p s i" if "i < ?n" for i
    using that c w(1) by (auto simp: erase_def afr_sh_delta_to_xattr_def afr_sh_pending_to_delta_def committed_def heal_wf_def erase_array_def erased_row_def)
  then have f: "filter (\<lambda>i. erase ! i \<noteq> None) [0..<?n] = seen p s" unfolding seen_def by (intro filter_cong) auto
  have "filter (\<lambda>x. x \<noteq> None) (map ((!) (sh_xattr s)) [0..<?n]) = map ((!) (sh_xattr s)) (seen p s)" by (simp add: filter_map comp_def seen_def)
  then have g: "length (filter (\<lambda>x. x \<noteq> None) (sh_xattr s)) = length (seen p s)" using w(1) unfolding heal_wf_def by (metis length_map map_nth)
  have "filter (\<lambda>x. x \<noteq> None) (sh_xattr s) \<noteq> []" using c by (auto simp: committed_def filter_empty_conv)
  then show "seen p s \<noteq> []" using g by (metis length_0_conv)
  have "send_while (\<lambda>i. erase ! i \<noteq> None) (\<lambda>i. H_Erase i (erase_array erase i)) [0..<?n] (int (length (seen p s)))
      = map (\<lambda>i. H_Erase i (erase_array erase i)) (seen p s)"
    using send_while_all[of "int (length (seen p s))" "\<lambda>i. erase ! i \<noteq> None" "[0..<?n]" "\<lambda>i. H_Erase i (erase_array erase i)"] f by simp
  moreover have "map (\<lambda>i. H_Erase i (erase_array erase i)) (seen p s) = map (\<lambda>i. H_Erase i (erased_row p s i)) (seen p s)"
    using e(2) by (auto simp: seen_def)
  ultimately show "afr_sh_data_erase_pending p s = s\<lparr>sh_count := int (length (seen p s)), sh_calls := map (\<lambda>i. H_Erase i (erased_row p s i)) (seen p s)\<rparr>"
    using w(2) g unfolding afr_sh_data_erase_pending_def Let_def erase_def[symmetric] by simp
qed

lemma sh_close_ok:
  assumes "sh_ready p s"
  shows "dh_inv p (afr_sh_data_close p s) \<and> fst (sh_left (afr_sh_data_close p s)) < 2"
proof (cases "sh_fd s")
  case True
  then show ?thesis using sh_sent_ok[OF assms _ _ _ _ ready_sends_sinks(1)[OF assms True], of 1] by simp
next
  case False
  then show ?thesis using sh_done_ok[OF assms] by (simp add: afr_sh_data_close_def)
qed

lemma sh_finish_ok:
  assumes "sh_ready p s"
  shows "dh_inv p (afr_sh_data_finish p s) \<and> fst (sh_left (afr_sh_data_finish p s)) < 3"
  using sh_sent_ok[OF assms ready_sends_up(4)[OF assms] _ _ _ ready_sends_up(1)[OF assms], of 2] by simp

lemma sh_erase_ok:
  assumes "sh_ready p s" "sh_fd s"
  shows "dh_inv p (afr_sh_data_erase_pending p s) \<and> fst (sh_left (afr_sh_data_erase_pending p s)) < 4"
  using sh_sent_ok[OF assms(1) ready_erases(2)[OF assms] _ _ _ ready_erases(1)[OF assms], of 3] assms(2) by simp

lemma sh_trim_ok:
  assumes "sh_ready p s" "sh_fd s"
  shows "dh_inv p (afr_sh_data_trim_sinks p s) \<and> fst (sh_left (afr_sh_data_trim_sinks p s)) < 5"
  using sh_sent_ok[OF assms(1) ready_sends_sinks(3)[OF assms] _ _ _ ready_sends_sinks(2)[OF assms], of 4] assms(2) by simp

lemma sh_read_write_ok:
  assumes "sh_ready p s" "sh_fd s"
  shows "dh_inv p (afr_sh_data_read_write s)"
    "sh_left (afr_sh_data_read_write s) = (5, 2 * (sh_size s - sh_offset s) + (if sh_size s \<le> sh_offset s then 2 else 0), 1)"
  using assms
  by (auto simp: afr_sh_data_read_write_def sh_ready_def dh_inv_def heal_waiting_def heal_wf_def ups_def committed_def sinks_def
      is_sink_eq sh_left_def rounds_def)

lemma sh_iter_ok:
  assumes "sh_ready p s" "sh_fd s"
  shows "dh_inv p (afr_sh_data_read_write_iter p s)"
    "fst (sh_left (afr_sh_data_read_write_iter p s)) < 5 \<or>
     sh_left (afr_sh_data_read_write_iter p s) = (5, 2 * (sh_size s - sh_offset s), 1) \<and> sh_offset s < sh_size s"
  using sh_finish_ok[OF assms(1)] sh_trim_ok[OF assms] sh_read_write_ok[OF assms] by (auto simp: afr_sh_data_read_write_iter_def)

lemma sh_open_ok:
  assumes "sh_ready p s" "committed p s"
  shows "dh_inv p (afr_sh_data_open p s) \<and> fst (sh_left (afr_sh_data_open p s)) < 7"
proof -
  note o = ready_opens[OF assms refl]
  show ?thesis using sh_sent_ok[OF o(1) _ _ _ _ o(3), of 6] by simp
qed

text \<open>The state when the sinks are marked, and when they are counted.\<close>

definition prepared :: "afr_private \<Rightarrow> self_heal \<Rightarrow> self_heal" where
  "prepared p s = s\<lparr>sh_success := (map (\<lambda>i. is_sink s i \<or> sh_success s ! i) [0..<child_count p])[sh_source s := True]\<rparr>"

definition with_sinks :: "afr_private \<Rightarrow> self_heal \<Rightarrow> self_heal" where
  "with_sinks p s = (prepared p s)\<lparr>sh_sinks := int (length (sinks p s))\<rparr>"

lemma sync_prepare_eq:
  "afr_sh_data_sync_prepare p s = (if sinks p s = [] then afr_sh_data_finish p (prepared p s) else afr_sh_data_open p (with_sinks p s))"
  by (simp add: afr_sh_data_sync_prepare_def prepared_def with_sinks_def sinks_def Let_def)

lemma prepared_ready:
  assumes "sh_ready p s" "\<not> sh_fd s"
  shows "sh_ready p (prepared p s)" "sh_ready p (with_sinks p s)"
    "length (sh_matrix s) = child_count p \<Longrightarrow> \<exists>x \<in> set (sh_xattr s). x \<noteq> None \<Longrightarrow> sinks p s \<noteq> [] \<Longrightarrow> committed p (with_sinks p s)"
  using assms by (auto simp: prepared_def with_sinks_def sh_ready_def heal_wf_def ups_def committed_def sinks_def is_sink_eq)

lemma sh_sync_prepare_ok:
  assumes "sh_ready p s" "\<not> sh_fd s" "length (sh_matrix s) = child_count p" "\<exists>x \<in> set (sh_xattr s). x \<noteq> None"
  shows "dh_inv p (afr_sh_data_sync_prepare p s) \<and> fst (sh_left (afr_sh_data_sync_prepare p s)) < 7"
proof -
  note r = prepared_ready[OF assms(1,2)]
  show ?thesis using sh_finish_ok[OF r(1)] sh_open_ok[OF r(2) r(3)[OF assms(3,4)]] by (cases "sinks p s = []") (auto simp: sync_prepare_eq)
qed

lemma select_source_Some:
  assumes "afr_sh_select_source ss = Some k"
  shows "k < length ss \<and> ss ! k \<and> (\<forall>i < k. \<not> ss ! i)"
  using assms
proof (induction ss arbitrary: k)
  case (Cons a ss)
  show ?case
  proof (cases a)
    case False
    then obtain k' where "k = Suc k'" "afr_sh_select_source ss = Some k'" using Cons.prems by auto
    then show ?thesis using Cons.IH False by (auto simp: nth_Cons split: nat.splits)
  qed (use Cons.prems in auto)
qed simp

lemma select_source_None: "afr_sh_select_source ss = None \<longleftrightarrow> True \<notin> set ss"
  by (induction ss) auto

text \<open>The sources that the self-heal starts from, before it looks at the sizes.\<close>

definition first_sources :: "afr_private \<Rightarrow> self_heal \<Rightarrow> matrix \<Rightarrow> bool list" where
  "first_sources p s m = pick_favorite p s (afr_sh_supress_errenous_children
     (afr_sh_supress_empty_children (fst (snd (afr_sh_mark_sources m (child_count p)))) (sh_xattr s) (map buf_size (sh_buf s)) AFR_DATA_PENDING)
     (sh_errno s))"

definition fixed :: "afr_private \<Rightarrow> self_heal \<Rightarrow> matrix \<Rightarrow> self_heal" where
  "fixed p s m = s\<lparr>sh_matrix := clear_diagonal m, sh_sources := first_sources p s m\<rparr>"

lemma fix_eq:
  assumes "afr_sh_build_pending_matrix (little_endian p) (child_count p) AFR_DATA_PENDING (sh_xattr s) = Inr m"
  shows "afr_sh_data_fix p s = Inr (case afr_sh_select_source (first_sources p s m) of
      None \<Rightarrow> afr_sh_data_finish p ((fixed p s m)\<lparr>sh_govinda := True\<rparr>)
    | Some k \<Rightarrow> afr_sh_data_sync_prepare p ((fixed p s m)\<lparr>sh_source := k, sh_sources := drop_different s k (first_sources p s m)\<rparr>))"
proof -
  have d: "drop_different (s\<lparr>sh_matrix := a, sh_sources := b\<rparr>) = drop_different s" for a b
    by (simp add: drop_different_def fun_eq_iff)
  show ?thesis using assms
    by (simp add: afr_sh_data_fix_def first_sources_def fixed_def afr_sh_mark_sources_def Let_def d split: option.split)
qed

lemma length_first_sources:
  assumes "heal_wf p s"
  shows "length (first_sources p s m) = child_count p"
  using assms by (auto simp: first_sources_def pick_favorite_def afr_sh_supress_errenous_children_def afr_sh_supress_empty_children_def
      afr_sh_mark_sources_def Let_def heal_wf_def split: option.split)

text \<open>A favorite child that had no error is up, and its lookup has succeeded when the sources are chosen.\<close>

definition favorite_up :: "afr_private \<Rightarrow> self_heal \<Rightarrow> bool" where
  "favorite_up p s \<longleftrightarrow> (\<forall>f. favorite_child p = Some f \<and> sh_errno s ! f = 0 \<longrightarrow> f < child_count p \<and> sh_up s ! f)"

definition favorite_seen :: "afr_private \<Rightarrow> self_heal \<Rightarrow> bool" where
  "favorite_seen p s \<longleftrightarrow> (\<forall>f. favorite_child p = Some f \<and> sh_errno s ! f = 0 \<longrightarrow> f < child_count p \<and> sh_xattr s ! f \<noteq> None)"

lemma first_source_seen:
  assumes "heal_wf p s" "favorite_seen p s" "k < child_count p" "first_sources p s m ! k"
  shows "sh_xattr s ! k \<noteq> None"
proof
  assume x: "sh_xattr s ! k = None"
  moreover from this have "buf_size (sh_buf s ! k) = 0" using assms(1,3) by (simp add: heal_wf_def)
  moreover have len: "length (sh_xattr s) = child_count p" "length (sh_buf s) = child_count p" "length (sh_errno s) = child_count p"
    using assms(1) by (simp_all add: heal_wf_def)
  ultimately have no: "\<not> afr_sh_supress_errenous_children
     (afr_sh_supress_empty_children (fst (snd (afr_sh_mark_sources m (child_count p)))) (sh_xattr s) (map buf_size (sh_buf s)) AFR_DATA_PENDING)
     (sh_errno s) ! k"
    using assms(3)
    by (auto simp: afr_sh_supress_errenous_children_def afr_sh_supress_empty_children_def afr_sh_mark_sources_def Let_def has_key_def split: if_splits)
  then have "\<exists>f. favorite_child p = Some f \<and> sh_errno s ! f = 0 \<and> k = f"
    using assms(4) by (auto simp: first_sources_def pick_favorite_def nth_update_if split: option.splits if_splits)
  then show False using assms(2) x by (auto simp: favorite_seen_def)
qed

lemma source_has_xattr:
  assumes "heal_wf p s" "favorite_seen p s" "True \<in> set (first_sources p s m)"
  shows "\<exists>x \<in> set (sh_xattr s). x \<noteq> None"
proof -
  obtain k where k: "k < child_count p" "first_sources p s m ! k"
    using assms(3) length_first_sources[OF assms(1)] by (metis in_set_conv_nth)
  then have "sh_xattr s ! k \<noteq> None" using first_source_seen[OF assms(1,2)] by blast
  moreover have "sh_xattr s ! k \<in> set (sh_xattr s)" using assms(1) k(1) by (simp add: heal_wf_def)
  ultimately show ?thesis by blast
qed

lemma heal_matrix:
  assumes "heal_wf p s"
  obtains m where "afr_sh_build_pending_matrix (little_endian p) (child_count p) AFR_DATA_PENDING (sh_xattr s) = Inr m"
    "length m = child_count p" "\<forall>i < child_count p. build_row (little_endian p) (child_count p) AFR_DATA_PENDING (sh_xattr s ! i) = Inr (m ! i)"
proof -
  have "\<exists>r. build_row (little_endian p) (child_count p) AFR_DATA_PENDING x = Inr r" if "x \<in> set (sh_xattr s)" for x
    using assms that by (force simp: build_row_def heal_wf_def split: option.split)
  then show ?thesis using that build_matrix[of "sh_xattr s" "little_endian p" "child_count p" AFR_DATA_PENDING] assms
    by (auto simp: heal_wf_def)
qed

lemma sh_fix_ok:
  assumes "sh_ready p s" "\<not> sh_fd s" "favorite_seen p s"
  shows "\<exists>t. afr_sh_data_fix p s = Inr t \<and> dh_inv p t \<and> fst (sh_left t) < 7"
proof -
  have w: "heal_wf p s" using assms(1) by (simp add: sh_ready_def)
  obtain m where m: "afr_sh_build_pending_matrix (little_endian p) (child_count p) AFR_DATA_PENDING (sh_xattr s) = Inr m"
    "length m = child_count p" using heal_matrix[OF w] by blast
  show ?thesis
  proof (cases "afr_sh_select_source (first_sources p s m)")
    case None
    have "sh_ready p ((fixed p s m)\<lparr>sh_govinda := True\<rparr>)"
      using assms(1,2) by (simp add: fixed_def sh_ready_def heal_wf_def ups_def)
    then show ?thesis using sh_finish_ok[of p "(fixed p s m)\<lparr>sh_govinda := True\<rparr>"] fix_eq[OF m(1)] None by auto
  next
    case (Some k)
    let ?t = "(fixed p s m)\<lparr>sh_source := k, sh_sources := drop_different s k (first_sources p s m)\<rparr>"
    have "True \<in> set (first_sources p s m)" using Some select_source_None[of "first_sources p s m"] by auto
    then have "\<exists>x \<in> set (sh_xattr ?t). x \<noteq> None" using source_has_xattr[OF w assms(3)] by (simp add: fixed_def)
    moreover have "sh_ready p ?t" "\<not> sh_fd ?t" "length (sh_matrix ?t) = child_count p"
      using assms(1,2) m(2) by (auto simp: fixed_def sh_ready_def heal_wf_def ups_def clear_diagonal_def)
    ultimately show ?thesis using sh_sync_prepare_ok[of p ?t] fix_eq[OF m(1)] Some by auto
  qed
qed

section \<open>Replies\<close>

text \<open>
  What the children may answer: a lookup that succeeds comes with a dictionary, and a changelog in it has a
  number for every child; the lookup on a favorite child succeeds.
\<close>

definition answer_ok :: "afr_private \<Rightarrow> sh_call \<Rightarrow> sh_reply \<Rightarrow> bool" where
  "answer_ok p c r =
     (case r of
        Status ret \<Rightarrow> (case c of H_Lookup i \<Rightarrow> False | H_Read i n off \<Rightarrow> False | _ \<Rightarrow> True)
      | Data d \<Rightarrow> is_read c
      | Found x \<Rightarrow> (case c of
            H_Lookup i \<Rightarrow> (case x of
                None \<Rightarrow> favorite_child p \<noteq> Some i
              | Some (b, None) \<Rightarrow> False
              | Some (b, Some d) \<Rightarrow> (case d AFR_DATA_PENDING of None \<Rightarrow> True | Some a \<Rightarrow> child_count p \<le> length a))
          | _ \<Rightarrow> False))"

inductive heal_data_step :: "afr_private \<Rightarrow> self_heal \<Rightarrow> self_heal \<Rightarrow> bool" for p where
  "c \<in> set (sh_calls s) \<Longrightarrow> answer_ok p c r \<Longrightarrow> afr_sh_data_reply p c r s = Inr t \<Longrightarrow> heal_data_step p s t"

lemma not_read:
  assumes "dh_inv p s" "c \<in> set (sh_calls s)" "\<not> is_read c"
  shows "\<forall>d \<in> set (sh_calls s). stage d = stage c \<and> \<not> is_read d" "sh_count s = int (length (sh_calls s))"
  using assms unfolding dh_inv_def heal_waiting_def by (auto split: if_splits)

lemma heal_left_less:
  assumes "sh_calls s \<noteq> []" "fst (sh_left t) < stage (hd (sh_calls s))"
  shows "sh_left t < sh_left s"
proof -
  have "fst (sh_left s) = stage (hd (sh_calls s))" using assms(1) by (cases "sh_calls s") (auto simp: sh_left_def)
  then show ?thesis using assms(2) by (cases "sh_left t", cases "sh_left s") (auto simp: less_prod_def)
qed

text \<open>
  A reply that is not the last one of its kind only counts; the last one goes on from a state in which no
  call is outstanding.
\<close>

lemma heal_count:
  assumes "dh_inv p s" "c \<in> set (sh_calls s)" "\<not> is_read c"
    and t: "t = (s\<lparr>sh_calls := remove1 c (sh_calls s)\<rparr>)\<lparr>sh_failed := b, sh_count := sh_count s - 1, sh_xattr := x, sh_buf := f\<rparr>"
    and "heal_wf p t" "sh_fd s \<longrightarrow> x = sh_xattr s"
  shows "sh_count t = 0 \<longleftrightarrow> sh_calls t = []" "sh_calls t = [] \<Longrightarrow> sh_ready p t"
    "sh_calls t \<noteq> [] \<Longrightarrow> dh_inv p t \<and> sh_left t < sh_left s"
proof -
  note k = not_read[OF assms(1-3)]
  have len: "length (sh_calls s) = Suc (length (sh_calls t))"
    using assms(2) length_pos_if_in_set[OF assms(2)] by (simp add: t length_remove1)
  have fd: "sh_fd t \<longrightarrow> committed p t"
    using assms(1,6) by (auto simp: t dh_inv_def committed_def sinks_def is_sink_eq)
  have c0: "sh_completed t = 0" using assms(1,2) by (auto simp: t dh_inv_def split: if_splits)
  show cnt: "sh_count t = 0 \<longleftrightarrow> sh_calls t = []" using k(2) len by (auto simp: t)
  show "sh_calls t = [] \<Longrightarrow> sh_ready p t" using assms(5) fd c0 by (simp add: sh_ready_def)
  assume ne: "sh_calls t \<noteq> []"
  have sub: "set (sh_calls t) \<subseteq> set (sh_calls s)" by (simp add: t set_remove1_subset)
  then have kt: "\<forall>d \<in> set (sh_calls t). stage d = stage c \<and> \<not> is_read d" using k(1) by blast
  moreover have "sh_count t = int (length (sh_calls t))" using k(2) len by (simp add: t)
  ultimately have "heal_waiting t" unfolding heal_waiting_def by blast
  moreover have "(stage c \<in> {3..6} \<longrightarrow> sh_fd s) \<and> (7 \<le> stage c \<longrightarrow> \<not> sh_fd s)"
    using assms(1,2) unfolding dh_inv_def by (metis empty_iff empty_set)
  then have "\<forall>d \<in> set (sh_calls t). (stage d \<in> {3..6} \<longrightarrow> sh_fd t) \<and> (7 \<le> stage d \<longrightarrow> \<not> sh_fd t)" using kt by (simp add: t)
  ultimately have "dh_inv p t" using assms(5) fd c0 ne unfolding dh_inv_def by simp
  moreover have "sh_left t < sh_left s"
  proof -
    obtain d ds where d: "sh_calls t = d # ds" using ne by (cases "sh_calls t") auto
    obtain e es where e: "sh_calls s = e # es" using assms(2) by (cases "sh_calls s") auto
    have "stage d = stage e" "\<not> is_read d" "\<not> is_read e" using kt k(1) d e by auto
    moreover have "sh_size t = sh_size s" "sh_offset t = sh_offset s" by (simp_all add: t)
    ultimately show ?thesis using d e len by (simp add: sh_left_def rounds_def less_prod_def)
  qed
  ultimately show "dh_inv p t \<and> sh_left t < sh_left s" by simp
qed

lemma heal_go_on:
  assumes "dh_inv p s" "c \<in> set (sh_calls s)" "\<not> is_read c"
    and "t = (s\<lparr>sh_calls := remove1 c (sh_calls s)\<rparr>)\<lparr>sh_failed := b, sh_count := sh_count s - 1, sh_xattr := x, sh_buf := f\<rparr>"
    and "heal_wf p t" "sh_fd s \<longrightarrow> x = sh_xattr s"
    and "sh_ready p t \<Longrightarrow> \<exists>u. go t = Inr u \<and> dh_inv p u \<and> sh_left u < sh_left s"
  shows "\<exists>u. (if sh_count t = 0 then go t else Inr t) = Inr u \<and> dh_inv p u \<and> sh_left u < sh_left s"
  using heal_count[OF assms(1-6)] assms(7) by auto

lemma wf_noted:
  assumes "dh_inv p s" "t = (s\<lparr>sh_calls := cs\<rparr>)\<lparr>sh_failed := b, sh_count := k, sh_xattr := sh_xattr s, sh_buf := sh_buf s\<rparr>"
  shows "heal_wf p t"
  using assms by (auto simp: dh_inv_def heal_wf_def ups_def)

lemma same_stage_hd:
  assumes "dh_inv p s" "c \<in> set (sh_calls s)"
  shows "stage (hd (sh_calls s)) = stage c" "sh_calls s \<noteq> []"
proof -
  show ne: "sh_calls s \<noteq> []" using assms(2) by auto
  show "stage (hd (sh_calls s)) = stage c"
  proof (cases "is_read c")
    case True
    then have "\<not> (\<forall>d \<in> set (sh_calls s). \<not> is_read d)" using assms(2) by blast
    then have "\<exists>d. sh_calls s = [d]" using assms(1) ne by (auto simp: dh_inv_def heal_waiting_def)
    then show ?thesis using assms(2) by auto
  next
    case False
    then show ?thesis using not_read(1)[OF assms False] ne by (metis hd_in_set)
  qed
qed

abbreviation heal_noted :: "self_heal \<Rightarrow> sh_call \<Rightarrow> bool \<Rightarrow> self_heal" where
  "heal_noted s c b \<equiv> (s\<lparr>sh_calls := remove1 c (sh_calls s)\<rparr>)\<lparr>sh_failed := b, sh_count := sh_count s - 1, sh_xattr := sh_xattr s, sh_buf := sh_buf s\<rparr>"

lemma counted_eq:
  "sh_frame_return (s\<lparr>sh_calls := remove1 c (sh_calls s)\<rparr>) = heal_noted s c (sh_failed s)"
  "sh_frame_return (if ret = - 1 then (s\<lparr>sh_calls := remove1 c (sh_calls s)\<rparr>)\<lparr>sh_failed := True\<rparr> else s\<lparr>sh_calls := remove1 c (sh_calls s)\<rparr>)
    = heal_noted s c (ret = - 1 \<or> sh_failed s)"
  by (simp_all add: sh_frame_return_def)

lemmas reply_eq = afr_sh_data_reply_def afr_sh_data_lock_cbk_def afr_sh_data_open_cbk_def afr_sh_data_write_cbk_def
  afr_sh_data_trim_cbk_def afr_sh_data_erase_pending_cbk_def afr_sh_data_unlck_cbk_def afr_sh_data_flush_cbk_def
  Let_def prod.case sh_call.case sh_reply.case counted_eq

text \<open>What follows the last answer of a kind.\<close>

fun sh_resume :: "afr_private \<Rightarrow> sh_call \<Rightarrow> self_heal \<Rightarrow> self_heal" where
  "sh_resume p (H_Lock i) t = (if sh_failed t then afr_sh_data_finish p t else afr_sh_data_lookup p t)"
| "sh_resume p (H_Open i) t = (if sh_failed t then afr_sh_data_finish p t else afr_sh_data_read_write t)"
| "sh_resume p (H_Write i d off) t = afr_sh_data_read_write_iter p t"
| "sh_resume p (H_Trim i n) t = afr_sh_data_erase_pending p t"
| "sh_resume p (H_Erase i a) t = afr_sh_data_finish p t"
| "sh_resume p (H_Unlock i) t = afr_sh_data_close p t"
| "sh_resume p (H_Flush i) t = afr_sh_data_done (t\<lparr>sh_fd := False\<rparr>)"
| "sh_resume p c t = t"

lemma status_reply_eq:
  assumes "answer_ok p c (Status ret)" "u = heal_noted s c (stage c \<in> {5, 6, 8} \<and> ret = - 1 \<or> sh_failed s)"
  shows "afr_sh_data_reply p c (Status ret) s = Inr (if sh_count u = 0 then sh_resume p c u else u)"
proof (cases c)
  case (H_Lookup i)
  then show ?thesis using assms(1) by (simp add: answer_ok_def)
next
  case (H_Read i n off)
  then show ?thesis using assms(1) by (simp add: answer_ok_def)
qed (unfold reply_eq assms(2) sh_resume.simps, simp_all only: stage.simps, simp_all)

definition resumes :: "afr_private \<Rightarrow> self_heal \<Rightarrow> (self_heal \<Rightarrow> self_heal) \<Rightarrow> bool" where
  "resumes p s go \<longleftrightarrow> (\<forall>t. sh_ready p t \<and> sh_fd t = sh_fd s \<and> sh_size t = sh_size s \<and> sh_offset t = sh_offset s \<longrightarrow>
     dh_inv p (go t) \<and> sh_left (go t) < sh_left s)"

lemma resumesI:
  assumes "\<And>t. sh_ready p t \<Longrightarrow> sh_fd t = sh_fd s \<Longrightarrow> sh_size t = sh_size s \<Longrightarrow> sh_offset t = sh_offset s \<Longrightarrow>
      dh_inv p (go t) \<and> sh_left (go t) < sh_left s"
  shows "resumes p s go"
  using assms by (auto simp: resumes_def)

lemma heal_counted:
  assumes "dh_inv p s" "c \<in> set (sh_calls s)" "\<not> is_read c" "resumes p s go"
  shows "dh_inv p (if sh_count (heal_noted s c b) = 0 then go (heal_noted s c b) else heal_noted s c b)
     \<and> sh_left (if sh_count (heal_noted s c b) = 0 then go (heal_noted s c b) else heal_noted s c b) < sh_left s"
proof -
  have w: "heal_wf p (heal_noted s c b)" by (rule wf_noted[OF assms(1) refl])
  note h = heal_count[OF assms(1-3) refl w]
  show ?thesis
  proof (cases "sh_calls (heal_noted s c b) = []")
    case True
    then show ?thesis using h assms(4)[unfolded resumes_def, rule_format, of "heal_noted s c b"] by simp
  next
    case False
    then show ?thesis using h by simp
  qed
qed

lemma lower_stage:
  assumes "dh_inv p s" "c \<in> set (sh_calls s)" "fst (sh_left t) < stage c"
  shows "sh_left t < sh_left s"
  using heal_left_less[of s t] same_stage_hd[OF assms(1,2)] assms(3) by simp

lemma fd_of_stage:
  assumes "dh_inv p s" "c \<in> set (sh_calls s)"
  shows "stage c \<in> {3..6} \<Longrightarrow> sh_fd s" "7 \<le> stage c \<Longrightarrow> \<not> sh_fd s"
  using assms unfolding dh_inv_def by (metis empty_iff empty_set)+

lemma sh_lookup_ready_ok:
  assumes "sh_ready p s" "\<not> sh_fd s"
  shows "dh_inv p (afr_sh_data_lookup p s) \<and> fst (sh_left (afr_sh_data_lookup p s)) < 8"
    "dh_inv p (afr_sh_data_lock p s) \<and> fst (sh_left (afr_sh_data_lock p s)) < 9"
  using sh_sent_ok[OF assms(1) ready_sends_up(4)[OF assms(1)] _ _ _ ready_sends_up(2)[OF assms(1)], of 7]
    sh_sent_ok[OF assms(1) ready_sends_up(4)[OF assms(1)] _ _ _ ready_sends_up(3)[OF assms(1)], of 8] assms(2) by simp_all

text \<open>The last answer of every kind goes on to a state from which less is left.\<close>

lemma lock_resumes:
  assumes "dh_inv p s" "H_Lock i \<in> set (sh_calls s)"
  shows "resumes p s (\<lambda>t. if sh_failed t then afr_sh_data_finish p t else afr_sh_data_lookup p t)"
proof (rule resumesI)
  have fd: "\<not> sh_fd s" by (rule fd_of_stage(2)[OF assms]) simp
  fix t assume t: "sh_ready p t" "sh_fd t = sh_fd s" "sh_size t = sh_size s" "sh_offset t = sh_offset s"
  show "dh_inv p (if sh_failed t then afr_sh_data_finish p t else afr_sh_data_lookup p t)
      \<and> sh_left (if sh_failed t then afr_sh_data_finish p t else afr_sh_data_lookup p t) < sh_left s"
    using sh_finish_ok[OF t(1)] sh_lookup_ready_ok(1)[OF t(1)] t(2) fd lower_stage[OF assms] by auto
qed

lemma open_resumes:
  assumes "dh_inv p s" "H_Open i \<in> set (sh_calls s)"
  shows "resumes p s (\<lambda>t. if sh_failed t then afr_sh_data_finish p t else afr_sh_data_read_write t)"
proof (rule resumesI)
  have fd: "sh_fd s" by (rule fd_of_stage(1)[OF assms]) simp
  fix t assume t: "sh_ready p t" "sh_fd t = sh_fd s" "sh_size t = sh_size s" "sh_offset t = sh_offset s"
  show "dh_inv p (if sh_failed t then afr_sh_data_finish p t else afr_sh_data_read_write t)
      \<and> sh_left (if sh_failed t then afr_sh_data_finish p t else afr_sh_data_read_write t) < sh_left s"
    using sh_finish_ok[OF t(1)] sh_read_write_ok[OF t(1)] t(2) fd lower_stage[OF assms] by auto
qed

lemma write_resumes:
  assumes "dh_inv p s" "H_Write i d off \<in> set (sh_calls s)"
  shows "resumes p s (afr_sh_data_read_write_iter p)"
proof (rule resumesI)
  have fd: "sh_fd s" by (rule fd_of_stage(1)[OF assms]) simp
  have l: "sh_left s = (5, 2 * (sh_size s - sh_offset s) + 1, length (sh_calls s))"
    using not_read(1)[OF assms] assms(2) by (cases "sh_calls s") (auto simp: sh_left_def rounds_def)
  fix t assume t: "sh_ready p t" "sh_fd t = sh_fd s" "sh_size t = sh_size s" "sh_offset t = sh_offset s"
  show "dh_inv p (afr_sh_data_read_write_iter p t) \<and> sh_left (afr_sh_data_read_write_iter p t) < sh_left s"
    using sh_iter_ok[OF t(1)] t(2-4) fd lower_stage[OF assms, of "afr_sh_data_read_write_iter p t"] l by (auto simp: less_prod_def)
qed

lemma trim_resumes:
  assumes "dh_inv p s" "H_Trim i n \<in> set (sh_calls s)"
  shows "resumes p s (afr_sh_data_erase_pending p)"
  using fd_of_stage(1)[OF assms] by (intro resumesI) (use sh_erase_ok lower_stage[OF assms] in auto)

lemma erase_resumes:
  assumes "dh_inv p s" "H_Erase i a \<in> set (sh_calls s)"
  shows "resumes p s (afr_sh_data_finish p)"
  by (intro resumesI) (use sh_finish_ok lower_stage[OF assms] in auto)

lemma unlock_resumes:
  assumes "dh_inv p s" "H_Unlock i \<in> set (sh_calls s)"
  shows "resumes p s (afr_sh_data_close p)"
  by (intro resumesI) (use sh_close_ok lower_stage[OF assms] in auto)

lemma flush_resumes:
  assumes "dh_inv p s" "H_Flush i \<in> set (sh_calls s)"
  shows "resumes p s (\<lambda>t. afr_sh_data_done (t\<lparr>sh_fd := False\<rparr>))"
proof (rule resumesI)
  fix t assume "sh_ready p t"
  then have "sh_ready p (t\<lparr>sh_fd := False\<rparr>)" by (simp add: sh_ready_def heal_wf_def ups_def)
  then show "dh_inv p (afr_sh_data_done (t\<lparr>sh_fd := False\<rparr>)) \<and> sh_left (afr_sh_data_done (t\<lparr>sh_fd := False\<rparr>)) < sh_left s"
    using sh_done_ok lower_stage[OF assms] by auto
qed

lemma sh_resumes:
  assumes "dh_inv p s" "c \<in> set (sh_calls s)" "answer_ok p c (Status ret)"
  shows "resumes p s (sh_resume p c)"
proof (cases c)
  case (H_Lock i)
  then show ?thesis using lock_resumes[OF assms(1)] assms(2) by (simp add: resumes_def)
next
  case (H_Open i)
  then show ?thesis using open_resumes[OF assms(1)] assms(2) by (simp add: resumes_def)
next
  case (H_Write i d off)
  then show ?thesis using write_resumes[OF assms(1)] assms(2) by (simp add: resumes_def)
next
  case (H_Trim i n)
  then show ?thesis using trim_resumes[OF assms(1)] assms(2) by (simp add: resumes_def)
next
  case (H_Erase i a)
  then show ?thesis using erase_resumes[OF assms(1)] assms(2) by (simp add: resumes_def)
next
  case (H_Unlock i)
  then show ?thesis using unlock_resumes[OF assms(1)] assms(2) by (simp add: resumes_def)
next
  case (H_Flush i)
  then show ?thesis using flush_resumes[OF assms(1)] assms(2) by (simp add: resumes_def)
qed (use assms(3) in \<open>simp_all add: answer_ok_def\<close>)

lemma sh_status_reply_ok:
  assumes "dh_inv p s" "c \<in> set (sh_calls s)" "answer_ok p c (Status ret)"
  shows "\<exists>t. afr_sh_data_reply p c (Status ret) s = Inr t \<and> dh_inv p t \<and> sh_left t < sh_left s"
proof -
  have "\<not> is_read c" using assms(3) by (cases c) (auto simp: answer_ok_def)
  then show ?thesis using heal_counted[OF assms(1,2) _ sh_resumes[OF assms]] status_reply_eq[OF assms(3) refl, of s] by blast
qed

text \<open>The four ways to go on after a read.\<close>

definition after_read :: "self_heal \<Rightarrow> nat \<Rightarrow> self_heal" where
  "after_read s k = s\<lparr>sh_calls := [], sh_count := sh_sinks s, sh_offset := k\<rparr>"

lemma only_read: "dh_inv p s \<Longrightarrow> H_Read i n off \<in> set (sh_calls s) \<Longrightarrow> sh_calls s = [H_Read i n off]"
  unfolding dh_inv_def heal_waiting_def by (fastforce split: if_splits)

lemma after_read_ready:
  assumes "dh_inv p s" "sh_fd s" "sh_calls s = [c]"
  shows "sh_ready p (after_read s k)" "sh_fd (after_read s k)" "sinks p (after_read s k) = sinks p s"
  using assms by (auto simp: after_read_def dh_inv_def sh_ready_def heal_wf_def ups_def committed_def sinks_def is_sink_eq)

lemma read_reply_eq:
  assumes "dh_inv p s" "H_Read i n off \<in> set (sh_calls s)"
  shows "afr_sh_data_reply p (H_Read i n off) (Data r) s = Inr (case r of
      None \<Rightarrow> afr_sh_data_trim_sinks p (after_read s (sh_offset s))
    | Some d \<Rightarrow>
        if d = [] then afr_sh_data_trim_sinks p (after_read s (sh_offset s))
        else let t = after_read s (sh_offset s + length d)
             in if sh_holes s \<and> (\<forall>b \<in> set d. b = 0) then afr_sh_data_read_write_iter p t
                else t\<lparr>sh_count := int (length (sinks p s)), sh_calls := map (\<lambda>i. H_Write i d (sh_offset s)) (sinks p s)\<rparr>)"
proof -
  have one: "sh_calls s = [H_Read i n off]" by (rule only_read[OF assms])
  have "committed p s" using assms(1) fd_of_stage(1)[OF assms] by (simp add: dh_inv_def)
  then have c: "send_while (is_sink s) f [0..<child_count p] (sh_sinks s) = map f (sinks p s)" "sh_sinks s = int (length (sinks p s))"
    for f :: "nat \<Rightarrow> sh_call" using sink_sent by (blast, simp add: committed_def)
  show ?thesis using one c(1)[unfolded is_sink_eq] c(2)
    by (auto simp: afr_sh_data_reply_def afr_sh_data_read_cbk_def after_read_def Let_def is_sink_eq split: option.split)
qed

lemma sh_read_reply_ok:
  assumes "dh_inv p s" "H_Read i n off \<in> set (sh_calls s)"
  shows "\<exists>t. afr_sh_data_reply p (H_Read i n off) (Data r) s = Inr t \<and> dh_inv p t \<and> sh_left t < sh_left s"
proof -
  have one: "sh_calls s = [H_Read i n off]" by (rule only_read[OF assms])
  have fd: "sh_fd s" by (rule fd_of_stage(1)[OF assms]) simp
  note ready = after_read_ready[OF assms(1) fd one]
  have l: "sh_left s = (5, 2 * (sh_size s - sh_offset s) + (if sh_size s \<le> sh_offset s then 2 else 0), 1)"
    using one by (simp add: sh_left_def rounds_def)
  have trim: "dh_inv p (afr_sh_data_trim_sinks p (after_read s k)) \<and> sh_left (afr_sh_data_trim_sinks p (after_read s k)) < sh_left s" for k
    using sh_trim_ok[OF ready(1,2), of k] lower_stage[OF assms, of "afr_sh_data_trim_sinks p (after_read s k)"] by simp
  have more: "dh_inv p (afr_sh_data_read_write_iter p t) \<and> sh_left (afr_sh_data_read_write_iter p t) < sh_left s
      \<and> dh_inv p w \<and> sh_left w < sh_left s"
    if d: "d \<noteq> []" "t = after_read s (sh_offset s + length d)"
      "w = t\<lparr>sh_count := int (length (sinks p s)), sh_calls := map (\<lambda>i. H_Write i d (sh_offset s)) (sinks p s)\<rparr>" for d t w
  proof -
    have less: "sh_offset s < sh_size s \<Longrightarrow> sh_size s - (sh_offset s + length d) < sh_size s - sh_offset s"
      using d(1) by (intro diff_less_mono2) auto
    have r: "sh_ready p t" "sh_fd t" "sh_size t = sh_size s" "sh_offset t = sh_offset s + length d"
      using ready d(2) by (auto simp: after_read_def)
    have "sinks p s \<noteq> []" using assms(1) fd by (simp add: dh_inv_def committed_def)
    then obtain e es where s: "sinks p s = e # es" by (cases "sinks p s") auto
    have "sh_left w = (5, 2 * (sh_size s - (sh_offset s + length d)) + 1, length (sinks p s))"
      using s r(3,4) by (simp add: d(3) sh_left_def rounds_def)
    then have "sh_left w < sh_left s" using l less by (auto simp: less_prod_def)
    moreover have "sh_left (afr_sh_data_read_write_iter p t) < sh_left s"
      using sh_iter_ok(2)[OF r(1,2)] lower_stage[OF assms, of "afr_sh_data_read_write_iter p t"] l less r(3,4)
      by (auto simp: less_prod_def)
    ultimately show ?thesis using sh_iter_ok(1)[OF r(1,2)] sh_sent_ok[OF r(1) _ _ _ _ d(3), of 5] r(2) s by simp
  qed
  show ?thesis unfolding read_reply_eq[OF assms] using trim more by (auto simp: Let_def split: option.split)
qed

lemma heal_commute: "s\<lparr>sh_calls := a, sh_xattr := x, sh_buf := f, sh_count := k\<rparr> = s\<lparr>sh_calls := a, sh_count := k, sh_xattr := x, sh_buf := f\<rparr>"
  by (cases s) simp

text \<open>The state after the answer to a lookup was noted.\<close>

definition lookup_noted :: "self_heal \<Rightarrow> nat \<Rightarrow> (sh_stat \<times> xattrs option) option \<Rightarrow> self_heal" where
  "lookup_noted s i r = (s\<lparr>sh_calls := remove1 (H_Lookup i) (sh_calls s)\<rparr>)\<lparr>sh_failed := sh_failed s, sh_count := sh_count s - 1,
     sh_xattr := (case r of None \<Rightarrow> sh_xattr s | Some (b, y) \<Rightarrow> (sh_xattr s)[i := y]),
     sh_buf := (case r of None \<Rightarrow> sh_buf s | Some (b, y) \<Rightarrow> (sh_buf s)[i := b])\<rparr>"

lemma lookup_reply_eq:
  "afr_sh_data_reply p (H_Lookup i) (Found r) s =
     (if sh_count (lookup_noted s i r) = 0 then afr_sh_data_fix p (lookup_noted s i r) else Inr (lookup_noted s i r))"
  by (cases r) (auto simp: afr_sh_data_reply_def afr_sh_data_lookup_cbk_def sh_frame_return_def lookup_noted_def Let_def heal_commute)

lemma lookup_noted_wf:
  assumes "dh_inv p s" "answer_ok p (H_Lookup i) (Found r)"
  shows "heal_wf p (lookup_noted s i r)"
proof (cases r)
  case None
  then show ?thesis using assms(1) by (simp add: lookup_noted_def dh_inv_def heal_wf_def ups_def)
next
  case (Some q)
  have w: "heal_wf p s" using assms(1) by (simp add: dh_inv_def)
  obtain b d where q: "r = Some (b, Some d)" using Some assms(2) by (cases q) (auto simp: answer_ok_def split: option.splits)
  then have d: "\<forall>a. d AFR_DATA_PENDING = Some a \<longrightarrow> child_count p \<le> length a" using assms(2) by (auto simp: answer_ok_def)
  have "\<forall>y \<in> set ((sh_xattr s)[i := Some d]). \<forall>d a. y = Some d \<longrightarrow> d AFR_DATA_PENDING = Some a \<longrightarrow> child_count p \<le> length a"
    using w d set_update_subset_insert[of "sh_xattr s" i "Some d"] by (fastforce simp: heal_wf_def)
  moreover have "buf_size ((sh_buf s)[i := b] ! j) = 0" if "j < child_count p" "(sh_xattr s)[i := Some d] ! j = None" for j
    using w that by (cases "j = i") (auto simp: heal_wf_def)
  ultimately show ?thesis using w q by (simp add: lookup_noted_def heal_wf_def ups_def)
qed

text \<open>Nothing changes which children are up.\<close>

lemma reply_keeps:
  assumes "afr_sh_data_reply p c r s = Inr t"
  shows "sh_up t = sh_up s \<and> sh_errno t = sh_errno s"
proof -
  have sent: "sh_up (afr_sh_data_finish p u) = sh_up u \<and> sh_errno (afr_sh_data_finish p u) = sh_errno u"
    "sh_up (afr_sh_data_close p u) = sh_up u \<and> sh_errno (afr_sh_data_close p u) = sh_errno u"
    "sh_up (afr_sh_data_erase_pending p u) = sh_up u \<and> sh_errno (afr_sh_data_erase_pending p u) = sh_errno u"
    "sh_up (afr_sh_data_trim_sinks p u) = sh_up u \<and> sh_errno (afr_sh_data_trim_sinks p u) = sh_errno u"
    "sh_up (afr_sh_data_lookup p u) = sh_up u \<and> sh_errno (afr_sh_data_lookup p u) = sh_errno u"
    "sh_up (afr_sh_data_read_write u) = sh_up u \<and> sh_errno (afr_sh_data_read_write u) = sh_errno u"
    "sh_up (afr_sh_data_open p u) = sh_up u \<and> sh_errno (afr_sh_data_open p u) = sh_errno u"
    "sh_up (afr_sh_data_done u) = sh_up u \<and> sh_errno (afr_sh_data_done u) = sh_errno u" for u
    by (simp_all add: afr_sh_data_finish_def afr_sh_data_unlock_def afr_sh_data_close_def afr_sh_data_done_def afr_sh_data_erase_pending_def
        afr_sh_data_trim_sinks_def afr_sh_data_lookup_def afr_sh_data_read_write_def afr_sh_data_open_def Let_def)
  have iter: "sh_up (afr_sh_data_read_write_iter p u) = sh_up u \<and> sh_errno (afr_sh_data_read_write_iter p u) = sh_errno u"
    "sh_up (afr_sh_data_sync_prepare p u) = sh_up u \<and> sh_errno (afr_sh_data_sync_prepare p u) = sh_errno u" for u
    by (simp_all add: afr_sh_data_read_write_iter_def afr_sh_data_sync_prepare_def sent Let_def)
  have fix_keeps: "sh_up v = sh_up u \<and> sh_errno v = sh_errno u" if f: "afr_sh_data_fix p u = Inr v" for u v
  proof -
    obtain m where "afr_sh_build_pending_matrix (little_endian p) (child_count p) AFR_DATA_PENDING (sh_xattr u) = Inr m"
      using f unfolding afr_sh_data_fix_def
      by (cases "afr_sh_build_pending_matrix (little_endian p) (child_count p) AFR_DATA_PENDING (sh_xattr u)") simp_all
    then show ?thesis using that by (auto simp: fix_eq fixed_def sent iter split: option.splits)
  qed
  show ?thesis using assms
    by (auto simp: afr_sh_data_reply_def afr_sh_data_lock_cbk_def afr_sh_data_lookup_cbk_def afr_sh_data_open_cbk_def afr_sh_data_read_cbk_def
        afr_sh_data_write_cbk_def afr_sh_data_trim_cbk_def afr_sh_data_erase_pending_cbk_def afr_sh_data_unlck_cbk_def afr_sh_data_flush_cbk_def
        sh_frame_return_def sent iter Let_def split: sh_call.splits sh_reply.splits option.splits if_splits prod.splits dest!: fix_keeps)
qed

text \<open>While lookups are outstanding, that of the favorite child is one of them or was answered.\<close>

definition favorite_inv :: "afr_private \<Rightarrow> self_heal \<Rightarrow> bool" where
  "favorite_inv p s \<longleftrightarrow> favorite_up p s \<and> (\<forall>f i. favorite_child p = Some f \<and> sh_errno s ! f = 0 \<and> H_Lookup i \<in> set (sh_calls s) \<longrightarrow>
     H_Lookup f \<in> set (sh_calls s) \<or> sh_xattr s ! f \<noteq> None)"

lemma favorite_noted:
  assumes "favorite_inv p s" "dh_inv p s" "H_Lookup i \<in> set (sh_calls s)" "answer_ok p (H_Lookup i) (Found r)"
    and f: "favorite_child p = Some f" "sh_errno s ! f = 0"
  shows "H_Lookup f \<in> set (sh_calls (lookup_noted s i r)) \<or> sh_xattr (lookup_noted s i r) ! f \<noteq> None"
proof -
  have len: "length (sh_xattr s) = child_count p" using assms(2) by (simp add: dh_inv_def heal_wf_def)
  have n: "f < child_count p" using assms(1) f by (simp add: favorite_inv_def favorite_up_def)
  have a: "H_Lookup f \<in> set (sh_calls s) \<or> sh_xattr s ! f \<noteq> None" using assms(1,3) f unfolding favorite_inv_def by blast
  have r: "\<exists>b d. r = Some (b, Some d)" if "i = f"
    using assms(4) f(1) that by (cases r) (auto simp: answer_ok_def split: option.splits)
  have r': "r = None \<or> (\<exists>b d. r = Some (b, Some d))" using assms(4) by (cases r) (auto simp: answer_ok_def split: option.splits)
  show ?thesis
  proof (cases "i = f")
    case True
    then show ?thesis using r n len by (auto simp: lookup_noted_def)
  next
    case False
    then show ?thesis using a r' n len by (auto simp: lookup_noted_def nth_update_if in_set_remove1)
  qed
qed

lemma noted_seen:
  assumes "favorite_inv p s" "dh_inv p s" "H_Lookup i \<in> set (sh_calls s)" "answer_ok p (H_Lookup i) (Found r)"
    and "sh_calls (lookup_noted s i r) = []"
  shows "favorite_seen p (lookup_noted s i r)"
  using favorite_noted[OF assms(1-4)] assms(1,5) by (auto simp: favorite_seen_def favorite_inv_def favorite_up_def lookup_noted_def)

lemma sh_lookup_reply_ok:
  assumes "favorite_inv p s" "dh_inv p s" "H_Lookup i \<in> set (sh_calls s)" "answer_ok p (H_Lookup i) (Found r)"
  shows "\<exists>t. afr_sh_data_reply p (H_Lookup i) (Found r) s = Inr t \<and> dh_inv p t \<and> sh_left t < sh_left s"
proof -
  let ?t = "lookup_noted s i r"
  have fd: "\<not> sh_fd s" by (rule fd_of_stage(2)[OF assms(2,3)]) simp
  have "\<exists>u. afr_sh_data_fix p ?t = Inr u \<and> dh_inv p u \<and> sh_left u < sh_left s" if "sh_ready p ?t"
    using sh_fix_ok[OF that _ noted_seen[OF assms]] that fd lower_stage[OF assms(2,3)] by (fastforce simp: lookup_noted_def sh_ready_def)
  then show ?thesis unfolding lookup_reply_eq
    using heal_go_on[OF assms(2,3) _ lookup_noted_def lookup_noted_wf[OF assms(2,4)], of "afr_sh_data_fix p"] fd by simp
qed

lemma sh_reply_ok:
  assumes "favorite_inv p s" "dh_inv p s" "c \<in> set (sh_calls s)" "answer_ok p c r"
  shows "\<exists>t. afr_sh_data_reply p c r s = Inr t \<and> dh_inv p t \<and> sh_left t < sh_left s"
proof (cases r)
  case (Status ret)
  then show ?thesis using sh_status_reply_ok assms(2-4) by simp
next
  case (Found x)
  then obtain i where "c = H_Lookup i" using assms(4) by (cases c) (auto simp: answer_ok_def)
  then show ?thesis using sh_lookup_reply_ok[OF assms(1,2)] assms(3,4) Found by simp
next
  case (Data d)
  then obtain i n off where "c = H_Read i n off" using assms(4) by (cases c) (auto simp: answer_ok_def)
  then show ?thesis using sh_read_reply_ok[OF assms(2)] assms(3) Data by simp
qed

lemma favorite_step:
  assumes "favorite_inv p s" "dh_inv p s" "c \<in> set (sh_calls s)" "answer_ok p c r" "afr_sh_data_reply p c r s = Inr t"
  shows "favorite_inv p t"
proof -
  note k = reply_keeps[OF assms(5)]
  have up: "favorite_up p t" using assms(1) k by (simp add: favorite_inv_def favorite_up_def)
  have less: "dh_inv p t" "sh_left t < sh_left s" using sh_reply_ok[OF assms(1-4)] assms(5) by auto
  have "H_Lookup f \<in> set (sh_calls t) \<or> sh_xattr t ! f \<noteq> None"
    if f: "favorite_child p = Some f" "sh_errno t ! f = 0" and i: "H_Lookup i \<in> set (sh_calls t)" for f i
  proof -
    have "fst (sh_left t) = 7" using same_stage_hd[OF less(1) i] by (cases "sh_calls t") (auto simp: sh_left_def)
    moreover have "fst (sh_left s) = stage c" using same_stage_hd[OF assms(2,3)] by (cases "sh_calls s") (auto simp: sh_left_def)
    ultimately have "7 \<le> stage c" using less(2) by (cases "sh_left t"; cases "sh_left s") (auto simp: less_prod_def)
    then consider (lock) j where "c = H_Lock j" | (lookup) j where "c = H_Lookup j" by (cases c) auto
    then show ?thesis
    proof cases
      case lock
      then obtain ret where r: "r = Status ret" using assms(4) by (cases r) (auto simp: answer_ok_def)
      let ?u = "heal_noted s c (stage c \<in> {5, 6, 8} \<and> ret = - 1 \<or> sh_failed s)"
      have t: "t = (if sh_count ?u = 0 then sh_resume p c ?u else ?u)"
        using status_reply_eq[OF _ refl, of p c ret s] assms(4,5) r by simp
      have old: "H_Lookup i \<notin> set (sh_calls s)" using not_read(1)[OF assms(2,3)] lock by force
      have w: "heal_wf p ?u" by (rule wf_noted[OF assms(2) refl])
      note h = heal_count[OF assms(2,3) _ refl w]
      have "sh_count ?u = 0" using i t old by (auto simp: notin_set_remove1 split: if_splits)
      then have rdy: "sh_ready p ?u" using h lock by simp
      then have "t = afr_sh_data_lookup p ?u" using t \<open>sh_count ?u = 0\<close> i lock ready_sends_up(1)[OF rdy] by (auto split: if_splits)
      then have "set (sh_calls t) = H_Lookup ` set (ups p ?u)" using ready_sends_up(2)[OF rdy] by simp
      moreover have "f \<in> set (ups p ?u)" using up f k by (auto simp: favorite_up_def ups_def)
      ultimately show ?thesis by simp
    next
      case lookup
      then obtain x where r: "r = Found x" using assms(4) by (cases r) (auto simp: answer_ok_def)
      let ?u = "lookup_noted s j x"
      have fd: "\<not> sh_fd s" by (rule fd_of_stage(2)[OF assms(2,3)]) (simp add: lookup)
      note h = heal_count[OF assms(2,3)[unfolded lookup] _ lookup_noted_def lookup_noted_wf[OF assms(2)], of x]
      have c: "H_Lookup j \<in> set (sh_calls s)" "answer_ok p (H_Lookup j) (Found x)" using assms(3,4) lookup r by simp_all
      have "t = ?u"
      proof (rule ccontr)
        assume ne: "t \<noteq> ?u"
        then have z: "sh_count ?u = 0" "afr_sh_data_fix p ?u = Inr t" using assms(5) lookup r lookup_reply_eq[of p j x s] by (auto split: if_splits)
        then have rdy: "sh_ready p ?u" using h c fd by simp
        then have "favorite_seen p ?u" using noted_seen[OF assms(1,2) c] by (simp add: sh_ready_def)
        then have "fst (sh_left t) < 7" using sh_fix_ok[OF rdy] fd z(2) by (auto simp: lookup_noted_def)
        then show False using \<open>fst (sh_left t) = 7\<close> by simp
      qed
      then show ?thesis using favorite_noted[OF assms(1,2) c f(1)] f(2) k by simp
    qed
  qed
  then show ?thesis using up by (auto simp: favorite_inv_def)
qed

text \<open>The state in which the self-heal of the contents is entered.\<close>

definition heal_fresh :: "afr_private \<Rightarrow> self_heal \<Rightarrow> bool" where
  "heal_fresh p s \<longleftrightarrow> length (sh_up s) = child_count p \<and> True \<in> set (sh_up s) \<and> sh_xattr s = replicate (child_count p) None
     \<and> length (sh_errno s) = child_count p \<and> sh_buf s = replicate (child_count p) \<lparr>buf_size = 0, buf_blocks = 0\<rparr>
     \<and> sh_success s = replicate (child_count p) False \<and> \<not> sh_fd s \<and> \<not> sh_holes s \<and> sh_offset s = 0 \<and> \<not> sh_govinda s
     \<and> sh_calls s = [] \<and> sh_completed s = 0"

definition heal_data_start :: "afr_private \<Rightarrow> self_heal \<Rightarrow> bool" where
  "heal_data_start p s \<longleftrightarrow> (\<exists>s0 need. heal_fresh p s0 \<and> s = afr_self_heal_data p need s0)"

lemma fresh_ready:
  assumes "heal_fresh p s"
  shows "sh_ready p s" "\<not> sh_fd s"
proof -
  have "ups p s \<noteq> []" using assms by (auto simp: heal_fresh_def ups_def filter_empty_conv in_set_conv_nth)
  then show "sh_ready p s" "\<not> sh_fd s" using assms by (auto simp: heal_fresh_def sh_ready_def heal_wf_def)
qed

lemma heal_data_start_ok: "heal_data_start p s \<Longrightarrow> dh_inv p s"
  using fresh_ready sh_lookup_ready_ok(2) sh_done_ok by (auto simp: heal_data_start_def afr_self_heal_data_def)

lemma favorite_start:
  assumes "heal_data_start p s" "favorite_up p s"
  shows "favorite_inv p s"
proof -
  obtain s0 need where s: "heal_fresh p s0" "s = afr_self_heal_data p need s0" using assms(1) by (auto simp: heal_data_start_def)
  have "H_Lookup i \<notin> set (sh_calls s)" for i
    using s ready_sends_up(3)[OF fresh_ready(1)[OF s(1)]]
    by (auto simp: afr_self_heal_data_def afr_sh_data_done_def heal_fresh_def)
  then show ?thesis using assms(2) by (simp add: favorite_inv_def)
qed

lemma heal_data_step_ok:
  assumes "favorite_inv p s" "dh_inv p s" "heal_data_step p s t"
  shows "dh_inv p t" "sh_left t < sh_left s" "favorite_inv p t"
  using assms(3) sh_reply_ok[OF assms(1,2)] favorite_step[OF assms(1,2)] by (auto elim!: heal_data_step.cases) (metis sum.inject(2))+

interpretation data_heal: ending_system "\<lambda>s. favorite_up p s \<and> heal_data_start p s" "heal_data_step p"
  "\<lambda>s. favorite_inv p s \<and> dh_inv p s" sh_left for p
  by unfold_locales (auto intro: heal_data_start_ok heal_data_step_ok favorite_start)

text \<open>C6. The self-heal of the contents of a file ends, whatever the children answer, and calls its completion
  exactly once, when no call is outstanding. No answer makes it fault. A successful lookup returns a dictionary,
  a changelog in it has a number for every child, and a favorite child, if the configuration has one and it had
  no error before, is up and its lookup succeeds.\<close>

theorem data_heal_completes:
  assumes "favorite_up p s" "heal_data_start p s" "(heal_data_step p)\<^sup>*\<^sup>* s t"
  shows "(sh_calls t = [] \<longleftrightarrow> sh_completed t = 1) \<and> sh_completed t \<le> 1
    \<and> (\<forall>c \<in> set (sh_calls t). \<forall>r. answer_ok p c r \<longrightarrow> (\<exists>u. afr_sh_data_reply p c r t = Inr u))
    \<and> (\<forall>run. run 0 = t \<longrightarrow> (\<exists>i. \<not> heal_data_step p (run i) (run (Suc i))))"
proof -
  have i: "favorite_inv p t \<and> dh_inv p t"
    using data_heal.inv_reach[OF _ assms(3)] assms(1,2) by blast
  then have "(sh_calls t = [] \<longleftrightarrow> sh_completed t = 1) \<and> sh_completed t \<le> 1" by (cases "sh_calls t = []") (auto simp: dh_inv_def)
  moreover have "\<forall>c \<in> set (sh_calls t). \<forall>r. answer_ok p c r \<longrightarrow> (\<exists>u. afr_sh_data_reply p c r t = Inr u)"
    using sh_reply_ok i by blast
  moreover have "\<forall>run. run 0 = t \<longrightarrow> (\<exists>i. \<not> heal_data_step p (run i) (run (Suc i)))"
    using data_heal.no_infinite_run i by metis
  ultimately show ?thesis by blast
qed

section \<open>A run\<close>

fun heal_run :: "afr_private \<Rightarrow> (sh_call \<times> sh_reply) list \<Rightarrow> self_heal \<Rightarrow> self_heal option" where
  "heal_run p [] s = Some s"
| "heal_run p ((c, r) # l) s =
     (if c \<in> set (sh_calls s) \<and> answer_ok p c r
      then case afr_sh_data_reply p c r s of Inl _ \<Rightarrow> None | Inr t \<Rightarrow> heal_run p l t
      else None)"

lemma heal_run_steps: "heal_run p l s = Some t \<Longrightarrow> (heal_data_step p)\<^sup>*\<^sup>* s t"
proof (induction l arbitrary: s)
  case (Cons x l)
  then obtain c r u where "c \<in> set (sh_calls s)" "answer_ok p c r" "afr_sh_data_reply p c r s = Inr u" "heal_run p l u = Some t"
    by (cases x) (auto split: if_splits sum.splits)
  then show ?case using Cons.IH heal_data_step.intros by (meson converse_rtranclp_into_rtranclp)
qed simp

definition idle_heal :: self_heal where
  "idle_heal = \<lparr>sh_up = [True, True], sh_count = 0, sh_xattr = [None, None], sh_errno = [0, 0],
     sh_buf = [\<lparr>buf_size = 0, buf_blocks = 0\<rparr>, \<lparr>buf_size = 0, buf_blocks = 0\<rparr>], sh_sources = [False, False], sh_source = 0, sh_sinks = 0,
     sh_success = [False, False], sh_matrix = [[0, 0], [0, 0]], sh_fd = False, sh_failed = False, sh_holes = False, sh_size = 0, sh_offset = 0,
     sh_govinda = False, sh_calls = [], sh_completed = 0\<rparr>"

lemma idle_fresh: "heal_fresh pair idle_heal"
  by (simp add: heal_fresh_def pair_def idle_heal_def numeral_2_eq_2)

text \<open>The lock of one child fails.\<close>

lemma failed_lock_run:
  "map_option sh_completed (heal_run pair [(H_Lock 1, Status (- 1)), (H_Lock 0, Status 0), (H_Unlock 0, Status 0), (H_Unlock 1, Status (- 1))]
     (afr_self_heal_data pair True idle_heal)) = Some 1"
  by code_simp

theorem data_heal_completes_witness:
  "\<exists>t. (heal_data_step pair)\<^sup>*\<^sup>* (afr_self_heal_data pair True idle_heal) t \<and> sh_completed t = 1 \<and> sh_calls t = []"
proof -
  obtain t where t: "(heal_data_step pair)\<^sup>*\<^sup>* (afr_self_heal_data pair True idle_heal) t" "sh_completed t = 1"
    using failed_lock_run heal_run_steps by blast
  have "heal_data_start pair (afr_self_heal_data pair True idle_heal)" using idle_fresh by (auto simp: heal_data_start_def)
  then show ?thesis using data_heal_completes[OF _ _ t(1)] t by (auto simp: pair_def favorite_up_def)
qed

end
