(* ===== verification/Afr_Heal_Copy.thy ===== *)
theory Afr_Heal_Copy
  imports Afr_Heal_Runs
begin

text \<open>
  What the self-heal of contents does to the copies: the calls act on the files and the changelogs of the
  children, and the contents of the source arrive on every sink before the first changelog is erased.
\<close>

section \<open>The children\<close>

text \<open>
  The contents of the file and its changelog on each child. A read returns some of the bytes that were asked for,
  and none only at the end of the file; a write may stop early, and fills a gap before it with zeros; a call
  that fails changes nothing. The number of blocks is up to the child.
\<close>

record disk =
  d_files :: "nat \<Rightarrow> bytes"
  d_logs :: "nat \<Rightarrow> u32 list option"

definition overwrite :: "bytes \<Rightarrow> nat \<Rightarrow> bytes \<Rightarrow> bytes" where
  "overwrite f off d = take off (f @ replicate (off - length f) 0) @ d @ drop (off + length d) f"

definition resize :: "bytes \<Rightarrow> nat \<Rightarrow> bytes" where
  "resize f n = take n (f @ replicate (n - length f) 0)"

definition log_xattr :: "disk \<Rightarrow> nat \<Rightarrow> xattrs" where
  "log_xattr d i = (\<lambda>key. if key = AFR_DATA_PENDING then d_logs d i else None)"

fun serve :: "bool \<Rightarrow> bool \<Rightarrow> nat \<Rightarrow> sh_call \<Rightarrow> disk \<Rightarrow> sh_reply \<times> disk" where
  "serve e ok k (H_Lookup i) d =
     (Found (if ok then Some (\<lparr>buf_size = length (d_files d i), buf_blocks = k\<rparr>, Some (log_xattr d i)) else None), d)"
| "serve e ok k (H_Read i n off) d = (Data (if ok then Some (take (min (Suc k) n) (drop off (d_files d i))) else None), d)"
| "serve e ok k (H_Write i b off) d =
     (if ok then (Status (int (length (take k b))), d\<lparr>d_files := (d_files d)(i := overwrite (d_files d i) off (take k b))\<rparr>)
      else (Status (- 1), d))"
| "serve e ok k (H_Trim i n) d =
     (if ok then (Status 0, d\<lparr>d_files := (d_files d)(i := resize (d_files d i) n)\<rparr>) else (Status (- 1), d))"
| "serve e ok k (H_Erase i a) d =
     (if ok then (Status 0, d\<lparr>d_logs := (d_logs d)(i \<mapsto> xattrop_add e (d_logs d i) a)\<rparr>) else (Status (- 1), d))"
| "serve e ok k c d = (Status (if ok then 0 else - 1), d)"

text \<open>
  Any call that is outstanding may be answered next. The predicate \<open>may\<close> says which outcomes are considered: in a
  faithful one reads and truncations succeed, writes are complete, no file is sparse, and the lookup on a favorite
  child, if there is one, succeeds; in a flawless one every call succeeds as well.
\<close>

type_synonym outcome = "sh_call \<Rightarrow> bool \<Rightarrow> nat \<Rightarrow> disk \<Rightarrow> bool"

definition faithful :: "afr_private \<Rightarrow> outcome" where
  "faithful p c ok k d =
     (case c of
        H_Read i n off \<Rightarrow> ok
      | H_Trim i n \<Rightarrow> ok
      | H_Write i b off \<Rightarrow> length b \<le> k
      | H_Lookup i \<Rightarrow> length (d_files d i) \<le> k * 512 \<and> (favorite_child p = Some i \<longrightarrow> ok)
      | _ \<Rightarrow> True)"

definition flawless :: "afr_private \<Rightarrow> outcome" where
  "flawless p c ok k d \<longleftrightarrow> ok \<and> faithful p c ok k d"

inductive heal_copy_step :: "afr_private \<Rightarrow> outcome \<Rightarrow> self_heal \<times> disk \<Rightarrow> self_heal \<times> disk \<Rightarrow> bool" for p may where
  "c \<in> set (sh_calls s) \<Longrightarrow> may c ok k d \<Longrightarrow> serve (little_endian p) ok k c d = (r, d') \<Longrightarrow>
     afr_sh_data_reply p c r s = Inr s' \<Longrightarrow> heal_copy_step p may (s, d) (s', d')"

definition disk_ok :: "afr_private \<Rightarrow> disk \<Rightarrow> bool" where
  "disk_ok p d \<longleftrightarrow> (\<forall>i < child_count p. case d_logs d i of None \<Rightarrow> True | Some a \<Rightarrow> length a = child_count p)"

lemma overwrite_copies:
  assumes "take off f = take off F" "off \<le> length F" "b = take (length b) (drop off F)"
  shows "take (off + length b) (overwrite f off b) = take (off + length b) F"
proof -
  have len: "off \<le> length f" using assms(1,2) by (metis length_take min.absorb2 min.cobounded1)
  then have "take (off + length b) (overwrite f off b) = take off f @ b" by (simp add: overwrite_def)
  also have "\<dots> = take off F @ take (length b) (drop off F)" using assms(1,3) by simp
  also have "\<dots> = take (off + length b) F" by (simp add: take_add)
  finally show ?thesis .
qed

lemma resize_copied:
  assumes "take (length F) f = F"
  shows "resize f (length F) = F"
proof -
  have "length F \<le> length f" using assms by (metis length_take min.cobounded1)
  then show ?thesis using assms by (simp add: resize_def)
qed

section \<open>What holds at each stage\<close>

fun child :: "sh_call \<Rightarrow> nat" where
  "child (H_Lock i) = i"
| "child (H_Lookup i) = i"
| "child (H_Open i) = i"
| "child (H_Read i n off) = i"
| "child (H_Write i d off) = i"
| "child (H_Trim i n) = i"
| "child (H_Erase i a) = i"
| "child (H_Unlock i) = i"
| "child (H_Flush i) = i"

abbreviation wanted :: "disk \<Rightarrow> self_heal \<Rightarrow> bytes" where
  "wanted d0 s \<equiv> d_files d0 (sh_source s)"

definition known :: "afr_private \<Rightarrow> disk \<Rightarrow> self_heal \<Rightarrow> bool" where
  "known p d0 s \<longleftrightarrow> (\<forall>i < child_count p. sh_xattr s ! i \<noteq> None \<longrightarrow>
     buf_size (sh_buf s ! i) = length (d_files d0 i) \<and> \<not> FILE_HAS_HOLES (sh_buf s ! i))"

definition kept :: "afr_private \<Rightarrow> disk \<Rightarrow> self_heal \<Rightarrow> disk \<Rightarrow> bool" where
  "kept p d0 s d \<longleftrightarrow> (\<forall>i < child_count p. \<not> is_sink s i \<longrightarrow> d_files d i = d_files d0 i)"

definition planned :: "afr_private \<Rightarrow> disk \<Rightarrow> self_heal \<Rightarrow> disk \<Rightarrow> bool" where
  "planned p d0 s d \<longleftrightarrow> sh_source s < child_count p \<and> \<not> is_sink s (sh_source s) \<and> sh_size s = length (wanted d0 s)
     \<and> \<not> sh_holes s \<and> kept p d0 s d"

definition copying :: "afr_private \<Rightarrow> disk \<Rightarrow> sh_call set \<Rightarrow> self_heal \<Rightarrow> disk \<Rightarrow> bool" where
  "copying p d0 cs s d \<longleftrightarrow> sh_offset s \<le> length (wanted d0 s)
     \<and> (\<forall>i < child_count p. is_sink s i \<longrightarrow> (\<forall>b off. H_Write i b off \<notin> cs) \<longrightarrow>
          sh_failed s \<or> take (sh_offset s) (d_files d i) = take (sh_offset s) (wanted d0 s))
     \<and> (\<forall>i b off. H_Write i b off \<in> cs \<longrightarrow> is_sink s i \<and> off + length b = sh_offset s
          \<and> b = take (length b) (drop off (wanted d0 s)) \<and> take off (d_files d i) = take off (wanted d0 s))
     \<and> (\<forall>i n off. H_Read i n off \<in> cs \<longrightarrow> i = sh_source s \<and> 0 < n \<and> off = sh_offset s \<and> \<not> sh_failed s)"

definition trimming :: "afr_private \<Rightarrow> disk \<Rightarrow> sh_call set \<Rightarrow> self_heal \<Rightarrow> disk \<Rightarrow> bool" where
  "trimming p d0 cs s d \<longleftrightarrow> (\<forall>i < child_count p. is_sink s i \<longrightarrow> take (length (wanted d0 s)) (d_files d i) = wanted d0 s
       \<and> ((\<forall>n. H_Trim i n \<notin> cs) \<longrightarrow> d_files d i = wanted d0 s))
     \<and> (\<forall>i n. H_Trim i n \<in> cs \<longrightarrow> is_sink s i \<and> n = length (wanted d0 s))"

definition settled :: "afr_private \<Rightarrow> disk \<Rightarrow> self_heal \<Rightarrow> disk \<Rightarrow> bool" where
  "settled p d0 s d \<longleftrightarrow> wanted d s = wanted d0 s \<and> (\<forall>i < child_count p. is_sink s i \<longrightarrow> d_files d i = wanted d0 s)"

definition stage_inv :: "afr_private \<Rightarrow> disk \<Rightarrow> nat \<Rightarrow> sh_call set \<Rightarrow> self_heal \<Rightarrow> disk \<Rightarrow> bool" where
  "stage_inv p d0 k cs s d \<longleftrightarrow>
     (7 \<le> k \<longrightarrow> d = d0 \<and> \<not> sh_holes s \<and> sh_offset s = 0 \<and> known p d0 s \<and> (\<forall>i. H_Lookup i \<in> cs \<longrightarrow> i < child_count p))
   \<and> (k = 6 \<longrightarrow> d = d0 \<and> sh_offset s = 0 \<and> planned p d0 s d)
   \<and> (k = 5 \<longrightarrow> d_logs d = d_logs d0 \<and> planned p d0 s d \<and> copying p d0 cs s d)
   \<and> (k = 4 \<longrightarrow> d_logs d = d_logs d0 \<and> planned p d0 s d \<and> trimming p d0 cs s d)
   \<and> (k = 3 \<longrightarrow> planned p d0 s d \<and> settled p d0 s d)
   \<and> (k \<le> 2 \<longrightarrow> kept p d0 s d \<and> (sh_fd s \<longrightarrow> \<not> is_sink s (sh_source s)) \<and> (d_logs d = d_logs d0 \<or> settled p d0 s d))"

text \<open>
  A state has what the stage of its outstanding calls promises. No child has two of them. This is kept by sending
  the calls of a stage, and by counting the answers, for any promises that do not look at the counter.
\<close>

definition stage_holds :: "(nat \<Rightarrow> sh_call set \<Rightarrow> self_heal \<Rightarrow> disk \<Rightarrow> bool) \<Rightarrow> self_heal \<Rightarrow> disk \<Rightarrow> bool" where
  "stage_holds J s d \<longleftrightarrow> distinct (map child (sh_calls s))
     \<and> J (case sh_calls s of [] \<Rightarrow> 0 | c # _ \<Rightarrow> stage c) (set (sh_calls s)) s d"

lemma distinct_map_remove1: "distinct (map f xs) \<Longrightarrow> distinct (map f (remove1 x xs))"
  by (auto simp: distinct_map distinct_remove1 intro: inj_on_subset)

locale stage_promises =
  fixes J :: "nat \<Rightarrow> sh_call set \<Rightarrow> self_heal \<Rightarrow> disk \<Rightarrow> bool"
  assumes frame: "J k cs s d \<Longrightarrow> J k cs (s\<lparr>sh_count := n, sh_calls := l\<rparr>) d"
begin

lemma sent:
  assumes "t = s\<lparr>sh_count := n, sh_calls := map c is\<rparr>" "is \<noteq> []" "\<And>i. stage (c i) = k \<and> child (c i) = i" "distinct is"
    "J k (c ` set is) s d"
  shows "stage_holds J t d"
proof -
  have "map child (sh_calls t) = is" using assms(1,3) by (simp add: comp_def)
  moreover have "J k (c ` set is) t d" using frame[OF assms(5)] assms(1) by simp
  ultimately show ?thesis using assms(1-4) by (cases "is") (auto simp: stage_holds_def)
qed

lemma at_stage:
  assumes "dh_inv p s" "stage_holds J s d" "c \<in> set (sh_calls s)"
  shows "J (stage c) (set (sh_calls s)) s d" "\<forall>e \<in> set (sh_calls s). child e = child c \<longrightarrow> e = c"
proof -
  show "J (stage c) (set (sh_calls s)) s d"
    using assms(2) same_stage_hd[OF assms(1,3)] by (cases "sh_calls s") (simp_all add: stage_holds_def)
  show "\<forall>e \<in> set (sh_calls s). child e = child c \<longrightarrow> e = c"
    using assms(2,3) by (auto simp: stage_holds_def distinct_map inj_on_def)
qed

lemma counted:
  assumes "dh_inv p s" "stage_holds J s d" "c \<in> set (sh_calls s)" "\<not> is_read c"
    and u: "u = heal_noted s c b" and served: "J (stage c) (set (sh_calls s) - {c}) u d'"
    and go: "sh_ready p u \<Longrightarrow> sh_fd u = sh_fd s \<Longrightarrow> J (stage c) {} u d' \<Longrightarrow> stage_holds J (go u) d'"
  shows "stage_holds J (if sh_count u = 0 then go u else u) d'"
proof -
  have "heal_wf p u" by (rule wf_noted[OF assms(1) u])
  note h = heal_count[OF assms(1,3,4) u this impI[OF refl]]
  have dist: "distinct (map child (sh_calls s))" using assms(2) by (simp add: stage_holds_def)
  then have cs: "set (sh_calls u) = set (sh_calls s) - {c}" by (simp add: u distinct_map)
  show ?thesis
  proof (cases "sh_calls u = []")
    case True
    then have "J (stage c) {} u d'" using served[folded cs] by simp
    moreover have "sh_fd u = sh_fd s" by (simp add: u)
    ultimately show ?thesis using h(1,2) go True by simp
  next
    case False
    have "distinct (map child (sh_calls u))" using dist by (simp add: u distinct_map_remove1)
    moreover have "stage (hd (sh_calls u)) = stage c" using False not_read(1)[OF assms(1,3,4)] cs by (metis DiffD1 hd_in_set)
    ultimately show ?thesis using h(1) served[folded cs] False by (cases "sh_calls u") (auto simp: stage_holds_def)
  qed
qed

end

interpretation copy_stages: stage_promises "stage_inv p d0" for p d0
  by unfold_locales (simp add: stage_inv_def planned_def copying_def trimming_def settled_def kept_def known_def is_sink_eq)

abbreviation copy_inv :: "afr_private \<Rightarrow> disk \<Rightarrow> self_heal \<Rightarrow> disk \<Rightarrow> bool" where
  "copy_inv p d0 \<equiv> stage_holds (stage_inv p d0)"

text \<open>A call is answered: its stage goes on without it.\<close>

lemma write_served:
  assumes copy: "copying p d0 cs s d" and pl: "planned p d0 s d"
    and c: "c = H_Write i x off" "c \<in> cs" "\<forall>e \<in> cs. child e = child c \<longrightarrow> e = c" "\<forall>e \<in> cs. \<not> is_read e"
    and d': "d' = (if ok then d\<lparr>d_files := (d_files d)(i := overwrite (d_files d i) off x)\<rparr> else d)"
    and u: "u = heal_noted s c (\<not> ok \<or> sh_failed s)"
  shows "planned p d0 u d'" "copying p d0 (cs - {c}) u d'"
proof -
  have w: "is_sink s i" "off + length x = sh_offset s" "x = take (length x) (drop off (wanted d0 s))" "take off (d_files d i) = take off (wanted d0 s)"
    "sh_offset s \<le> length (wanted d0 s)"
    using copy c(1,2) unfolding copying_def by blast+
  have new: "ok \<Longrightarrow> take (sh_offset s) (overwrite (d_files d i) off x) = take (sh_offset s) (wanted d0 s)"
    using overwrite_copies[OF w(4) _ w(3)] w(2,5) by simp
  have other: "H_Write i y z \<notin> cs - {c}" for y z using c(1,3) by force
  show "planned p d0 u d'" using pl w(1) by (auto simp: u d' planned_def kept_def is_sink_eq)
  show "copying p d0 (cs - {c}) u d'"
    unfolding copying_def
  proof (intro conjI allI impI)
    show "sh_offset u \<le> length (wanted d0 u)" using w(5) by (simp add: u)
  next
    fix j assume j: "j < child_count p" "is_sink u j" "\<forall>b off. H_Write j b off \<notin> cs - {c}"
    show "sh_failed u \<or> take (sh_offset u) (d_files d' j) = take (sh_offset u) (wanted d0 u)"
    proof (cases "j = i")
      case True
      then show ?thesis using new by (auto simp: u d')
    next
      case False
      then have "\<forall>b off. H_Write j b off \<notin> cs" using j(3) c(1) by auto
      then show ?thesis using copy j False unfolding copying_def by (auto simp: u d' is_sink_eq)
    qed
  next
    fix j y z assume "H_Write j y z \<in> cs - {c}"
    moreover from this have "j \<noteq> i" using other by auto
    ultimately show "is_sink u j" "z + length y = sh_offset u" "y = take (length y) (drop z (wanted d0 u))"
      "take z (d_files d' j) = take z (wanted d0 u)"
      using copy unfolding copying_def by (auto simp: u d' is_sink_eq)
  qed (use c(4) in auto)
qed

lemma trim_served:
  assumes trim: "trimming p d0 cs s d" and pl: "planned p d0 s d"
    and c: "c = H_Trim i n" "c \<in> cs" "\<forall>e \<in> cs. child e = child c \<longrightarrow> e = c"
    and d': "d' = d\<lparr>d_files := (d_files d)(i := resize (d_files d i) n)\<rparr>" and u: "u = heal_noted s c (sh_failed s)"
  shows "planned p d0 u d'" "trimming p d0 (cs - {c}) u d'"
proof -
  have w: "is_sink s i" "n = length (wanted d0 s)" using trim c(1,2) unfolding trimming_def by blast+
  have new: "i < child_count p \<Longrightarrow> d_files d' i = wanted d0 s"
    using trim w resize_copied[of "wanted d0 s" "d_files d i"] by (auto simp: trimming_def d')
  show "planned p d0 u d'" using pl w(1) by (auto simp: u d' planned_def kept_def is_sink_eq)
  have "take (length (wanted d0 u)) (d_files d' j) = wanted d0 u \<and> ((\<forall>n. H_Trim j n \<notin> cs - {c}) \<longrightarrow> d_files d' j = wanted d0 u)"
    if j: "j < child_count p" "is_sink u j" for j
  proof (cases "j = i")
    case True
    then show ?thesis using new j by (simp add: u)
  next
    case False
    then show ?thesis using trim j c(1) by (auto simp: trimming_def u d' is_sink_eq)
  qed
  moreover have "is_sink u j \<and> m = length (wanted d0 u)" if "H_Trim j m \<in> cs - {c}" for j m
    using that trim by (auto simp: trimming_def u is_sink_eq)
  ultimately show "trimming p d0 (cs - {c}) u d'" unfolding trimming_def by blast
qed

lemma status_served:
  assumes inv: "stage_inv p d0 (stage c) cs s d" and c: "c \<in> cs" "\<forall>e \<in> cs. child e = child c \<longrightarrow> e = c" "\<forall>e \<in> cs. \<not> is_read e"
    and sv: "serve e ok m c d = (Status ret, d')" "faithful p c ok m d"
    and u: "u = heal_noted s c (b \<or> sh_failed s)" and b: "b \<longleftrightarrow> (stage c \<in> {5, 6, 8} \<and> ret = - 1)"
  shows "stage_inv p d0 (stage c) (cs - {c}) u d'"
proof (cases c)
  case (H_Write i x off)
  have "copying p d0 cs s d" "planned p d0 s d" "d_logs d = d_logs d0" using inv H_Write by (auto simp: stage_inv_def)
  moreover have "d' = (if ok then d\<lparr>d_files := (d_files d)(i := overwrite (d_files d i) off x)\<rparr> else d)" "b \<longleftrightarrow> \<not> ok"
    using sv H_Write b by (auto simp: faithful_def)
  ultimately show ?thesis using write_served[OF _ _ H_Write c, of p d0 s d d' ok u] u H_Write by (simp add: stage_inv_def)
next
  case (H_Trim i n)
  have "trimming p d0 cs s d" "planned p d0 s d" "d_logs d = d_logs d0" using inv H_Trim by (auto simp: stage_inv_def)
  moreover have "d' = d\<lparr>d_files := (d_files d)(i := resize (d_files d i) n)\<rparr>" "\<not> b" using sv H_Trim b by (auto simp: faithful_def)
  ultimately show ?thesis using trim_served[OF _ _ H_Trim c(1,2), of p d0 s d d' u] u H_Trim by (simp add: stage_inv_def)
next
  case (H_Erase i a)
  have "d_files d' = d_files d" using sv H_Erase by (auto split: if_splits)
  then show ?thesis using inv H_Erase by (simp add: stage_inv_def u planned_def settled_def kept_def is_sink_eq)
qed (use inv sv in \<open>auto simp: stage_inv_def u planned_def settled_def kept_def known_def is_sink_eq\<close>)

section \<open>From stage to stage\<close>

lemma distinct_lists: "distinct (sinks p s)" "distinct (ups p s)" "distinct (seen p s)"
  by (simp_all add: sinks_def ups_def seen_def)

lemma done_copy:
  assumes "sh_ready p s" "stage_inv p d0 2 {} s d"
  shows "copy_inv p d0 (afr_sh_data_done s) d"
  using assms by (auto simp: afr_sh_data_done_def stage_holds_def sh_ready_def stage_inv_def settled_def kept_def is_sink_eq)

lemma close_copy:
  assumes "sh_ready p s" "stage_inv p d0 2 {} s d"
  shows "copy_inv p d0 (afr_sh_data_close p s) d"
proof (cases "sh_fd s")
  case True
  have "sh_source s \<notin> set (sinks p s)" using True assms(2) by (simp add: stage_inv_def sinks_def)
  then show ?thesis using assms(2) distinct_lists copy_stages.sent[OF ready_sends_sinks(1)[OF assms(1) True], where p = p and ?d0.0 = d0 and k = 1 and d = d] by (simp add: stage_inv_def)
next
  case False
  then show ?thesis using done_copy[OF assms] by (simp add: afr_sh_data_close_def)
qed

lemma finish_copy:
  assumes "sh_ready p s" "stage_inv p d0 2 {} s d"
  shows "copy_inv p d0 (afr_sh_data_finish p s) d"
  using assms(2) distinct_lists copy_stages.sent[OF ready_sends_up(1)[OF assms(1)] ready_sends_up(4)[OF assms(1)], where p = p and ?d0.0 = d0 and k = 2 and d = d]
  by (simp add: stage_inv_def)

lemma may_finish:
  assumes "stage_inv p d0 k {} s d" "k \<noteq> 4" "k \<le> 8" "7 \<le> k \<longrightarrow> \<not> sh_fd s"
  shows "stage_inv p d0 2 {} s d"
proof -
  have "7 \<le> k \<or> k = 6 \<or> k = 5 \<or> k = 3 \<or> k \<le> 2" using assms(2) by presburger
  then show ?thesis using assms by (elim disjE) (simp_all add: stage_inv_def planned_def kept_def)
qed

lemma erase_copy:
  assumes "sh_ready p s" "sh_fd s" "stage_inv p d0 4 {} s d"
  shows "copy_inv p d0 (afr_sh_data_erase_pending p s) d"
proof -
  have "planned p d0 s d" "settled p d0 s d"
    using assms(3) by (auto simp: stage_inv_def trimming_def settled_def planned_def kept_def)
  then show ?thesis using distinct_lists copy_stages.sent[OF ready_erases(1)[OF assms(1,2)] ready_erases(2)[OF assms(1,2)], where p = p and ?d0.0 = d0 and k = 3 and d = d]
    by (simp add: stage_inv_def)
qed

lemma trim_copy:
  assumes "sh_ready p s" "sh_fd s" "stage_inv p d0 5 {} s d" "\<not> sh_failed s" "length (wanted d0 s) \<le> sh_offset s"
  shows "copy_inv p d0 (afr_sh_data_trim_sinks p s) d"
proof -
  have a: "d_logs d = d_logs d0" "planned p d0 s d" "copying p d0 {} s d" using assms(3) by (simp_all add: stage_inv_def)
  then have "trimming p d0 ((\<lambda>i. H_Trim i (sh_size s)) ` set (sinks p s)) s d"
    using assms(4,5) by (auto simp: copying_def planned_def trimming_def sinks_def)
  then show ?thesis
    using a distinct_lists copy_stages.sent[OF ready_sends_sinks(2)[OF assms(1,2)] ready_sends_sinks(3)[OF assms(1,2)], where p = p and ?d0.0 = d0 and k = 4 and d = d]
    by (simp add: stage_inv_def)
qed

lemma read_write_copy:
  assumes "sh_ready p s" "stage_inv p d0 5 {} s d" "\<not> sh_failed s"
  shows "copy_inv p d0 (afr_sh_data_read_write s) d"
  using assms by (auto simp: afr_sh_data_read_write_def stage_holds_def sh_ready_def stage_inv_def planned_def copying_def kept_def is_sink_eq)

lemma iter_copy:
  assumes "sh_ready p s" "sh_fd s" "stage_inv p d0 5 {} s d"
  shows "copy_inv p d0 (afr_sh_data_read_write_iter p s) d"
proof -
  have "sh_size s = length (wanted d0 s)" using assms(3) by (simp add: stage_inv_def planned_def)
  then show ?thesis
    using finish_copy[OF assms(1) may_finish[OF assms(3)]] trim_copy[OF assms] read_write_copy[OF assms(1,3)]
    by (auto simp: afr_sh_data_read_write_iter_def)
qed

lemma opened_copy:
  assumes "sh_ready p s" "stage_inv p d0 6 {} s d"
  shows "copy_inv p d0 (if sh_failed s then afr_sh_data_finish p s else afr_sh_data_read_write s) d"
proof -
  have "stage_inv p d0 5 {} s d" using assms(2) by (auto simp: stage_inv_def copying_def)
  then show ?thesis using finish_copy[OF assms(1) may_finish[OF assms(2)]] read_write_copy[OF assms(1)] by simp
qed

lemma locked_copy:
  assumes "sh_ready p s" "\<not> sh_fd s" "stage_inv p d0 8 {} s d"
  shows "copy_inv p d0 (if sh_failed s then afr_sh_data_finish p s else afr_sh_data_lookup p s) d"
  using finish_copy[OF assms(1) may_finish[OF assms(3)]] assms(2,3) distinct_lists
    copy_stages.sent[OF ready_sends_up(2)[OF assms(1)] ready_sends_up(4)[OF assms(1)], where p = p and ?d0.0 = d0 and k = 7 and d = d]
  by (auto simp: stage_inv_def ups_def)

lemma prepared_copy:
  assumes "sh_ready p s" "\<not> sh_fd s" "length (sh_matrix s) = child_count p" "stage_inv p d0 7 {} s d"
    "sh_source s < child_count p" "sh_sources s ! sh_source s" "sh_xattr s ! sh_source s \<noteq> None"
  shows "copy_inv p d0 (afr_sh_data_sync_prepare p s) d"
proof (cases "sinks p s = []")
  case True
  have "stage_inv p d0 7 {} (prepared p s) d" using assms(4) by (simp add: prepared_def stage_inv_def known_def)
  then show ?thesis using True finish_copy[OF prepared_ready(1)[OF assms(1,2)] may_finish] assms(2)
    by (simp add: sync_prepare_eq prepared_def)
next
  case False
  note r = prepared_ready[OF assms(1,2)]
  have "sh_xattr s ! sh_source s \<in> set (sh_xattr s)" using assms(1,5) by (simp add: sh_ready_def heal_wf_def)
  then have "committed p (with_sinks p s)" using r(3)[OF assms(3)] False assms(7) by blast
  note o = ready_opens[OF r(2) this refl]
  define v where "v = (with_sinks p s)\<lparr>sh_fd := True, sh_size := buf_size (sh_buf (with_sinks p s) ! sh_source (with_sinks p s)),
    sh_holes := (FILE_HAS_HOLES (sh_buf (with_sinks p s) ! sh_source (with_sinks p s)) \<or> sh_holes (with_sinks p s))\<rparr>"
  have "planned p d0 v d" "d = d0" "sh_offset v = 0"
    using assms(4-7) by (auto simp: v_def with_sinks_def prepared_def planned_def stage_inv_def known_def kept_def is_sink_eq)
  then have "stage_inv p d0 6 (H_Open ` set (sh_source (with_sinks p s) # sinks p (with_sinks p s))) v d" by (simp add: stage_inv_def)
  moreover have "sh_source (with_sinks p s) \<notin> set (sinks p (with_sinks p s))"
    using assms(6) by (simp add: with_sinks_def prepared_def sinks_def is_sink_eq)
  ultimately show ?thesis
    using False distinct_lists copy_stages.sent[OF o(3)[folded v_def], where p = p and ?d0.0 = d0 and k = 6 and d = d] by (simp add: sync_prepare_eq)
qed

lemma fix_copy:
  assumes "sh_ready p s" "\<not> sh_fd s" "favorite_seen p s" "stage_inv p d0 7 {} s d" "afr_sh_data_fix p s = Inr t"
  shows "copy_inv p d0 t d"
proof -
  have w: "heal_wf p s" using assms(1) by (simp add: sh_ready_def)
  obtain m where m: "afr_sh_build_pending_matrix (little_endian p) (child_count p) AFR_DATA_PENDING (sh_xattr s) = Inr m"
    "length m = child_count p" using heal_matrix[OF w] by blast
  note t = fix_eq[OF m(1), unfolded assms(5)]
  show ?thesis
  proof (cases "afr_sh_select_source (first_sources p s m)")
    case None
    let ?t = "(fixed p s m)\<lparr>sh_govinda := True\<rparr>"
    have "sh_ready p ?t" "\<not> sh_fd ?t" using assms(1,2) by (simp_all add: fixed_def sh_ready_def heal_wf_def ups_def)
    moreover have "stage_inv p d0 7 {} ?t d" using assms(4) by (simp add: fixed_def stage_inv_def known_def)
    ultimately show ?thesis using finish_copy[OF _ may_finish, of p ?t d0 7] t None by simp
  next
    case (Some k)
    let ?t = "(fixed p s m)\<lparr>sh_source := k, sh_sources := drop_different s k (first_sources p s m)\<rparr>"
    have k: "k < child_count p" "first_sources p s m ! k"
      using select_source_Some[OF Some] length_first_sources[OF w] by auto
    have "sh_ready p ?t" "\<not> sh_fd ?t" "length (sh_matrix ?t) = child_count p"
      using assms(1,2) m(2) by (auto simp: fixed_def sh_ready_def heal_wf_def ups_def clear_diagonal_def)
    moreover have "stage_inv p d0 7 {} ?t d" using assms(4) by (simp add: fixed_def stage_inv_def known_def)
    moreover have "sh_sources ?t ! k" "sh_xattr ?t ! k \<noteq> None"
      using k length_first_sources[OF w] first_source_seen[OF w assms(3) k] by (simp_all add: drop_different_def fixed_def)
    ultimately show ?thesis using prepared_copy[of p ?t d0 d] t Some k(1) by simp
  qed
qed

section \<open>The safety of the copies\<close>

lemma take_length_take: "take (length (take a xs)) xs = take a xs"
  by (cases "a \<le> length xs") simp_all

lemma read_copy:
  assumes "dh_inv p s" "copy_inv p d0 s d" "H_Read i n off \<in> set (sh_calls s)"
    "afr_sh_data_reply p (H_Read i n off) (Data (Some (take (min (Suc k) n) (drop off (d_files d i))))) s = Inr t"
  shows "copy_inv p d0 t d"
proof -
  have one: "sh_calls s = [H_Read i n off]" by (rule only_read[OF assms(1,3)])
  have fd: "sh_fd s" by (rule fd_of_stage(1)[OF assms(1,3)]) simp
  note ready = after_read_ready[OF assms(1) fd one]
  let ?x = "take (min (Suc k) n) (drop off (d_files d i))"
  have inv: "d_logs d = d_logs d0" "planned p d0 s d" "copying p d0 {H_Read i n off} s d"
    using assms(2) one by (simp_all add: stage_holds_def stage_inv_def)
  have h: "\<not> sh_holes s" using inv(2) by (simp add: planned_def)
  have c: "i = sh_source s" "0 < n" "off = sh_offset s" "\<not> sh_failed s" "sh_offset s \<le> length (wanted d0 s)"
    using inv(3) by (auto simp: copying_def)
  have src: "d_files d i = wanted d0 s" using inv(2) c(1) by (auto simp: planned_def kept_def)
  show ?thesis
  proof (cases "?x = []")
    case True
    then have end_of_file: "length (wanted d0 s) \<le> sh_offset s" using c src by auto
    let ?u = "after_read s (sh_offset s)"
    have "stage_inv p d0 5 {} ?u d"
      using inv by (auto simp: stage_inv_def after_read_def planned_def copying_def kept_def is_sink_eq)
    moreover have "t = afr_sh_data_trim_sinks p ?u" using True assms(4) read_reply_eq[OF assms(1,3), of "Some ?x"] by simp
    moreover have "\<not> sh_failed ?u" "length (wanted d0 ?u) \<le> sh_offset ?u" using end_of_file c(4) by (simp_all add: after_read_def)
    ultimately show ?thesis using trim_copy[OF ready(1,2)] by blast
  next
    case False
    define x where "x = ?x"
    let ?u = "after_read s (sh_offset s + length x)" and ?w = "\<lambda>i. H_Write i x (sh_offset s)"
    have t: "t = ?u\<lparr>sh_count := int (length (sinks p s)), sh_calls := map ?w (sinks p s)\<rparr>"
      using False h assms(4)[folded x_def] read_reply_eq[OF assms(1,3), of "Some x"] unfolding x_def[symmetric] by (simp add: Let_def)
    have x: "sh_offset s + length x \<le> length (wanted d0 s)" "x = take (length x) (drop (sh_offset s) (wanted d0 s))"
      using c src by (simp add: x_def, simp add: x_def take_length_take del: length_take)
    have "take (sh_offset s) (d_files d j) = take (sh_offset s) (wanted d0 s)" if "j < child_count p" "is_sink s j" for j
      using inv(3) c(4) that by (auto simp: copying_def)
    then have "copying p d0 (?w ` set (sinks p s)) ?u d"
      using x unfolding copying_def by (auto simp: after_read_def sinks_def is_sink_eq)
    then have "stage_inv p d0 5 (?w ` set (sinks p s)) ?u d"
      using inv(1,2) by (simp add: stage_inv_def after_read_def planned_def kept_def is_sink_eq)
    moreover have "sinks p s \<noteq> []" using assms(1) fd by (simp add: dh_inv_def committed_def)
    ultimately show ?thesis using copy_stages.sent[OF t, where p = p and ?d0.0 = d0 and k = 5 and d = d] distinct_lists by simp
  qed
qed

lemma served_cases:
  assumes "serve e ok k c d = (r, d')"
  shows "(\<exists>ret. r = Status ret) \<and> \<not> is_read c \<and> (\<forall>i. c \<noteq> H_Lookup i) \<or> (\<exists>i. c = H_Lookup i) \<or> is_read c"
  using assms by (cases c) (auto split: if_splits)

lemma lookup_noted_stage:
  assumes "dh_inv p s" "copy_inv p d0 s d" "H_Lookup i \<in> set (sh_calls s)" "faithful p (H_Lookup i) ok k d"
    "serve e ok k (H_Lookup i) d = (Found r, d')" "cs \<subseteq> set (sh_calls s)"
  shows "stage_inv p d0 7 cs (lookup_noted s i r) d'"
proof -
  let ?u = "lookup_noted s i r"
  have inv: "d = d0" "\<not> sh_holes s" "sh_offset s = 0" "known p d0 s" "\<forall>i. H_Lookup i \<in> set (sh_calls s) \<longrightarrow> i < child_count p"
    using copy_stages.at_stage(1)[OF assms(1-3)] by (auto simp: stage_inv_def)
  have len: "length (sh_buf s) = child_count p" "length (sh_xattr s) = child_count p" using assms(1) by (simp_all add: dh_inv_def heal_wf_def)
  have r: "r = None \<or> r = Some (\<lparr>buf_size = length (d_files d i), buf_blocks = k\<rparr>, Some (log_xattr d i))" "d' = d"
    using assms(5) by auto
  have "buf_size (sh_buf ?u ! j) = length (d_files d0 j) \<and> \<not> FILE_HAS_HOLES (sh_buf ?u ! j)"
    if "j < child_count p" "sh_xattr ?u ! j \<noteq> None" for j
    using r(1) that inv(1,4) assms(4) len by (cases "j = i") (auto simp: known_def lookup_noted_def faithful_def FILE_HAS_HOLES_def)
  then have "known p d0 ?u" by (simp add: known_def)
  then show ?thesis using inv r(2) assms(6) by (auto simp: stage_inv_def lookup_noted_def)
qed

lemma lookup_copy:
  assumes "favorite_inv p s" "dh_inv p s" "copy_inv p d0 s d" "H_Lookup i \<in> set (sh_calls s)" "faithful p (H_Lookup i) ok k d"
    "serve e ok k (H_Lookup i) d = (Found r, d')" "afr_sh_data_reply p (H_Lookup i) (Found r) s = Inr t" "answer_ok p (H_Lookup i) (Found r)"
  shows "copy_inv p d0 t d'"
proof -
  let ?u = "lookup_noted s i r"
  have fd: "\<not> sh_fd s" by (rule fd_of_stage(2)[OF assms(2,4)]) simp
  note h = heal_count[OF assms(2,4) _ lookup_noted_def lookup_noted_wf[OF assms(2,8)], simplified]
  note i7 = lookup_noted_stage[OF assms(2-6)]
  have eq: "(if sh_count ?u = 0 then afr_sh_data_fix p ?u else Inr ?u) = Inr t"
    using assms(7) lookup_reply_eq by simp
  show ?thesis
  proof (cases "sh_calls ?u = []")
    case True
    then show ?thesis using fix_copy[of p ?u d0 d' t] noted_seen[OF assms(1,2,4,8)] h fd i7 eq by (auto simp: lookup_noted_def)
  next
    case False
    then have "t = ?u" using eq h fd by simp
    moreover have "distinct (map child (sh_calls ?u))" using assms(3) by (simp add: lookup_noted_def stage_holds_def distinct_map_remove1)
    moreover have "stage (hd (sh_calls ?u)) = 7"
      using False not_read(1)[OF assms(2,4)] by (auto simp: lookup_noted_def) (metis hd_in_set notin_set_remove1)
    moreover have "set (sh_calls ?u) \<subseteq> set (sh_calls s)" by (simp add: lookup_noted_def set_remove1_subset)
    ultimately show ?thesis using i7 False by (cases "sh_calls ?u") (auto simp: stage_holds_def)
  qed
qed

lemma resume_copy:
  assumes "dh_inv p s" "c \<in> set (sh_calls s)" "sh_ready p u" "sh_fd u = sh_fd s" "stage_inv p d0 (stage c) {} u d" "answer_ok p c (Status ret)"
  shows "copy_inv p d0 (sh_resume p c u) d"
proof -
  note fd = fd_of_stage[OF assms(1,2)]
  have low: "stage_inv p d0 2 {} u d" if "stage c \<in> {1, 2, 3}" using that assms(5) by (auto simp: stage_inv_def planned_def)
  show ?thesis
  proof (cases c)
    case (H_Lock i)
    then show ?thesis using locked_copy[OF assms(3)] assms(4,5) fd by simp
  next
    case (H_Open i)
    then show ?thesis using opened_copy[OF assms(3)] assms(5) by simp
  next
    case (H_Write i x off)
    then show ?thesis using iter_copy[OF assms(3)] assms(4,5) fd by simp
  next
    case (H_Trim i n)
    then show ?thesis using erase_copy[OF assms(3)] assms(4,5) fd by simp
  next
    case (H_Erase i a)
    then show ?thesis using finish_copy[OF assms(3)] low by simp
  next
    case (H_Unlock i)
    then show ?thesis using close_copy[OF assms(3)] low by simp
  next
    case (H_Flush i)
    have "sh_ready p (u\<lparr>sh_fd := False\<rparr>)" using assms(3) by (simp add: sh_ready_def heal_wf_def ups_def)
    moreover have "stage_inv p d0 2 {} (u\<lparr>sh_fd := False\<rparr>) d"
      using low H_Flush by (simp add: stage_inv_def kept_def settled_def is_sink_eq)
    ultimately show ?thesis using done_copy H_Flush by simp
  qed (use assms(6) in \<open>simp_all add: answer_ok_def\<close>)
qed

lemma status_copy:
  assumes "dh_inv p s" "copy_inv p d0 s d" "c \<in> set (sh_calls s)" "answer_ok p c (Status ret)"
    "serve e ok k c d = (Status ret, d')" "faithful p c ok k d" "afr_sh_data_reply p c (Status ret) s = Inr t"
  shows "copy_inv p d0 t d'"
proof -
  have "\<not> is_read c" using assms(4) by (cases c) (auto simp: answer_ok_def)
  then show ?thesis
    using copy_stages.counted[OF assms(1-3) _ refl status_served[OF copy_stages.at_stage(1)[OF assms(1-3)] assms(3) _ _ assms(5,6) refl refl]]
      copy_stages.at_stage(2)[OF assms(1-3)] not_read(1)[OF assms(1,3)] resume_copy[OF assms(1,3) _ _ _ assms(4)]
      assms(7)[unfolded status_reply_eq[OF assms(4) refl]] by (metis sum.inject(2))
qed

lemma served_ok:
  assumes "copy_inv p d0 s d" "dh_inv p s" "disk_ok p d0" "c \<in> set (sh_calls s)" "serve e ok k c d = (r, d')"
    "faithful p c ok k d"
  shows "answer_ok p c r"
proof (cases c)
  case (H_Lookup i)
  have "(case sh_calls s of [] \<Rightarrow> 0 | c # _ \<Rightarrow> stage c) = 7"
    using same_stage_hd[OF assms(2,4)] H_Lookup by (cases "sh_calls s") auto
  then have d: "d = d0" "i < child_count p" using assms(1,4) H_Lookup by (simp_all add: stage_holds_def stage_inv_def)
  then have "case d_logs d i of None \<Rightarrow> True | Some a \<Rightarrow> length a = child_count p" using assms(3) by (simp add: disk_ok_def)
  then show ?thesis using assms(5,6) H_Lookup by (auto simp: answer_ok_def log_xattr_def faithful_def split: option.split_asm if_splits)
qed (use assms(5) in \<open>auto simp: answer_ok_def split: if_splits\<close>)

definition copy_start :: "afr_private \<Rightarrow> disk \<Rightarrow> self_heal \<times> disk \<Rightarrow> bool" where
  "copy_start p d0 w \<longleftrightarrow> favorite_up p (fst w) \<and> disk_ok p d0 \<and> heal_data_start p (fst w) \<and> snd w = d0"

definition copy_ok :: "afr_private \<Rightarrow> disk \<Rightarrow> self_heal \<times> disk \<Rightarrow> bool" where
  "copy_ok p d0 w \<longleftrightarrow> favorite_inv p (fst w) \<and> disk_ok p d0 \<and> dh_inv p (fst w) \<and> copy_inv p d0 (fst w) (snd w)"

lemma copy_start_ok:
  assumes "copy_start p d0 w"
  shows "copy_ok p d0 w"
proof -
  obtain s0 need where s: "heal_fresh p s0" "fst w = afr_self_heal_data p need s0" using assms by (auto simp: copy_start_def heal_data_start_def)
  note r = fresh_ready[OF s(1)]
  have i8: "stage_inv p d0 8 {} s0 d0" using s(1) by (auto simp: stage_inv_def known_def heal_fresh_def)
  then have "stage_inv p d0 8 (H_Lock ` set (ups p s0)) s0 d0" by (auto simp: stage_inv_def)
  then have "copy_inv p d0 (afr_sh_data_lock p s0) d0"
    using distinct_lists copy_stages.sent[OF ready_sends_up(3)[OF r(1)] ready_sends_up(4)[OF r(1)], where p = p and ?d0.0 = d0 and k = 8 and d = d0] by simp
  moreover have "copy_inv p d0 (afr_sh_data_done s0) d0" using done_copy[OF r(1) may_finish[OF i8]] r(2) by simp
  ultimately show ?thesis using assms s(2) heal_data_start_ok favorite_start by (auto simp: copy_start_def copy_ok_def afr_self_heal_data_def)
qed

lemma copy_step_ok:
  assumes "copy_ok p d0 w" "heal_copy_step p (faithful p) w w'"
  shows "copy_ok p d0 w'"
  using assms(2)
proof cases
  case (1 c s ok k d r d' s')
  have i: "favorite_inv p s" "disk_ok p d0" "dh_inv p s" "copy_inv p d0 s d" using assms(1) 1 by (auto simp: copy_ok_def)
  have a: "answer_ok p c r" using served_ok[OF i(4,3,2)] 1 by blast
  have "copy_inv p d0 s' d'"
  proof (cases r)
    case (Status ret)
    then show ?thesis using status_copy[OF i(3,4)] a 1 by blast
  next
    case (Found x)
    then obtain j where "c = H_Lookup j" using a by (cases c) (auto simp: answer_ok_def)
    then show ?thesis using lookup_copy[OF i(1,3,4)] Found a 1 by blast
  next
    case (Data x)
    then obtain j n off where c: "c = H_Read j n off" using a by (cases c) (auto simp: answer_ok_def)
    then have "x = Some (take (min (Suc k) n) (drop off (d_files d j)))" "d' = d" using 1 Data by (auto simp: faithful_def)
    then show ?thesis using read_copy[OF i(3,4)] c Data 1 by blast
  qed
  moreover have "dh_inv p s'" using sh_reply_ok[OF i(1,3) _ a] 1 by (metis sum.inject(2))
  moreover have "favorite_inv p s'" using favorite_step[OF i(1,3) _ a] 1 by blast
  ultimately show ?thesis using i 1 by (simp add: copy_ok_def)
qed

interpretation data_copy: step_system "copy_start p d0" "heal_copy_step p (faithful p)" "copy_ok p d0" for p d0
  by unfold_locales (auto intro: copy_start_ok copy_step_ok)

text \<open>C5. The self-heal of contents erases no changelog before the copies agree. At every moment of a run in which
  reads and truncations succeed, writes are complete and no file is sparse, while locks, lookups, opens, writes
  and erasures may fail: if any changelog is not what it was at the start, then every sink has the contents that
  the source had then and has still. Files of children that are no sinks are never touched. Changelogs have a number
  for every child, and a favorite child, if the configuration has one and it had no error before, is up and its
  lookup succeeds.\<close>

theorem data_heal_copies_first:
  assumes "favorite_up p s0" "disk_ok p d0" "heal_data_start p s0" "(heal_copy_step p (faithful p))\<^sup>*\<^sup>* (s0, d0) (s, d)"
  shows "(d_logs d \<noteq> d_logs d0 \<longrightarrow> (\<forall>i < child_count p. is_sink s i \<longrightarrow> d_files d i = d_files d0 (sh_source s) \<and> d_files d (sh_source s) = d_files d0 (sh_source s)))
    \<and> (\<forall>i < child_count p. \<not> is_sink s i \<longrightarrow> d_files d i = d_files d0 i)"
proof -
  have "copy_start p d0 (s0, d0)" using assms(1-3) by (simp add: copy_start_def)
  then have "copy_ok p d0 (s, d)" using data_copy.inv_reach assms(4) by blast
  then have inv: "stage_inv p d0 (case sh_calls s of [] \<Rightarrow> 0 | c # _ \<Rightarrow> stage c) (set (sh_calls s)) s d"
    by (simp add: copy_ok_def stage_holds_def)
  obtain k where k: "stage_inv p d0 k (set (sh_calls s)) s d" "k \<le> 8"
  proof -
    have "stage c \<le> 8" for c by (cases c) auto
    then show ?thesis using that inv by (auto split: list.splits)
  qed
  have "7 \<le> k \<or> k \<in> {4, 5, 6} \<or> k = 3 \<or> k \<le> 2" by auto
  then show ?thesis using k(1) by (elim disjE) (auto simp: stage_inv_def planned_def settled_def kept_def)
qed

section \<open>A run\<close>

fun heal_copy_run :: "afr_private \<Rightarrow> outcome \<Rightarrow> (sh_call \<times> bool \<times> nat) list \<Rightarrow> self_heal \<times> disk \<Rightarrow> (self_heal \<times> disk) option" where
  "heal_copy_run p may [] w = Some w"
| "heal_copy_run p may ((c, ok, k) # l) (s, d) =
     (if c \<in> set (sh_calls s) \<and> may c ok k d
      then case serve (little_endian p) ok k c d of (r, d') \<Rightarrow>
        (case afr_sh_data_reply p c r s of Inl _ \<Rightarrow> None | Inr s' \<Rightarrow> heal_copy_run p may l (s', d'))
      else None)"

lemma heal_copy_run_steps: "heal_copy_run p may l w = Some w' \<Longrightarrow> (heal_copy_step p may)\<^sup>*\<^sup>* w w'"
proof (induction l arbitrary: w)
  case (Cons x l)
  obtain s d where w: "w = (s, d)" by (cases w)
  obtain c ok k where x: "x = (c, ok, k)" by (cases x)
  obtain r d' where sv: "serve (little_endian p) ok k c d = (r, d')" by (cases "serve (little_endian p) ok k c d")
  obtain s' where "c \<in> set (sh_calls s)" "may c ok k d" "afr_sh_data_reply p c r s = Inr s'" "heal_copy_run p may l (s', d') = Some w'"
    using Cons.prems by (auto simp: w x sv split: if_splits sum.splits)
  then show ?case using Cons.IH heal_copy_step.intros[OF _ _ sv] by (metis converse_rtranclp_into_rtranclp w)
qed simp

text \<open>Child 0 has three bytes and knows that child 1 missed an operation; child 1 has older and longer contents.\<close>

definition behind :: disk where
  "behind = \<lparr>d_files = (\<lambda>i. if i = 0 then [1, 2, 3] else [9, 9, 9, 9, 9]), d_logs = (\<lambda>i. if i = 0 then Some [0, hton32 True 1] else Some [0, 0])\<rparr>"

lemma behind_ok: "disk_ok pair behind"
  by (simp add: disk_ok_def pair_def behind_def)

definition heal_answers :: "(sh_call \<times> bool \<times> nat) list" where
  "heal_answers = [(H_Lock 0, True, 0), (H_Lock 1, True, 0), (H_Lookup 1, True, 8), (H_Lookup 0, True, 8), (H_Open 0, True, 0), (H_Open 1, True, 0),
     (H_Read 0 65536 0, True, 1), (H_Write 1 [1, 2] 0, True, 2), (H_Read 0 65536 2, True, 1), (H_Write 1 [3] 2, True, 1), (H_Trim 1 3, True, 0),
     (H_Erase 0 [0, hton32 True (- 1)], True, 0)]"

lemmas heal_eval = afr_self_heal_data_def afr_sh_data_reply_def afr_sh_data_lock_def afr_sh_data_lock_cbk_def afr_sh_data_lookup_def
  afr_sh_data_lookup_cbk_def afr_sh_data_fix_def afr_sh_data_sync_prepare_def afr_sh_data_open_def afr_sh_data_open_cbk_def
  afr_sh_data_read_write_def afr_sh_data_read_cbk_def afr_sh_data_write_cbk_def afr_sh_data_read_write_iter_def afr_sh_data_trim_sinks_def
  afr_sh_data_trim_cbk_def afr_sh_data_erase_pending_def afr_sh_data_erase_pending_cbk_def afr_sh_data_finish_def afr_sh_data_unlock_def
  afr_sh_data_unlck_cbk_def afr_sh_data_close_def afr_sh_data_flush_cbk_def afr_sh_data_done_def sh_frame_return_def is_sink_def
  pick_favorite_def drop_different_def erase_array_def FILE_HAS_HOLES_def SIZE_DIFFERS_def afr_up_children_count_def build_row_def
  afr_sh_mark_sources_def clear_diagonal_def accused_def afr_sh_supress_empty_children_def afr_sh_supress_errenous_children_def has_key_def
  afr_sh_source_count_def afr_sh_pending_to_delta_def afr_sh_delta_to_xattr_def log_xattr_def overwrite_def resize_def xattrop_add_def add_array_def
  bind_f_def Let_def upt_rec pair_def idle_heal_def

lemma heal_answers_run:
  "\<exists>s d. heal_copy_run pair (faithful pair) heal_answers (afr_self_heal_data pair True idle_heal, behind) = Some (s, d)
     \<and> d_logs d 0 = Some [0, 0] \<and> is_sink s 1 \<and> sh_source s = 0"
  by (simp add: heal_answers_def behind_def faithful_def heal_eval)

theorem data_heal_copies_first_witness:
  "\<exists>s d. (heal_copy_step pair (faithful pair))\<^sup>*\<^sup>* (afr_self_heal_data pair True idle_heal, behind) (s, d) \<and> d_logs d 0 = Some [0, 0] \<and> d_files d 1 = [1, 2, 3]"
proof -
  obtain s d where r: "heal_copy_run pair (faithful pair) heal_answers (afr_self_heal_data pair True idle_heal, behind) = Some (s, d)"
      "d_logs d 0 = Some [0, 0]" "is_sink s 1" "sh_source s = 0"
    using heal_answers_run by blast
  have "heal_data_start pair (afr_self_heal_data pair True idle_heal)" using idle_fresh by (auto simp: heal_data_start_def)
  then have "d_logs d \<noteq> d_logs behind \<longrightarrow> d_files d 1 = d_files behind 0"
    using data_heal_copies_first[OF _ behind_ok _ heal_copy_run_steps[OF r(1)]] r(3,4) by (simp add: pair_def favorite_up_def)
  moreover have "d_logs d 0 \<noteq> d_logs behind 0" using r(2) by (simp add: behind_def)
  ultimately show ?thesis using heal_copy_run_steps[OF r(1)] r(2) by (auto simp: behind_def)
qed

end
