(* ===== verification/Afr_Heal_Result.thy ===== *)
theory Afr_Heal_Result
  imports Afr_Heal_Copy
begin

text \<open>
  What the self-heal of contents achieves when all calls succeed: all children that are up have the contents of
  the source, and no changelog accuses any of them.
\<close>

section \<open>The changelogs\<close>

definition pending_on :: "afr_private \<Rightarrow> disk \<Rightarrow> nat \<Rightarrow> nat \<Rightarrow> u32" where
  "pending_on p d i j = (case d_logs d i of None \<Rightarrow> 0 | Some a \<Rightarrow> hton32 (little_endian p) (a ! j))"

definition clear_of :: "afr_private \<Rightarrow> self_heal \<Rightarrow> disk \<Rightarrow> nat \<Rightarrow> bool" where
  "clear_of p s d i \<longleftrightarrow> (\<forall>j < child_count p. sh_up s ! j \<longrightarrow> j \<noteq> i \<longrightarrow> pending_on p d i j = 0)"

text \<open>
  The children that may be a source: up, without an error, accused by no other child that is up, and with a
  changelog, or with contents if no child has a changelog.
\<close>

definition eligible :: "afr_private \<Rightarrow> self_heal \<Rightarrow> disk \<Rightarrow> nat \<Rightarrow> bool" where
  "eligible p s d j \<longleftrightarrow> sh_up s ! j \<and> sh_errno s ! j = 0 \<and> (\<forall>i < child_count p. sh_up s ! i \<longrightarrow> i \<noteq> j \<longrightarrow> pending_on p d i j = 0)
     \<and> (if \<exists>i < child_count p. sh_up s ! i \<and> d_logs d i \<noteq> None then d_logs d j \<noteq> None else d_files d j \<noteq> [])"

text \<open>The children that the self-heal copies from: those, or the favorite child if there is none of them.\<close>

definition source_ok :: "afr_private \<Rightarrow> self_heal \<Rightarrow> disk \<Rightarrow> nat \<Rightarrow> bool" where
  "source_ok p s d j \<longleftrightarrow> eligible p s d j
     \<or> (\<forall>i < child_count p. \<not> eligible p s d i) \<and> favorite_child p = Some j \<and> sh_errno s ! j = 0 \<and> sh_up s ! j"

definition chosen :: "afr_private \<Rightarrow> disk \<Rightarrow> self_heal \<Rightarrow> bool" where
  "chosen p d0 s \<longleftrightarrow> sh_source s < child_count p \<and> source_ok p s d0 (sh_source s) \<and>
     (\<forall>i < child_count p. is_sink s i \<longleftrightarrow> sh_up s ! i \<and> \<not> (source_ok p s d0 i \<and> length (d_files d0 i) = length (wanted d0 s)))"

definition decided :: "afr_private \<Rightarrow> disk \<Rightarrow> self_heal \<Rightarrow> bool" where
  "decided p d0 s \<longleftrightarrow> (\<forall>i < child_count p. sh_xattr s ! i \<noteq> None \<longleftrightarrow> sh_up s ! i)
     \<and> (\<forall>i < child_count p. length (sh_matrix s ! i) = child_count p)
     \<and> (\<forall>i < child_count p. \<forall>j < child_count p. sh_up s ! i \<longrightarrow> sh_matrix s ! i ! j = (if i = j then 0 else pending_on p d0 i j))
     \<and> length (sh_success s) = child_count p \<and> (\<forall>j < child_count p. is_sink s j \<or> j = sh_source s \<longrightarrow> sh_success s ! j) \<and> chosen p d0 s"

definition erasing :: "afr_private \<Rightarrow> disk \<Rightarrow> sh_call set \<Rightarrow> self_heal \<Rightarrow> disk \<Rightarrow> bool" where
  "erasing p d0 cs s d \<longleftrightarrow> (\<forall>i < child_count p. sh_up s ! i \<longrightarrow> (\<forall>a. H_Erase i a \<notin> cs) \<longrightarrow> clear_of p s d i)
     \<and> (\<forall>i a. H_Erase i a \<in> cs \<longrightarrow> i < child_count p \<and> sh_up s ! i \<and> a = erased_row p s i \<and> d_logs d i = d_logs d0 i)"

definition heal_stage :: "afr_private \<Rightarrow> disk \<Rightarrow> nat \<Rightarrow> sh_call set \<Rightarrow> self_heal \<Rightarrow> disk \<Rightarrow> bool" where
  "heal_stage p d0 k cs s d \<longleftrightarrow>
     (7 \<le> k \<longrightarrow> \<not> sh_failed s \<and> (\<forall>i < child_count p. \<not> sh_up s ! i \<longrightarrow> sh_xattr s ! i = None) \<and> (\<forall>i. H_Lookup i \<in> cs \<longrightarrow> sh_up s ! i))
   \<and> (k = 7 \<longrightarrow> (\<forall>i < child_count p. sh_up s ! i \<longrightarrow> H_Lookup i \<notin> cs \<longrightarrow> sh_xattr s ! i = Some (log_xattr d0 i)))
   \<and> (k \<in> {4, 5, 6} \<longrightarrow> \<not> sh_failed s \<and> decided p d0 s)
   \<and> (k = 3 \<longrightarrow> decided p d0 s \<and> erasing p d0 cs s d)
   \<and> (k \<le> 2 \<longrightarrow> sh_govinda s \<and> d = d0 \<and> (\<forall>i < child_count p. \<not> source_ok p s d0 i)
        \<or> chosen p d0 s \<and> (\<forall>i < child_count p. sh_up s ! i \<longrightarrow> clear_of p s d i) \<and> settled p d0 s d)"

definition result_stage :: "afr_private \<Rightarrow> disk \<Rightarrow> nat \<Rightarrow> sh_call set \<Rightarrow> self_heal \<Rightarrow> disk \<Rightarrow> bool" where
  "result_stage p d0 k cs s d \<longleftrightarrow> stage_inv p d0 k cs s d \<and> heal_stage p d0 k cs s d"

lemma heal_stage_cong:
  assumes "heal_stage p d0 k cs s d" "sh_failed t = sh_failed s" "sh_up t = sh_up s" "sh_xattr t = sh_xattr s" "sh_matrix t = sh_matrix s"
    "sh_success t = sh_success s" "sh_sources t = sh_sources s" "sh_source t = sh_source s" "sh_govinda t = sh_govinda s"
    "sh_errno t = sh_errno s"
  shows "heal_stage p d0 k cs t d"
proof -
  have sink: "is_sink t = is_sink s" using assms by (simp add: is_sink_eq)
  have "eligible p t d0 i = eligible p s d0 i" for i using assms by (simp add: eligible_def)
  then have el: "source_ok p t d0 = source_ok p s d0" using assms(3,10) by (auto simp: source_ok_def fun_eq_iff)
  have "chosen p d0 t = chosen p d0 s" using assms(3,8) by (simp add: chosen_def el sink)
  moreover have "decided p d0 t = decided p d0 s" using assms calculation by (simp add: decided_def sink)
  moreover have "clear_of p t d i = clear_of p s d i" "erased_row p t i = erased_row p s i" for i using assms by (simp_all add: clear_of_def erased_row_def)
  moreover have "settled p d0 t d = settled p d0 s d" using assms(8) by (simp add: settled_def sink)
  moreover have "erasing p d0 cs t d = erasing p d0 cs s d" using assms(3) calculation by (simp add: erasing_def)
  ultimately show ?thesis using assms by (simp add: heal_stage_def el)
qed

lemma sources_agree:
  assumes "source_ok p s d i" "source_ok p s d j" "i < child_count p" "j < child_count p" "i \<noteq> j"
  shows "eligible p s d j"
  using assms by (auto simp: source_ok_def)

lemma decided_clear:
  assumes "decided p d0 s" "i < child_count p" "sh_up s ! i" "j < child_count p" "sh_up s ! j" "j \<noteq> i" "\<not> is_sink s j"
    "j \<noteq> sh_source s \<or> \<not> is_sink s i"
  shows "pending_on p d0 i j = 0"
proof -
  have ok: "source_ok p s d0 j" "\<not> is_sink s i \<Longrightarrow> source_ok p s d0 i" "source_ok p s d0 (sh_source s)" "sh_source s < child_count p"
    using assms by (auto simp: decided_def chosen_def)
  then have "eligible p s d0 j" using sources_agree assms(2,4,6,8) by metis
  then show ?thesis using assms(2,3,6) by (simp add: eligible_def)
qed

interpretation result_stages: stage_promises "result_stage p d0" for p d0
  by unfold_locales (auto simp: result_stage_def intro: copy_stages.frame heal_stage_cong)

text \<open>The erased changelog of a child accuses no child that is up.\<close>

lemma erased_clear:
  assumes "disk_ok p d0" "decided p d0 s" "i < child_count p" "sh_up s ! i" "d_logs d i = d_logs d0 i"
    "d' = d\<lparr>d_logs := (d_logs d)(i \<mapsto> xattrop_add (little_endian p) (d_logs d i) (erased_row p s i))\<rparr>"
  shows "clear_of p s d' i"
  unfolding clear_of_def
proof (intro allI impI)
  let ?e = "little_endian p" and ?n = "child_count p"
  fix j assume j: "j < ?n" "sh_up s ! j" "j \<noteq> i"
  have m: "length (sh_matrix s ! i) = ?n" "length (sh_success s) = ?n" "sh_matrix s ! i ! j = pending_on p d0 i j"
    using assms(2-4) j by (simp_all add: decided_def)
  let ?old = "case d_logs d0 i of None \<Rightarrow> replicate ?n 0 | Some a \<Rightarrow> a"
  have len: "length (erased_row p s i) = ?n" using m by (simp add: erased_row_def)
  have old: "length ?old = ?n" "hton32 ?e (?old ! j) = pending_on p d0 i j"
    using assms(1,3) j(1) by (auto simp: disk_ok_def pending_on_def split: option.split)
  have row: "erased_row p s i ! j = hton32 ?e (if sh_success s ! j then - (sh_matrix s ! i ! j) else 0)"
    using m j(1) by (simp add: erased_row_def)
  have sum: "xattrop_add ?e (d_logs d0 i) (erased_row p s i) = add_array ?e ?old (erased_row p s i)"
    unfolding xattrop_add_def len ..
  have "pending_on p d' i j = hton32 ?e (xattrop_add ?e (d_logs d0 i) (erased_row p s i) ! j)"
    using assms(5,6) by (simp add: pending_on_def)
  also have "\<dots> = pending_on p d0 i j + (if sh_success s ! j then - pending_on p d0 i j else 0)"
    using j(1) m(3) len old row sum by (simp add: add_array_def)
  also have "\<dots> = 0" using assms(2) j(1) decided_clear[OF assms(2-4) j] by (cases "is_sink s j \<or> j = sh_source s") (auto simp: decided_def)
  finally show "pending_on p d' i j = 0" .
qed

section \<open>Answers\<close>

lemma erase_served:
  assumes "erasing p d0 cs s d" "disk_ok p d0" "decided p d0 s" and c: "c = H_Erase i a" "c \<in> cs" "\<forall>e \<in> cs. child e = child c \<longrightarrow> e = c"
    and d'0: "d' = d\<lparr>d_logs := (d_logs d)(i \<mapsto> xattrop_add (little_endian p) (d_logs d i) a)\<rparr>"
  shows "erasing p d0 (cs - {c}) s d'"
proof -
  have i: "i < child_count p" "sh_up s ! i" "a = erased_row p s i" "d_logs d i = d_logs d0 i" using assms(1) c(1,2) unfolding erasing_def by blast+
  note d' = d'0[unfolded i(3)]
  have new: "clear_of p s d' i" by (rule erased_clear[OF assms(2,3) i(1,2,4) d'])
  have old: "clear_of p s d' j = clear_of p s d j" if "j \<noteq> i" for j using that by (simp add: d' clear_of_def pending_on_def)
  have gone: "H_Erase i b \<notin> cs - {c}" for b using c(1,3) by force
  have "clear_of p s d' j" if j: "j < child_count p" "sh_up s ! j" "\<forall>a. H_Erase j a \<notin> cs - {c}" for j
  proof (cases "j = i")
    case False
    then have "\<forall>a. H_Erase j a \<notin> cs" using j(3) c(1) by auto
    then show ?thesis using assms(1) j(1,2) old[OF False] by (simp add: erasing_def)
  qed (use new in simp)
  moreover have "j < child_count p \<and> sh_up s ! j \<and> b = erased_row p s j \<and> d_logs d' j = d_logs d0 j" if b: "H_Erase j b \<in> cs - {c}" for j b
  proof -
    have "j \<noteq> i" using b gone by metis
    moreover have "j < child_count p \<and> sh_up s ! j \<and> b = erased_row p s j \<and> d_logs d j = d_logs d0 j"
      using assms(1) b unfolding erasing_def by blast
    ultimately show ?thesis by (simp add: d')
  qed
  ultimately show ?thesis unfolding erasing_def by blast
qed

lemma result_served:
  assumes inv: "heal_stage p d0 (stage c) cs s d" and "disk_ok p d0" and c: "c \<in> cs" "\<forall>e \<in> cs. child e = child c \<longrightarrow> e = c"
    and sv: "serve (little_endian p) True m c d = (Status ret, d')"
    and u: "u = heal_noted s c (stage c \<in> {5, 6, 8} \<and> ret = - 1 \<or> sh_failed s)"
  shows "heal_stage p d0 (stage c) (cs - {c}) u d'"
proof -
  have keep: ?thesis if "heal_stage p d0 (stage c) (cs - {c}) s d'" "ret \<noteq> - 1 \<or> stage c \<notin> {5, 6, 8}"
    by (rule heal_stage_cong[OF that(1)]) (use that(2) in \<open>auto simp: u\<close>)
  show ?thesis
  proof (cases c)
    case (H_Erase i a)
    have h: "erasing p d0 cs s d" "decided p d0 s" using inv H_Erase by (simp_all add: heal_stage_def)
    have "erasing p d0 (cs - {c}) s d'" by (rule erase_served[OF h(1) assms(2) h(2) H_Erase c]) (use sv H_Erase in simp)
    then show ?thesis using h(2) H_Erase by (intro keep) (simp_all add: heal_stage_def)
  next
    case (H_Lock i)
    then show ?thesis using inv sv by (intro keep) (auto simp: heal_stage_def)
  next
    case (H_Open i)
    then show ?thesis using inv sv by (intro keep) (auto simp: heal_stage_def)
  next
    case (H_Write i x off)
    then show ?thesis using inv sv by (intro keep) (auto simp: heal_stage_def)
  next
    case (H_Trim i n)
    then show ?thesis using inv by (intro keep) (auto simp: heal_stage_def)
  next
    case (H_Unlock i)
    then show ?thesis using inv sv by (intro keep) (auto simp: heal_stage_def)
  next
    case (H_Flush i)
    then show ?thesis using inv sv by (intro keep) (auto simp: heal_stage_def)
  qed (use sv in auto)
qed

section \<open>From stage to stage\<close>

abbreviation heal_now :: "afr_private \<Rightarrow> disk \<Rightarrow> self_heal \<Rightarrow> disk \<Rightarrow> bool" where
  "heal_now p d0 s d \<equiv> heal_stage p d0 (case sh_calls s of [] \<Rightarrow> 0 | c # _ \<Rightarrow> stage c) (set (sh_calls s)) s d"

lemma result_holds: "stage_holds (result_stage p d0) s d \<longleftrightarrow> copy_inv p d0 s d \<and> heal_now p d0 s d"
  by (auto simp: stage_holds_def result_stage_def)

lemma heal_sent:
  assumes "t = s\<lparr>sh_count := n, sh_calls := map c is\<rparr>" "is \<noteq> []" "\<And>i. stage (c i) = k" "heal_stage p d0 k (c ` set is) s d"
  shows "heal_now p d0 t d"
proof -
  have "heal_stage p d0 k (c ` set is) t d" by (rule heal_stage_cong[OF assms(4)]) (simp_all add: assms(1))
  then show ?thesis using assms(1-3) by (cases "is") auto
qed

lemma low_heal: "heal_stage p d0 2 cs s d \<Longrightarrow> k \<le> 2 \<Longrightarrow> heal_stage p d0 k cs' s d"
  by (simp add: heal_stage_def)

lemma finish_heal:
  assumes "sh_ready p s" "heal_stage p d0 2 {} s d"
  shows "heal_now p d0 (afr_sh_data_finish p s) d"
  by (rule heal_sent[OF ready_sends_up(1)[OF assms(1)] ready_sends_up(4)[OF assms(1)] _ low_heal[OF assms(2)], of 2]) simp_all

lemma done_heal:
  assumes "sh_ready p s" "heal_stage p d0 2 {} s d"
  shows "heal_now p d0 (afr_sh_data_done s) d"
proof -
  have "heal_stage p d0 0 {} (afr_sh_data_done s) d"
    by (rule heal_stage_cong[OF low_heal[OF assms(2)]]) (simp_all add: afr_sh_data_done_def)
  then show ?thesis using assms(1) by (simp add: afr_sh_data_done_def sh_ready_def)
qed

lemma close_heal:
  assumes "sh_ready p s" "heal_stage p d0 2 {} s d"
  shows "heal_now p d0 (afr_sh_data_close p s) d"
proof (cases "sh_fd s")
  case True
  show ?thesis by (rule heal_sent[OF ready_sends_sinks(1)[OF assms(1) True] _ _ low_heal[OF assms(2)], of 1]) simp_all
next
  case False
  then show ?thesis using done_heal[OF assms] by (simp add: afr_sh_data_close_def)
qed

lemma erase_heal:
  assumes "sh_ready p s" "sh_fd s" "heal_stage p d0 4 {} s d" "d_logs d = d_logs d0"
  shows "heal_now p d0 (afr_sh_data_erase_pending p s) d"
proof -
  have d: "decided p d0 s" using assms(3) by (simp add: heal_stage_def)
  have "set (seen p s) = {i. i < child_count p \<and> sh_up s ! i}" using d by (auto simp: seen_def decided_def)
  then have "erasing p d0 ((\<lambda>i. H_Erase i (erased_row p s i)) ` set (seen p s)) s d" using assms(4) by (auto simp: erasing_def)
  then have "heal_stage p d0 3 ((\<lambda>i. H_Erase i (erased_row p s i)) ` set (seen p s)) s d" using d by (simp add: heal_stage_def)
  then show ?thesis by (intro heal_sent[OF ready_erases(1)[OF assms(1,2)] ready_erases(2)[OF assms(1,2)], of 3]) simp_all
qed

lemma trim_heal:
  assumes "sh_ready p s" "sh_fd s" "heal_stage p d0 5 {} s d"
  shows "heal_now p d0 (afr_sh_data_trim_sinks p s) d"
  by (rule heal_sent[OF ready_sends_sinks(2)[OF assms(1,2)] ready_sends_sinks(3)[OF assms(1,2)], of 4])
    (use assms(3) in \<open>auto simp: heal_stage_def\<close>)

lemma read_write_heal:
  assumes "sh_ready p s" "heal_stage p d0 5 {} s d"
  shows "heal_now p d0 (afr_sh_data_read_write s) d"
proof -
  have "heal_stage p d0 5 (set (sh_calls (afr_sh_data_read_write s))) s d" using assms(2) by (simp add: heal_stage_def)
  then have "heal_stage p d0 5 (set (sh_calls (afr_sh_data_read_write s))) (afr_sh_data_read_write s) d"
    by (rule heal_stage_cong) (simp_all add: afr_sh_data_read_write_def)
  moreover have "sh_calls (afr_sh_data_read_write s) = [H_Read (sh_source s) 65536 (sh_offset s)]"
    using assms(1) by (simp add: afr_sh_data_read_write_def sh_ready_def)
  ultimately show ?thesis by simp
qed

lemma iter_heal:
  assumes "sh_ready p s" "sh_fd s" "heal_stage p d0 5 {} s d"
  shows "heal_now p d0 (afr_sh_data_read_write_iter p s) d"
proof -
  have "\<not> sh_failed s" using assms(3) by (simp add: heal_stage_def)
  then show ?thesis using trim_heal[OF assms] read_write_heal[OF assms(1,3)] by (simp add: afr_sh_data_read_write_iter_def)
qed

lemma locked_heal:
  assumes "sh_ready p s" "heal_stage p d0 8 {} s d"
  shows "heal_now p d0 (if sh_failed s then afr_sh_data_finish p s else afr_sh_data_lookup p s) d"
proof -
  have "heal_stage p d0 7 (H_Lookup ` set (ups p s)) s d" using assms(2) by (auto simp: heal_stage_def ups_def)
  moreover have "\<not> sh_failed s" using assms(2) by (simp add: heal_stage_def)
  ultimately show ?thesis using heal_sent[OF ready_sends_up(2)[OF assms(1)] ready_sends_up(4)[OF assms(1)], of 7] by simp
qed

lemma resume_heal:
  assumes "dh_inv p s" "c \<in> set (sh_calls s)" "sh_ready p u" "sh_fd u = sh_fd s" "result_stage p d0 (stage c) {} u d" "answer_ok p c (Status ret)"
  shows "heal_now p d0 (sh_resume p c u) d"
proof -
  note fd = fd_of_stage[OF assms(1,2)]
  have h: "heal_stage p d0 (stage c) {} u d" and i: "stage_inv p d0 (stage c) {} u d" using assms(5) by (simp_all add: result_stage_def)
  show ?thesis
  proof (cases c)
    case (H_Lock i)
    then show ?thesis using locked_heal[OF assms(3)] h by simp
  next
    case (H_Open i)
    then have "heal_stage p d0 5 {} u d" "\<not> sh_failed u" using h by (simp_all add: heal_stage_def)
    then show ?thesis using read_write_heal[OF assms(3)] H_Open by simp
  next
    case (H_Write i x off)
    then show ?thesis using iter_heal[OF assms(3)] h fd assms(4) by simp
  next
    case (H_Trim i n)
    then show ?thesis using erase_heal[OF assms(3)] h i fd assms(4) by (simp add: stage_inv_def)
  next
    case (H_Erase i a)
    then have "heal_stage p d0 2 {} u d" using h i by (simp add: heal_stage_def stage_inv_def erasing_def decided_def)
    then show ?thesis using finish_heal[OF assms(3)] H_Erase by simp
  next
    case (H_Unlock i)
    then show ?thesis using close_heal[OF assms(3)] h by simp
  next
    case (H_Flush i)
    have "sh_ready p (u\<lparr>sh_fd := False\<rparr>)" using assms(3) by (simp add: sh_ready_def heal_wf_def ups_def)
    moreover have "heal_stage p d0 2 {} u d" using h H_Flush by (simp add: heal_stage_def)
    then have "heal_stage p d0 2 {} (u\<lparr>sh_fd := False\<rparr>) d" by (rule heal_stage_cong) simp_all
    ultimately show ?thesis using done_heal H_Flush by simp
  qed (use assms(6) in \<open>simp_all add: answer_ok_def\<close>)
qed

section \<open>The decision\<close>

text \<open>The matrix that is built from the changelogs of the children that are up.\<close>

lemma matrix_entries:
  assumes "disk_ok p d0" "i < child_count p" "build_row (little_endian p) (child_count p) AFR_DATA_PENDING x = Inr r"
    "x = None \<or> x = Some (log_xattr d0 i)"
  shows "length r = child_count p" "x = Some (log_xattr d0 i) \<Longrightarrow> j < child_count p \<Longrightarrow> r ! j = pending_on p d0 i j"
proof -
  have "case d_logs d0 i of None \<Rightarrow> True | Some a \<Rightarrow> length a = child_count p" using assms(1,2) by (simp add: disk_ok_def)
  then show "length r = child_count p" "x = Some (log_xattr d0 i) \<Longrightarrow> j < child_count p \<Longrightarrow> r ! j = pending_on p d0 i j"
    using assms(3,4) by (auto simp: build_row_def log_xattr_def pending_on_def split: option.splits)
qed

lemma unforced_sources:
  assumes w: "heal_wf p s" and "favorite_seen p s" "disk_ok p d0" "heal_stage p d0 7 {} s d0" "known p d0 s"
    and m: "length m = child_count p" "\<forall>i < child_count p. build_row (little_endian p) (child_count p) AFR_DATA_PENDING (sh_xattr s ! i) = Inr (m ! i)"
    and j: "j < child_count p"
  shows "afr_sh_supress_errenous_children
     (afr_sh_supress_empty_children (fst (snd (afr_sh_mark_sources m (child_count p)))) (sh_xattr s) (map buf_size (sh_buf s)) AFR_DATA_PENDING)
     (sh_errno s) ! j \<longleftrightarrow> eligible p s d0 j" (is "?sources ! j \<longleftrightarrow> _")
proof -
  let ?n = "child_count p"
  have len: "length (sh_xattr s) = ?n" "length (sh_buf s) = ?n" "length (sh_errno s) = ?n" using w by (simp_all add: heal_wf_def)
  have x: "sh_xattr s ! i = (if sh_up s ! i then Some (log_xattr d0 i) else None)" if "i < ?n" for i
    using assms(4) that by (simp add: heal_stage_def)
  have row: "length (m ! i) = ?n" "m ! i ! k = (if sh_up s ! i then pending_on p d0 i k else 0)" if "i < ?n" "k < ?n" for i k
  proof -
    note b = m(2)[rule_format, OF that(1)]
    show "length (m ! i) = ?n" using matrix_entries(1)[OF assms(3) that(1) b] x[OF that(1)] by simp
    have "m ! i = replicate ?n 0" if "\<not> sh_up s ! i" using b x[OF \<open>i < ?n\<close>] that by (simp add: build_row_def)
    then show "m ! i ! k = (if sh_up s ! i then pending_on p d0 i k else 0)"
      using matrix_entries(2)[OF assms(3) that(1) b] x[OF that(1)] that(2) by simp
  qed
  have "\<forall>r \<in> set m. length r = ?n" using row(1) j m(1) by (metis in_set_conv_nth)
  then have marked: "fst (snd (afr_sh_mark_sources m ?n)) = map (\<lambda>j. \<forall>i < ?n. i \<noteq> j \<longrightarrow> m ! i ! j = 0) [0..<?n]"
    using mark_sources_nth[OF m(1)] by blast
  have key: "has_key (sh_xattr s ! i) AFR_DATA_PENDING \<longleftrightarrow> sh_up s ! i \<and> d_logs d0 i \<noteq> None" if "i < ?n" for i
    using x[OF that] by (simp add: has_key_def log_xattr_def)
  then have keys: "(\<exists>y \<in> set (sh_xattr s). has_key y AFR_DATA_PENDING) \<longleftrightarrow> (\<exists>i < ?n. sh_up s ! i \<and> d_logs d0 i \<noteq> None)"
    using len(1) by (metis in_set_conv_nth)
  have size: "buf_size (sh_buf s ! j) = (if sh_up s ! j then length (d_files d0 j) else 0)"
    using x[OF j] j w assms(5) by (auto simp: known_def heal_wf_def)
  have "?sources ! j \<longleftrightarrow> sh_errno s ! j = 0 \<and> (\<forall>i < ?n. i \<noteq> j \<longrightarrow> m ! i ! j = 0) \<and>
      (if \<exists>y \<in> set (sh_xattr s). has_key y AFR_DATA_PENDING then has_key (sh_xattr s ! j) AFR_DATA_PENDING else buf_size (sh_buf s ! j) \<noteq> 0)"
    using j len marked
    by (simp add: afr_sh_supress_errenous_children_def afr_sh_supress_empty_children_def)
  then show ?thesis unfolding keys key[OF j] size eligible_def using row(2)[OF _ j] j by auto
qed

lemma no_source: "afr_sh_source_count sources = 0 \<longleftrightarrow> (\<forall>i < length sources. \<not> sources ! i)"
  by (auto simp: afr_sh_source_count_def filter_empty_conv all_set_conv_all_nth)

lemma first_sources_eligible:
  assumes w: "heal_wf p s" and "favorite_seen p s" "disk_ok p d0" "heal_stage p d0 7 {} s d0" "known p d0 s"
    and m: "length m = child_count p" "\<forall>i < child_count p. build_row (little_endian p) (child_count p) AFR_DATA_PENDING (sh_xattr s ! i) = Inr (m ! i)"
    and j: "j < child_count p"
  shows "first_sources p s m ! j \<longleftrightarrow> source_ok p s d0 j"
proof -
  define sources where "sources = afr_sh_supress_errenous_children
     (afr_sh_supress_empty_children (fst (snd (afr_sh_mark_sources m (child_count p)))) (sh_xattr s) (map buf_size (sh_buf s)) AFR_DATA_PENDING)
     (sh_errno s)"
  have el: "sources ! i \<longleftrightarrow> eligible p s d0 i" if "i < child_count p" for i
    unfolding sources_def by (rule unforced_sources[OF assms(1-7) that])
  have len: "length sources = child_count p"
    using w by (simp add: sources_def afr_sh_supress_errenous_children_def afr_sh_supress_empty_children_def afr_sh_mark_sources_def Let_def heal_wf_def)
  have none: "afr_sh_source_count sources = 0 \<longleftrightarrow> (\<forall>i < child_count p. \<not> eligible p s d0 i)" using el len by (auto simp: no_source)
  have up: "sh_up s ! f" if "favorite_child p = Some f" "sh_errno s ! f = 0" for f
    using assms(2,4) that by (force simp: favorite_seen_def heal_stage_def)
  show ?thesis
    unfolding first_sources_def sources_def[symmetric] source_ok_def
    using el[OF j] none len j up by (auto simp: pick_favorite_def nth_update_if split: option.split)
qed

lemma fixed_decided:
  assumes w: "heal_wf p s" and "favorite_seen p s" "disk_ok p d0" "heal_stage p d0 7 {} s d0" "known p d0 s"
    and m: "length m = child_count p" "\<forall>i < child_count p. build_row (little_endian p) (child_count p) AFR_DATA_PENDING (sh_xattr s ! i) = Inr (m ! i)"
    and k: "k < child_count p" "first_sources p s m ! k"
    and v: "sh_xattr v = sh_xattr s" "sh_up v = sh_up s" "sh_matrix v = clear_diagonal m" "sh_sources v = drop_different s k (first_sources p s m)"
      "length (sh_success v) = child_count p" "\<forall>j < child_count p. is_sink v j \<or> j = k \<longrightarrow> sh_success v ! j" "sh_errno v = sh_errno s" "sh_source v = k"
  shows "decided p d0 v"
proof -
  let ?n = "child_count p"
  have x: "sh_xattr s ! i = (if sh_up s ! i then Some (log_xattr d0 i) else None)" if "i < ?n" for i
    using assms(4) that by (simp add: heal_stage_def)
  have row: "length (m ! i) = ?n" "sh_up s ! i \<Longrightarrow> j < ?n \<Longrightarrow> m ! i ! j = pending_on p d0 i j" if "i < ?n" for i j
    using matrix_entries[OF assms(3) that m(2)[rule_format, OF that]] x[OF that] by auto
  have diag: "clear_diagonal m ! i = (m ! i)[i := 0]" if "i < ?n" for i
    using that m(1) by (simp add: clear_diagonal_def nth_enumerate_eq)
  note el = first_sources_eligible[OF assms(1-7)]
  have "eligible p v d0 i = eligible p s d0 i" for i by (simp add: eligible_def v)
  then have ev: "source_ok p v d0 i = source_ok p s d0 i" for i by (simp add: source_ok_def v)
  have size: "buf_size (sh_buf s ! i) = length (d_files d0 i)" if "i < ?n" "source_ok p s d0 i" for i
    using that x[OF that(1)] assms(5) by (auto simp: known_def eligible_def source_ok_def)
  have "is_sink v i \<longleftrightarrow> sh_up s ! i \<and> \<not> (source_ok p s d0 i \<and> length (d_files d0 i) = length (d_files d0 k))" if i: "i < ?n" for i
  proof -
    have "sh_sources v ! i \<longleftrightarrow> source_ok p s d0 i \<and> (i = k \<or> buf_size (sh_buf s ! i) = buf_size (sh_buf s ! k))"
      using i el[OF i] length_first_sources[OF w] by (auto simp: v(4) drop_different_def SIZE_DIFFERS_def eligible_def source_ok_def)
    then show ?thesis using size[OF i] size[OF k(1)] el[OF k(1)] k(2) by (auto simp: is_sink_def v(2))
  qed
  then have "chosen p d0 v" using k el[OF k(1)] by (simp add: chosen_def ev v)
  then show ?thesis using x row diag v by (auto simp: decided_def nth_list_update)
qed

lemma prepared_heal:
  assumes "sh_ready p s" "\<not> sh_fd s" "committed p (with_sinks p s) \<or> sinks p s = []" "decided p d0 (prepared p s)" "\<not> sh_failed s"
  shows "heal_now p d0 (afr_sh_data_sync_prepare p s) d0"
proof (cases "sinks p s = []")
  case True
  have "\<not> is_sink (prepared p s) j" if "j < child_count p" for j
    using True that by (auto simp: sinks_def filter_empty_conv is_sink_eq prepared_def)
  then have "clear_of p (prepared p s) d0 i" if "i < child_count p" "sh_up (prepared p s) ! i" for i
    using decided_clear[OF assms(4) that] that(1) by (auto simp: clear_of_def)
  moreover have "settled p d0 (prepared p s) d0" using \<open>\<And>j. j < child_count p \<Longrightarrow> \<not> is_sink (prepared p s) j\<close> by (simp add: settled_def)
  ultimately have "heal_stage p d0 2 {} (prepared p s) d0" using assms(4) by (simp add: heal_stage_def decided_def)
  then show ?thesis using True finish_heal[OF prepared_ready(1)[OF assms(1,2)]] by (simp add: sync_prepare_eq)
next
  case False
  note o = ready_opens[OF prepared_ready(2)[OF assms(1,2)] _ refl]
  have c: "committed p (with_sinks p s)" using False assms(3) by simp
  have "heal_stage p d0 6 (H_Open ` set (sh_source (with_sinks p s) # sinks p (with_sinks p s))) (prepared p s) d0"
    using assms(4,5) by (simp add: heal_stage_def prepared_def)
  then have "heal_now p d0 (afr_sh_data_open p (with_sinks p s)) d0"
    by (intro heal_sent[OF o(3)[OF c], of 6]) (simp, simp, erule heal_stage_cong, simp_all add: with_sinks_def)
  then show ?thesis using False by (simp add: sync_prepare_eq)
qed

lemma fix_heal:
  assumes "sh_ready p s" "\<not> sh_fd s" "favorite_seen p s" "disk_ok p d0" "stage_inv p d0 7 {} s d" "heal_stage p d0 7 {} s d"
    "afr_sh_data_fix p s = Inr t"
  shows "heal_now p d0 t d"
proof -
  have w: "heal_wf p s" using assms(1) by (simp add: sh_ready_def)
  have d: "d = d0" "\<not> sh_failed s" "known p d0 s" using assms(5,6) by (simp_all add: stage_inv_def heal_stage_def)
  obtain m where m: "afr_sh_build_pending_matrix (little_endian p) (child_count p) AFR_DATA_PENDING (sh_xattr s) = Inr m"
    "length m = child_count p" "\<forall>i < child_count p. build_row (little_endian p) (child_count p) AFR_DATA_PENDING (sh_xattr s ! i) = Inr (m ! i)"
    using heal_matrix[OF w] by blast
  note t = fix_eq[OF m(1), unfolded assms(7)]
  note el = first_sources_eligible[OF w assms(3,4) assms(6)[unfolded d(1)] d(3) m(2,3)]
  show ?thesis
  proof (cases "afr_sh_select_source (first_sources p s m)")
    case None
    let ?t = "(fixed p s m)\<lparr>sh_govinda := True\<rparr>"
    have "sh_ready p ?t" using assms(1,2) by (simp add: fixed_def sh_ready_def heal_wf_def ups_def)
    moreover have "\<not> first_sources p s m ! j" if "j < child_count p" for j
      using None that length_first_sources[OF w] select_source_None by (metis nth_mem)
    then have "\<not> source_ok p ?t d0 j" if "j < child_count p" for j
      using that el[OF that] by (auto simp: source_ok_def eligible_def fixed_def)
    ultimately show ?thesis using finish_heal[of p ?t d0 d] t None d by (simp add: heal_stage_def)
  next
    case (Some k)
    define q where "q = (fixed p s m)\<lparr>sh_source := k, sh_sources := drop_different s k (first_sources p s m)\<rparr>"
    have k: "k < child_count p" "first_sources p s m ! k" using select_source_Some[OF Some] length_first_sources[OF w] by auto
    have "True \<in> set (first_sources p s m)" using Some select_source_None[of "first_sources p s m"] by auto
    then have x: "\<exists>x \<in> set (sh_xattr q). x \<noteq> None" using source_has_xattr[OF w assms(3)] by (simp add: q_def fixed_def)
    have r: "sh_ready p q" "\<not> sh_fd q" "length (sh_matrix q) = child_count p"
      using assms(1,2) m(2) by (auto simp: q_def fixed_def sh_ready_def heal_wf_def ups_def clear_diagonal_def)
    have "sh_success (prepared p q) ! j" if "j < child_count p" "is_sink (prepared p q) j \<or> j = k" for j
      using that k(1) by (cases "j = sh_source q") (auto simp: prepared_def is_sink_eq q_def)
    then have "decided p d0 (prepared p q)"
      by (intro fixed_decided[OF w assms(3,4) assms(6)[unfolded d(1)] d(3) m(2,3) k]) (auto simp: prepared_def q_def fixed_def)
    then show ?thesis using prepared_heal[OF r(1,2)] prepared_ready(3)[OF r(1,2,3) x] t Some d
      by (auto simp: q_def fixed_def)
  qed
qed

section \<open>The result\<close>

lemma read_heal:
  assumes "dh_inv p s" "heal_now p d0 s d" "H_Read i n off \<in> set (sh_calls s)" "afr_sh_data_reply p (H_Read i n off) (Data (Some x)) s = Inr t"
  shows "heal_now p d0 t d"
proof -
  have one: "sh_calls s = [H_Read i n off]" by (rule only_read[OF assms(1,3)])
  have fd: "sh_fd s" by (rule fd_of_stage(1)[OF assms(1,3)]) simp
  note ready = after_read_ready[OF assms(1) fd one]
  have "heal_stage p d0 5 {} s d" using assms(2) one by (simp add: heal_stage_def)
  then have h: "heal_stage p d0 5 {} (after_read s k) d" for k by (rule heal_stage_cong) (simp_all add: after_read_def)
  then have w: "heal_stage p d0 5 cs (after_read s k) d" for cs k by (simp add: heal_stage_def)
  have "sinks p s \<noteq> []" using assms(1) fd by (simp add: dh_inv_def committed_def)
  then have "heal_now p d0 ((after_read s k)\<lparr>sh_count := m, sh_calls := map (\<lambda>i. H_Write i x (sh_offset s)) (sinks p s)\<rparr>) d" for k m
    by (intro heal_sent[OF refl _ _ w]) simp_all
  then show ?thesis using assms(4) trim_heal[OF ready(1,2) h] iter_heal[OF ready(1,2) h]
    unfolding read_reply_eq[OF assms(1,3)] by (auto simp: Let_def split: if_splits)
qed

lemma lookup_heal:
  assumes "favorite_inv p s" "disk_ok p d0" "dh_inv p s" "copy_inv p d0 s d" "heal_now p d0 s d" "H_Lookup i \<in> set (sh_calls s)"
    "faithful p (H_Lookup i) True k d" "serve e True k (H_Lookup i) d = (Found r, d')" "afr_sh_data_reply p (H_Lookup i) (Found r) s = Inr t"
    "answer_ok p (H_Lookup i) (Found r)"
  shows "heal_now p d0 t d'"
proof -
  let ?u = "lookup_noted s i r" and ?cs = "set (sh_calls s)"
  have fd: "\<not> sh_fd s" by (rule fd_of_stage(2)[OF assms(3,6)]) simp
  note h = heal_count[OF assms(3,6) _ lookup_noted_def lookup_noted_wf[OF assms(3,10)], simplified]
  have result: "stage_holds (result_stage p d0) s d" using assms(4,5) result_holds by blast
  then have inv: "heal_stage p d0 7 ?cs s d" "d = d0" "i < child_count p"
    using result_stages.at_stage(1)[OF assms(3) result assms(6)] assms(6) by (auto simp: result_stage_def stage_inv_def)
  have d': "d' = d0" "r = Some (\<lparr>buf_size = length (d_files d0 i), buf_blocks = k\<rparr>, Some (log_xattr d0 i))"
    using assms(8) inv(2) by auto
  have len: "length (sh_xattr s) = child_count p" using assms(3) by (simp add: dh_inv_def heal_wf_def)
  have cs: "set (sh_calls ?u) = ?cs - {H_Lookup i}" using assms(4) by (simp add: lookup_noted_def stage_holds_def distinct_map)
  have h7: "heal_stage p d0 7 (set (sh_calls ?u)) ?u d'"
    using inv assms(6) len unfolding cs by (auto simp: heal_stage_def lookup_noted_def d'(2) nth_list_update)
  have eq: "(if sh_count ?u = 0 then afr_sh_data_fix p ?u else Inr ?u) = Inr t" using assms(9) lookup_reply_eq by simp
  show ?thesis
  proof (cases "sh_calls ?u = []")
    case True
    have "stage_inv p d0 7 {} ?u d'" using lookup_noted_stage[OF assms(3,4,6-8)] by simp
    then show ?thesis using fix_heal[of p ?u d0 d' t] noted_seen[OF assms(1,3,6,10)] True h h7 fd assms(2) eq by (auto simp: lookup_noted_def)
  next
    case False
    then have "t = ?u" using eq h fd by simp
    moreover have "stage (hd (sh_calls ?u)) = 7" using False not_read(1)[OF assms(3,6)] cs by (metis DiffD1 hd_in_set is_read.simps(3) stage.simps(2))
    ultimately show ?thesis using h7 False by (cases "sh_calls ?u") auto
  qed
qed

definition result_start :: "afr_private \<Rightarrow> disk \<Rightarrow> self_heal \<times> disk \<Rightarrow> bool" where
  "result_start p d0 w \<longleftrightarrow> favorite_up p (fst w) \<and> data_self_heal p \<and> disk_ok p d0
     \<and> (\<exists>s0. heal_fresh p s0 \<and> \<not> sh_failed s0 \<and> w = (afr_self_heal_data p True s0, d0))"

definition result_ok :: "afr_private \<Rightarrow> disk \<Rightarrow> self_heal \<times> disk \<Rightarrow> bool" where
  "result_ok p d0 w \<longleftrightarrow> copy_ok p d0 w \<and> heal_now p d0 (fst w) (snd w)"

lemma result_start_ok:
  assumes "result_start p d0 w"
  shows "result_ok p d0 w"
proof -
  obtain s0 where s: "heal_fresh p s0" "\<not> sh_failed s0" "w = (afr_sh_data_lock p s0, d0)" "favorite_up p (fst w)" "disk_ok p d0" "data_self_heal p"
    using assms by (auto simp: result_start_def afr_self_heal_data_def)
  then have "heal_data_start p (afr_sh_data_lock p s0)"
    unfolding heal_data_start_def afr_self_heal_data_def by (intro exI[of _ s0] exI[of _ True]) simp
  then have "copy_start p d0 w" using s by (simp add: copy_start_def)
  moreover have "heal_stage p d0 8 (H_Lock ` set (ups p s0)) s0 d0" using s(1,2) by (auto simp: heal_stage_def heal_fresh_def)
  then have "heal_now p d0 (afr_sh_data_lock p s0) d0"
    using heal_sent[OF ready_sends_up(3) ready_sends_up(4), of p s0 8] fresh_ready[OF s(1)] by simp
  ultimately show ?thesis using copy_start_ok s(3) by (simp add: result_ok_def)
qed

lemma result_step_ok:
  assumes "result_ok p d0 w" "heal_copy_step p (flawless p) w w'"
  shows "result_ok p d0 w'"
  using assms(2)
proof cases
  case (1 c s ok k d r d' s')
  then have ok: "ok" "faithful p c True k d" by (auto simp: flawless_def)
  have i: "favorite_inv p s" "disk_ok p d0" "dh_inv p s" "copy_inv p d0 s d" "heal_now p d0 s d"
    using assms(1) 1 by (auto simp: result_ok_def copy_ok_def)
  have a: "answer_ok p c r" using served_ok[OF i(4,3,2) 1(3,5)] ok by simp
  have "heal_copy_step p (faithful p) w w'" using 1 ok by (auto intro: heal_copy_step.intros)
  then have c: "copy_ok p d0 w'" using copy_step_ok assms(1) unfolding result_ok_def by blast
  have "heal_now p d0 s' d'"
  proof (cases r)
    case (Status ret)
    have nr: "\<not> is_read c" using a Status by (cases c) (auto simp: answer_ok_def)
    have res: "stage_holds (result_stage p d0) s d" using i(4,5) result_holds by blast
    let ?u = "heal_noted s c (stage c \<in> {5, 6, 8} \<and> ret = - 1 \<or> sh_failed s)"
    note at = result_stages.at_stage[OF i(3) res 1(3)]
    have "result_stage p d0 (stage c) (set (sh_calls s) - {c}) ?u d'"
      unfolding result_stage_def
    proof
      show "stage_inv p d0 (stage c) (set (sh_calls s) - {c}) ?u d'"
        using status_served[OF _ 1(3) at(2) _ _ ok(2) refl refl] at(1) not_read(1)[OF i(3) 1(3) nr] 1(5) Status ok(1) by (simp add: result_stage_def)
      show "heal_stage p d0 (stage c) (set (sh_calls s) - {c}) ?u d'"
        by (rule result_served[OF _ i(2) 1(3) at(2) _ refl, where m = k and d = d]) (use at(1) 1(5) Status ok(1) in \<open>auto simp: result_stage_def\<close>)
    qed
    then have "stage_holds (result_stage p d0) (if sh_count ?u = 0 then sh_resume p c ?u else ?u) d'"
      using result_stages.counted[OF i(3) res 1(3) nr refl] resume_heal[OF i(3) 1(3)] resume_copy[OF i(3) 1(3)] a Status
      unfolding result_holds result_stage_def by blast
    then show ?thesis using status_reply_eq[of p c ret ?u s] a Status 1(6) result_holds by auto
  next
    case (Found x)
    then obtain j where "c = H_Lookup j" using a by (cases c) (auto simp: answer_ok_def)
    moreover have "serve (little_endian p) True k c d = (r, d')" using 1(5) ok(1) by simp
    ultimately show ?thesis using lookup_heal[OF i] Found a 1(3,6) ok(2) by blast
  next
    case (Data x)
    then obtain j n off where c: "c = H_Read j n off" using a by (cases c) (auto simp: answer_ok_def)
    then obtain y where "x = Some y" "d' = d" using 1 Data ok by auto
    then show ?thesis using read_heal[OF i(3,5)] c Data 1 by blast
  qed
  then show ?thesis using c 1 by (simp add: result_ok_def)
qed

interpretation data_result: step_system "result_start p d0" "heal_copy_step p (flawless p)" "result_ok p d0" for p d0
  by unfold_locales (auto intro: result_start_ok result_step_ok)

lemma heal_keeps: "(heal_copy_step p may)\<^sup>*\<^sup>* w w' \<Longrightarrow> sh_up (fst w') = sh_up (fst w) \<and> sh_errno (fst w') = sh_errno (fst w)"
proof (induction rule: rtranclp_induct)
  case (step y z)
  then show ?case by (auto elim!: heal_copy_step.cases dest!: reply_keeps)
qed simp

lemma heal_outcome:
  assumes "favorite_up p s0" "data_self_heal p" "disk_ok p d0" "heal_fresh p s0" "\<not> sh_failed s0"
    "(heal_copy_step p (flawless p))\<^sup>*\<^sup>* (afr_self_heal_data p True s0, d0) (s, d)" "sh_completed s = 1"
  shows "sh_govinda s \<and> d = d0 \<and> (\<forall>i < child_count p. \<not> source_ok p s d0 i) \<or>
    chosen p d0 s \<and> (\<forall>i < child_count p. d_files d i = (if is_sink s i then d_files d0 (sh_source s) else d_files d0 i)) \<and>
    (\<forall>i < child_count p. \<forall>j < child_count p. sh_up s ! i \<longrightarrow> sh_up s ! j \<longrightarrow> i \<noteq> j \<longrightarrow> pending_on p d i j = 0)"
proof -
  have "favorite_up p (afr_self_heal_data p True s0)"
    using assms(1) by (simp add: favorite_up_def afr_self_heal_data_def afr_sh_data_lock_def afr_sh_data_done_def Let_def)
  then have "result_start p d0 (afr_self_heal_data p True s0, d0)" using assms(2-5) by (auto simp: result_start_def)
  then have ok: "result_ok p d0 (s, d)" using data_result.inv_reach assms(6) by blast
  then have "sh_calls s = []" using assms(7) by (auto simp: result_ok_def copy_ok_def dh_inv_def split: if_splits)
  then have "stage_inv p d0 0 {} s d" "heal_stage p d0 0 {} s d" using ok by (auto simp: result_ok_def copy_ok_def stage_holds_def)
  then show ?thesis by (auto simp: stage_inv_def heal_stage_def kept_def settled_def clear_of_def)
qed


definition final_answers :: "(sh_call \<times> bool \<times> nat) list" where
  "final_answers = [(H_Erase 1 [0, 0], True, 0), (H_Unlock 0, True, 0), (H_Unlock 1, True, 0), (H_Flush 1, True, 0), (H_Flush 0, True, 0)]"

lemma healed_run:
  "\<exists>s d. heal_copy_run pair (flawless pair) (heal_answers @ final_answers) (afr_self_heal_data pair True idle_heal, behind) = Some (s, d)
     \<and> sh_completed s = 1 \<and> \<not> sh_govinda s \<and> is_sink s 1 \<and> sh_source s = 0 \<and> sh_up s = [True, True]"
  by (simp add: heal_answers_def final_answers_def behind_def flawless_def faithful_def heal_eval)


section \<open>What goes wrong\<close>

definition one_fails :: "nat \<Rightarrow> outcome" where
  "one_fails n c ok k d \<longleftrightarrow> ok \<or> stage c = n"

text \<open>With a favorite child the self-heal of contents can stop without an end. When no lookup succeeds, the favorite
  child is still taken as the source, with the size zero: the sink is emptied, and as there is no changelog to
  erase nothing is sent. No call is outstanding then, the completion is not called, and the locks are held.\<close>

theorem data_heal_hangs:
  "map_option (\<lambda>(s, d). (sh_calls s, sh_completed s, d_files d 1)) (heal_copy_run (pair\<lparr>favorite_child := Some 0\<rparr>) (one_fails 7)
     [(H_Lock 0, True, 0), (H_Lock 1, True, 0), (H_Lookup 0, False, 0), (H_Lookup 1, False, 0), (H_Open 0, True, 0), (H_Open 1, True, 0),
      (H_Read 0 65536 0, True, 9), (H_Write 1 [1, 2, 3] 0, True, 3), (H_Trim 1 0, True, 0)]
     (afr_self_heal_data (pair\<lparr>favorite_child := Some 0\<rparr>) True idle_heal, behind)) = Some ([], 0, [])"
  by (simp add: behind_def one_fails_def heal_eval)

end
