(* ===== verification/Afr_Write_Heal.thy ===== *)
theory Afr_Write_Heal
  imports Afr_Sources Afr_Heal_Result
begin

text \<open>
  A transaction and the self-heal after it: the changelogs that the one leaves are what the other reads.
\<close>

section \<open>The children to heal from\<close>

lemma survivors_eligible:
  assumes "ledger p x0 up {} h" "all_clean p x0" "length up = child_count p" "\<exists>i < child_count p. up ! i" "\<forall>i < child_count p. up ! i \<longrightarrow> posted h i"
    "\<forall>i < child_count p. d_logs d i = stored (little_endian p) x0 h i" "sh_up s = replicate (child_count p) True" "sh_errno s = replicate (child_count p) 0"
    "j < child_count p"
  shows "eligible p s d j \<longleftrightarrow> up ! j"
proof -
  let ?n = "child_count p"
  have logs: "d_logs d i = (if up ! i then Some (left_over p up) else x0 i)" if "i < ?n" for i
    using assms(1,5,6) that by (simp add: ledger_def)
  have pend: "pending_on p d i j = (if up ! i \<and> \<not> up ! j then 1 else 0)" if i: "i < ?n" for i
  proof (cases "up ! i")
    case True
    then show ?thesis using logs[OF i] assms(3,9) by (simp add: pending_on_def left_over_def)
  next
    case False
    have "x0 i = None \<or> x0 i = Some (replicate ?n 0)" using assms(2) i by (auto simp: all_clean_def clean_def)
    then show ?thesis using logs[OF i] False assms(9) by (auto simp: pending_on_def)
  qed
  have "\<exists>i < ?n. sh_up s ! i \<and> d_logs d i \<noteq> None" using assms(4,7) logs by auto
  moreover have "sh_up s ! i" "sh_errno s ! i = 0" if "i < ?n" for i using that assms(7,8) by simp_all
  ultimately show ?thesis using assms(4,9) pend logs[OF assms(9)] by (auto simp: eligible_def)
qed

lemma logs_fit:
  assumes "ledger p x0 up {} h" "all_clean p x0" "length up = child_count p" "\<forall>i < child_count p. d_logs d i = stored (little_endian p) x0 h i"
  shows "disk_ok p d"
  unfolding disk_ok_def
proof (intro allI impI)
  fix i assume i: "i < child_count p"
  have "x0 i = None \<or> x0 i = Some (replicate (child_count p) 0)" using assms(2) i by (auto simp: all_clean_def clean_def)
  then show "case d_logs d i of None \<Rightarrow> True | Some a \<Rightarrow> length a = child_count p"
    using assms(1,3,4) i by (auto simp: ledger_def left_over_def mark_all_pending_def)
qed

text \<open>C2. A change of contents that some children miss is repaired by the next self-heal. Take a logged operation on the
  contents of a file that is no write, a truncation, on a file whose changelogs were clean; at its end let at least
  one child be up, let the children that are still up have taken the announcement back, and let them have the
  contents \<open>F\<close>. When all children are up again, without an error, and every call of the self-heal succeeds on files
  that are not sparse, then at its end every child has the contents \<open>F\<close>, and no changelog has an entry for another
  child. A favorite child, if the configuration has one, is one of the children.\<close>

theorem change_then_heal:
  assumes "logged p f" "tx_key f = AFR_DATA_PENDING" "all_clean p x0" "afr_start p f w" "(afr_step p f)\<^sup>*\<^sup>* w (t, h)" "calls t = []" "\<not> quiet h"
    and "\<exists>i < child_count p. child_up t ! i" "\<forall>i < child_count p. child_up t ! i \<longrightarrow> posted h i"
    and "\<forall>i < child_count p. d_logs d0 i = stored (little_endian p) x0 h i" "\<forall>i < child_count p. child_up t ! i \<longrightarrow> d_files d0 i = F"
    and "favorite_up p s0" "data_self_heal p" "heal_fresh p s0" "\<not> sh_failed s0"
      "sh_up s0 = replicate (child_count p) True" "sh_errno s0 = replicate (child_count p) 0"
    and "(heal_copy_step p (flawless p))\<^sup>*\<^sup>* (afr_self_heal_data p True s0, d0) (s, d)" "sh_completed s = 1"
  shows "\<forall>i < child_count p. d_files d i = F \<and> (\<forall>j < child_count p. i \<noteq> j \<longrightarrow> pending_on p d i j = 0)"
proof -
  note led = ledger_after[OF assms(1,3-7)]
  have "sh_up (afr_self_heal_data p True s0) = sh_up s0 \<and> sh_errno (afr_self_heal_data p True s0) = sh_errno s0"
    by (simp add: afr_self_heal_data_def afr_sh_data_lock_def afr_sh_data_done_def Let_def)
  then have up: "sh_up s = replicate (child_count p) True" "sh_errno s = replicate (child_count p) 0"
    using heal_keeps[OF assms(18)] assms(16,17) by simp_all
  note el = survivors_eligible[OF led(1) assms(3) led(2) assms(8-10) up]
  have src: "source_ok p s d0 i \<longleftrightarrow> child_up t ! i" if "i < child_count p" for i
    using el[OF that] el assms(8) by (auto simp: source_ok_def)
  have "chosen p d0 s" "\<forall>i < child_count p. d_files d i = (if is_sink s i then d_files d0 (sh_source s) else d_files d0 i)"
    "\<forall>i < child_count p. \<forall>j < child_count p. i \<noteq> j \<longrightarrow> pending_on p d i j = 0"
    using heal_outcome[OF assms(12,13) logs_fit[OF led(1) assms(3) led(2) assms(10)] assms(14,15,18,19)] assms(8) src up by auto
  moreover from this(1) have "d_files d0 (sh_source s) = F" using src assms(11) by (auto simp: chosen_def)
  moreover from this have "is_sink s i \<longleftrightarrow> \<not> child_up t ! i" if "i < child_count p" for i
    using \<open>chosen p d0 s\<close> that src[OF that] up assms(11) by (auto simp: chosen_def)
  ultimately show ?thesis using assms(11) by auto
qed

section \<open>A run\<close>

text \<open>A truncation of which child 0 is not told, because it goes down before.\<close>

definition truncate_fop :: afr_fop where
  "truncate_fop = fop_of AFR_DATA_TRANSACTION Other_fop AFR_DATA_PENDING False Truncate"

lemma truncate_logged: "logged pair truncate_fop" "all_clean pair (\<lambda>_. None)" "tx_key truncate_fop = AFR_DATA_PENDING"
  by (simp_all add: logged_def all_clean_def clean_def pair_def truncate_fop_def fop_of_def changelog_enabled_def)

definition ahead :: disk where
  "ahead = \<lparr>d_files = (\<lambda>i. if i = 0 then [9, 9, 9, 9, 9] else [1, 2, 3]), d_logs = (\<lambda>i. if i = 0 then None else Some [hton32 True 1, 0])\<rparr>"

lemma truncate_run:
  "map_option (\<lambda>(t, h). (calls t, child_up t, quiet h, posted h 1, stored True (\<lambda>_. None) h 0, stored True (\<lambda>_. None) h 1))
     (afr_run pair truncate_fop replies_ok (started pair truncate_fop)) = Some ([], [False, True], False, True, None, Some [hton32 True 1, 0])"
  by code_simp

lemma truncated_healed:
  "\<exists>s d. heal_copy_run pair (flawless pair)
     [(H_Lock 0, True, 0), (H_Lock 1, True, 0), (H_Lookup 1, True, 8), (H_Lookup 0, True, 8), (H_Open 0, True, 0), (H_Open 1, True, 0),
      (H_Read 1 65536 0, True, 9), (H_Write 0 [1, 2, 3] 0, True, 3), (H_Trim 0 3, True, 0), (H_Erase 0 [0, 0], True, 0),
      (H_Erase 1 [hton32 True (- 1), 0], True, 0), (H_Unlock 0, True, 0), (H_Unlock 1, True, 0), (H_Flush 1, True, 0), (H_Flush 0, True, 0)]
     (afr_self_heal_data pair True idle_heal, ahead) = Some (s, d) \<and> sh_completed s = 1"
  by (simp add: ahead_def flawless_def faithful_def heal_eval numeral_2_eq_2)

theorem change_then_heal_witness:
  "\<exists>s d. (heal_copy_step pair (flawless pair))\<^sup>*\<^sup>* (afr_self_heal_data pair True idle_heal, ahead) (s, d) \<and> d_files d 0 = [1, 2, 3] \<and> pending_on pair d 1 0 = 0"
proof -
  obtain t h where t: "afr_run pair truncate_fop replies_ok (started pair truncate_fop) = Some (t, h)" "calls t = []" "\<not> quiet h"
    "child_up t = [False, True]" "posted h 1" "stored True (\<lambda>_. None) h 0 = None" "stored True (\<lambda>_. None) h 1 = Some [hton32 True 1, 0]"
    using truncate_run by auto
  obtain s d where run: "(heal_copy_step pair (flawless pair))\<^sup>*\<^sup>* (afr_self_heal_data pair True idle_heal, ahead) (s, d)" "sh_completed s = 1"
    using truncated_healed heal_copy_run_steps by blast
  have p: "child_count pair = 2" "favorite_up pair idle_heal" "data_self_heal pair" "little_endian pair" "\<not> sh_failed idle_heal"
    "sh_up idle_heal = replicate (child_count pair) True" "sh_errno idle_heal = replicate (child_count pair) 0"
    by (simp_all add: pair_def idle_heal_def favorite_up_def numeral_2_eq_2)
  have up: "\<exists>i < child_count pair. child_up t ! i" "\<forall>i < child_count pair. child_up t ! i \<longrightarrow> posted h i"
    "\<forall>i < child_count pair. d_logs ahead i = stored (little_endian pair) (\<lambda>_. None) h i" "\<forall>i < child_count pair. child_up t ! i \<longrightarrow> d_files ahead i = [1, 2, 3]"
    using t(4-7) p(1,4) by (auto simp: less_2_cases_iff ahead_def)
  have "afr_start pair truncate_fop (started pair truncate_fop)" by (rule started_ok) (simp add: pair_def)
  then have "\<forall>i < 2. d_files d i = [1, 2, 3] \<and> (\<forall>j < 2. i \<noteq> j \<longrightarrow> pending_on pair d i j = 0)"
    using change_then_heal[OF truncate_logged(1,3,2) _ afr_run_reaches[OF t(1)] t(2,3) up p(2,3) idle_fresh p(5-7) run] p(1) by simp
  then have "d_files d 0 = [1, 2, 3]" "pending_on pair d 1 0 = 0" by (simp_all add: less_2_cases_iff)
  then show ?thesis using run(1) by blast
qed

end
