(* ===== verification/Socket.thy ===== *)
theory Socket
  imports Byte_Order
begin

text \<open>
  Messages on a stream socket, \<^verbatim>\<open>transport/socket/src/socket.c\<close>: the queue of messages that wait to be written, and
  the state machine that reads them on the other side. A system call moves any number of bytes that there are,
  is interrupted, would block, or fails: what the kernel does is an argument, a list of results, one for each call.
  At the end of the list the calls would block.
\<close>

section \<open>Vectors\<close>

text \<open>
  A part of a buffer. For writes the buffer is given by its bytes, which do not change while they wait, for
  reads by its name.
\<close>

record 'b iovec =
  iov_buf :: 'b
  iov_base :: nat
  iov_len :: nat

definition iov_total :: "'b iovec list \<Rightarrow> nat" where
  "iov_total v = sum_list (map iov_len v)"

text \<open>The loop that moves the vector past the bytes of one call.\<close>

function (sequential) advance :: "nat \<Rightarrow> 'b iovec list \<Rightarrow> 'b iovec list" where
  "advance moved [] = []"
| "advance moved (x # xs) =
     (if moved = 0 then x # xs
      else if iov_len x \<le> moved then advance (moved - iov_len x) (dropWhile (\<lambda>y. iov_len y = 0) xs)
      else x\<lparr>iov_len := iov_len x - moved, iov_base := iov_base x + moved\<rparr> # xs)"
  by pat_completeness auto
termination
  by (relation "measure (\<lambda>(moved, v). length v)") (auto simp: le_imp_less_Suc length_dropWhile_le)

datatype sysret = Moved nat | Fail int

text \<open>
  \<^verbatim>\<open>__socket_rwv\<close>: the vector and the count that are left, \<open>- 1\<close> after an error. A call with a negative count fails.
\<close>

fun socket_rwv :: "bool \<Rightarrow> (sysret \<Rightarrow> 'b iovec list \<Rightarrow> 'w \<Rightarrow> sysret \<times> 'w) \<Rightarrow> sysret list \<Rightarrow> 'b iovec list \<Rightarrow> int \<Rightarrow> 'w
    \<Rightarrow> 'b iovec list \<times> int \<times> 'w \<times> sysret list" where
  "socket_rwv wr sys [] opvector opcount w = (opvector, if opcount < 0 then - 1 else opcount, w, [])"
| "socket_rwv wr sys (r # rs) opvector opcount w =
     (if opcount = 0 then (opvector, 0, w, r # rs)
      else if opcount < 0 then (opvector, - 1, w, rs)
      else case sys r opvector w of
             (Fail err, w) \<Rightarrow>
               if err = EAGAIN then (opvector, opcount, w, rs)
               else if err = EINTR then socket_rwv wr sys rs opvector opcount w
               else (opvector, - 1, w, rs)
           | (Moved ret, w) \<Rightarrow>
               if ret = 0 then (opvector, if wr then opcount else - 1, w, rs)
               else let opvector = advance ret opvector
                    in socket_rwv wr sys rs opvector (int (length opvector)) w)"

text \<open>The system calls. A read from an empty buffer would block; \<open>Moved 0\<close> is the end of the stream.\<close>

definition gather :: "bytes iovec list \<Rightarrow> bytes" where
  "gather v = concat (map (\<lambda>x. take (iov_len x) (drop (iov_base x) (iov_buf x))) v)"

definition sys_writev :: "sysret \<Rightarrow> bytes iovec list \<Rightarrow> bytes \<Rightarrow> sysret \<times> bytes" where
  "sys_writev r v wire =
     (case r of Fail e \<Rightarrow> (Fail e, wire) | Moved k \<Rightarrow> (Moved (min k (iov_total v)), wire @ take k (gather v)))"

section \<open>Sending\<close>

record ioq =
  ioq_pending_vector :: "bytes iovec list"
  ioq_pending_count :: int

definition whole :: "'b \<Rightarrow> nat \<Rightarrow> 'b iovec" where
  "whole b n = \<lparr>iov_buf = b, iov_base = 0, iov_len = n\<rparr>"

definition MAX_IOVEC :: nat where
  "MAX_IOVEC = 16"

definition header_bytes :: "bool \<Rightarrow> nat \<Rightarrow> nat \<Rightarrow> bytes" where
  "header_bytes e size1 size2 = [58, 79, 0] @ store32 e (hton32 e (of_nat size1)) @ store32 e (hton32 e (of_nat size2)) @ [42]"

definition socket_ioq_new :: "bool \<Rightarrow> bytes \<Rightarrow> bytes list \<Rightarrow> fault + ioq" where
  "socket_ioq_new e buf vector =
     (if MAX_IOVEC - 2 < length vector then Inl Assert_Failed
      else let header = header_bytes e (length buf) (sum_list (map length vector));
               v = whole header (length header) # whole buf (length buf) # map (\<lambda>b. whole b (length b)) vector
           in Inr \<lparr>ioq_pending_vector = v, ioq_pending_count = int (length v)\<rparr>)"

definition socket_ioq_churn_entry :: "sysret list \<Rightarrow> ioq \<Rightarrow> bytes \<Rightarrow> int \<times> ioq \<times> bytes \<times> sysret list" where
  "socket_ioq_churn_entry rs entry wire =
     (let (v, n, wire, rs) = socket_rwv True sys_writev rs (ioq_pending_vector entry) (ioq_pending_count entry) wire
      in (n, entry\<lparr>ioq_pending_vector := v, ioq_pending_count := n\<rparr>, wire, rs))"

text \<open>An entry that was written completely is freed; the result is \<^verbatim>\<open>ret\<close>, the queue that is left and the wire. That an
  empty queue ends the interest in \<^verbatim>\<open>POLLOUT\<close> is in \<open>socket_event_poll_out\<close>, the only caller.\<close>

fun socket_ioq_churn :: "sysret list \<Rightarrow> ioq list \<Rightarrow> bytes \<Rightarrow> int \<times> ioq list \<times> bytes" where
  "socket_ioq_churn rs [] wire = (0, [], wire)"
| "socket_ioq_churn rs (entry # q) wire =
     (let (ret, entry, wire, rs) = socket_ioq_churn_entry rs entry wire
      in if ret \<noteq> 0 then (ret, entry # q, wire) else socket_ioq_churn rs q wire)"

section \<open>Receiving\<close>

datatype socket_proto_state = SOCKET_PROTO_STATE_NADA | SOCKET_PROTO_STATE_HEADER_COMING | SOCKET_PROTO_STATE_HEADER_CAME
  | SOCKET_PROTO_STATE_DATA_COMING | SOCKET_PROTO_STATE_DATA_CAME | SOCKET_PROTO_STATE_COMPLETE

datatype target = T_header | T_hdr | T_buf

record incoming =
  in_state :: socket_proto_state
  in_mem :: "target \<Rightarrow> bytes"
  in_hdrlen :: nat
  in_buflen :: nat
  in_pending :: "target iovec list"
  in_pending_count :: int

definition splice :: "bytes \<Rightarrow> nat \<Rightarrow> bytes \<Rightarrow> bytes" where
  "splice b off d = take off b @ d @ drop (off + length d) b"

fun scatter :: "target iovec list \<Rightarrow> bytes \<Rightarrow> (target \<Rightarrow> bytes) \<Rightarrow> target \<Rightarrow> bytes" where
  "scatter [] d m = m"
| "scatter (x # xs) d m =
     scatter xs (drop (iov_len x) d) (m(iov_buf x := splice (m (iov_buf x)) (iov_base x) (take (iov_len x) d)))"

definition sys_readv :: "sysret \<Rightarrow> target iovec list \<Rightarrow> (target \<Rightarrow> bytes) \<times> bytes \<Rightarrow> sysret \<times> (target \<Rightarrow> bytes) \<times> bytes" where
  "sys_readv r v w =
     (case r of
        Fail e \<Rightarrow> (Fail e, w)
      | Moved k \<Rightarrow>
          if k = 0 then (Moved 0, w)
          else let (m, rx) = w; n = min k (min (iov_total v) (length rx))
               in if n = 0 then (Fail EAGAIN, w) else (Moved n, scatter v (take n rx) m, drop n rx))"

definition socket_proto_validate_header :: "bool \<Rightarrow> bytes \<Rightarrow> (nat \<times> nat) option" where
  "socket_proto_validate_header e header =
     (if take 3 header \<noteq> [58, 79, 0] then None
      else if header ! 11 \<noteq> 42 then None
      else let size1 = unat (hton32 e (load32 e (take 4 (drop 3 header))));
               size2 = unat (hton32 e (load32 e (take 4 (drop 7 header))))
           in if size1 = 0 \<or> 1048576 < size1 then None
              else if 1048576 * 4 < size2 then None
              else Some (size1, size2))"

fun progress :: "socket_proto_state \<Rightarrow> nat" where
  "progress SOCKET_PROTO_STATE_NADA = 0"
| "progress SOCKET_PROTO_STATE_HEADER_COMING = 1"
| "progress SOCKET_PROTO_STATE_HEADER_CAME = 2"
| "progress SOCKET_PROTO_STATE_DATA_COMING = 3"
| "progress SOCKET_PROTO_STATE_DATA_CAME = 4"
| "progress SOCKET_PROTO_STATE_COMPLETE = 5"

text \<open>
  The loop, with the variables \<^verbatim>\<open>previous_state\<close> and \<^verbatim>\<open>ret\<close>. \<^verbatim>\<open>MALLOC\<close> always succeeds and its memory
  is given as zeros. The vector has one entry where it is not given a second, empty one.
\<close>

function socket_proto_loop :: "bool \<Rightarrow> sysret list \<Rightarrow> socket_proto_state option \<Rightarrow> int \<Rightarrow> incoming \<Rightarrow> bytes \<Rightarrow> int \<times> incoming \<times> bytes" where
  "socket_proto_loop e rs previous ret inc rx =
     (if in_state inc = SOCKET_PROTO_STATE_COMPLETE then (ret, inc, rx)
      else if previous = Some (in_state inc) then (- 1, inc, rx)
      else let previous = Some (in_state inc)
           in case in_state inc of
                SOCKET_PROTO_STATE_NADA \<Rightarrow>
                  socket_proto_loop e rs previous ret
                    (inc\<lparr>in_pending := [whole T_header 12], in_state := SOCKET_PROTO_STATE_HEADER_COMING\<rparr>) rx
              | SOCKET_PROTO_STATE_HEADER_COMING \<Rightarrow>
                  let (v, ret, (m, rx), rs) = socket_rwv False sys_readv rs (in_pending inc) 1 (in_mem inc, rx);
                      inc = inc\<lparr>in_mem := m, in_pending := v\<rparr>
                  in if ret = 0 then socket_proto_loop e rs previous ret (inc\<lparr>in_state := SOCKET_PROTO_STATE_HEADER_CAME\<rparr>) rx
                     else (ret, inc, rx)
              | SOCKET_PROTO_STATE_HEADER_CAME \<Rightarrow>
                  (case socket_proto_validate_header e (in_mem inc T_header) of
                     None \<Rightarrow> (- 1, inc, rx)
                   | Some (size1, size2) \<Rightarrow>
                       socket_proto_loop e rs previous 0
                         (inc\<lparr>in_hdrlen := size1, in_buflen := size2,
                             in_mem := (in_mem inc)(T_hdr := replicate size1 0, T_buf := replicate size2 0),
                             in_pending := whole T_hdr size1 # (if size2 = 0 then [] else [whole T_buf size2]),
                             in_pending_count := (if size2 = 0 then 1 else 2),
                             in_state := SOCKET_PROTO_STATE_DATA_COMING\<rparr>) rx)
              | SOCKET_PROTO_STATE_DATA_COMING \<Rightarrow>
                  let (v, ret, (m, rx), rs) = socket_rwv False sys_readv rs (in_pending inc) (in_pending_count inc) (in_mem inc, rx);
                      inc = inc\<lparr>in_mem := m, in_pending := v, in_pending_count := ret\<rparr>
                  in if ret = 0 then socket_proto_loop e rs previous ret (inc\<lparr>in_state := SOCKET_PROTO_STATE_DATA_CAME\<rparr>) rx
                     else (ret, inc, rx)
              | SOCKET_PROTO_STATE_DATA_CAME \<Rightarrow>
                  socket_proto_loop e rs previous ret (inc\<lparr>in_pending := [], in_pending_count := 0, in_state := SOCKET_PROTO_STATE_COMPLETE\<rparr>) rx
              | SOCKET_PROTO_STATE_COMPLETE \<Rightarrow> (ret, inc, rx))"
  by auto
termination
  by (relation "measure (\<lambda>(e, rs, previous, ret, inc, rx). 5 - progress (in_state inc))") auto

definition socket_proto_state_machine :: "bool \<Rightarrow> sysret list \<Rightarrow> incoming \<Rightarrow> bytes \<Rightarrow> int \<times> incoming \<times> bytes" where
  "socket_proto_state_machine e rs inc rx = socket_proto_loop e rs None (- 1) inc rx"

section \<open>The transport\<close>

text \<open>
  \<^verbatim>\<open>connected\<close> is an unsigned character: 1, 0 while the connection is being made, and 255 for \<open>- 1\<close>. \<open>sp_sock\<close> says that
  there is a socket, \<open>sp_poll_out\<close> that the event loop is asked for \<^verbatim>\<open>POLLOUT\<close>. A message is the header and the buffer
  of the protocol above.
\<close>

type_synonym message = "bytes \<times> bytes"

record socket_private =
  sp_sock :: bool
  sp_connected :: u8
  sp_ioq :: "ioq list"
  sp_incoming :: incoming
  sp_poll_out :: bool

datatype notification = GF_EVENT_POLLIN message | GF_EVENT_POLLOUT | GF_EVENT_POLLERR | GF_EVENT_CHILD_UP

definition no_incoming :: incoming where
  "no_incoming = \<lparr>in_state = SOCKET_PROTO_STATE_NADA, in_mem = (\<lambda>t. if t = T_header then replicate 12 0 else []), in_hdrlen = 0,
     in_buflen = 0, in_pending = [], in_pending_count = 0\<rparr>"

definition socket_disconnect :: "socket_private \<Rightarrow> socket_private" where
  "socket_disconnect p = (if sp_sock p then p\<lparr>sp_connected := - 1\<rparr> else p)"

definition socket_reset :: "socket_private \<Rightarrow> socket_private" where
  "socket_reset p = p\<lparr>sp_incoming := no_incoming, sp_sock := False, sp_connected := - 1\<rparr>"

definition socket_ioq_flush :: "socket_private \<Rightarrow> socket_private" where
  "socket_ioq_flush p = p\<lparr>sp_ioq := []\<rparr>"

definition socket_event_poll_err :: "socket_private \<Rightarrow> socket_private \<times> notification list" where
  "socket_event_poll_err p = (socket_reset (socket_ioq_flush p), [GF_EVENT_POLLERR])"

definition socket_event_poll_out :: "sysret list \<Rightarrow> socket_private \<Rightarrow> bytes \<Rightarrow> int \<times> socket_private \<times> bytes \<times> notification list" where
  "socket_event_poll_out rs p wire =
     (if sp_connected p = 1
      then let (ret, q, wire) = socket_ioq_churn rs (sp_ioq p) wire;
               p = p\<lparr>sp_ioq := q, sp_poll_out := (if q = [] then False else sp_poll_out p)\<rparr>
           in (ret, if ret = - 1 then socket_disconnect p else p, wire, [GF_EVENT_POLLOUT])
      else (- 1, p, wire, [GF_EVENT_POLLOUT]))"

definition socket_receive :: "socket_private \<Rightarrow> (message \<times> socket_private) option" where
  "socket_receive p =
     (if sp_connected p \<noteq> 1 then None
      else if in_state (sp_incoming p) = SOCKET_PROTO_STATE_COMPLETE
      then Some ((in_mem (sp_incoming p) T_hdr, in_mem (sp_incoming p) T_buf), p\<lparr>sp_incoming := no_incoming\<rparr>)
      else None)"

text \<open>The translator that is notified of \<^verbatim>\<open>POLLIN\<close> takes the message with \<^verbatim>\<open>transport_receive\<close> and answers with \<open>up\<close>.\<close>

definition socket_event_poll_in :: "bool \<Rightarrow> sysret list \<Rightarrow> int \<Rightarrow> socket_private \<Rightarrow> bytes \<Rightarrow> int \<times> socket_private \<times> bytes \<times> notification list" where
  "socket_event_poll_in e rs up p rx =
     (let (ret, inc, rx) = socket_proto_state_machine e rs (sp_incoming p) rx; p = p\<lparr>sp_incoming := inc\<rparr>
      in if ret = 0
         then case socket_receive p of
                None \<Rightarrow> (- 1, p, rx, [])
              | Some (msg, p) \<Rightarrow> (up, p, rx, [GF_EVENT_POLLIN msg])
         else (ret, p, rx, []))"

text \<open>The end of a connection attempt: what \<^verbatim>\<open>getsockopt\<close> says, and whether \<^verbatim>\<open>getsockname\<close> works.\<close>

datatype connecting = Connected | In_Progress | Refused

definition socket_connect_finish :: "connecting \<Rightarrow> bool \<Rightarrow> socket_private \<Rightarrow> socket_private \<times> notification list" where
  "socket_connect_finish c named p =
     (if sp_connected p \<noteq> 0 then (p, [])
      else case c of
             In_Progress \<Rightarrow> (p, [])
           | Refused \<Rightarrow> (socket_disconnect p, [GF_EVENT_POLLERR])
           | Connected \<Rightarrow>
               if named then (p\<lparr>sp_connected := 1\<rparr>, [GF_EVENT_CHILD_UP]) else (socket_disconnect p, [GF_EVENT_POLLERR]))"

record socket_poll =
  poll_in :: bool
  poll_out :: bool
  poll_err :: bool
  poll_writes :: "sysret list"
  poll_reads :: "sysret list"
  poll_connect :: connecting
  poll_named :: bool
  poll_up :: int

text \<open>The handler of an event; \<open>wire\<close> is the stream that is written, \<open>rx\<close> the one that is read. The count of references
  to the transport is not part of the state.\<close>

definition socket_event_handler :: "bool \<Rightarrow> socket_poll \<Rightarrow> socket_private \<Rightarrow> bytes \<Rightarrow> bytes \<Rightarrow> socket_private \<times> bytes \<times> bytes \<times> notification list" where
  "socket_event_handler e ev p wire rx =
     (let (p, n0) = (if sp_connected p = 0 then socket_connect_finish (poll_connect ev) (poll_named ev) p else (p, []));
          (ret, p, wire, n1) = (if poll_out ev then socket_event_poll_out (poll_writes ev) p wire else (0, p, wire, []));
          (ret, p, rx, n2) = (if ret = 0 \<and> poll_in ev then socket_event_poll_in e (poll_reads ev) (poll_up ev) p rx else (ret, p, rx, []));
          (p, n3) = (if ret < 0 \<or> poll_err ev then socket_event_poll_err p else (p, []))
      in (p, wire, rx, n0 @ n1 @ n2 @ n3))"

definition socket_submit :: "bool \<Rightarrow> sysret list \<Rightarrow> bytes \<Rightarrow> bytes list \<Rightarrow> socket_private \<Rightarrow> bytes \<Rightarrow> fault + int \<times> socket_private \<times> bytes" where
  "socket_submit e rs buf vector p wire =
     (if sp_connected p \<noteq> 1 then Inr (- 1, p, wire)
      else bind_f (socket_ioq_new e buf vector) (\<lambda>entry.
        if sp_ioq p = []
        then let (ret, entry, wire, rs) = socket_ioq_churn_entry rs entry wire;
                 p = (if ret = 0 then p else p\<lparr>sp_ioq := sp_ioq p @ [entry]\<rparr>)
             in Inr (0, if 0 < ret then p\<lparr>sp_poll_out := True\<rparr> else p, wire)
        else Inr (0, p\<lparr>sp_ioq := sp_ioq p @ [entry]\<rparr>, wire)))"

end
