(* ===== verification/Socket_Runs.thy ===== *)
theory Socket_Runs
  imports Socket "HOL-Library.Sublist"
begin

text \<open>
  Two ends of a connection, each with its queue and its reader, and the bytes in between: what is taken out at one
  end is what was submitted at the other, in the same order.
\<close>

section \<open>Sending\<close>

definition frame :: "bool \<Rightarrow> message \<Rightarrow> bytes" where
  "frame e msg = header_bytes e (length (fst msg)) (length (snd msg)) @ fst msg @ snd msg"

definition vec_ok :: "bytes iovec list \<Rightarrow> bool" where
  "vec_ok v \<longleftrightarrow> (\<forall>x \<in> set v. iov_base x + iov_len x \<le> length (iov_buf x))"

lemma iov_total_gather: "vec_ok v \<Longrightarrow> iov_total v = length (gather v)"
  by (induction v) (auto simp: vec_ok_def iov_total_def gather_def)

lemma gather_skip: "gather (dropWhile (\<lambda>y. iov_len y = 0) v) = gather v"
  by (induction v) (auto simp: gather_def)

lemma vec_ok_skip: "vec_ok v \<Longrightarrow> vec_ok (dropWhile P v)"
  by (auto simp: vec_ok_def dest: set_dropWhileD)

lemma gather_advance:
  assumes "vec_ok v" "k \<le> iov_total v"
  shows "gather (advance k v) = drop k (gather v) \<and> vec_ok (advance k v)"
  using assms
proof (induction k v rule: advance.induct)
  case (2 moved x xs)
  let ?xs = "dropWhile (\<lambda>y. iov_len y = 0) xs"
  have x: "iov_base x + iov_len x \<le> length (iov_buf x)" "vec_ok xs" using "2.prems"(1) by (auto simp: vec_ok_def)
  have g: "gather (x # xs) = take (iov_len x) (drop (iov_base x) (iov_buf x)) @ gather xs" by (simp add: gather_def)
  have l: "length (take (iov_len x) (drop (iov_base x) (iov_buf x))) = iov_len x" using x(1) by simp
  consider "moved = 0" | "0 < moved" "iov_len x \<le> moved" | "0 < moved" "moved < iov_len x" by linarith
  then show ?case
  proof cases
    case 1
    then show ?thesis using "2.prems" by simp
  next
    case 2
    have ok: "vec_ok ?xs" by (rule vec_ok_skip[OF x(2)])
    have "iov_total ?xs = iov_total xs" using iov_total_gather[OF ok] iov_total_gather[OF x(2)] gather_skip by metis
    then have "moved - iov_len x \<le> iov_total ?xs" using "2.prems"(2) by (simp add: iov_total_def)
    then have "gather (advance (moved - iov_len x) ?xs) = drop (moved - iov_len x) (gather ?xs) \<and> vec_ok (advance (moved - iov_len x) ?xs)"
      using "2.IH" 2 ok by simp
    then show ?thesis using 2 l by (simp add: g gather_skip)
  next
    case 3
    then show ?thesis using x by (auto simp: gather_def vec_ok_def take_drop drop_drop add.commute min_def)
  qed
qed (simp add: gather_def vec_ok_def)

definition entry_ok :: "ioq \<Rightarrow> bool" where
  "entry_ok q \<longleftrightarrow> vec_ok (ioq_pending_vector q) \<and> (ioq_pending_count q = int (length (ioq_pending_vector q)) \<or> ioq_pending_count q = - 1)"

lemma sys_writev_simps:
  "sys_writev (Fail err) v wire = (Fail err, wire)"
  "sys_writev (Moved k) v wire = (Moved (min k (iov_total v)), wire @ take k (gather v))"
  by (simp_all add: sys_writev_def)

lemma write_loop:
  assumes "socket_rwv True sys_writev rs v n wire = (v', n', wire', rs')" "vec_ok v" "n = int (length v) \<or> n = - 1"
  shows "\<exists>d. wire' = wire @ d \<and> gather v = d @ gather v' \<and> vec_ok v' \<and> (n' = int (length v') \<or> n' = - 1)"
  using assms
proof (induction rs arbitrary: v n wire)
  case Nil
  then show ?case by auto
next
  case (Cons r rs)
  show ?case
  proof (cases "n \<le> 0")
    case True
    then show ?thesis using Cons.prems by (auto split: if_splits)
  next
    case False
    then have n: "n = int (length v)" "0 < n" using Cons.prems(3) by auto
    show ?thesis
    proof (cases r)
      case (Fail err)
      then show ?thesis using Cons.prems n Cons.IH[of v n wire] by (auto simp: sys_writev_simps split: if_splits)
    next
      case (Moved k)
      let ?k = "min k (iov_total v)"
      have t: "take k (gather v) = take ?k (gather v)" using iov_total_gather[OF Cons.prems(2)] by (cases "k \<le> length (gather v)") simp_all
      show ?thesis
      proof (cases "?k = 0")
        case True
        then have "take k (gather v) = []" using t by simp
        then show ?thesis using Cons.prems Moved True n by (auto simp: sys_writev_simps)
      next
        case False
        let ?v = "advance ?k v"
        have a: "gather ?v = drop ?k (gather v)" "vec_ok ?v" using gather_advance[OF Cons.prems(2), of ?k] by auto
        have "socket_rwv True sys_writev rs ?v (int (length ?v)) (wire @ take k (gather v)) = (v', n', wire', rs')"
          using Cons.prems(1) Moved False n(2) by (simp add: sys_writev_simps Let_def)
        from Cons.IH[OF this a(2)] obtain d where d: "wire' = (wire @ take k (gather v)) @ d" "gather ?v = d @ gather v'"
          "vec_ok v'" "n' = int (length v') \<or> n' = - 1" by auto
        have "gather v = take ?k (gather v) @ gather ?v" using a(1) by simp
        then show ?thesis using d t by (intro exI[of _ "take k (gather v) @ d"]) simp
      qed
    qed
  qed
qed

lemma churn_entry:
  assumes "socket_ioq_churn_entry rs q wire = (ret, q', wire', rs')" "entry_ok q"
  shows "\<exists>d. wire' = wire @ d \<and> gather (ioq_pending_vector q) = d @ gather (ioq_pending_vector q') \<and> entry_ok q' \<and>
    (ret = 0 \<longrightarrow> ioq_pending_vector q' = [])"
proof -
  obtain v n w s where r: "socket_rwv True sys_writev rs (ioq_pending_vector q) (ioq_pending_count q) wire = (v, n, w, s)"
    by (metis prod_cases4)
  then have "ret = n" "q' = q\<lparr>ioq_pending_vector := v, ioq_pending_count := n\<rparr>" "wire' = w"
    using assms(1) by (auto simp: socket_ioq_churn_entry_def)
  then show ?thesis using write_loop[OF r] assms(2) by (auto simp: entry_ok_def)
qed

definition outstanding :: "ioq list \<Rightarrow> bytes" where
  "outstanding q = concat (map (\<lambda>x. gather (ioq_pending_vector x)) q)"

lemma churn:
  assumes "socket_ioq_churn rs q wire = (ret, q', wire')" "\<forall>x \<in> set q. entry_ok x"
  shows "\<exists>d. wire' = wire @ d \<and> outstanding q = d @ outstanding q' \<and> (\<forall>x \<in> set q'. entry_ok x)"
  using assms
proof (induction rs q wire rule: socket_ioq_churn.induct)
  case (2 rs entry q wire)
  obtain r x w s where c: "socket_ioq_churn_entry rs entry wire = (r, x, w, s)" by (metis prod_cases4)
  obtain d where d: "w = wire @ d" "gather (ioq_pending_vector entry) = d @ gather (ioq_pending_vector x)" "entry_ok x"
    "r = 0 \<longrightarrow> ioq_pending_vector x = []" using churn_entry[OF c] "2.prems"(2) by auto
  show ?case
  proof (cases "r = 0")
    case True
    then have "socket_ioq_churn s q w = (ret, q', wire')" using "2.prems"(1) c by simp
    then obtain d' where "wire' = w @ d'" "outstanding q = d' @ outstanding q'" "\<forall>x \<in> set q'. entry_ok x"
      using "2.IH"[OF c[symmetric] refl refl refl] True "2.prems"(2) by auto
    then show ?thesis using d True by (intro exI[of _ "d @ d'"]) (auto simp: outstanding_def gather_def)
  next
    case False
    then show ?thesis using "2.prems" c d by (auto simp: outstanding_def)
  qed
qed simp

lemma new_entry:
  assumes "socket_ioq_new e buf vector = Inr q"
  shows "entry_ok q \<and> gather (ioq_pending_vector q) = frame e (buf, concat vector)"
proof -
  have "sum_list (map length vector) = length (concat vector)" by (simp add: length_concat)
  moreover have "concat (map (\<lambda>b. take (length b) b) vector) = concat vector" by simp
  ultimately show ?thesis using assms
    by (auto simp: socket_ioq_new_def entry_ok_def vec_ok_def whole_def gather_def frame_def Let_def comp_def split: if_splits)
qed

section \<open>Receiving\<close>

text \<open>The vector for buffers of given sizes after \<open>n\<close> bytes, and what the buffers hold then.\<close>

fun pend :: "(target \<times> nat) list \<Rightarrow> nat \<Rightarrow> target iovec list" where
  "pend [] n = []"
| "pend ((t, s) # r) n =
     (if n < s then \<lparr>iov_buf = t, iov_base = n, iov_len = s - n\<rparr> # map (\<lambda>(t, s). whole t s) r else pend r (n - s))"

fun holds :: "(target \<times> nat) list \<Rightarrow> bytes \<Rightarrow> (target \<Rightarrow> bytes) \<Rightarrow> bool" where
  "holds [] x m = True"
| "holds ((t, s) # r) x m \<longleftrightarrow> m t = take s x @ replicate (s - length x) 0 \<and> holds r (drop s x) m"

definition sizes_ok :: "(target \<times> nat) list \<Rightarrow> bool" where
  "sizes_ok l \<longleftrightarrow> distinct (map fst l) \<and> (\<forall>x \<in> set l. 0 < snd x)"

definition room :: "(target \<times> nat) list \<Rightarrow> nat" where
  "room l = sum_list (map snd l)"

lemma pend_0: "sizes_ok l \<Longrightarrow> pend l 0 = map (\<lambda>(t, s). whole t s) l"
  by (cases l) (auto simp: sizes_ok_def whole_def)

lemma pend_total: "n \<le> room l \<Longrightarrow> iov_total (pend l n) = room l - n"
proof (induction l arbitrary: n)
  case (Cons a r)
  obtain t s where a: "a = (t, s)" by (cases a)
  have "iov_total (map (\<lambda>(t, s). whole t s) r) = room r" by (induction r) (auto simp: iov_total_def room_def whole_def)
  then show ?case using Cons by (auto simp: a room_def iov_total_def)
qed (simp add: iov_total_def room_def)

lemma pend_Nil_iff: "sizes_ok l \<Longrightarrow> n \<le> room l \<Longrightarrow> pend l n = [] \<longleftrightarrow> n = room l"
proof (induction l arbitrary: n)
  case (Cons a r)
  obtain t s where a: "a = (t, s)" by (cases a)
  show ?case
  proof (cases "n < s")
    case False
    then show ?thesis using Cons.IH[of "n - s"] Cons.prems by (auto simp: a sizes_ok_def room_def)
  qed (simp add: a room_def)
qed (simp add: room_def)

lemma pend_advance: "sizes_ok l \<Longrightarrow> n + k \<le> room l \<Longrightarrow> advance k (pend l n) = pend l (n + k)"
proof (induction l arbitrary: n k)
  case (Cons a r)
  obtain t s where a: "a = (t, s)" by (cases a)
  have r: "sizes_ok r" using Cons.prems(1) by (simp add: sizes_ok_def)
  show ?case
  proof (cases "n < s")
    case True
    have w: "map (\<lambda>(t, s). whole t s) r = pend r 0" using pend_0[OF r] by simp
    have skip: "dropWhile (\<lambda>y. iov_len y = 0) (pend r 0) = pend r 0"
      using r by (cases r) (auto simp: sizes_ok_def)
    show ?thesis
    proof (cases "k < s - n")
      case True
      then show ?thesis using \<open>n < s\<close> by (cases "k = 0") (auto simp: a)
    next
      case False
      have k: "0 < k" using False \<open>n < s\<close> by linarith
      have "advance (k - (s - n)) (pend r 0) = pend r (k - (s - n))" using Cons.IH[OF r, of 0] Cons.prems(2) \<open>n < s\<close> False by (simp add: a room_def)
      moreover have "\<not> n + k < s" "n + k - s = k - (s - n)" using False \<open>n < s\<close> by linarith+
      then have "pend ((t, s) # r) (n + k) = pend r (k - (s - n))" by simp
      moreover have "pend ((t, s) # r) n = \<lparr>iov_buf = t, iov_base = n, iov_len = s - n\<rparr> # pend r 0" using \<open>n < s\<close> w by simp
      moreover have "advance k (\<lparr>iov_buf = t, iov_base = n, iov_len = s - n\<rparr> # pend r 0) = advance (k - (s - n)) (pend r 0)"
        using k \<open>\<not> k < s - n\<close> skip by simp
      ultimately show ?thesis by (simp only: a)
    qed
  next
    case False
    then show ?thesis using Cons.IH[OF r, of "n - s" k] Cons.prems(2) by (simp add: a room_def)
  qed
qed simp

lemma scatter_other: "t \<notin> iov_buf ` set v \<Longrightarrow> scatter v d m t = m t"
  by (induction v d m rule: scatter.induct) auto

lemma pend_targets: "iov_buf ` set (pend l n) \<subseteq> fst ` set l"
proof (induction l arbitrary: n)
  case (Cons a r)
  obtain t s where a: "a = (t, s)" by (cases a)
  show ?case
  proof (cases "n < s")
    case True
    then show ?thesis by (force simp: a whole_def)
  next
    case False
    then show ?thesis using Cons.IH[of "n - s"] by (simp add: a subset_insertI2)
  qed
qed simp

lemma holds_other: "t \<notin> fst ` set l \<Longrightarrow> holds l x (m(t := b)) = holds l x m"
  by (induction l x m rule: holds.induct) auto

lemma pend_scatter:
  assumes "sizes_ok l" "holds l x m" "length x + length d \<le> room l"
  shows "holds l (x @ d) (scatter (pend l (length x)) d m)"
  using assms
proof (induction l arbitrary: x d m)
  case (Cons a r)
  obtain t s where a: "a = (t, s)" by (cases a)
  have r: "sizes_ok r" "t \<notin> fst ` set r" using Cons.prems(1) by (auto simp: sizes_ok_def a)
  have m: "m t = take s x @ replicate (s - length x) 0" "holds r (drop s x) m" using Cons.prems(2) by (simp_all add: a)
  show ?case
  proof (cases "length x < s")
    case True
    define d1 d2 where "d1 = take (s - length x) d" and "d2 = drop (s - length x) d"
    define m' where "m' = m(t := splice (m t) (length x) d1)"
    have "m' t = x @ d1 @ replicate (s - length x - length d1) 0" using True m(1) by (simp add: m'_def splice_def)
    moreover have "take s (x @ d) = x @ d1" using True by (simp add: d1_def)
    moreover have "s - length x - length d1 = s - length (x @ d)" by (simp add: d1_def)
    ultimately have t: "m' t = take s (x @ d) @ replicate (s - length (x @ d)) 0" by simp
    have "holds r [] m'" using m(2) True r(2) holds_other by (simp add: m'_def)
    then have "holds r d2 (scatter (pend r 0) d2 m')"
      using Cons.IH[OF r(1), of "[]" m' d2] Cons.prems(3) True by (simp add: d2_def a room_def)
    moreover have "drop s (x @ d) = d2" using True by (simp add: d2_def)
    moreover have "scatter (pend r 0) d2 m' t = m' t" using scatter_other pend_targets r(2) by blast
    ultimately have "holds ((t, s) # r) (x @ d) (scatter (pend r 0) d2 m')" using t by simp
    moreover have "scatter (pend ((t, s) # r) (length x)) d m = scatter (pend r 0) d2 m'"
      using True pend_0[OF r(1)] by (simp add: d1_def d2_def m'_def)
    ultimately show ?thesis by (simp add: a)
  next
    case False
    have "holds r (drop s x @ d) (scatter (pend r (length (drop s x))) d m)"
      using Cons.IH[OF r(1) m(2), of d] Cons.prems(3) False by (simp add: a room_def)
    moreover have "scatter (pend r (length x - s)) d m t = m t" using scatter_other pend_targets r(2) by blast
    ultimately show ?thesis using False m(1) by (simp add: a)
  qed
qed simp

lemma sys_readv_cases:
  assumes "sys_readv r v (m, rx) = (q, w)"
  obtains err where "q = Fail err" "w = (m, rx)" | "q = Moved 0" "w = (m, rx)"
  | k where "q = Moved k" "0 < k" "k \<le> iov_total v" "k \<le> length rx" "w = (scatter v (take k rx) m, drop k rx)"
proof (cases r)
  case (Moved j)
  show ?thesis
  proof (cases "j = 0 \<or> min j (min (iov_total v) (length rx)) = 0")
    case True
    then show ?thesis using assms Moved that(1,2) by (auto simp: sys_readv_def Let_def split: if_splits)
  next
    case False
    define k where "k = min j (min (iov_total v) (length rx))"
    have "0 < k" "k \<le> iov_total v" "k \<le> length rx" "j \<noteq> 0" using False by (auto simp: k_def)
    moreover from this have "sys_readv r v (m, rx) = (Moved k, scatter v (take k rx) m, drop k rx)"
      by (simp add: sys_readv_def Moved Let_def k_def[symmetric])
    ultimately show ?thesis using assms that(3)[of k] by simp
  qed
qed (use assms that(1) in \<open>auto simp: sys_readv_def\<close>)

lemma read_loop:
  assumes "socket_rwv False sys_readv rs (pend l (length x)) n (m, rx) = (v', n', (m', rx'), rs')" "sizes_ok l" "holds l x m" "length x \<le> room l"
    "n = int (length (pend l (length x)))"
  shows "\<exists>d. rx = d @ rx' \<and> holds l (x @ d) m' \<and> v' = pend l (length (x @ d)) \<and> length (x @ d) \<le> room l
    \<and> (n' = int (length v') \<or> n' = - 1 \<and> v' \<noteq> []) \<and> (\<forall>t. t \<notin> fst ` set l \<longrightarrow> m' t = m t)"
  using assms
proof (induction rs arbitrary: x n m rx)
  case Nil
  then show ?case by auto
next
  case (Cons r rs)
  show ?case
  proof (cases "n = 0")
    case True
    then show ?thesis using Cons.prems by auto
  next
    case False
    then have n: "0 < n" using Cons.prems(5) by simp
    obtain q w where s: "sys_readv r (pend l (length x)) (m, rx) = (q, w)" by (cases "sys_readv r (pend l (length x)) (m, rx)")
    then show ?thesis
    proof (cases rule: sys_readv_cases)
      case (1 err)
      then show ?thesis using Cons.prems n s Cons.IH[of x n m rx] by (auto split: if_splits)
    next
      case 2
      then show ?thesis using Cons.prems n s by auto
    next
      case (3 k)
      let ?d = "take k rx" and ?m = "scatter (pend l (length x)) (take k rx) m"
      have len: "length x + k \<le> room l" using 3(3) pend_total[OF Cons.prems(4)] Cons.prems(4) by simp
      have dl: "length ?d = k" using 3(4) by simp
      have h: "holds l (x @ ?d) ?m" using pend_scatter[OF Cons.prems(2,3), of ?d] len dl by simp
      have adv: "advance k (pend l (length x)) = pend l (length (x @ ?d))" using pend_advance[OF Cons.prems(2) len] dl by simp
      have "socket_rwv False sys_readv rs (pend l (length (x @ ?d))) (int (length (pend l (length (x @ ?d))))) (?m, drop k rx) = (v', n', (m', rx'), rs')"
        using Cons.prems(1) n s 3 adv by (simp add: Let_def)
      from Cons.IH[OF this Cons.prems(2) h _ refl] obtain d where d: "drop k rx = d @ rx'" "holds l ((x @ ?d) @ d) m'"
        "v' = pend l (length ((x @ ?d) @ d))" "length ((x @ ?d) @ d) \<le> room l" "n' = int (length v') \<or> n' = - 1 \<and> v' \<noteq> []"
        "\<forall>t. t \<notin> fst ` set l \<longrightarrow> m' t = ?m t" using len dl by auto
      have "rx = (?d @ d) @ rx'" using d(1) by (metis append_take_drop_id append.assoc)
      moreover have "\<forall>t. t \<notin> fst ` set l \<longrightarrow> m' t = m t" using d(6) scatter_other pend_targets by (metis subset_iff)
      ultimately show ?thesis using d(2-5) by (intro exI[of _ "?d @ d"]) simp
    qed
  qed
qed

definition sizes :: "nat \<Rightarrow> nat \<Rightarrow> (target \<times> nat) list" where
  "sizes s1 s2 = (T_hdr, s1) # (if s2 = 0 then [] else [(T_buf, s2)])"

text \<open>The reader after the bytes \<open>c\<close> of a message.\<close>

definition in_data :: "bool \<Rightarrow> incoming \<Rightarrow> bytes \<Rightarrow> bytes \<Rightarrow> bool" where
  "in_data e inc h x \<longleftrightarrow> length h = 12 \<and> socket_proto_validate_header e h = Some (in_hdrlen inc, in_buflen inc)
     \<and> holds (sizes (in_hdrlen inc) (in_buflen inc)) x (in_mem inc) \<and> (in_buflen inc = 0 \<longrightarrow> in_mem inc T_buf = [])
     \<and> length x \<le> in_hdrlen inc + in_buflen inc"

definition recv_inv :: "bool \<Rightarrow> incoming \<Rightarrow> bytes \<Rightarrow> bool" where
  "recv_inv e inc c =
     (case in_state inc of
        SOCKET_PROTO_STATE_NADA \<Rightarrow> c = [] \<and> in_mem inc T_header = replicate 12 0
      | SOCKET_PROTO_STATE_HEADER_COMING \<Rightarrow>
          length c < 12 \<and> holds [(T_header, 12)] c (in_mem inc) \<and> in_pending inc = pend [(T_header, 12)] (length c)
      | SOCKET_PROTO_STATE_HEADER_CAME \<Rightarrow> length c = 12 \<and> in_mem inc T_header = c
      | SOCKET_PROTO_STATE_DATA_COMING \<Rightarrow>
          \<exists>h x. c = h @ x \<and> in_data e inc h x \<and> in_pending inc = pend (sizes (in_hdrlen inc) (in_buflen inc)) (length x)
            \<and> (in_pending_count inc = int (length (in_pending inc)) \<or> in_pending_count inc < 0)
      | _ \<Rightarrow> \<exists>h x. c = h @ x \<and> in_data e inc h x \<and> length x = in_hdrlen inc + in_buflen inc)"

declare socket_proto_loop.simps [simp del]

lemma validated: "socket_proto_validate_header e h = Some (s1, s2) \<Longrightarrow> 0 < s1"
  by (auto simp: socket_proto_validate_header_def Let_def split: if_splits)

lemma sizes_sizes: "0 < s1 \<Longrightarrow> sizes_ok (sizes s1 s2)" "room (sizes s1 s2) = s1 + s2"
  by (auto simp: sizes_def sizes_ok_def room_def)

text \<open>What a run of the loop gives, state by state from the last one.\<close>

definition runs :: "bool \<Rightarrow> sysret list \<Rightarrow> socket_proto_state option \<Rightarrow> int \<Rightarrow> incoming \<Rightarrow> bytes \<Rightarrow> bytes \<Rightarrow> bool" where
  "runs e rs prev ret inc rx c \<longleftrightarrow> (case socket_proto_loop e rs prev ret inc rx of (ret', inc', rx') \<Rightarrow>
     \<exists>d. rx = d @ rx' \<and> recv_inv e inc' (c @ d) \<and> (ret' = 0 \<longrightarrow> in_state inc' = SOCKET_PROTO_STATE_COMPLETE))"

lemma runs_complete:
  assumes "in_state inc = SOCKET_PROTO_STATE_COMPLETE" "recv_inv e inc c"
  shows "runs e rs prev ret inc rx c"
  using assms by (subst runs_def, subst socket_proto_loop.simps) simp

lemma runs_data_came:
  assumes "in_state inc = SOCKET_PROTO_STATE_DATA_CAME" "recv_inv e inc c" "prev \<noteq> Some (in_state inc)"
  shows "runs e rs prev ret inc rx c"
proof -
  let ?inc = "inc\<lparr>in_pending := [], in_pending_count := 0, in_state := SOCKET_PROTO_STATE_COMPLETE\<rparr>"
  have "recv_inv e ?inc c" using assms(1,2) by (simp add: recv_inv_def in_data_def)
  then have "runs e rs (Some SOCKET_PROTO_STATE_DATA_CAME) ret ?inc rx c" by (intro runs_complete) simp
  then show ?thesis using assms(1,3) unfolding runs_def by (subst socket_proto_loop.simps) simp
qed

lemma recv_inv_data:
  assumes "in_data e inc h x"
  shows "in_state inc = SOCKET_PROTO_STATE_DATA_COMING \<Longrightarrow> in_pending inc = pend (sizes (in_hdrlen inc) (in_buflen inc)) (length x) \<Longrightarrow>
      (in_pending_count inc = int (length (in_pending inc)) \<or> in_pending_count inc < 0) \<Longrightarrow> recv_inv e inc (h @ x)"
    "in_state inc = SOCKET_PROTO_STATE_DATA_CAME \<Longrightarrow> length x = in_hdrlen inc + in_buflen inc \<Longrightarrow> recv_inv e inc (h @ x)"
  using assms by (auto simp: recv_inv_def)

lemma rwv_negative: "n < 0 \<Longrightarrow> socket_rwv wr sys rs v n w = (v, - 1, w, tl rs)"
  by (cases rs) auto

lemma runs_data_coming:
  assumes st: "in_state inc = SOCKET_PROTO_STATE_DATA_COMING" and inv: "recv_inv e inc c" and "prev \<noteq> Some (in_state inc)"
  shows "runs e rs prev ret inc rx c"
proof -
  let ?l = "sizes (in_hdrlen inc) (in_buflen inc)"
  obtain h x where x: "c = h @ x" "in_data e inc h x" "in_pending inc = pend ?l (length x)"
    "in_pending_count inc = int (length (in_pending inc)) \<or> in_pending_count inc < 0"
    using inv st by (auto simp: recv_inv_def)
  obtain v n m rx' rs' where r: "socket_rwv False sys_readv rs (in_pending inc) (in_pending_count inc) (in_mem inc, rx) = (v, n, (m, rx'), rs')"
    by (metis prod.collapse)
  have ok: "sizes_ok ?l" using x(2) validated sizes_sizes(1) by (auto simp: in_data_def)
  obtain d where d: "rx = d @ rx'" "holds ?l (x @ d) m" "v = pend ?l (length (x @ d))" "length (x @ d) \<le> room ?l" "n = int (length v) \<or> n = - 1"
    "\<forall>t. t \<notin> fst ` set ?l \<longrightarrow> m t = in_mem inc t"
  proof (cases "in_pending_count inc < 0")
    case True
    then show ?thesis using r x(2,3) by (intro that[of "[]"]) (auto simp: rwv_negative in_data_def sizes_sizes)
  next
    case False
    then have "in_pending_count inc = int (length (pend ?l (length x)))" using x(3,4) by simp
    then show ?thesis using read_loop[OF r[unfolded x(3)] ok] x(2) that by (auto simp: in_data_def sizes_sizes)
  qed
  let ?inc = "inc\<lparr>in_mem := m, in_pending := v, in_pending_count := n\<rparr>"
  have "in_buflen inc = 0 \<longrightarrow> m T_buf = []" using d(6) x(2) by (auto simp: sizes_def in_data_def)
  then have data: "in_data e ?inc h (x @ d)" using x(2) d(2,4) by (simp add: in_data_def sizes_sizes)
  show ?thesis
  proof (cases "n = 0")
    case True
    have "length (x @ d) = room ?l" using True d(3,4,5) pend_Nil_iff[OF ok d(4)] by simp
    then have "recv_inv e (?inc\<lparr>in_state := SOCKET_PROTO_STATE_DATA_CAME\<rparr>) (c @ d)"
      using recv_inv_data(2)[of e "?inc\<lparr>in_state := SOCKET_PROTO_STATE_DATA_CAME\<rparr>" h "x @ d"] data
      by (simp add: in_data_def x(1) sizes_sizes)
    then have "runs e rs' (Some SOCKET_PROTO_STATE_DATA_COMING) 0 (?inc\<lparr>in_state := SOCKET_PROTO_STATE_DATA_CAME\<rparr>) rx' (c @ d)"
      by (intro runs_data_came) simp_all
    then show ?thesis using st assms(3) r True d(1) unfolding runs_def by (subst socket_proto_loop.simps) auto
  next
    case False
    have "recv_inv e ?inc (c @ d)" using recv_inv_data(1)[OF data] st d(3,5) by (auto simp: x(1))
    then show ?thesis using st assms(3) r False d(1) unfolding runs_def by (subst socket_proto_loop.simps) auto
  qed
qed

lemma runs_header_came:
  assumes st: "in_state inc = SOCKET_PROTO_STATE_HEADER_CAME" and inv: "recv_inv e inc c" and "prev \<noteq> Some (in_state inc)"
  shows "runs e rs prev ret inc rx c"
proof (cases "socket_proto_validate_header e (in_mem inc T_header)")
  case None
  then show ?thesis using st inv assms(3) unfolding runs_def by (subst socket_proto_loop.simps) auto
next
  case (Some s)
  obtain s1 s2 where s: "s = (s1, s2)" by (cases s)
  have c: "length c = 12" "in_mem inc T_header = c" using inv st by (simp_all add: recv_inv_def)
  let ?inc = "inc\<lparr>in_hdrlen := s1, in_buflen := s2, in_mem := (in_mem inc)(T_hdr := replicate s1 0, T_buf := replicate s2 0),
    in_pending := whole T_hdr s1 # (if s2 = 0 then [] else [whole T_buf s2]), in_pending_count := (if s2 = 0 then 1 else 2), in_state := SOCKET_PROTO_STATE_DATA_COMING\<rparr>"
  have "in_data e ?inc c []" using Some c s by (simp add: in_data_def sizes_def)
  moreover have "in_pending ?inc = pend (sizes s1 s2) 0" using validated Some s by (auto simp: sizes_def whole_def)
  moreover have "in_pending_count ?inc = int (length (in_pending ?inc))" by simp
  ultimately have "recv_inv e ?inc c" by (intro recv_inv_data(1)[of e ?inc c "[]", simplified append_Nil2]) simp_all
  then have "runs e rs (Some SOCKET_PROTO_STATE_HEADER_CAME) 0 ?inc rx c" by (intro runs_data_coming) simp_all
  then show ?thesis using st assms(3) Some s unfolding runs_def by (subst socket_proto_loop.simps) simp
qed

lemma runs_header_coming:
  assumes st: "in_state inc = SOCKET_PROTO_STATE_HEADER_COMING" and inv: "recv_inv e inc c" and "prev \<noteq> Some (in_state inc)"
  shows "runs e rs prev ret inc rx c"
proof -
  let ?l = "[(T_header, 12)] :: (target \<times> nat) list"
  have c: "length c < 12" "holds ?l c (in_mem inc)" "in_pending inc = pend ?l (length c)" using inv st by (simp_all add: recv_inv_def)
  have ok: "sizes_ok ?l" "room ?l = 12" by (simp_all add: sizes_ok_def room_def)
  obtain v n m rx' rs' where r: "socket_rwv False sys_readv rs (in_pending inc) 1 (in_mem inc, rx) = (v, n, (m, rx'), rs')"
    by (metis prod.collapse)
  have "(1 :: int) = int (length (pend ?l (length c)))" using c(1) by simp
  from read_loop[OF r[unfolded c(3)] ok(1) c(2) _ this]
  obtain d where d: "rx = d @ rx'" "holds ?l (c @ d) m" "v = pend ?l (length (c @ d))" "length (c @ d) \<le> 12" "n = int (length v) \<or> n = - 1 \<and> v \<noteq> []"
    using c(1) ok(2) by auto
  let ?inc = "inc\<lparr>in_mem := m, in_pending := v\<rparr>"
  show ?thesis
  proof (cases "n = 0")
    case True
    have l: "length (c @ d) = 12" using True d(3-5) pend_Nil_iff[OF ok(1)] ok(2) by auto
    then have "m T_header = c @ d" using d(2) by simp
    then have "recv_inv e (?inc\<lparr>in_state := SOCKET_PROTO_STATE_HEADER_CAME\<rparr>) (c @ d)" using l by (simp add: recv_inv_def)
    then have "runs e rs' (Some SOCKET_PROTO_STATE_HEADER_COMING) 0 (?inc\<lparr>in_state := SOCKET_PROTO_STATE_HEADER_CAME\<rparr>) rx' (c @ d)"
      by (intro runs_header_came) simp_all
    then show ?thesis using st assms(3) r True d(1) unfolding runs_def by (subst socket_proto_loop.simps) auto
  next
    case False
    have "length (c @ d) < 12" using False d(3-5) pend_Nil_iff[OF ok(1)] ok(2) by force
    then have "recv_inv e ?inc (c @ d)" using d(2,3) st by (simp add: recv_inv_def)
    then show ?thesis using st assms(3) r False d(1) unfolding runs_def by (subst socket_proto_loop.simps) auto
  qed
qed

lemma runs_nada:
  assumes st: "in_state inc = SOCKET_PROTO_STATE_NADA" and inv: "recv_inv e inc c" and "prev \<noteq> Some (in_state inc)"
  shows "runs e rs prev ret inc rx c"
proof -
  let ?inc = "inc\<lparr>in_pending := [whole T_header 12], in_state := SOCKET_PROTO_STATE_HEADER_COMING\<rparr>"
  have "recv_inv e ?inc c" using inv st by (simp add: recv_inv_def whole_def)
  then have "runs e rs (Some SOCKET_PROTO_STATE_NADA) ret ?inc rx c" by (intro runs_header_coming) simp_all
  then show ?thesis using st assms(3) unfolding runs_def by (subst socket_proto_loop.simps) simp
qed

lemma machine_runs:
  assumes "recv_inv e inc c" "socket_proto_state_machine e rs inc rx = (ret, inc', rx')"
  shows "\<exists>d. rx = d @ rx' \<and> recv_inv e inc' (c @ d) \<and> (ret = 0 \<longrightarrow> in_state inc' = SOCKET_PROTO_STATE_COMPLETE)"
proof -
  have "runs e rs None (- 1) inc rx c"
    using assms(1)
    by (cases "in_state inc") (simp_all add: runs_nada runs_header_coming runs_header_came runs_data_coming runs_data_came runs_complete)
  then show ?thesis using assms(2) by (simp add: runs_def socket_proto_state_machine_def)
qed

section \<open>Frames\<close>

definition valid :: "message \<Rightarrow> bool" where
  "valid msg \<longleftrightarrow> 0 < length (fst msg) \<and> length (fst msg) \<le> 1048576 \<and> length (snd msg) \<le> 1048576 * 4"

abbreviation frames :: "bool \<Rightarrow> message list \<Rightarrow> bytes" where
  "frames e l \<equiv> concat (map (frame e) l)"

lemma length_header [simp]: "length (header_bytes e a b) = 12"
  by (simp add: header_bytes_def)

lemma validate_header_bytes:
  assumes "0 < s1" "s1 \<le> 1048576" "s2 \<le> 1048576 * 4"
  shows "socket_proto_validate_header e (header_bytes e s1 s2) = Some (s1, s2)"
proof -
  let ?a = "store32 e (hton32 e (of_nat s1))" and ?b = "store32 e (hton32 e (of_nat s2))"
  have h: "header_bytes e s1 s2 = [58, 79, 0] @ ?a @ ?b @ [42]" by (simp add: header_bytes_def)
  have "take 3 (header_bytes e s1 s2) = [58, 79, 0]" "header_bytes e s1 s2 ! 11 = 42"
    "take 4 (drop 3 (header_bytes e s1 s2)) = ?a" "take 4 (drop 7 (header_bytes e s1 s2)) = ?b"
    by (simp_all add: h nth_append)
  moreover have "unat (of_nat s1 :: u32) = s1" "unat (of_nat s2 :: u32) = s2" using assms by (simp_all add: unsigned_of_nat take_bit_nat_eq_self)
  ultimately show ?thesis using assms by (simp add: socket_proto_validate_header_def Let_def)
qed

text \<open>What is complete is the first of the messages that are on the way.\<close>

lemma complete_is_first:
  assumes "recv_inv e inc c" "in_state inc = SOCKET_PROTO_STATE_COMPLETE" "frames e todo = c @ r" "\<forall>x \<in> set todo. valid x"
  obtains rest where "todo = (in_mem inc T_hdr, in_mem inc T_buf) # rest" "c = frame e (in_mem inc T_hdr, in_mem inc T_buf)"
proof -
  obtain h x where x: "c = h @ x" "in_data e inc h x" "length x = in_hdrlen inc + in_buflen inc" using assms(1,2) by (auto simp: recv_inv_def)
  then have h: "length h = 12" "socket_proto_validate_header e h = Some (in_hdrlen inc, in_buflen inc)"
    "holds (sizes (in_hdrlen inc) (in_buflen inc)) x (in_mem inc)" "in_buflen inc = 0 \<longrightarrow> in_mem inc T_buf = []"
    by (auto simp: in_data_def)
  have "todo \<noteq> []" using assms(3) x(1) h(1) by auto
  then obtain msg rest where todo: "todo = msg # rest" by (cases todo) auto
  have v: "valid msg" using assms(4) todo by simp
  have eq: "header_bytes e (length (fst msg)) (length (snd msg)) @ (fst msg @ snd msg @ frames e rest) = h @ (x @ r)"
    using assms(3) todo x(1) by (simp add: frame_def)
  then have hh: "h = header_bytes e (length (fst msg)) (length (snd msg))" "fst msg @ snd msg @ frames e rest = x @ r"
    using h(1) by (simp_all add: append_eq_append_conv)
  have s: "in_hdrlen inc = length (fst msg)" "in_buflen inc = length (snd msg)"
    using h(2) hh(1) validate_header_bytes[of "length (fst msg)" "length (snd msg)" e] v by (auto simp: valid_def)
  have "(fst msg @ snd msg) @ frames e rest = x @ r" using hh(2) by simp
  then have xx: "x = fst msg @ snd msg" using x(3) s by (simp add: append_eq_append_conv del: append_assoc)
  have "in_mem inc T_hdr = fst msg" "in_mem inc T_buf = snd msg"
    using h(3,4) xx s by (cases "in_buflen inc = 0"; simp add: sizes_def)+
  then have m: "msg = (in_mem inc T_hdr, in_mem inc T_buf)" by (simp add: prod_eq_iff)
  show ?thesis
  proof (rule that)
    show "todo = (in_mem inc T_hdr, in_mem inc T_buf) # rest" using todo m by simp
    show "c = frame e (in_mem inc T_hdr, in_mem inc T_buf)" using m x(1) xx hh(1) by (simp add: frame_def)
  qed
qed

section \<open>A write that fails\<close>

text \<open>The first write of a message fails: \<^verbatim>\<open>socket_submit\<close> returns 0, and the entry it leaves in the queue is never
  written, since its count is \<open>- 1\<close>.\<close>

lemma submit_hides_failure:
  assumes "sp_connected p = 1" "sp_ioq p = []" "length vector \<le> 14" "err \<noteq> EAGAIN" "err \<noteq> EINTR"
  shows "\<exists>entry. socket_submit e (Fail err # rs) buf vector p wire = Inr (0, p\<lparr>sp_ioq := [entry]\<rparr>, wire)
    \<and> (\<forall>rs' wire'. \<exists>rs''. socket_ioq_churn_entry rs' entry wire' = (- 1, entry, wire', rs''))"
  using assms by (auto simp: socket_submit_def socket_ioq_new_def MAX_IOVEC_def socket_ioq_churn_entry_def sys_writev_def rwv_negative Let_def)

section \<open>Two ends\<close>

text \<open>An end of the connection: the transport, the bytes that are on the way to it, and the messages that were
  submitted and taken out.\<close>

record side =
  s_priv :: socket_private
  s_rx :: bytes
  s_sent :: "message list"
  s_got :: "message list"

definition received :: "notification list \<Rightarrow> message list" where
  "received l = concat (map (\<lambda>n. case n of GF_EVENT_POLLIN msg \<Rightarrow> [msg] | _ \<Rightarrow> []) l)"

inductive net_step :: "bool \<Rightarrow> side \<times> side \<Rightarrow> side \<times> side \<Rightarrow> bool" for e where
  submit: "valid (buf, concat vector) \<Longrightarrow> socket_submit e rs buf vector (s_priv l) (s_rx r) = Inr (ret, p, wire) \<Longrightarrow>
    net_step e (l, r) (l\<lparr>s_priv := p, s_sent := (if ret = 0 then s_sent l @ [(buf, concat vector)] else s_sent l)\<rparr>, r\<lparr>s_rx := wire\<rparr>)"
| event: "sp_sock (s_priv l) \<Longrightarrow> socket_event_handler e ev (s_priv l) (s_rx r) (s_rx l) = (p, wire, rx, ns) \<Longrightarrow>
    net_step e (l, r) (l\<lparr>s_priv := p, s_rx := rx, s_got := s_got l @ received ns\<rparr>, r\<lparr>s_rx := wire\<rparr>)"
| other: "net_step e (r, l) (r', l') \<Longrightarrow> net_step e (l, r) (l', r')"

definition net_start :: "side \<times> side \<Rightarrow> bool" where
  "net_start w \<longleftrightarrow> (\<forall>s \<in> {fst w, snd w}. sp_sock (s_priv s) \<and> sp_ioq (s_priv s) = [] \<and> sp_incoming (s_priv s) = no_incoming
     \<and> s_rx s = [] \<and> s_sent s = [] \<and> s_got s = [])"

text \<open>What flows from one end to the other.\<close>

definition sender_ok :: "socket_private \<Rightarrow> bytes \<Rightarrow> bool" where
  "sender_ok p rest \<longleftrightarrow> (\<forall>q \<in> set (sp_ioq p). entry_ok q) \<and> (if sp_sock p then rest = outstanding (sp_ioq p) else sp_connected p \<noteq> 1)"

definition flow :: "bool \<Rightarrow> side \<Rightarrow> side \<Rightarrow> bool" where
  "flow e a b \<longleftrightarrow> (\<exists>todo c rest. s_sent a = s_got b @ todo \<and> (\<forall>x \<in> set todo. valid x) \<and> frames e todo = c @ s_rx b @ rest
     \<and> (sp_sock (s_priv b) \<longrightarrow> recv_inv e (sp_incoming (s_priv b)) c) \<and> sender_ok (s_priv a) rest)"

definition net_inv :: "bool \<Rightarrow> side \<times> side \<Rightarrow> bool" where
  "net_inv e w \<longleftrightarrow> flow e (fst w) (snd w) \<and> flow e (snd w) (fst w)"

lemma submit_ok:
  assumes "socket_submit e rs buf vector p wire = Inr (ret, p', wire')" "sender_ok p rest"
  shows "\<exists>d rest'. wire' = wire @ d \<and> (if ret = 0 then rest @ frame e (buf, concat vector) else rest) = d @ rest' \<and> sender_ok p' rest'
    \<and> sp_sock p' = sp_sock p \<and> sp_incoming p' = sp_incoming p"
proof (cases "sp_connected p = 1")
  case False
  then show ?thesis using assms by (auto simp: socket_submit_def)
next
  case True
  then have s: "sp_sock p" "rest = outstanding (sp_ioq p)" using assms(2) by (auto simp: sender_ok_def split: if_splits)
  obtain entry where n: "socket_ioq_new e buf vector = Inr entry" using assms(1) True by (auto simp: socket_submit_def)
  note new = new_entry[OF n]
  show ?thesis
  proof (cases "sp_ioq p = []")
    case empty: True
    obtain r q w s where c: "socket_ioq_churn_entry rs entry wire = (r, q, w, s)" by (metis prod_cases4)
    obtain d where d: "w = wire @ d" "gather (ioq_pending_vector entry) = d @ gather (ioq_pending_vector q)" "entry_ok q"
      "r = 0 \<longrightarrow> ioq_pending_vector q = []" using churn_entry[OF c] new by auto
    have p: "ret = 0" "wire' = w" "sp_ioq p' = (if r = 0 then [] else [q])" "sp_sock p' = sp_sock p" "sp_incoming p' = sp_incoming p"
      using assms(1) True n empty c by (auto simp: socket_submit_def Let_def split: if_splits)
    have "sender_ok p' (if r = 0 then [] else gather (ioq_pending_vector q))" using p s d(3) by (auto simp: sender_ok_def outstanding_def)
    moreover have "rest = []" using s empty by (simp add: outstanding_def)
    ultimately show ?thesis using p(1,2,4,5) d new by (intro exI[of _ d] exI[of _ "if r = 0 then [] else gather (ioq_pending_vector q)"]) (auto simp: gather_def)
  next
    case False
    then have p: "ret = 0" "wire' = wire" "p' = p\<lparr>sp_ioq := sp_ioq p @ [entry]\<rparr>" using assms(1) True n by (auto simp: socket_submit_def)
    then have "sender_ok p' (rest @ frame e (buf, concat vector))" using s assms(2) new by (auto simp: sender_ok_def outstanding_def)
    then show ?thesis using p by (intro exI[of _ "[]"] exI[of _ "rest @ frame e (buf, concat vector)"]) simp
  qed
qed

lemma poll_out_ok:
  assumes "socket_event_poll_out rs p wire = (ret, p', wire', ns)" "sender_ok p rest"
  shows "\<exists>d rest'. wire' = wire @ d \<and> rest = d @ rest' \<and> sender_ok p' rest' \<and> sp_sock p' = sp_sock p \<and> sp_incoming p' = sp_incoming p
    \<and> received ns = []"
proof (cases "sp_connected p = 1")
  case False
  then show ?thesis using assms by (auto simp: socket_event_poll_out_def received_def)
next
  case True
  then have s: "sp_sock p" "rest = outstanding (sp_ioq p)" "\<forall>q \<in> set (sp_ioq p). entry_ok q"
    using assms(2) by (auto simp: sender_ok_def split: if_splits)
  obtain r q w where c: "socket_ioq_churn rs (sp_ioq p) wire = (r, q, w)" by (metis prod_cases3)
  obtain d where d: "w = wire @ d" "outstanding (sp_ioq p) = d @ outstanding q" "\<forall>x \<in> set q. entry_ok x" using churn[OF c s(3)] by auto
  have "wire' = w" "ns = [GF_EVENT_POLLOUT]" "sp_ioq p' = q" "sp_sock p'" "sp_incoming p' = sp_incoming p"
    using assms(1) True c s(1) by (auto simp: socket_event_poll_out_def socket_disconnect_def Let_def split: if_splits)
  then show ?thesis using d s by (intro exI[of _ d] exI[of _ "outstanding q"]) (auto simp: sender_ok_def received_def)
qed

lemma poll_in_ok:
  assumes "socket_event_poll_in e rs up p rx = (ret, p', rx', ns)" "recv_inv e (sp_incoming p) c" "frames e todo = c @ rx @ rest" "\<forall>x \<in> set todo. valid x"
  shows "\<exists>todo' c'. todo = received ns @ todo' \<and> frames e todo' = c' @ rx' @ rest \<and> recv_inv e (sp_incoming p') c'
    \<and> sp_sock p' = sp_sock p \<and> sp_ioq p' = sp_ioq p \<and> sp_connected p' = sp_connected p"
proof -
  obtain r inc y where m: "socket_proto_state_machine e rs (sp_incoming p) rx = (r, inc, y)" by (metis prod_cases3)
  obtain d where d: "rx = d @ y" "recv_inv e inc (c @ d)" "r = 0 \<longrightarrow> in_state inc = SOCKET_PROTO_STATE_COMPLETE"
    using machine_runs[OF assms(2) m] by auto
  show ?thesis
  proof (cases "r = 0 \<and> sp_connected p = 1")
    case True
    then have st: "in_state inc = SOCKET_PROTO_STATE_COMPLETE" using d(3) by simp
    have f: "frames e todo = (c @ d) @ (y @ rest)" using assms(3) d(1) by simp
    obtain more where todo: "todo = (in_mem inc T_hdr, in_mem inc T_buf) # more" "c @ d = frame e (in_mem inc T_hdr, in_mem inc T_buf)"
      using complete_is_first[OF d(2) st f assms(4)] by blast
    have "ns = [GF_EVENT_POLLIN (in_mem inc T_hdr, in_mem inc T_buf)]" "p' = p\<lparr>sp_incoming := no_incoming\<rparr>" "rx' = y"
      using assms(1) m True st by (auto simp: socket_event_poll_in_def socket_receive_def Let_def)
    moreover have "recv_inv e no_incoming []" by (simp add: recv_inv_def no_incoming_def)
    moreover have "frames e more = y @ rest" using f todo by simp
    ultimately show ?thesis using todo by (intro exI[of _ more] exI[of _ "[]"]) (simp add: received_def)
  next
    case False
    then have "ns = []" "p' = p\<lparr>sp_incoming := inc\<rparr>" "rx' = y"
      using assms(1) m by (auto simp: socket_event_poll_in_def socket_receive_def Let_def split: if_splits)
    then show ?thesis using assms(3) d by (intro exI[of _ todo] exI[of _ "c @ d"]) (simp add: received_def)
  qed
qed

lemma connect_finish_ok:
  assumes "sp_sock p" "socket_connect_finish c named p = (p', ns)"
  shows "sp_sock p' \<and> sp_ioq p' = sp_ioq p \<and> sp_incoming p' = sp_incoming p \<and> received ns = []"
  using assms by (auto simp: socket_connect_finish_def socket_disconnect_def received_def split: connecting.splits if_splits)

lemma sender_ok_cong: "sender_ok p rest \<Longrightarrow> sp_sock p \<Longrightarrow> sp_sock p' \<Longrightarrow> sp_ioq p' = sp_ioq p \<Longrightarrow> sender_ok p' rest"
  by (simp add: sender_ok_def)

lemma handler_ok:
  assumes "socket_event_handler e ev p wire rx = (p', wire', rx', ns)" "sp_sock p" "sender_ok p rest"
    "recv_inv e (sp_incoming p) c" "frames e todo = c @ rx @ r" "\<forall>x \<in> set todo. valid x"
  shows "(\<exists>d rest'. wire' = wire @ d \<and> rest = d @ rest' \<and> sender_ok p' rest')
    \<and> (\<exists>todo' c'. todo = received ns @ todo' \<and> frames e todo' = c' @ rx' @ r \<and> (sp_sock p' \<longrightarrow> recv_inv e (sp_incoming p') c'))"
proof -
  obtain p0 n0 where f: "(if sp_connected p = 0 then socket_connect_finish (poll_connect ev) (poll_named ev) p else (p, [])) = (p0, n0)"
    by (metis prod.collapse)
  have s0: "sp_sock p0" "sp_ioq p0 = sp_ioq p" "sp_incoming p0 = sp_incoming p" "received n0 = []"
    using connect_finish_ok[OF assms(2)] f assms(2) by (auto simp: received_def split: if_splits)
  obtain r1 p1 w1 n1 where o: "(if poll_out ev then socket_event_poll_out (poll_writes ev) p0 wire else (0, p0, wire, [])) = (r1, p1, w1, n1)"
    by (metis prod.collapse)
  obtain d rest' where d: "w1 = wire @ d" "rest = d @ rest'" "sender_ok p1 rest'" "sp_sock p1" "sp_incoming p1 = sp_incoming p" "received n1 = []"
    using poll_out_ok[OF _ sender_ok_cong[OF assms(3,2) s0(1,2)]] o s0 sender_ok_cong[OF assms(3,2) s0(1,2)]
    by (cases "poll_out ev") (fastforce simp: received_def)+
  obtain r2 p2 x2 n2 where i: "(if r1 = 0 \<and> poll_in ev then socket_event_poll_in e (poll_reads ev) (poll_up ev) p1 rx else (r1, p1, rx, [])) = (r2, p2, x2, n2)"
    by (metis prod.collapse)
  have "\<exists>todo' c'. todo = received n2 @ todo' \<and> frames e todo' = c' @ x2 @ r \<and> recv_inv e (sp_incoming p2) c' \<and> sp_sock p2 \<and> sp_ioq p2 = sp_ioq p1"
  proof (cases "r1 = 0 \<and> poll_in ev")
    case True
    then show ?thesis using poll_in_ok[of e "poll_reads ev" "poll_up ev" p1 rx r2 p2 x2 n2 c todo r] i d(4,5) assms(4-6) by auto
  next
    case False
    then show ?thesis using i d(4,5) assms(4,5) by (auto simp: received_def)
  qed
  then obtain todo' c' where j: "todo = received n2 @ todo'" "frames e todo' = c' @ x2 @ r" "recv_inv e (sp_incoming p2) c'" "sp_sock p2" "sp_ioq p2 = sp_ioq p1"
    by blast
  have s2: "sender_ok p2 rest'" by (rule sender_ok_cong[OF d(3,4) j(4,5)])
  have fin: "(p', wire', rx', ns) = (if r2 < 0 \<or> poll_err ev then (fst (socket_event_poll_err p2), w1, x2, n0 @ n1 @ n2 @ [GF_EVENT_POLLERR]) else (p2, w1, x2, n0 @ n1 @ n2))"
    using assms(1) f o i unfolding socket_event_handler_def Let_def by (auto simp: socket_event_poll_err_def)
  have got: "received ns = received n2" using fin s0(4) d(6) by (auto simp: received_def split: if_splits)
  have "sender_ok p' rest' \<and> (sp_sock p' \<longrightarrow> recv_inv e (sp_incoming p') c')" "wire' = w1" "rx' = x2"
    using fin s2 j(3) by (auto simp: socket_event_poll_err_def socket_reset_def socket_ioq_flush_def sender_ok_def split: if_splits)
  then show ?thesis using d(1,2) j(1,2) got by auto
qed

lemma net_start_inv: "net_start w \<Longrightarrow> net_inv e w"
  by (auto simp: net_start_def net_inv_def flow_def sender_ok_def outstanding_def recv_inv_def no_incoming_def intro!: exI[of _ "[]"])

lemma net_step_inv:
  assumes "net_step e w w'" "net_inv e w"
  shows "net_inv e w'"
  using assms
proof (induction rule: net_step.induct)
  case (submit buf vector rs l r ret p wire)
  obtain todo c rest where a: "s_sent l = s_got r @ todo" "\<forall>x \<in> set todo. valid x" "frames e todo = c @ s_rx r @ rest"
    "sp_sock (s_priv r) \<longrightarrow> recv_inv e (sp_incoming (s_priv r)) c" "sender_ok (s_priv l) rest"
    using submit(3) by (auto simp: net_inv_def flow_def)
  obtain d rest' where d: "wire = s_rx r @ d" "(if ret = 0 then rest @ frame e (buf, concat vector) else rest) = d @ rest'" "sender_ok p rest'"
    "sp_sock p = sp_sock (s_priv l)" "sp_incoming p = sp_incoming (s_priv l)" using submit_ok[OF submit(2) a(5)] by auto
  let ?todo = "if ret = 0 then todo @ [(buf, concat vector)] else todo"
  have "frames e ?todo = c @ wire @ rest'" using a(3) d(1,2) by (auto split: if_splits)
  then have "flow e (l\<lparr>s_priv := p, s_sent := (if ret = 0 then s_sent l @ [(buf, concat vector)] else s_sent l)\<rparr>) (r\<lparr>s_rx := wire\<rparr>)"
    using a(1,2,4) d(3) submit(1) unfolding flow_def by (intro exI[of _ ?todo] exI[of _ c] exI[of _ rest']) auto
  moreover have "flow e (r\<lparr>s_rx := wire\<rparr>) (l\<lparr>s_priv := p, s_sent := (if ret = 0 then s_sent l @ [(buf, concat vector)] else s_sent l)\<rparr>)"
    using submit(3) d(4,5) by (simp add: net_inv_def flow_def)
  ultimately show ?case by (simp add: net_inv_def)
next
  case (event l ev r p wire rx ns)
  obtain todo c rest where a: "s_sent l = s_got r @ todo" "\<forall>x \<in> set todo. valid x" "frames e todo = c @ s_rx r @ rest"
    "sp_sock (s_priv r) \<longrightarrow> recv_inv e (sp_incoming (s_priv r)) c" "sender_ok (s_priv l) rest"
    using event(3) by (auto simp: net_inv_def flow_def)
  obtain todo2 c2 rest2 where b: "s_sent r = s_got l @ todo2" "\<forall>x \<in> set todo2. valid x" "frames e todo2 = c2 @ s_rx l @ rest2"
    "recv_inv e (sp_incoming (s_priv l)) c2" "sender_ok (s_priv r) rest2"
    using event(1,3) by (auto simp: net_inv_def flow_def)
  obtain d rest' todo' c' where h: "wire = s_rx r @ d" "rest = d @ rest'" "sender_ok p rest'" "todo2 = received ns @ todo'"
    "frames e todo' = c' @ rx @ rest2" "sp_sock p \<longrightarrow> recv_inv e (sp_incoming p) c'"
    using handler_ok[OF event(2,1) a(5) b(4,3,2)] by auto
  have "flow e (l\<lparr>s_priv := p, s_rx := rx, s_got := s_got l @ received ns\<rparr>) (r\<lparr>s_rx := wire\<rparr>)"
    using a h(1-3) unfolding flow_def by (intro exI[of _ todo] exI[of _ c] exI[of _ rest']) simp
  moreover have "flow e (r\<lparr>s_rx := wire\<rparr>) (l\<lparr>s_priv := p, s_rx := rx, s_got := s_got l @ received ns\<rparr>)"
    using b h(4-6) unfolding flow_def by (intro exI[of _ todo'] exI[of _ c'] exI[of _ rest2]) simp
  ultimately show ?case by (simp add: net_inv_def)
next
  case (other r l r' l')
  then show ?case by (simp add: net_inv_def)
qed

interpretation socket_net: step_system net_start "net_step e" "net_inv e" for e
  by unfold_locales (auto intro: net_start_inv net_step_inv)


section \<open>A run\<close>

definition fresh_side :: side where
  "fresh_side = \<lparr>s_priv = \<lparr>sp_sock = True, sp_connected = 1, sp_ioq = [], sp_incoming = no_incoming, sp_poll_out = False\<rparr>, s_rx = [],
     s_sent = [], s_got = []\<rparr>"

definition readable :: "sysret list \<Rightarrow> socket_poll" where
  "readable rs = \<lparr>poll_in = True, poll_out = False, poll_err = False, poll_writes = [], poll_reads = rs, poll_connect = Connected,
     poll_named = True, poll_up = 0\<rparr>"

definition sent_side :: side where
  "sent_side = fresh_side\<lparr>s_sent := [([1, 2], [7])]\<rparr>"

definition waiting_side :: side where
  "waiting_side = fresh_side\<lparr>s_rx := [58, 79, 0, 0, 0, 0, 2, 0, 0, 0, 1, 42, 1, 2, 7]\<rparr>"

lemma small_header:
  "header_bytes True 2 1 = [58, 79, 0, 0, 0, 0, 2, 0, 0, 0, 1, 42]"
  "socket_proto_validate_header True [58, 79, 0, 0, 0, 0, 2, 0, 0, 0, 1, 42] = Some (2, 1)"
proof -
  show h: "header_bytes True 2 1 = [58, 79, 0, 0, 0, 0, 2, 0, 0, 0, 1, 42]" by code_simp
  then show "socket_proto_validate_header True [58, 79, 0, 0, 0, 0, 2, 0, 0, 0, 1, 42] = Some (2, 1)"
    using validate_header_bytes[of 2 1 True] by simp
qed

text \<open>The message is written in two pieces and read in three.\<close>

lemma sent_step: "net_step True (fresh_side, fresh_side) (sent_side, waiting_side)"
proof -
  have "socket_submit True [Moved 5, Fail EINTR, Moved 100] [1, 2] [[7]] (s_priv fresh_side) (s_rx fresh_side)
      = Inr (0, s_priv fresh_side, [58, 79, 0, 0, 0, 0, 2, 0, 0, 0, 1, 42, 1, 2, 7])"
    by (simp add: socket_submit_def fresh_side_def socket_ioq_new_def MAX_IOVEC_def small_header(1)[unfolded numeral_2_eq_2 One_nat_def] whole_def socket_ioq_churn_entry_def
        sys_writev_def iov_total_def gather_def Let_def)
  from net_step.submit[OF _ this] show ?thesis by (simp add: valid_def sent_side_def waiting_side_def fresh_side_def)
qed

lemma read_step: "net_step True (waiting_side, sent_side) (fresh_side\<lparr>s_got := [([1, 2], [7])]\<rparr>, sent_side)"
proof -
  have "socket_event_handler True (readable [Moved 4, Moved 3, Moved 100, Fail EINTR, Moved 2, Moved 9]) (s_priv waiting_side) (s_rx sent_side) (s_rx waiting_side)
      = (s_priv fresh_side, [], [], [GF_EVENT_POLLIN ([1, 2], [7])])"
    by (simp add: socket_event_handler_def readable_def waiting_side_def sent_side_def fresh_side_def socket_event_poll_in_def
        socket_proto_state_machine_def socket_proto_loop.simps no_incoming_def sys_readv_def iov_total_def whole_def splice_def socket_receive_def
        small_header(2) Let_def numeral_eq_Suc)
  from net_step.event[OF _ this] show ?thesis by (simp add: waiting_side_def sent_side_def fresh_side_def received_def)
qed


end
