(* ===== verification/Spec2Isabelle.thy ===== *)
theory Spec2Isabelle
  imports Locks_Xlator Dict Dht_Selfheal Inode_Calls Afr_Answers Afr_Write_Heal Socket_Runs
begin

text \<open>
  A verification library for GlusterFS 2.0, a file system that runs in user space as a graph of
  translators. A translator gets calls from the one above it, sends calls to those below it and is called
  back with their answers. The library \<^verbatim>\<open>libglusterfs\<close> has what all of them use: dictionaries, inodes, hashes
  and byte order. File names below are relative to \<^verbatim>\<open>src/\<close>.

  \<^bold>\<open>How the code is modelled.\<close> A C function is a function on the state it reads and writes, with the name
  of the source (leading underscores dropped, or \<open>_locked\<close> for the version that runs under the lock). What
  would be undefined behaviour or an abort is a value of \<open>fault\<close>, so that a function that can go wrong has
  a result in \<open>fault + 'a\<close>. Intrusive lists are lists; where a statement depends on aliasing or on freed
  memory there is an explicit store (dictionaries, inodes). Machine integers have their width where
  overflow matters. The outcome of an allocation is an argument where the code handles it. Logs, memory
  layout and statistics are not modelled. A region under a mutex is one step. Calls to other translators
  that were not answered yet are part of the state, and a run is any sequence of answers, with any result
  and in any order.

  \<^bold>\<open>The theories.\<close>

  \<^item> \<open>Prelude\<close>: types, error numbers, faults, lemmas on lists, and three interfaces of step systems:
    \<open>step_system\<close> (an invariant holds in every reachable state), \<open>ending_system\<close> (every step makes a measure
    in a well-order smaller, so every run ends) and \<open>bounded_system\<close> (the measure is a number, which bounds the
    steps). The components interpret them on their own steps.

  \<^item> \<open>Byte_Order\<close>: \<^verbatim>\<open>libglusterfs/src/byte-order.h\<close> and integers in buffers.

  \<^item> \<open>Posix_Locks\<close>: \<^verbatim>\<open>xlators/features/locks/src/common.c\<close>, the byte-range locks of one inode. The lists of
    granted and waiting locks refine a map from bytes to owners: no two owners hold conflicting locks on
    a byte, a request changes exactly the bytes it names, waiting requests are answered when they can be
    granted.

  \<^item> \<open>Entry_Locks\<close>: \<^verbatim>\<open>xlators/features/locks/src/internal.c\<close>, locks on names and the inode-lock handler;
    exclusion, one answer for each request, waiting requests that really conflict.

  \<^item> \<open>Locks_Xlator\<close>: \<^verbatim>\<open>xlators/features/locks/src/posix.c\<close>, the file operations that look at these locks.

  \<^item> \<open>Dict\<close>: \<^verbatim>\<open>libglusterfs/src/dict.c\<close> and \<^verbatim>\<open>hashfn.c\<close>. A dictionary in its store refines a finite map, which is
    the interface \<open>map_store\<close>; release of the values, and both directions of serialization.

  \<^item> \<open>Dht_Hash\<close>, \<open>Dht_Layout\<close>, \<open>Dht_Helper\<close>, \<open>Dht_Selfheal\<close>: \<^verbatim>\<open>xlators/cluster/dht/src\<close>, \<^verbatim>\<open>dht-hashfn*.c\<close>,
    \<^verbatim>\<open>dht-layout.c\<close>, \<^verbatim>\<open>dht-helper.c\<close>, \<^verbatim>\<open>dht-selfheal.c\<close>. A layout without anomalies gives each hash value to exactly
    one subvolume; the repair of a directory ends, calls back once, and leaves a layout in which every name
    has a server.

  \<^item> \<open>Inode_Table\<close> (definitions), \<open>Inode_Inv\<close> (invariant), \<open>Inode_Ops\<close> (operations), \<open>Inode_Calls\<close> (interleaved
    calls and properties): \<^verbatim>\<open>libglusterfs/src/inode.c\<close>. Reference counts are those of callers and dentries,
    nothing that is referenced is freed, nothing freed is used, and what was linked is found.

  \<^item> \<open>Afr_Changelog\<close>, \<open>Afr_Transaction\<close> (definitions), \<open>Afr_Runs\<close>, \<open>Afr_Answers\<close>, \<open>Afr_Sources\<close>:
    \<^verbatim>\<open>xlators/cluster/afr/src\<close>, \<^verbatim>\<open>afr-transaction.c\<close>, \<^verbatim>\<open>afr-inode-write.c\<close>, \<^verbatim>\<open>afr-dir-write.c\<close>, \<^verbatim>\<open>afr-self-heal-common.c\<close>, and
    \<^verbatim>\<open>posix_xattrop_common\<close> of \<^verbatim>\<open>xlators/storage/posix/src/posix.c\<close>. Every transaction ends with one answer, the
    answer tells whether a child did the operation, locks are given back, and the changelogs on the
    children name those that have the right contents, with the exception that is proved as well.

  \<^item> \<open>Afr_Heal_Data\<close> (definitions), \<open>Afr_Heal_Runs\<close>, \<open>Afr_Heal_Copy\<close>, \<open>Afr_Heal_Result\<close>, \<open>Afr_Write_Heal\<close>:
    \<^verbatim>\<open>xlators/cluster/afr/src/afr-self-heal-data.c\<close>, the self-heal of the contents of a file. It ends for all answers
    and calls its completion once. With the files and changelogs of the children added (\<open>disk\<close>, and \<open>serve\<close>, which says
    what a call does there), no changelog is erased before the copies agree, and if every call succeeds
    the contents of the source are everywhere and the changelogs are clear; what goes wrong with sparse files,
    failed reads, failed truncations and the favorite child is proved as well. \<open>Afr_Write_Heal\<close> puts a transaction and
    the self-heal after it together.

  \<^item> \<open>Socket\<close> (definitions), \<open>Socket_Runs\<close>: \<^verbatim>\<open>transport/socket/src/socket.c\<close>. Two ends that write and read in arbitrary
    pieces: messages arrive unchanged and in order.

  \<^bold>\<open>How the parts interact.\<close> The replicate translator asks the locks translator for inode and entry locks
  and keeps its changelogs in extended attributes, which travel in dictionaries with numbers in network
  order. The distribute translator stores layouts the same way. The server keeps inodes in the inode
  table, whose references are taken by calls in flight.

  \<^bold>\<open>Bounds.\<close> The recursion of \<^verbatim>\<open>__inode_unref\<close> over parents is a function with fuel, and the number of dentries
  that were ever created plus one is enough (every level frees one dentry); the loop of
  \<^verbatim>\<open>inode_table_prune\<close> has the number of inodes ever created, since each round retires one. Both are theorems of
  \<open>Inode_Inv\<close>, so that running out of fuel, the fault \<open>Diverged\<close>, does not occur. Inodes that prune has taken
  from the table are destroyed after the lock was released; nothing reaches them any more, so the model
  does it in the same step. A transaction of the replicate translator takes fewer than
  \<open>11 * child_count + 7\<close> replies. The self-heal has no such bound, since a read may return a single byte; its
  measure is the kind of the outstanding calls, then the bytes still to be copied, then the number of calls.

  \<^bold>\<open>What is not modelled.\<close> Parts that only call the operating system or a foreign library (storage apart
  from the changelogs, transports, the fuse bridge, the python binding), the configuration parser and the
  start of the programs, and those translators that are not listed above. Threads are modelled by the
  interleaving of critical sections; weaker memory orders are not.
\<close>

end
